(* ===== verification/Prelude.thy ===== *)
theory Prelude
  imports Main "HOL-Library.Word" "HOL-Library.Multiset"
begin

text \<open>
  Shared vocabulary of the development: the C integer types, the transition systems in which the
  concurrent components are stated (reachable states, schedules), the interfaces \<open>inductive_invariant\<close>
  and \<open>simulation\<close> through which every component lifts a one-step lemma to all its executions, and the
  generic facts about lists and words that several components use.
\<close>

section \<open>C integer types\<close>

type_synonym byte = "8 word"
type_synonym uint = "32 word"
type_synonym ulong = "64 word"
type_synonym clong = "64 word" \<comment> \<open>\<open>long\<close>: read with \<open>sint\<close>\<close>

type_synonym timespec = "nat \<times> nat" \<comment> \<open>seconds and nanoseconds\<close>

text \<open>A C condition used as a number: \<open>1\<close> when it holds.\<close>

abbreviation c_bool :: "bool \<Rightarrow> int" where
  "c_bool b \<equiv> (if b then 1 else 0)"

section \<open>Collections of facts\<close>

named_theorems c_ops \<open>unfolding rules of the straight-line operations of a component\<close>
named_theorems inv_defs \<open>definitions of the components' invariants\<close>

section \<open>Transition systems\<close>

text \<open>
  The states an interleaved execution can reach: the least set that holds the start states and is
  closed under the step relation.
\<close>

inductive reach :: "('s \<Rightarrow> bool) \<Rightarrow> ('s \<Rightarrow> 's \<Rightarrow> bool) \<Rightarrow> 's \<Rightarrow> bool"
  for init :: "'s \<Rightarrow> bool" and step :: "'s \<Rightarrow> 's \<Rightarrow> bool" where
  reach_init: "init s \<Longrightarrow> reach init step s"
| reach_step: "reach init step s \<Longrightarrow> step s t \<Longrightarrow> reach init step t"

text \<open>
  An executable step function takes a label (which thread moves, and what its environment answers)
  and refuses a move that is not enabled. A schedule is a list of labels.
\<close>

fun exec :: "('l \<Rightarrow> 's \<Rightarrow> 's option) \<Rightarrow> 's \<Rightarrow> 'l list \<Rightarrow> 's option" where
  "exec f s [] = Some s"
| "exec f s (l # ls) = (case f l s of None \<Rightarrow> None | Some t \<Rightarrow> exec f t ls)"

definition step_of :: "('l \<Rightarrow> 's \<Rightarrow> 's option) \<Rightarrow> 's \<Rightarrow> 's \<Rightarrow> bool" where
  "step_of f s t \<longleftrightarrow> (\<exists>l. f l s = Some t)"

lemma step_ofI [intro]: "f l s = Some t \<Longrightarrow> step_of f s t"
  by (auto simp: step_of_def)

lemma step_ofE [elim]: "step_of f s t \<Longrightarrow> (\<And>l. f l s = Some t \<Longrightarrow> P) \<Longrightarrow> P"
  by (auto simp: step_of_def)

lemma exec_append:
  "exec f s (xs @ ys) = (case exec f s xs of None \<Rightarrow> None | Some t \<Rightarrow> exec f t ys)"
  by (induction xs arbitrary: s) (auto split: option.splits)

text \<open>A schedule that runs leads to a reachable state: how witnesses exhibit executions.\<close>

lemma exec_reach:
  assumes "reach init (step_of f) s" and "exec f s ls = Some t"
  shows "reach init (step_of f) t"
  using assms
proof (induction ls arbitrary: s)
  case (Cons l ls)
  then obtain u where "f l s = Some u" and "exec f u ls = Some t"
    by (auto split: option.splits)
  with Cons show ?case by (blast intro: reach_step)
qed simp

lemma steps_exec: "(step_of f)\<^sup>*\<^sup>* s t \<Longrightarrow> \<exists>ls. exec f s ls = Some t"
proof (induction rule: converse_rtranclp_induct)
  case base
  then show ?case by (intro exI [of _ "[]"]) simp
next
  case (step s u)
  then obtain l ls where "f l s = Some u" "exec f u ls = Some t" by blast
  then show ?case by (intro exI [of _ "l # ls"]) simp
qed

lemma exec_from_init:
  "init s \<Longrightarrow> exec f s ls = Some t \<Longrightarrow> reach init (step_of f) t"
  by (rule exec_reach [OF reach_init])

text \<open>A run in stages.\<close>

lemma exec_stages:
  assumes "\<And>k s. k < n \<Longrightarrow> P k s \<Longrightarrow> \<exists>ls s'. exec f s ls = Some s' \<and> P (Suc k) s'" and "P 0 s"
  shows "\<exists>ls s'. exec f s ls = Some s' \<and> P n s'"
  using assms(1)
proof (induction n)
  case 0
  then show ?case using assms(2) by (intro exI [of _ "[]"]) simp
next
  case (Suc n)
  then obtain ls s' ls' s'' where "exec f s ls = Some s'" "exec f s' ls' = Some s''" "P (Suc n) s''" by (metis less_Suc_eq)
  then show ?case by (intro exI [of _ "ls @ ls'"]) (simp add: exec_append)
qed

text \<open>
  The interface between a component's one-step lemmas and its executions: an invariant that holds at
  the start and that every step keeps holds in every reachable state.
\<close>

locale inductive_invariant =
  fixes init :: "'s \<Rightarrow> bool"
    and step :: "'s \<Rightarrow> 's \<Rightarrow> bool"
    and inv :: "'s \<Rightarrow> bool"
  assumes inv_init: "init s \<Longrightarrow> inv s"
    and inv_step: "step s t \<Longrightarrow> inv s \<Longrightarrow> inv t"
begin

lemma reach_inv: "reach init step s \<Longrightarrow> inv s"
  by (induction rule: reach.induct) (auto intro: inv_init inv_step)

lemma steps_inv: "step\<^sup>*\<^sup>* s t \<Longrightarrow> inv s \<Longrightarrow> inv t"
  by (induction rule: rtranclp.induct) (auto intro: inv_step)

end

text \<open>
  A component implements an abstract specification when each of its steps is a step of the
  specification or leaves the abstract state alone.
\<close>

locale simulation = inductive_invariant init step inv
  for init :: "'s \<Rightarrow> bool" and step and inv +
  fixes ainit :: "'a \<Rightarrow> bool"
    and astep :: "'a \<Rightarrow> 'a \<Rightarrow> bool"
    and abstr :: "'s \<Rightarrow> 'a"
  assumes sim_init: "init s \<Longrightarrow> ainit (abstr s)"
    and sim_step: "inv s \<Longrightarrow> step s t \<Longrightarrow> astep (abstr s) (abstr t) \<or> abstr t = abstr s"
begin

lemma reach_abs: "reach init step s \<Longrightarrow> reach ainit astep (abstr s)"
proof (induction rule: reach.induct)
  case (reach_init s)
  then show ?case by (simp add: sim_init reach.reach_init)
next
  case (reach_step s t)
  then have "inv s" by (blast intro: reach_inv)
  then have "astep (abstr s) (abstr t) \<or> abstr t = abstr s"
    using reach_step.hyps(2) by (rule sim_step)
  then show ?case using reach_step.IH by (auto intro: reach.reach_step)
qed

end

text \<open>
  The same with a relation in place of the abstraction function, for components whose abstract state is not determined
  by the concrete one; the abstract states that occur are reachable themselves.
\<close>

locale forward_simulation =
  fixes init :: "'s \<Rightarrow> bool" and step :: "'s \<Rightarrow> 's \<Rightarrow> bool"
    and ainit :: "'a \<Rightarrow> bool" and astep :: "'a \<Rightarrow> 'a \<Rightarrow> bool"
    and related :: "'s \<Rightarrow> 'a \<Rightarrow> bool"
  assumes rel_init: "init s \<Longrightarrow> \<exists>a. ainit a \<and> related s a"
    and rel_step: "related s a \<Longrightarrow> reach ainit astep a \<Longrightarrow> step s t \<Longrightarrow> \<exists>b. (astep a b \<or> b = a) \<and> related t b"
begin

lemma reach_related: "reach init step s \<Longrightarrow> \<exists>a. reach ainit astep a \<and> related s a"
proof (induction rule: reach.induct)
  case (reach_init s)
  then obtain a where a: "ainit a" "related s a" using rel_init by blast
  have "reach ainit astep a" using a(1) by (rule reach.reach_init)
  then show ?case using a(2) by (intro exI [of _ a] conjI)
next
  case (reach_step s t)
  then obtain a where a: "reach ainit astep a" "related s a" by blast
  obtain b where b: "astep a b \<or> b = a" "related t b" using rel_step [OF a(2,1) reach_step.hyps(2)] by blast
  have "reach ainit astep b" using b(1)
  proof
    assume "astep a b"
    then show ?thesis by (rule reach.reach_step [OF a(1)])
  qed (use a(1) in simp)
  then show ?case using b(2) by (intro exI [of _ b] conjI)
qed

end

section \<open>Threads and addresses\<close>

type_synonym addr = nat
type_synonym tid = nat

text \<open>No two threads have the same node.\<close>

definition separate :: "(tid \<Rightarrow> addr option) \<Rightarrow> bool" where
  "separate f \<longleftrightarrow> (\<forall>i j. i \<noteq> j \<longrightarrow> f i \<noteq> None \<longrightarrow> f i \<noteq> f j)"

lemma separate_sub: "separate f \<Longrightarrow> (\<And>x. g x = f x \<or> g x = None) \<Longrightarrow> separate g"
  unfolding separate_def by metis

lemma separate_new: "separate f \<Longrightarrow> (\<And>x. f x \<noteq> Some a) \<Longrightarrow> separate (f(i := Some a))"
  unfolding separate_def by (metis fun_upd_apply)

lemma owned_other: "separate f \<Longrightarrow> f t = Some i \<Longrightarrow> u \<noteq> t \<Longrightarrow> f u \<noteq> Some i"
  unfolding separate_def by (metis option.distinct(1))

section \<open>Tickets\<close>

text \<open>
  Every number below \<open>n\<close> is in exactly one place: in one of two queues, with one thread, or finished.
\<close>

definition tasks_ok :: "nat list \<Rightarrow> nat list \<Rightarrow> nat list \<Rightarrow> (tid \<Rightarrow> nat option) \<Rightarrow> nat \<Rightarrow> bool" where
  "tasks_ok A B F T n \<longleftrightarrow> distinct (A @ B @ F) \<and> separate T \<and> (\<forall>t i. T t = Some i \<longrightarrow> i \<notin> set (A @ B @ F)) \<and>
     (\<forall>i. i < n \<longleftrightarrow> i \<in> set (A @ B @ F) \<or> (\<exists>t. T t = Some i))"

lemma tasks_swap: "tasks_ok A B F T n \<longleftrightarrow> tasks_ok B A F T n"
  unfolding tasks_ok_def by (auto simp: Un_commute Un_left_commute)

lemma tasks_put: "tasks_ok A B F T n \<Longrightarrow> tasks_ok (A @ [n]) B F T (Suc n)"
proof -
  assume ok: "tasks_ok A B F T n"
  then have n: "n \<notin> set (A @ B @ F)" "T t \<noteq> Some n" for t unfolding tasks_ok_def by (metis less_irrefl)+
  have "i < Suc n \<longleftrightarrow> i = n \<or> i < n" for i by auto
  then show ?thesis using ok n unfolding tasks_ok_def by auto
qed

lemma tasks_take:
  assumes ok: "tasks_ok (x # A) B F T n" and t: "T t = None" and T': "T' = T(t := Some x)"
  shows "tasks_ok A B F T' n"
proof -
  have x: "T u \<noteq> Some x" for u using ok by (auto simp: tasks_ok_def)
  have d: "distinct (x # A @ B @ F)" and sep: "separate T" and
    away: "\<And>u i. T u = Some i \<Longrightarrow> i \<notin> set (x # A @ B @ F)" and
    all: "\<And>i. i < n \<longleftrightarrow> i \<in> set (x # A @ B @ F) \<or> (\<exists>u. T u = Some i)"
    using ok by (simp_all add: tasks_ok_def)
  have "separate T'" unfolding T' using sep x by (rule separate_new)
  moreover have "i \<notin> set (A @ B @ F)" if "T' u = Some i" for u i
    using that away [of u i] d unfolding T' by (auto split: if_splits)
  moreover have ex: "(\<exists>u. T' u = Some i) \<longleftrightarrow> i = x \<or> (\<exists>u. T u = Some i)" for i
    unfolding T' using t by (metis fun_upd_apply option.distinct(1) option.inject)
  moreover have "i < n \<longleftrightarrow> i \<in> set (A @ B @ F) \<or> (\<exists>u. T' u = Some i)" for i
    unfolding ex all by auto
  ultimately show ?thesis using d unfolding tasks_ok_def by simp
qed

lemma tasks_finish:
  assumes ok: "tasks_ok A B F T n" and t: "T t = Some i" and T': "T' = T(t := None)"
  shows "tasks_ok A B (F @ [i]) T' n"
proof -
  have sep: "separate T" and i: "i \<notin> set (A @ B @ F)" using ok t unfolding tasks_ok_def by blast+
  have ne: "T u \<noteq> Some i" if "u \<noteq> t" for u by (rule owned_other [OF sep t that])
  have "separate T'" unfolding T' by (rule separate_sub [OF sep]) simp
  moreover have T: "T' u = Some j \<longleftrightarrow> T u = Some j \<and> j \<noteq> i" for u j
    unfolding T' using ne t by (cases "u = t") auto
  moreover have "(\<exists>u. T u = Some j) \<longleftrightarrow> j = i \<or> (\<exists>u. T' u = Some j)" for j using T t by blast
  ultimately show ?thesis using ok i unfolding tasks_ok_def by auto
qed

lemma tasks_give:
  "tasks_ok A B F T n \<Longrightarrow> A = [] \<Longrightarrow> T t = None \<Longrightarrow> tasks_ok A B F (T(t := Some n)) (Suc n)"
  using tasks_put [of A B F T n] by (intro tasks_take [OF _ _ refl]) simp_all

section \<open>Lists\<close>

lemma last_conv_nth_Suc: "length xs = Suc n \<Longrightarrow> last xs = xs ! n"
  by (metis One_nat_def diff_Suc_Suc diff_zero last_conv_nth length_0_conv nat.distinct(1))

lemma distinct_nth_eq: "distinct xs \<Longrightarrow> i < length xs \<Longrightarrow> j < length xs \<Longrightarrow> xs ! i = xs ! j \<longleftrightarrow> i = j"
  by (simp add: nth_eq_iff_index_eq)

lemma length_filter_add_not:
  "length (filter P xs) + length (filter (\<lambda>x. \<not> P x) xs) = length xs"
  by (rule sum_length_filter_compl)

section \<open>Words\<close>

lemma unat_add_one:
  fixes w :: "'a::len word"
  assumes "unat w + 1 < 2 ^ LENGTH('a)"
  shows "unat (w + 1) = unat w + 1"
  using assms by (simp add: unat_word_ariths(1))

lemma odd_word_plus_one:
  fixes w :: "'a::len word"
  shows "odd (w + 1) \<longleftrightarrow> even w"
  by simp

end
