(* ===== verification/Lifecycle.thy ===== *)
theory Lifecycle
  imports Prelude
begin

text \<open>
  The module load/unload model of \<open>week2/src/lifecycle.c\<close>: three resources acquired in order by
  \<open>init_module_model\<close>, a failure injected at acquisition \<open>fail_at\<close>, and the release of everything in
  reverse order by \<open>exit_module_model\<close>. Every call of \<open>malloc\<close> may also fail for real: the model takes
  the allocator as an argument, \<open>ok n\<close> saying whether the \<open>n\<close>-th call returns memory.
\<close>

section \<open>State and operations\<close>

datatype lc_line = Acquire string int | Release string int \<comment> \<open>the \<open>printf\<close> lines, with \<open>live\<close>\<close>

record lifecycle =
  live :: int
  peak :: int
  calls :: nat \<comment> \<open>calls of \<open>malloc\<close> so far\<close>
  heap :: "nat set" \<comment> \<open>blocks allocated and not freed\<close>
  out :: "lc_line list"

definition lc_start :: lifecycle where
  "lc_start = \<lparr>live = 0, peak = 0, calls = 0, heap = {}, out = []\<rparr>"

definition acquire :: "(nat \<Rightarrow> bool) \<Rightarrow> string \<Rightarrow> lifecycle \<Rightarrow> nat option \<times> lifecycle" where
  "acquire ok what s =
     (let n = calls s; s = s\<lparr>calls := Suc n\<rparr> in
      if \<not> ok n then (None, s)
      else let l = live s + 1 in
           (Some n, s\<lparr>heap := insert n (heap s), live := l,
              peak := (if l > peak s then l else peak s), out := out s @ [Acquire what l]\<rparr>))"

definition release :: "nat option \<Rightarrow> string \<Rightarrow> lifecycle \<Rightarrow> lifecycle" where
  "release p what s =
     (case p of None \<Rightarrow> s
      | Some n \<Rightarrow> s\<lparr>heap := heap s - {n}, live := live s - 1,
                    out := out s @ [Release what (live s - 1)]\<rparr>)"

text \<open>The result: the return code, then what \<open>*a\<close>, \<open>*b\<close>, \<open>*c\<close> hold.\<close>

type_synonym handles = "nat option \<times> nat option \<times> nat option"

definition init_module_model ::
    "(nat \<Rightarrow> bool) \<Rightarrow> int \<Rightarrow> lifecycle \<Rightarrow> (int \<times> handles) \<times> lifecycle" where
  "init_module_model ok fail_at s =
     (let (a, s) = (if fail_at = 1 then (None, s) else acquire ok ''proc entry'' s) in
      if a = None then ((-1, None, None, None), s)
      else let (b, s) = (if fail_at = 2 then (None, s) else acquire ok ''workqueue'' s) in
      if b = None then ((-1, None, None, None), release a ''proc entry'' s)
      else let (c, s) = (if fail_at = 3 then (None, s) else acquire ok ''timer'' s) in
      if c = None then ((-1, None, None, None), release a ''proc entry'' (release b ''workqueue'' s))
      else ((0, a, b, c), s))"

definition exit_module_model :: "handles \<Rightarrow> lifecycle \<Rightarrow> lifecycle" where
  "exit_module_model h s =
     (case h of (a, b, c) \<Rightarrow>
        release a ''proc entry'' (release b ''workqueue'' (release c ''timer'' s)))"

text \<open>\<open>main\<close>: the happy path, then the three partial failures; the state carries \<open>bad\<close>.\<close>

definition happy_path :: "(nat \<Rightarrow> bool) \<Rightarrow> lifecycle \<times> int \<Rightarrow> lifecycle \<times> int" where
  "happy_path ok = (\<lambda>(s, bad).
     let ((rc, h), s) = init_module_model ok 0 s; s = exit_module_model h s in
     (s, if live s \<noteq> 0 then bad + 1 else bad))"

definition failing_path :: "(nat \<Rightarrow> bool) \<Rightarrow> int \<Rightarrow> lifecycle \<times> int \<Rightarrow> lifecycle \<times> int" where
  "failing_path ok f = (\<lambda>(s, bad).
     let ((rc, h), s) = init_module_model ok f s in
     (s, if rc = 0 \<or> live s \<noteq> 0 then bad + 1 else bad))"

definition lifecycle_main :: "(nat \<Rightarrow> bool) \<Rightarrow> int \<times> lifecycle" where
  "lifecycle_main ok =
     (let (s, bad) = fold (failing_path ok) [1, 2, 3] (happy_path ok (lc_start, 0)) in
      (if bad \<noteq> 0 then 1 else 0, s))"

section \<open>Invariant: \<open>live\<close> counts the allocated blocks\<close>

definition lc_inv :: "lifecycle \<Rightarrow> bool" where
  "lc_inv s \<longleftrightarrow> finite (heap s) \<and> live s = int (card (heap s)) \<and> (\<forall>n\<in>heap s. n < calls s)
     \<and> live s \<le> peak s"

lemma lc_inv_start: "lc_inv lc_start"
  by (simp add: lc_inv_def lc_start_def)

lemma lc_inv_fresh: "lc_inv s \<Longrightarrow> calls s \<notin> heap s"
  by (auto simp: lc_inv_def)

lemma acquire_None [simp]: "acquire ok w s = (None, t) \<longleftrightarrow> \<not> ok (calls s) \<and> t = s\<lparr>calls := Suc (calls s)\<rparr>"
  by (auto simp: acquire_def Let_def)

lemma acquire_Some:
  "acquire ok w s = (Some n, t) \<longleftrightarrow> ok (calls s) \<and> n = calls s \<and>
     t = s\<lparr>calls := Suc (calls s), heap := insert (calls s) (heap s), live := live s + 1,
           peak := max (live s + 1) (peak s), out := out s @ [Acquire w (live s + 1)]\<rparr>"
  by (auto simp: acquire_def Let_def max_def)

lemma acquire_inv: "lc_inv s \<Longrightarrow> acquire ok w s = (p, t) \<Longrightarrow> lc_inv t"
  using lc_inv_fresh [of s]
  by (cases p) (auto simp: acquire_Some lc_inv_def less_Suc_eq)

lemma release_inv:
  assumes "lc_inv s" and "\<forall>n. p = Some n \<longrightarrow> n \<in> heap s"
  shows "lc_inv (release p w s)"
proof (cases p)
  case (Some n)
  with assms have "n \<in> heap s" and "finite (heap s)" and "live s = int (card (heap s))"
    by (auto simp: lc_inv_def)
  then have "card (heap s) = Suc (card (heap s - {n}))"
    by (metis card.remove)
  with assms(1) Some show ?thesis by (simp add: release_def lc_inv_def)
qed (use assms in \<open>simp add: release_def\<close>)

text \<open>
  What one run of the initialisation does, in every branch: the number of acquisitions that succeed
  decides which one.
\<close>

definition lc_grants :: "(nat \<Rightarrow> bool) \<Rightarrow> int \<Rightarrow> nat \<Rightarrow> bool" where
  "lc_grants ok f n \<longleftrightarrow> f \<notin> {1, 2, 3} \<and> ok n \<and> ok (Suc n) \<and> ok (Suc (Suc n))"

lemma init_module_ok:
  assumes "lc_grants ok f (calls s)"
  shows "init_module_model ok f s =
    ((0, Some (calls s), Some (Suc (calls s)), Some (Suc (Suc (calls s)))),
     s\<lparr>calls := calls s + 3, heap := heap s \<union> {calls s, Suc (calls s), Suc (Suc (calls s))},
       live := live s + 3, peak := max (live s + 3) (peak s),
       out := out s @ [Acquire ''proc entry'' (live s + 1), Acquire ''workqueue'' (live s + 2),
                       Acquire ''timer'' (live s + 3)]\<rparr>)"
  using assms by (auto simp: lc_grants_def init_module_model_def acquire_def Let_def insert_commute)

lemma init_module_fail:
  assumes "lc_inv s" and "\<not> lc_grants ok f (calls s)"
    and "init_module_model ok f s = ((rc, h), t)"
  shows "rc = -1 \<and> h = (None, None, None) \<and> heap t = heap s \<and> live t = live s \<and>
    peak s \<le> peak t \<and> peak t \<le> max (live s + 2) (peak s) \<and> calls s \<le> calls t"
proof -
  have fresh: "calls s \<notin> heap s" "Suc (calls s) \<notin> heap s"
    using assms(1) by (auto simp: lc_inv_def)
  consider "f = 1 \<or> \<not> ok (calls s)" | "f \<noteq> 1" "ok (calls s)" "f = 2 \<or> \<not> ok (Suc (calls s))"
    | "f \<noteq> 1" "ok (calls s)" "f \<noteq> 2" "ok (Suc (calls s))" "f = 3 \<or> \<not> ok (Suc (Suc (calls s)))"
    using assms(2) by (auto simp: lc_grants_def)
  then show ?thesis
  proof cases
    case 1
    then show ?thesis using assms(3)
      by (auto simp: init_module_model_def acquire_def Let_def split: if_splits)
  next
    case 2
    then show ?thesis using assms(3) fresh
      by (auto simp: init_module_model_def acquire_def release_def Let_def split: if_splits)
  next
    case 3
    then show ?thesis using assms(3) fresh
      by (auto simp: init_module_model_def acquire_def release_def Let_def split: if_splits)
  qed
qed

lemma init_module_inv:
  assumes "lc_inv s" and "init_module_model ok f s = ((rc, h), t)"
  shows "lc_inv t"
proof (cases "lc_grants ok f (calls s)")
  case True
  have "{calls s, Suc (calls s), Suc (Suc (calls s))} \<inter> heap s = {}" and "finite (heap s)"
    using assms(1) by (auto simp: lc_inv_def)
  then have "card (heap s \<union> {calls s, Suc (calls s), Suc (Suc (calls s))}) = card (heap s) + 3"
    by (subst card_Un_disjoint) auto
  then show ?thesis
    using assms init_module_ok [OF True] by (force simp: lc_inv_def)
next
  case False
  from init_module_fail [OF assms(1) this assms(2)] show ?thesis
    using assms(1) by (force simp: lc_inv_def)
qed

text \<open>What a load takes, the unload gives back.\<close>

lemma load_unload_facts:
  assumes "lc_inv s" and "init_module_model ok f s = ((rc, h), t)"
  shows "heap (exit_module_model h t) = heap s \<and> live (exit_module_model h t) = live s \<and>
    (rc = 0 \<longrightarrow> (\<exists>n. out (exit_module_model h t) = out s @
       [Acquire ''proc entry'' (n + 1), Acquire ''workqueue'' (n + 2), Acquire ''timer'' (n + 3),
        Release ''timer'' (n + 2), Release ''workqueue'' (n + 1), Release ''proc entry'' n]))"
proof (cases "lc_grants ok f (calls s)")
  case True
  have "calls s \<notin> heap s" "Suc (calls s) \<notin> heap s" "Suc (Suc (calls s)) \<notin> heap s"
    using assms(1) by (auto simp: lc_inv_def)
  with assms(2) init_module_ok [OF True] show ?thesis
    by (auto simp: exit_module_model_def release_def)
next
  case False
  from init_module_fail [OF assms(1) this assms(2)] show ?thesis
    by (auto simp: exit_module_model_def release_def)
qed

section \<open>Properties\<close>

text \<open>
  C20: whatever the allocator answers and whichever acquisition is made to fail, a load either returns
  0 with three distinct new resources held, or returns -1 with all three handles NULL and exactly the
  resources held before, none leaked and none released twice; the injected failures always take the
  second branch.
\<close>

theorem init_all_or_nothing:
  assumes "lc_inv s" and "init_module_model ok f s = ((rc, h), t)"
  shows "(rc = 0 \<and> f \<notin> {1, 2, 3} \<and> (\<exists>a b c. h = (Some a, Some b, Some c) \<and> distinct [a, b, c]
            \<and> {a, b, c} \<inter> heap s = {} \<and> heap t = heap s \<union> {a, b, c} \<and> live t = live s + 3))
       \<or> (rc = -1 \<and> h = (None, None, None) \<and> heap t = heap s \<and> live t = live s)"
proof (cases "lc_grants ok f (calls s)")
  case True
  with assms init_module_ok [OF True] show ?thesis
    by (fastforce simp: lc_grants_def lc_inv_def)
next
  case False
  from init_module_fail [OF assms(1) this assms(2)] show ?thesis by blast
qed

theorem init_all_or_nothing_witness:
  "\<exists>t. init_module_model (\<lambda>n. n \<noteq> 1) 0 lc_start = ((-1, None, None, None), t) \<and> live t = 0"
proof -
  obtain t where t: "init_module_model (\<lambda>n. n \<noteq> 1) 0 lc_start = ((-1, None, None, None), t)"
    by (simp add: lc_start_def init_module_model_def acquire_def Let_def)
  from init_all_or_nothing [OF lc_inv_start t] t show ?thesis by (simp add: lc_start_def)
qed

text \<open>
  Unloading after a load gives back exactly what the load took, on every path of the load, and the
  releases after a successful load come in the reverse order of the acquisitions.
\<close>

lemma load_unload_balanced:
  assumes "lc_inv s" and "init_module_model ok f s = ((rc, h), t)"
  shows "heap (exit_module_model h t) = heap s \<and> live (exit_module_model h t) = live s \<and>
    (rc = 0 \<longrightarrow> (\<exists>n. out (exit_module_model h t) = out s @
       [Acquire ''proc entry'' (n + 1), Acquire ''workqueue'' (n + 2), Acquire ''timer'' (n + 3),
        Release ''timer'' (n + 2), Release ''workqueue'' (n + 1), Release ''proc entry'' n]))"
  by (rule load_unload_facts [OF assms])

lemma load_unload_start:
  "\<exists>h t. init_module_model (\<lambda>_. True) 0 lc_start = ((0, h), t) \<and>
     heap (exit_module_model h t) = {} \<and> live (exit_module_model h t) = 0"
proof -
  obtain h t where t: "init_module_model (\<lambda>_. True) 0 lc_start = ((0, h), t)"
    by (simp add: lc_start_def init_module_model_def acquire_def Let_def)
  from load_unload_balanced [OF lc_inv_start t] t show ?thesis by (simp add: lc_start_def)
qed

lemma exit_module_frame:
  "calls (exit_module_model h t) = calls t" "peak (exit_module_model h t) = peak t"
  by (auto simp: exit_module_model_def release_def split: prod.splits option.splits)

text \<open>One path of \<open>main\<close> started with nothing held ends with nothing held and adds nothing to \<open>bad\<close>.\<close>

definition lc_idle :: "lifecycle \<Rightarrow> bool" where
  "lc_idle s \<longleftrightarrow> lc_inv s \<and> heap s = {} \<and> live s = 0"

lemma happy_path_clean:
  assumes "lc_idle s"
  shows "\<exists>t. happy_path ok (s, bad) = (t, bad) \<and> lc_idle t \<and> peak t \<le> max 3 (peak s)"
proof -
  obtain rc h u where i: "init_module_model ok 0 s = ((rc, h), u)" by (metis prod.exhaust)
  from assms have inv: "lc_inv s" and e: "heap s = {}" "live s = 0" by (auto simp: lc_idle_def)
  let ?t = "exit_module_model h u"
  have b: "heap ?t = {}" "live ?t = 0"
    using load_unload_facts [OF inv i] e by simp_all
  have p: "lc_inv u" by (rule init_module_inv [OF inv i])
  then have "lc_idle ?t" using b by (auto simp: lc_idle_def lc_inv_def exit_module_frame)
  moreover have "peak u \<le> max 3 (peak s)"
    using i e init_module_fail [OF inv _ i]
    by (cases "lc_grants ok 0 (calls s)") (auto simp: init_module_ok)
  ultimately show ?thesis using i b by (simp add: happy_path_def exit_module_frame)
qed

lemma failing_path_clean:
  assumes "lc_idle s" and "f \<in> {1, 2, 3}"
  shows "\<exists>t. failing_path ok f (s, bad) = (t, bad) \<and> lc_idle t \<and>
    peak s \<le> peak t \<and> peak t \<le> max 2 (peak s)"
proof -
  obtain rc h u where i: "init_module_model ok f s = ((rc, h), u)" by (metis prod.exhaust)
  from assms have inv: "lc_inv s" and e: "heap s = {}" "live s = 0" by (auto simp: lc_idle_def)
  have n: "\<not> lc_grants ok f (calls s)" using assms(2) by (simp add: lc_grants_def)
  note r = init_module_fail [OF inv n i]
  have "lc_idle u" using r e init_module_inv [OF inv i] by (simp add: lc_idle_def)
  then show ?thesis using i r e by (simp add: failing_path_def)
qed

lemma lc_idle_start: "lc_idle lc_start"
  using lc_inv_start by (simp add: lc_idle_def lc_start_def)

text \<open>
  The program's own verdict. Whatever the allocator answers, \<open>main\<close> reports that all four paths end
  at zero and ends with nothing held, never having held more than three resources.
\<close>

lemma lifecycle_main_clean:
  "\<exists>s. lifecycle_main ok = (0, s) \<and> heap s = {} \<and> live s = 0 \<and> peak s \<le> 3"
proof -
  obtain s0 where s0: "happy_path ok (lc_start, 0) = (s0, 0)" "lc_idle s0" "peak s0 \<le> 3"
    using happy_path_clean [OF lc_idle_start, of ok 0] by (auto simp: lc_start_def)
  obtain s1 where s1: "failing_path ok 1 (s0, 0) = (s1, 0)" "lc_idle s1" "peak s1 \<le> max 2 (peak s0)"
    using failing_path_clean [OF s0(2), of 1 ok 0] by auto
  obtain s2 where s2: "failing_path ok 2 (s1, 0) = (s2, 0)" "lc_idle s2" "peak s2 \<le> max 2 (peak s1)"
    using failing_path_clean [OF s1(2), of 2 ok 0] by auto
  obtain s3 where s3: "failing_path ok 3 (s2, 0) = (s3, 0)" "lc_idle s3" "peak s3 \<le> max 2 (peak s2)"
    using failing_path_clean [OF s2(2), of 3 ok 0] by auto
  have "lifecycle_main ok = (0, s3)"
    by (simp add: lifecycle_main_def s0 s1 s2 s3)
  with s0 s1 s2 s3 show ?thesis by (auto simp: lc_idle_def)
qed

end
