(* ===== verification/Copyguard.thy ===== *)
theory Copyguard
  imports Prelude "HOL-Library.Monad_Syntax"
begin

text \<open>
  The user-copy boundary of \<open>week2/src/copyguard.c\<close>: \<open>kwrite\<close> (copy_to_user) and \<open>kread\<close>
  (copy_from_user) over the kernel buffer \<open>kmem.buf\<close> and the guard that follows it in the same struct.
  Memory is a list of bytes; a \<open>memcpy\<close> that leaves its source or its destination object is undefined
  behaviour and yields \<open>None\<close>, so that a copy that is not bounded shows up either in the guard or as a
  fault, never silently.
\<close>

section \<open>Memory\<close>

abbreviation KBUF_SZ :: nat where "KBUF_SZ \<equiv> 64"
abbreviation GUARD_SZ :: nat where "GUARD_SZ \<equiv> 512"
abbreviation UBUF_SZ :: nat where "UBUF_SZ \<equiv> 64"
abbreviation GUARD_BYTE :: byte where "GUARD_BYTE \<equiv> 0x7e"

text \<open>\<open>kmem\<close> holds \<open>buf\<close> (the first \<open>KBUF_SZ\<close> bytes) and, adjacent to it, \<open>guard\<close>.\<close>

record kernel =
  kmem :: "byte list"
  kbuf_len :: ulong

definition kernel_start :: kernel where
  "kernel_start = \<lparr>kmem = replicate (KBUF_SZ + GUARD_SZ) 0, kbuf_len = 0\<rparr>"

definition kernel_ok :: "kernel \<Rightarrow> bool" where
  "kernel_ok k \<longleftrightarrow> length (kmem k) = KBUF_SZ + GUARD_SZ"

definition guard_arm :: "kernel \<Rightarrow> kernel" where
  "guard_arm k = k\<lparr>kmem := take KBUF_SZ (kmem k) @ replicate GUARD_SZ GUARD_BYTE\<rparr>"

definition guard_intact :: "kernel \<Rightarrow> bool" where
  "guard_intact k \<longleftrightarrow> list_all (\<lambda>b. b = GUARD_BYTE) (drop KBUF_SZ (kmem k))"

definition memcpy :: "byte list \<Rightarrow> byte list \<Rightarrow> nat \<Rightarrow> byte list option" where
  "memcpy dst src n =
     (if n \<le> length dst \<and> n \<le> length src then Some (take n src @ drop n dst) else None)"

text \<open>\<open>strlen\<close> reads up to the first NUL; with none before the end of the object it runs out of it.\<close>

fun strlen :: "byte list \<Rightarrow> nat option" where
  "strlen [] = None"
| "strlen (b # bs) = (if b = 0 then Some 0 else map_option Suc (strlen bs))"

definition c_min :: "ulong \<Rightarrow> ulong \<Rightarrow> ulong" where
  "c_min a b = (if a < b then a else b)"

section \<open>The two copies\<close>

text \<open>
  A user pointer is \<open>None\<close> for NULL, else the bytes it points to. The result is the number of bytes
  not copied and what the destination then holds.
\<close>

definition kwrite ::
    "byte list option \<Rightarrow> ulong \<Rightarrow> byte list \<Rightarrow> ulong \<Rightarrow> (ulong \<times> byte list option) option" where
  "kwrite udst ulen ksrc klen =
     (case udst of
        None \<Rightarrow> Some (ulen, None)
      | Some d \<Rightarrow> do {
          d' \<leftarrow> memcpy d ksrc (unat (c_min ulen klen));
          Some (ulen - c_min ulen klen, Some d')
        })"

definition kread :: "byte list option \<Rightarrow> ulong \<Rightarrow> kernel \<Rightarrow> (ulong \<times> kernel) option" where
  "kread usrc ulen k =
     (case usrc of
        None \<Rightarrow> Some (ulen, k)
      | Some u \<Rightarrow>
          let n = c_min ulen (of_nat (KBUF_SZ - 1)) in do {
          m \<leftarrow> memcpy (kmem k) u (unat n);
          if unat n < length m
            then Some (ulen - n, k\<lparr>kmem := m[unat n := 0], kbuf_len := n\<rparr>) else None
        })"

section \<open>The program: four checks and the sweep\<close>

abbreviation hello :: "byte list" where
  "hello \<equiv> [104, 101, 108, 108, 111]"

abbreviation ch_A :: byte where "ch_A \<equiv> 65"
abbreviation ch_B :: byte where "ch_B \<equiv> 66"
abbreviation ch_X :: byte where "ch_X \<equiv> 88"

text \<open>\<open>strcpy(kbuf, "hello"); kbuf_len = 5\<close>\<close>

definition kstore_hello :: "kernel \<Rightarrow> kernel option" where
  "kstore_hello k = do {
     m \<leftarrow> memcpy (kmem k) (hello @ [0]) 6;
     Some (k\<lparr>kmem := m, kbuf_len := 5\<rparr>)
   }"

fun copied_bytes :: "nat \<Rightarrow> byte list \<Rightarrow> nat" where
  "copied_bytes 0 bs = 0"
| "copied_bytes (Suc req) [] = 0"
| "copied_bytes (Suc req) (b # bs) = (if b \<noteq> ch_X then Suc (copied_bytes req bs) else 0)"

definition sweep_row :: "kernel \<Rightarrow> nat \<Rightarrow> ((nat \<times> nat \<times> ulong) \<times> kernel) option" where
  "sweep_row k req = do {
     k \<leftarrow> kstore_hello k;
     (left, big) \<leftarrow> kwrite (Some (replicate 512 ch_X)) (of_nat req) (kmem k) (kbuf_len k);
     big \<leftarrow> big;
     Some ((req, copied_bytes req big, left), k)
   }"

fun sweep_rows :: "kernel \<Rightarrow> nat list \<Rightarrow> (nat \<times> nat \<times> ulong) list option" where
  "sweep_rows k [] = Some []"
| "sweep_rows k (r # rs) = do {
     (row, k) \<leftarrow> sweep_row k r;
     rows \<leftarrow> sweep_rows k rs;
     Some (row # rows)
   }"

definition sweep :: "(nat \<times> nat \<times> ulong) list option" where
  "sweep = sweep_rows kernel_start [8, 16, 32, 64, 128, 256]"

definition rule1 :: "bool option" where
  "rule1 = do {
     (left, _) \<leftarrow> kwrite None 16 hello 5;
     Some (left = 16)
   }"

definition rule2 :: "kernel \<Rightarrow> (bool \<times> kernel) option" where
  "rule2 k = do {
     k \<leftarrow> kstore_hello k;
     (left, ubuf) \<leftarrow> kwrite (Some (replicate UBUF_SZ ch_X)) (of_nat UBUF_SZ) (kmem k) (kbuf_len k);
     ubuf \<leftarrow> ubuf;
     Some (left = of_nat UBUF_SZ - kbuf_len k \<and> ubuf ! 5 = ch_X, k)
   }"

definition rule3 :: "kernel \<Rightarrow> (bool \<times> kernel) option" where
  "rule3 k = do {
     (left, k) \<leftarrow> kread (Some (replicate 256 ch_A)) 256 k;
     Some (guard_intact k \<and> kbuf_len k = of_nat (KBUF_SZ - 1)
             \<and> left = 256 - of_nat (KBUF_SZ - 1), k)
   }"

definition rule4 :: "kernel \<Rightarrow> (bool \<times> kernel) option" where
  "rule4 k = do {
     (left, k) \<leftarrow> kread (Some (replicate 8 ch_B)) 8 k;
     n \<leftarrow> strlen (kmem k);
     Some (n = 8, k)
   }"

text \<open>\<open>main\<close> without \<open>--sweep\<close>: the exit status and the outcomes of the four checks.\<close>

definition copyguard_main :: "(int \<times> bool list) option" where
  "copyguard_main = do {
     let k = guard_arm kernel_start;
     r1 \<leftarrow> rule1;
     (r2, k) \<leftarrow> rule2 k;
     (r3, k) \<leftarrow> rule3 k;
     (r4, k) \<leftarrow> rule4 k;
     let failures = length (filter (\<lambda>r. \<not> r) [r1, r2, r3, r4]);
     Some (if failures \<noteq> 0 then 1 else 0, [r1, r2, r3, r4])
   }"

section \<open>Lemmas\<close>

lemma unat_c_min [simp]: "unat (c_min a b) = min (unat a) (unat b)"
  by (auto simp: c_min_def word_less_nat_alt)

lemma c_min_le: "c_min a b \<le> a" "c_min a b \<le> b"
  by (auto simp: c_min_def)

lemma unat_sub_c_min: "unat (a - c_min a b) = unat a - min (unat a) (unat b)"
  by (simp add: unat_sub c_min_le)

lemma memcpy_Some:
  "memcpy dst src n = Some d \<longleftrightarrow> n \<le> length dst \<and> n \<le> length src \<and> d = take n src @ drop n dst"
  by (auto simp: memcpy_def)

lemma strlen_Some:
  "strlen bs = Some n \<longleftrightarrow> n < length bs \<and> bs ! n = 0 \<and> (\<forall>i<n. bs ! i \<noteq> 0)"
proof (induction bs arbitrary: n)
  case (Cons b bs)
  then show ?case
    by (cases n) (auto simp: less_Suc_eq_0_disj)
qed simp

lemma strlen_le: "i < length bs \<Longrightarrow> bs ! i = 0 \<Longrightarrow> \<exists>n\<le>i. strlen bs = Some n"
proof (induction bs arbitrary: i)
  case (Cons b bs)
  then show ?case by (cases i) (auto, metis Suc_le_mono)
qed simp

text \<open>\<open>kread\<close> in one equation: it always bounds the copy, so with a readable source it never faults.\<close>

lemma kread_eq:
  assumes "kernel_ok k" and "unat ulen \<le> length u"
  defines "n \<equiv> min (unat ulen) (KBUF_SZ - 1)"
  shows "kread (Some u) ulen k =
    Some (ulen - c_min ulen (of_nat (KBUF_SZ - 1)),
          k\<lparr>kmem := take n u @ 0 # drop (Suc n) (kmem k), kbuf_len := of_nat n\<rparr>)"
proof -
  have n: "unat (c_min ulen (of_nat (KBUF_SZ - 1))) = n" and l: "n \<le> length u" "n < length (kmem k)"
    using assms by (auto simp: kernel_ok_def)
  then have w: "c_min ulen (of_nat (KBUF_SZ - 1)) = of_nat n"
    by (simp add: word_unat_eq_iff unat_of_nat take_bit_nat_eq_self)
  have "(take n u @ drop n (kmem k))[n := 0] = take n u @ 0 # drop (Suc n) (kmem k)"
    using l by (simp add: list_update_append Cons_nth_drop_Suc [symmetric])
  moreover have "unat (of_nat n :: ulong) = n"
    using n w by (simp del: unat_c_min)
  ultimately show ?thesis using l w
    by (simp add: kread_def memcpy_def Let_def)
qed

lemma kernel_start_ok [simp]: "kernel_ok (guard_arm kernel_start)" "kernel_ok kernel_start"
  by (simp_all add: kernel_ok_def guard_arm_def kernel_start_def)

text \<open>The outcome of \<open>kread\<close>, and of \<open>kwrite\<close>, for every request.\<close>

lemma kread_facts:
  assumes "kernel_ok k" and "unat ulen \<le> length u"
  shows "\<exists>left k'. kread (Some u) ulen k = Some (left, k') \<and> kernel_ok k' \<and>
    drop KBUF_SZ (kmem k') = drop KBUF_SZ (kmem k) \<and>
    unat (kbuf_len k') = min (unat ulen) (KBUF_SZ - 1) \<and>
    take (unat (kbuf_len k')) (kmem k') = take (unat (kbuf_len k')) u \<and>
    kmem k' ! unat (kbuf_len k') = 0 \<and>
    unat left + unat (kbuf_len k') = unat ulen"
proof -
  let ?n = "min (unat ulen) (KBUF_SZ - 1)"
  let ?m = "take ?n u @ 0 # drop (Suc ?n) (kmem k)"
  have l: "length (take ?n u) = ?n" and k: "length (kmem k) = 576"
    using assms by (auto simp: kernel_ok_def)
  have "drop KBUF_SZ ?m = drop KBUF_SZ (kmem k)"
  proof -
    have "KBUF_SZ - ?n = Suc (63 - ?n)" and "Suc (63 - ?n + ?n) = KBUF_SZ" by auto
    then show ?thesis using l by (simp add: add.commute)
  qed
  moreover have "unat (of_nat ?n :: ulong) = ?n"
    by (simp add: unat_of_nat take_bit_nat_eq_self min_def)
  moreover have "?m ! ?n = 0" using l by (metis nth_append_length)
  moreover have "kernel_ok (k\<lparr>kmem := ?m, kbuf_len := of_nat ?n\<rparr>)"
    using l k by (simp add: kernel_ok_def)
  ultimately show ?thesis
    using kread_eq [OF assms] l by (simp add: unat_sub_c_min)
qed

lemma kwrite_facts:
  assumes "unat klen \<le> length ksrc" and "min (unat ulen) (unat klen) \<le> length d"
  shows "kwrite None ulen ksrc klen = Some (ulen, None) \<and>
    (\<exists>left. kwrite (Some d) ulen ksrc klen =
       Some (left, Some (take (min (unat ulen) (unat klen)) ksrc @ drop (min (unat ulen) (unat klen)) d))
     \<and> unat left + min (unat ulen) (unat klen) = unat ulen)"
  using assms by (simp add: kwrite_def memcpy_def unat_sub_c_min min.coboundedI2)

section \<open>Properties\<close>

text \<open>
  C26: Rules 3 and 4. For every user buffer and every length the user claims for it (as long as the
  buffer really holds that many bytes), \<open>kread\<close> returns, leaves every byte of the guard as it was,
  stores exactly the first \<open>min(ulen, 63)\<close> bytes, terminates them, and accounts for every byte: stored
  plus returned is what was offered.
\<close>

theorem kread_bounds_and_terminates:
  assumes "kernel_ok k" and "unat ulen \<le> length u"
  shows "\<exists>left k'. kread (Some u) ulen k = Some (left, k') \<and> kernel_ok k' \<and>
    drop KBUF_SZ (kmem k') = drop KBUF_SZ (kmem k) \<and>
    unat (kbuf_len k') = min (unat ulen) (KBUF_SZ - 1) \<and>
    take (unat (kbuf_len k')) (kmem k') = take (unat (kbuf_len k')) u \<and>
    kmem k' ! unat (kbuf_len k') = 0 \<and>
    unat left + unat (kbuf_len k') = unat ulen"
  by (rule kread_facts [OF assms])

theorem kread_bounds_and_terminates_witness:
  "\<exists>left k'. kread (Some (replicate 256 ch_A)) 256 (guard_arm kernel_start) = Some (left, k') \<and>
    unat (kbuf_len k') = 63 \<and> kmem k' ! 63 = 0"
  using kread_bounds_and_terminates [of "guard_arm kernel_start" 256 "replicate 256 ch_A"] by auto

text \<open>
  Rule 4 as the string functions see it: after a \<open>kread\<close>, \<open>strlen(kbuf)\<close> stops inside the buffer,
  at the first NUL the user sent or, when the stored bytes hold none, exactly where the data stops.
\<close>

lemma strlen_after_kread:
  assumes "kernel_ok k" and "unat ulen \<le> length u" and "kread (Some u) ulen k = Some (left, k')"
  shows "\<exists>n \<le> unat (kbuf_len k'). strlen (kmem k') = Some n \<and> n < KBUF_SZ \<and>
    (0 \<notin> set (take (unat (kbuf_len k')) u) \<longrightarrow> n = unat (kbuf_len k'))"
proof -
  let ?l = "unat (kbuf_len k')"
  from kread_facts [OF assms(1,2)] assms(3)
  have l: "?l = min (unat ulen) 63" "take ?l (kmem k') = take ?l u" "kmem k' ! ?l = 0" "kernel_ok k'"
    by auto
  have "?l < length (kmem k')" using l(1,4) by (simp add: kernel_ok_def)
  from strlen_le [OF this l(3)] obtain n where n: "n \<le> ?l" "strlen (kmem k') = Some n"
    by blast
  have "n = ?l" if "0 \<notin> set (take ?l u)"
  proof (rule ccontr)
    assume "n \<noteq> ?l"
    then have "n < ?l" using n(1) by simp
    moreover have "kmem k' ! n = 0" "n < length (kmem k')" using n(2) by (simp_all add: strlen_Some)
    ultimately have "0 \<in> set (take ?l (kmem k'))" by (auto simp: in_set_conv_nth)
    then show False using that l(2) by simp
  qed
  then show ?thesis using n l(1) by auto
qed

text \<open>
  Rules 1 and 2. \<open>kwrite\<close> refuses a NULL destination, reporting all bytes uncopied; otherwise it
  returns, copies exactly \<open>min(ulen, klen)\<close> bytes and leaves the rest of the user's buffer alone.
\<close>

lemma kwrite_clamps:
  assumes "unat klen \<le> length ksrc" and "min (unat ulen) (unat klen) \<le> length d"
  shows "kwrite None ulen ksrc klen = Some (ulen, None) \<and>
    (\<exists>left. kwrite (Some d) ulen ksrc klen =
       Some (left, Some (take (min (unat ulen) (unat klen)) ksrc @ drop (min (unat ulen) (unat klen)) d))
     \<and> unat left + min (unat ulen) (unat klen) = unat ulen)"
  by (rule kwrite_facts [OF assms])

text \<open>
  No information leak. What a user receives does not depend on any kernel byte beyond the \<open>klen\<close> it
  was given: two kernels that agree on those bytes answer every request in the same way.
\<close>

lemma kwrite_no_leak:
  assumes "take (unat klen) ksrc = take (unat klen) ksrc'"
    and "unat klen \<le> length ksrc" and "unat klen \<le> length ksrc'"
  shows "kwrite dst ulen ksrc klen = kwrite dst ulen ksrc' klen"
proof -
  have "take (min (unat ulen) (unat klen)) ksrc = take (min (unat ulen) (unat klen)) ksrc'"
    by (metis assms(1) min.commute take_take)
  then show ?thesis using assms(2,3)
    by (auto simp: kwrite_def memcpy_def min.coboundedI2 split: option.split)
qed

lemma kwrite_no_leak_hello:
  "kwrite (Some (replicate 64 ch_X)) 64 (hello @ [1, 2, 3]) 5 =
   kwrite (Some (replicate 64 ch_X)) 64 (hello @ [7, 8, 9]) 5"
  by (rule kwrite_no_leak) simp_all

text \<open>
  C34: a write followed by a read through the boundary gives the user back what was stored: the first
  \<open>min(rlen, min(ulen, 63))\<close> bytes of what was sent, the rest of the reply buffer untouched.
\<close>

theorem kread_kwrite_roundtrip:
  assumes "kernel_ok k" and "unat ulen \<le> length u" and "kread (Some u) ulen k = Some (left, k')"
    and "unat rlen \<le> length d"
  defines "n \<equiv> min (unat rlen) (min (unat ulen) 63)"
  shows "\<exists>r. kwrite (Some d) rlen (kmem k') (kbuf_len k') = Some (r, Some (take n u @ drop n d))"
proof -
  from kread_facts [OF assms(1,2)] assms(3)
  have l: "unat (kbuf_len k') = min (unat ulen) 63" "kernel_ok k'"
      "take (unat (kbuf_len k')) (kmem k') = take (unat (kbuf_len k')) u"
    by auto
  then have "take n (kmem k') = take n u"
    unfolding n_def by (metis min.commute take_take)
  moreover have "\<exists>r. kwrite (Some d) rlen (kmem k') (kbuf_len k') =
      Some (r, Some (take n (kmem k') @ drop n d))"
    using kwrite_facts [of "kbuf_len k'" "kmem k'" rlen d] l(1,2) assms(4)
    by (auto simp: n_def kernel_ok_def min.coboundedI1 min.coboundedI2)
  ultimately show ?thesis by simp
qed

theorem kread_kwrite_roundtrip_witness:
  "\<exists>k' left r. kread (Some hello) 5 kernel_start = Some (left, k') \<and>
     kwrite (Some [1, 2, 3, 4, 5, 6, 7, 8]) 8 (kmem k') (kbuf_len k') = Some (r, Some (hello @ [6, 7, 8]))"
proof -
  obtain left k' where k: "kread (Some hello) 5 kernel_start = Some (left, k')"
    using kread_facts [of kernel_start 5 hello] by auto
  from kread_kwrite_roundtrip [OF _ _ k, of 8 "[1, 2, 3, 4, 5, 6, 7, 8]"] k show ?thesis
    by auto
qed

text \<open>
  the program's own evidence: all four checks pass, the exit status is 0, and the sweep reports, for
  each requested length, five bytes copied and the rest returned as uncopied.
\<close>

lemma copyguard_program:
  "copyguard_main = Some (0, [True, True, True, True]) \<and>
   sweep = Some [(8, 5, 3), (16, 5, 11), (32, 5, 27), (64, 5, 59), (128, 5, 123), (256, 5, 251)]"
  by code_simp

end
