(* ===== verification/Procstat.thy ===== *)
theory Procstat
  imports Prelude
begin

text \<open>
  The kernel module \<open>week2/module/procstat.c\<close>: the \<open>/proc\<close> file that counts tasks by state and its own reads. Any number of
  readers are inside \<open>procstat_show\<close> at once; \<open>++read_count\<close> is a load and a store, so that the mutex matters. The kernel is a
  parameter: the sequence of tasks that \<open>for_each_process\<close> visits, the bit \<open>EXIT_ZOMBIE\<close>, whether
  \<open>proc_create\<close> succeeds. \<open>seq_printf\<close> appends to a buffer that five lines do not fill.
\<close>

section \<open>State\<close>

text \<open>What the module reads of a \<open>task_struct\<close>: \<open>exit_state\<close> and \<open>task_is_running\<close>.\<close>

record task_struct =
  exit_state :: uint
  task_is_running :: bool

record task_counts =
  running :: ulong
  sleeping :: ulong
  zombie :: ulong
  total :: ulong

text \<open>What a reader finds in the file.\<close>

record report =
  r_counts :: task_counts
  r_reads :: ulong

datatype ppc =
    PIdle | PRcu "task_struct list" | PWalk "task_struct list" task_counts | PLock task_counts | PLoad task_counts
  | PStore task_counts ulong | PUnlock task_counts ulong | PPrint task_counts ulong

record procstat =
  stat_lock :: "tid option"
  read_count :: ulong
  in_rcu :: "tid set" \<comment> \<open>threads inside \<open>rcu_read_lock\<close> .. \<open>rcu_read_unlock\<close>\<close>
  ppcs :: "tid \<Rightarrow> ppc"
  printed :: "report list"
  given :: nat \<comment> \<open>ghost: how often \<open>read_count\<close> was incremented\<close>
  ticket :: "tid \<Rightarrow> nat option" \<comment> \<open>ghost: the increment a thread has not yet printed\<close>
  shown :: "nat list" \<comment> \<open>ghost: the increments that were printed\<close>

definition procstat_start :: procstat where
  "procstat_start = \<lparr>stat_lock = None, read_count = 0, in_rcu = {}, ppcs = (\<lambda>_. PIdle), printed = [], given = 0,
     ticket = (\<lambda>_. None), shown = []\<rparr>"

section \<open>Showing the file\<close>

definition count_task :: "uint \<Rightarrow> task_struct \<Rightarrow> task_counts \<Rightarrow> task_counts" where
  "count_task EXIT_ZOMBIE t c =
     (let c = c\<lparr>total := total c + 1\<rparr> in
      if and (exit_state t) EXIT_ZOMBIE \<noteq> 0 then c\<lparr>zombie := zombie c + 1\<rparr>
      else if task_is_running t then c\<lparr>running := running c + 1\<rparr>
      else c\<lparr>sleeping := sleeping c + 1\<rparr>)"

definition no_counts :: task_counts where
  "no_counts = \<lparr>running = 0, sleeping = 0, zombie = 0, total = 0\<rparr>"

definition pgoto :: "tid \<Rightarrow> ppc \<Rightarrow> procstat \<Rightarrow> procstat" where
  "pgoto t p s = s\<lparr>ppcs := (ppcs s)(t := p)\<rparr>"

text \<open>\<open>count_tasks\<close>: the walk between \<open>rcu_read_lock\<close> and \<open>rcu_read_unlock\<close>.\<close>

fun count_go :: "uint \<Rightarrow> tid \<Rightarrow> ppc \<Rightarrow> procstat \<Rightarrow> procstat option" where
  "count_go z t (PRcu ts) s = Some (pgoto t (PWalk ts no_counts) (s\<lparr>in_rcu := insert t (in_rcu s)\<rparr>))"
| "count_go z t (PWalk (x # ts) c) s = Some (pgoto t (PWalk ts (count_task z x c)) s)"
| "count_go z t (PWalk [] c) s = Some (pgoto t (PLock c) (s\<lparr>in_rcu := in_rcu s - {t}\<rparr>))"
| "count_go z t p s = None"

text \<open>\<open>procstat_show\<close> after the count.\<close>

fun show_go :: "tid \<Rightarrow> ppc \<Rightarrow> procstat \<Rightarrow> procstat option" where
  "show_go t (PLock c) s = (if stat_lock s = None then Some (pgoto t (PLoad c) (s\<lparr>stat_lock := Some t\<rparr>)) else None)"
| "show_go t (PLoad c) s = Some (pgoto t (PStore c (read_count s)) s)"
| "show_go t (PStore c v) s = Some (pgoto t (PUnlock c (v + 1))
     (s\<lparr>read_count := v + 1, given := Suc (given s), ticket := (ticket s)(t := Some (given s))\<rparr>))"
| "show_go t (PUnlock c v) s = Some (pgoto t (PPrint c v) (s\<lparr>stat_lock := None\<rparr>))"
| "show_go t (PPrint c v) s = Some (pgoto t PIdle (s\<lparr>printed := printed s @ [\<lparr>r_counts = c, r_reads = v\<rparr>],
     shown := shown s @ (case ticket s t of None \<Rightarrow> [] | Some k \<Rightarrow> [k]), ticket := (ticket s)(t := None)\<rparr>))"
| "show_go t p s = None"

text \<open>A reader opens the file and reads it (the tasks are those the walk will visit), or goes on.\<close>

datatype pact = Show "task_struct list" | PGo

fun procstat_step :: "uint \<Rightarrow> tid \<times> pact \<Rightarrow> procstat \<Rightarrow> procstat option" where
  "procstat_step z (t, Show ts) s = (if ppcs s t = PIdle then Some (pgoto t (PRcu ts) s) else None)"
| "procstat_step z (t, PGo) s = (case count_go z t (ppcs s t) s of Some s' \<Rightarrow> Some s' | None \<Rightarrow> show_go t (ppcs s t) s)"

section \<open>Loading and unloading\<close>

text \<open>
  The registered entries and the static \<open>entry\<close>. \<open>proc_create\<close> answers with an entry or with NULL; the result is the
  return code of \<open>procstat_init\<close>, \<open>ENOMEM\<close> being 12.
\<close>

record proc_dir =
  entries :: "nat set"
  proc_entry :: "nat option"

definition procstat_init :: "nat option \<Rightarrow> proc_dir \<Rightarrow> int \<times> proc_dir" where
  "procstat_init created d =
     (let d = d\<lparr>proc_entry := created, entries := entries d \<union> set_option created\<rparr> in
      if proc_entry d = None then (-12, d) else (0, d))"

definition procstat_exit :: "proc_dir \<Rightarrow> proc_dir" where
  "procstat_exit d = (case proc_entry d of None \<Rightarrow> d | Some e \<Rightarrow> d\<lparr>entries := entries d - {e}\<rparr>)"

section \<open>The invariant\<close>

definition counts_ok :: "task_counts \<Rightarrow> bool" where
  "counts_ok c \<longleftrightarrow> total c = running c + sleeping c + zombie c"

fun pcounts :: "ppc \<Rightarrow> task_counts option" where
  "pcounts (PWalk ts c) = Some c" | "pcounts (PLock c) = Some c" | "pcounts (PLoad c) = Some c"
| "pcounts (PStore c v) = Some c" | "pcounts (PUnlock c v) = Some c" | "pcounts (PPrint c v) = Some c"
| "pcounts p = None"

fun locked :: "ppc \<Rightarrow> bool" where
  "locked (PLoad c) = True" | "locked (PStore c v) = True" | "locked (PUnlock c v) = True" | "locked p = False"

fun walking :: "ppc \<Rightarrow> bool" where
  "walking (PWalk ts c) = True" | "walking p = False"

fun obtained :: "ppc \<Rightarrow> ulong option" where
  "obtained (PUnlock c v) = Some v" | "obtained (PPrint c v) = Some v" | "obtained p = None"

definition reads_of :: "nat \<Rightarrow> ulong" where
  "reads_of k = of_nat (Suc k)"

definition procstat_inv :: "procstat \<Rightarrow> bool" where
  "procstat_inv s \<longleftrightarrow> (\<forall>t. stat_lock s = Some t \<longleftrightarrow> locked (ppcs s t)) \<and> (\<forall>t. t \<in> in_rcu s \<longleftrightarrow> walking (ppcs s t)) \<and>
     (\<forall>t c v. ppcs s t = PStore c v \<longrightarrow> v = read_count s) \<and> read_count s = of_nat (given s) \<and>
     (\<forall>t. obtained (ppcs s t) = map_option reads_of (ticket s t)) \<and>
     map r_reads (printed s) = map reads_of (shown s) \<and> tasks_ok [] [] (shown s) (ticket s) (given s) \<and>
     (\<forall>t c. pcounts (ppcs s t) = Some c \<longrightarrow> counts_ok c) \<and> (\<forall>r\<in>set (printed s). counts_ok (r_counts r))"

lemma procstat_inv_start: "procstat_inv procstat_start"
  by (auto simp: procstat_inv_def procstat_start_def tasks_ok_def separate_def)

lemma count_task_ok: "counts_ok c \<Longrightarrow> counts_ok (count_task z x c)"
  by (auto simp: counts_ok_def count_task_def Let_def)

lemma no_counts_ok: "counts_ok no_counts"
  by (simp add: counts_ok_def no_counts_def)

lemma other_not_locked:
  assumes "procstat_inv s" and "locked (ppcs s t)" and "u \<noteq> t"
  shows "\<not> locked (ppcs s u)"
  using assms unfolding procstat_inv_def by (metis option.inject)

text \<open>A step that changes a thread's program point, the lock and the RCU section only.\<close>

lemma procstat_inv_goto:
  assumes inv: "procstat_inv s" and s': "s' = s\<lparr>stat_lock := l, in_rcu := R, ppcs := (ppcs s)(t := p)\<rparr>"
    and l: "\<And>u. l = Some u \<longleftrightarrow> locked (((ppcs s)(t := p)) u)"
    and R: "\<And>u. u \<in> R \<longleftrightarrow> walking (((ppcs s)(t := p)) u)"
    and "obtained p = obtained (ppcs s t)" and "\<And>c. pcounts p = Some c \<Longrightarrow> counts_ok c"
    and "\<And>c v. p = PStore c v \<Longrightarrow> v = read_count s"
  shows "procstat_inv s'"
proof -
  have old: "\<And>u c v. ppcs s u = PStore c v \<Longrightarrow> v = read_count s" "\<And>u. obtained (ppcs s u) = map_option reads_of (ticket s u)"
    "\<And>u c. pcounts (ppcs s u) = Some c \<Longrightarrow> counts_ok c"
    using inv unfolding procstat_inv_def by blast+
  have "v = read_count s" if "((ppcs s)(t := p)) u = PStore c v" for u c v
    using that old(1) assms(7) by (cases "u = t") auto
  moreover have "obtained (((ppcs s)(t := p)) u) = map_option reads_of (ticket s u)" for u
    using old(2) assms(5) by simp
  moreover have "counts_ok c" if "pcounts (((ppcs s)(t := p)) u) = Some c" for u c
    using that old(3) assms(6) by (cases "u = t") auto
  ultimately show ?thesis using inv l R unfolding s' procstat_inv_def by simp
qed

lemma count_go_frame:
  assumes inv: "procstat_inv s" and st: "count_go z t (ppcs s t) s = Some s'"
  obtains p R where "s' = s\<lparr>stat_lock := stat_lock s, in_rcu := R, ppcs := (ppcs s)(t := p)\<rparr>" and "R = (if walking p then insert t (in_rcu s) else in_rcu s - {t})"
    and "\<not> locked p" and "\<not> locked (ppcs s t)" and "obtained p = None" and "obtained (ppcs s t) = None"
    and "\<And>c. pcounts p = Some c \<Longrightarrow> counts_ok c"
proof -
  have c: "\<And>c. pcounts (ppcs s t) = Some c \<Longrightarrow> counts_ok c" and R: "t \<in> in_rcu s \<longleftrightarrow> walking (ppcs s t)"
    using inv unfolding procstat_inv_def by blast+
  show ?thesis
  proof (cases "ppcs s t")
    case (PRcu ts)
    then show ?thesis
      using st that [of "PWalk ts no_counts" "insert t (in_rcu s)"] no_counts_ok by (auto simp: pgoto_def)
  next
    case (PWalk ts c')
    show ?thesis
    proof (cases ts)
      case Nil
      then show ?thesis using PWalk st c that [of "PLock c'" "in_rcu s - {t}"] by (auto simp: pgoto_def)
    next
      case (Cons x xs)
      then show ?thesis
        using PWalk st c R count_task_ok [of c' z x] that [of "PWalk xs (count_task z x c')" "in_rcu s"]
        by (auto simp: pgoto_def insert_absorb)
    qed
  qed (use st in auto)
qed

lemma procstat_inv_count:
  assumes inv: "procstat_inv s" and st: "count_go z t (ppcs s t) s = Some s'"
  shows "procstat_inv s'"
proof -
  obtain p R where s': "s' = s\<lparr>stat_lock := stat_lock s, in_rcu := R, ppcs := (ppcs s)(t := p)\<rparr>"
    and R: "R = (if walking p then insert t (in_rcu s) else in_rcu s - {t})"
    and p: "\<not> locked p" "\<not> locked (ppcs s t)" "obtained p = None" "obtained (ppcs s t) = None"
    "\<And>c. pcounts p = Some c \<Longrightarrow> counts_ok c"
    using count_go_frame [OF assms] by blast
  have old: "\<And>u. stat_lock s = Some u \<longleftrightarrow> locked (ppcs s u)" "\<And>u. u \<in> in_rcu s \<longleftrightarrow> walking (ppcs s u)"
    using inv by (simp_all add: procstat_inv_def)
  show ?thesis
  proof (rule procstat_inv_goto [OF inv s'])
    show "stat_lock s = Some u \<longleftrightarrow> locked (((ppcs s)(t := p)) u)" for u using old p(1,2) by simp
    show "u \<in> R \<longleftrightarrow> walking (((ppcs s)(t := p)) u)" for u using old R by simp
    show "v = read_count s" if "p = PStore c v" for c v using that p(1) by simp
  qed (use p in simp_all)
qed

lemma procstat_inv_show:
  assumes inv: "procstat_inv s" and st: "show_go t (ppcs s t) s = Some s'"
  shows "procstat_inv s'"
proof -
  have old: "\<And>u. stat_lock s = Some u \<longleftrightarrow> locked (ppcs s u)" "\<And>u. u \<in> in_rcu s \<longleftrightarrow> walking (ppcs s u)"
    "\<And>u. obtained (ppcs s u) = map_option reads_of (ticket s u)" "\<And>c. pcounts (ppcs s t) = Some c \<Longrightarrow> counts_ok c"
    "\<And>u c v. ppcs s u = PStore c v \<Longrightarrow> v = read_count s"
    using inv by (auto simp: procstat_inv_def)
  have go: ?thesis if "s' = s\<lparr>stat_lock := l, in_rcu := in_rcu s, ppcs := (ppcs s)(t := p)\<rparr>" "walking p = walking (ppcs s t)"
    "\<And>u. l = Some u \<longleftrightarrow> locked (((ppcs s)(t := p)) u)" "obtained p = obtained (ppcs s t)" "pcounts p = pcounts (ppcs s t)"
    "\<And>c v. p = PStore c v \<Longrightarrow> v = read_count s" for l p
    using that old by (intro procstat_inv_goto [OF inv that(1)]) auto
  show ?thesis
  proof (cases "ppcs s t")
    case (PLock c)
    have free: "stat_lock s = None" using st PLock by (simp split: if_splits)
    have "s' = s\<lparr>stat_lock := Some t, in_rcu := in_rcu s, ppcs := (ppcs s)(t := PLoad c)\<rparr>"
      using st PLock free by (simp add: pgoto_def)
    then show ?thesis by (rule go) (use PLock old(1) free in auto)
  next
    case (PLoad c)
    then have "s' = s\<lparr>stat_lock := stat_lock s, in_rcu := in_rcu s, ppcs := (ppcs s)(t := PStore c (read_count s))\<rparr>"
      using st by (simp add: pgoto_def)
    then show ?thesis by (rule go) (use PLoad old(1) in auto)
  next
    case (PUnlock c v)
    then have "s' = s\<lparr>stat_lock := None, in_rcu := in_rcu s, ppcs := (ppcs s)(t := PPrint c v)\<rparr>"
      using st by (simp add: pgoto_def)
    then show ?thesis by (rule go) (use PUnlock other_not_locked [OF inv, of t] in auto)
  next
    case (PStore c v)
    have others: "ppcs s u \<noteq> PStore c' v'" if "u \<noteq> t" for u c' v'
      using other_not_locked [OF inv _ that] PStore by auto
    have v: "v = of_nat (given s)" and T: "ticket s t = None"
      using inv old(3) [of t] PStore by (auto simp: procstat_inv_def)
    have "tasks_ok [] [] (shown s) ((ticket s)(t := Some (given s))) (Suc (given s))"
      using inv T by (intro tasks_give) (simp_all add: procstat_inv_def)
    moreover have "s' = s\<lparr>read_count := v + 1, given := Suc (given s), ticket := (ticket s)(t := Some (given s)),
        ppcs := (ppcs s)(t := PUnlock c (v + 1))\<rparr>"
      using st PStore by (simp add: pgoto_def)
    ultimately show ?thesis using inv PStore old others v by (simp add: procstat_inv_def reads_of_def)
  next
    case (PPrint c v)
    then obtain k where k: "ticket s t = Some k" "v = reads_of k" using old(3) [of t] by (cases "ticket s t") auto
    have "tasks_ok [] [] (shown s @ [k]) ((ticket s)(t := None)) (given s)"
      using inv k(1) by (intro tasks_finish [OF _ _ refl]) (simp_all add: procstat_inv_def)
    moreover have "s' = s\<lparr>printed := printed s @ [\<lparr>r_counts = c, r_reads = v\<rparr>], shown := shown s @ [k],
        ticket := (ticket s)(t := None), ppcs := (ppcs s)(t := PIdle)\<rparr>"
      using st PPrint k(1) by (simp add: pgoto_def)
    ultimately show ?thesis using inv PPrint k old by (simp add: procstat_inv_def)
  qed (use st in auto)
qed

lemma procstat_inv_step:
  assumes "step_of (procstat_step z) s s'" and "procstat_inv s"
  shows "procstat_inv s'"
proof -
  obtain t a where st: "procstat_step z (t, a) s = Some s'" using assms(1) by (auto simp: step_of_def)
  show ?thesis
  proof (cases a)
    case (Show ts)
    have old: "\<And>u. stat_lock s = Some u \<longleftrightarrow> locked (ppcs s u)" "\<And>u. u \<in> in_rcu s \<longleftrightarrow> walking (ppcs s u)"
      using assms(2) by (simp_all add: procstat_inv_def)
    have idle: "ppcs s t = PIdle" using st Show by (auto split: if_splits)
    have "s' = s\<lparr>stat_lock := stat_lock s, in_rcu := in_rcu s, ppcs := (ppcs s)(t := PRcu ts)\<rparr>"
      using st Show idle by (simp add: pgoto_def)
    then show ?thesis by (rule procstat_inv_goto [OF assms(2)]) (simp_all add: old idle)
  next
    case PGo
    then have "count_go z t (ppcs s t) s = Some s' \<or> show_go t (ppcs s t) s = Some s'" using st by (simp split: option.splits)
    then show ?thesis using procstat_inv_count [OF assms(2)] procstat_inv_show [OF assms(2)] by blast
  qed
qed

interpretation procstat: inductive_invariant "\<lambda>s. s = procstat_start" "step_of (procstat_step z)" procstat_inv for z
  using procstat_inv_start procstat_inv_step by unfold_locales blast+

section \<open>Properties\<close>

text \<open>
  C18: whatever readers overlap in \<open>procstat_show\<close>: no increment of \<open>read_count\<close> is lost, the \<open>reads\<close> values in the reports are those of different
  increments, and when no reader is inside they are all of the numbers from 1 to the count; every report's total is the
  sum of its running, sleeping and zombie tasks; at most one reader is in the section under \<open>stat_lock\<close>, and
  the task list is only walked inside an RCU section.
\<close>

theorem procstat_reads_exact:
  assumes "reach (\<lambda>s. s = procstat_start) (step_of (procstat_step z)) s"
  shows "\<exists>n ks. read_count s = of_nat n \<and> distinct ks \<and> set ks \<subseteq> {1..n} \<and> map r_reads (printed s) = map of_nat ks \<and>
      ((\<forall>t. ppcs s t = PIdle) \<longrightarrow> set ks = {1..n}) \<and>
      (\<forall>r\<in>set (printed s). total (r_counts r) = running (r_counts r) + sleeping (r_counts r) + zombie (r_counts r)) \<and>
      (\<forall>t u c v d w. ppcs s t = PStore c v \<and> ppcs s u = PStore d w \<longrightarrow> t = u) \<and>
      (\<forall>t ts c. ppcs s t = PWalk ts c \<longrightarrow> t \<in> in_rcu s)"
proof -
  have inv: "procstat_inv s" by (rule procstat.reach_inv [OF assms])
  let ?ks = "map Suc (shown s)"
  have tk: "tasks_ok [] [] (shown s) (ticket s) (given s)" using inv by (simp add: procstat_inv_def)
  then have "distinct (shown s)" and sub: "\<And>i. i < given s \<longleftrightarrow> i \<in> set (shown s) \<or> (\<exists>t. ticket s t = Some i)"
    by (simp_all add: tasks_ok_def)
  then have "distinct ?ks" "set ?ks \<subseteq> {1..given s}" by (auto simp: distinct_map Suc_le_eq)
  moreover have "set ?ks = {1..given s}" if "\<forall>t. ppcs s t = PIdle"
  proof -
    have "map_option reads_of (ticket s t) = None" for t
      using inv that unfolding procstat_inv_def by (metis obtained.simps(3))
    then have "set (shown s) = {..<given s}" using sub by auto
    then show ?thesis by (simp add: image_Suc_lessThan)
  qed
  moreover have "t = u" if "ppcs s t = PStore c v" "ppcs s u = PStore d w" for t u c v d w
    using other_not_locked [OF inv, of t u] that by auto
  moreover have "map r_reads (printed s) = map of_nat ?ks" using inv by (simp add: procstat_inv_def reads_of_def comp_def)
  moreover have "\<forall>t ts c. ppcs s t = PWalk ts c \<longrightarrow> t \<in> in_rcu s" using inv unfolding procstat_inv_def by (metis walking.simps(1))
  moreover have "read_count s = of_nat (given s)" "\<forall>r\<in>set (printed s). counts_ok (r_counts r)" using inv by (simp_all add: procstat_inv_def)
  ultimately show ?thesis unfolding counts_ok_def by blast
qed

text \<open>Two readers overlap, one of a running and a zombie task, one of none; \<open>EXIT_ZOMBIE\<close> is 32.\<close>

lemma procstat_reads_exact_witness:
  "(let ls = map (Pair 1) [Show [\<lparr>exit_state = 0, task_is_running = True\<rparr>, \<lparr>exit_state = 32, task_is_running = False\<rparr>], PGo, PGo] @
        map (Pair 2) [Show [], PGo, PGo, PGo, PGo, PGo] @ map (Pair 1) [PGo, PGo] @ map (Pair 2) [PGo, PGo] @
        map (Pair 1) [PGo, PGo, PGo, PGo, PGo]
    in \<exists>s. exec (procstat_step 32) procstat_start ls = Some s \<and> map r_reads (printed s) = [1, 2] \<and>
      (\<exists>n ks. read_count s = of_nat n \<and> distinct ks \<and> set ks \<subseteq> {1..n} \<and> map r_reads (printed s) = map of_nat ks))"
proof -
  let ?ls = "map (Pair 1) [Show [\<lparr>exit_state = 0, task_is_running = True\<rparr>, \<lparr>exit_state = 32, task_is_running = False\<rparr>], PGo, PGo] @
      map (Pair 2) [Show [], PGo, PGo, PGo, PGo, PGo] @ map (Pair 1) [PGo, PGo] @ map (Pair 2) [PGo, PGo] @
      map (Pair 1) [PGo, PGo, PGo, PGo, PGo]"
  obtain s where s: "exec (procstat_step 32) procstat_start ?ls = Some s" "map r_reads (printed s) = [1, 2]"
    by (simp add: procstat_start_def pgoto_def count_task_def no_counts_def Let_def)
  have "reach (\<lambda>s. s = procstat_start) (step_of (procstat_step 32)) s" by (rule exec_from_init [OF refl s(1)])
  from procstat_reads_exact [OF this]
  have "\<exists>n ks. read_count s = of_nat n \<and> distinct ks \<and> set ks \<subseteq> {1..n} \<and> map r_reads (printed s) = map of_nat ks" by blast
  then show ?thesis unfolding Let_def by (intro exI [of _ s] conjI s)
qed

text \<open>
  Loading: when \<open>proc_create\<close> fails the module refuses to load and has registered nothing; when it succeeds the file exists,
  and unloading removes it again.
\<close>

lemma procstat_load_unload:
  assumes "case created of None \<Rightarrow> True | Some e \<Rightarrow> e \<notin> entries d"
  shows "case procstat_init created d of (rc, d') \<Rightarrow>
      (rc = 0 \<longleftrightarrow> created \<noteq> None) \<and> (rc \<noteq> 0 \<longrightarrow> rc = -12 \<and> entries d' = entries d) \<and>
      (rc = 0 \<longrightarrow> the created \<in> entries d' \<and> entries (procstat_exit d') = entries d)"
  using assms by (auto simp: procstat_init_def procstat_exit_def Let_def split: option.splits)

end
