(* ===== verification/Double.thy ===== *)
theory Double
  imports Complex_Main Prelude
begin

text \<open>
  The C type \<open>double\<close> as the programs use it: IEEE 754 binary64 arithmetic with the default rounding
  mode (to nearest, ties to even). A value is a rational number and every operation rounds its exact
  result to 53 significant bits. The programs only ever hold finite values far from the ends of the
  exponent range (nanosecond counts below \<open>2^64\<close>, their quotients by small constants), so the exponent
  is unbounded here: overflow, subnormal numbers, infinities, NaN and the sign of zero are left out.

  What the analyses rely on is stated once, in the interface \<open>rounding\<close>; binary64 is shown to provide it.
\<close>

type_synonym double = rat

section \<open>Rounding\<close>

definition round_half_even :: "rat \<Rightarrow> int" where
  "round_half_even x =
     (let f = \<lfloor>x\<rfloor>; r = x - of_int f in
      if r < 1 / 2 then f else if 1 / 2 < r then f + 1 else if even f then f else f + 1)"

text \<open>The binary exponent: \<open>2 powi expo x \<le> x < 2 powi (expo x + 1)\<close> for positive \<open>x\<close>.\<close>

function expo :: "rat \<Rightarrow> int" where
  "expo x = (if 2 \<le> x then expo (x / 2) + 1 else if 0 < x \<and> x < 1 then expo (2 * x) - 1 else 0)"
  by pat_completeness auto
termination
proof (relation "measure (\<lambda>x. if 2 \<le> x then nat \<lfloor>x\<rfloor> else if 0 < x \<and> x < 1 then nat \<lceil>1 / x\<rceil> else 0)",
    goal_cases)
  case (2 x)
  have "\<lfloor>x / 2\<rfloor> \<le> \<lfloor>x - 1\<rfloor>" using 2 by (intro floor_mono) simp
  moreover have "2 \<le> \<lfloor>x\<rfloor>" using 2 by (simp add: le_floor_iff)
  ultimately show ?case using 2 by auto
next
  case (3 x)
  have 1: "1 < 1 / x" using 3 by (simp add: field_simps)
  then have c: "2 \<le> \<lceil>1 / x\<rceil>" by linarith
  show ?case
  proof (cases "2 * x < 1")
    case True
    have "1 / (2 * x) = 1 / x - 1 / (2 * x)" using 3 by (simp add: field_simps)
    moreover have "1 < 1 / (2 * x)" using True 3 by (simp add: field_simps)
    ultimately have "1 / (2 * x) \<le> 1 / x - 1" by linarith
    then have "\<lceil>1 / (2 * x)\<rceil> \<le> \<lceil>1 / x\<rceil> - 1" by linarith
    then show ?thesis using 3 True c by auto
  next
    case False
    then show ?thesis using 3 c by auto
  qed
qed simp

declare expo.simps [simp del]

definition rnd_at :: "int \<Rightarrow> rat \<Rightarrow> rat" where
  "rnd_at e x = of_int (round_half_even (x / 2 powi (e - 52))) * 2 powi (e - 52)"

definition rnd :: "rat \<Rightarrow> double" where
  "rnd x = (if x = 0 then 0 else rnd_at (expo \<bar>x\<bar>) x)"

text \<open>The representable numbers.\<close>

definition is_double :: "rat \<Rightarrow> bool" where
  "is_double x \<longleftrightarrow> (\<exists>m e. x = of_int m * 2 powi e \<and> \<bar>m\<bar> \<le> 2 ^ 53)"

section \<open>The operations of the programs\<close>

definition dadd :: "double \<Rightarrow> double \<Rightarrow> double" where
  "dadd x y = rnd (x + y)"

definition dsub :: "double \<Rightarrow> double \<Rightarrow> double" where
  "dsub x y = rnd (x - y)"

definition dmul :: "double \<Rightarrow> double \<Rightarrow> double" where
  "dmul x y = rnd (x * y)"

definition ddiv :: "double \<Rightarrow> double \<Rightarrow> double" where
  "ddiv x y = rnd (x / y)"

text \<open>\<open>(double)w\<close> of an unsigned integer, and \<open>(uint64_t)d\<close>, defined for \<open>0 \<le> d < 2^64\<close>.\<close>

definition double_of :: "nat \<Rightarrow> double" where
  "double_of n = rnd (of_nat n)"

definition to_u64 :: "double \<Rightarrow> ulong option" where
  "to_u64 d = (if 0 \<le> d \<and> d < 2 ^ 64 then Some (of_nat (nat \<lfloor>d\<rfloor>)) else None)"

section \<open>The laws of rounding, and what follows from them\<close>

locale rounding =
  fixes rd :: "rat \<Rightarrow> rat"
    and rep :: "rat \<Rightarrow> bool"
  assumes rd_mono: "x \<le> y \<Longrightarrow> rd x \<le> rd y"
    and rd_rep: "rep x \<Longrightarrow> rd x = x"
    and rep_rd: "rep (rd x)"
    and rep_int: "\<bar>n\<bar> \<le> 2 ^ 53 \<Longrightarrow> rep (of_int n)"
    and rep_double: "rep x \<Longrightarrow> rep (2 * x)"
    and rep_halve: "rep x \<Longrightarrow> rep (x / 2)"
begin

lemma rep_0: "rep 0" and rep_1: "rep 1"
  using rep_int [of 0] rep_int [of 1] by simp_all

lemma rd_idem: "rd (rd x) = rd x"
  by (rule rd_rep [OF rep_rd])

lemma rd_0: "rd 0 = 0"
  by (rule rd_rep [OF rep_0])

lemma rd_nonneg: "0 \<le> x \<Longrightarrow> 0 \<le> rd x"
  using rd_mono [of 0 x] by (simp add: rd_0)

lemma rd_le: "rep y \<Longrightarrow> x \<le> y \<Longrightarrow> rd x \<le> y"
  using rd_mono [of x y] by (simp add: rd_rep)

lemma rd_ge: "rep x \<Longrightarrow> x \<le> y \<Longrightarrow> x \<le> rd y"
  using rd_mono [of x y] by (simp add: rd_rep)

text \<open>The computed average of two representable numbers lies between them.\<close>

lemma average_between:
  assumes "rep x" and "rep y" and "x \<le> y"
  shows "x \<le> rd (rd (x + y) / 2) \<and> rd (rd (x + y) / 2) \<le> y"
proof -
  have "2 * x \<le> rd (x + y)" using assms by (intro rd_ge rep_double) auto
  moreover have "rd (x + y) \<le> 2 * y" using assms by (intro rd_le rep_double) auto
  ultimately show ?thesis using assms by (intro conjI rd_ge rd_le) auto
qed

text \<open>A computed fraction lies in the unit interval; a computed multiple is not smaller.\<close>

lemma fraction_unit:
  assumes "0 \<le> a" and "a \<le> b"
  shows "0 \<le> rd (a / b) \<and> rd (a / b) \<le> 1"
  using assms by (intro conjI rd_nonneg rd_le rep_1) (auto simp: divide_le_eq)

lemma fraction_half:
  assumes "0 \<le> a" and "2 * a \<le> b"
  shows "rd (a / b) \<le> 1 / 2"
  using rep_halve [OF rep_1] by (rule rd_le) (use assms in \<open>auto simp: divide_le_eq\<close>)

lemma multiple_ge:
  assumes "rep x" and "0 \<le> x" and "1 \<le> c"
  shows "x \<le> rd (c * x)"
  using assms by (intro rd_ge) (auto simp: mult_le_cancel_right1)

end

section \<open>Binary64 provides them\<close>

lemma round_half_even_int [simp]: "round_half_even (of_int n) = n"
  by (simp add: round_half_even_def)

lemma round_half_even_bounds: "\<lfloor>x\<rfloor> \<le> round_half_even x" "round_half_even x \<le> \<lfloor>x\<rfloor> + 1"
  by (auto simp: round_half_even_def Let_def)

lemma round_half_even_mono:
  assumes "x \<le> y"
  shows "round_half_even x \<le> round_half_even y"
proof (cases "\<lfloor>x\<rfloor> = \<lfloor>y\<rfloor>")
  case True
  then show ?thesis using assms by (auto simp: round_half_even_def Let_def)
next
  case False
  then have "\<lfloor>x\<rfloor> + 1 \<le> \<lfloor>y\<rfloor>" using floor_mono [OF assms] by simp
  then show ?thesis using round_half_even_bounds [of x] round_half_even_bounds [of y] by linarith
qed

lemma powi_Suc2: "(2::rat) powi (e + 1) = 2 * 2 powi e"
  by (simp add: power_int_add)

lemma powi_diff1: "(2::rat) powi (e - 1) = 2 powi e / 2"
  by (simp add: power_int_diff)

lemma expo_bounds: "0 < x \<Longrightarrow> 2 powi expo x \<le> x \<and> x < 2 * 2 powi expo x"
proof (induction x rule: expo.induct)
  case (1 x)
  consider "2 \<le> x" | "0 < x \<and> x < 1" | "1 \<le> x \<and> x < 2" using "1.prems" by linarith
  then show ?case
  proof cases
    case 1
    then have "expo x = expo (x / 2) + 1" by (simp add: expo.simps [of x])
    moreover have "2 powi expo (x / 2) \<le> x / 2 \<and> x / 2 < 2 * 2 powi expo (x / 2)"
      using "1.IH"(1) 1 by simp
    ultimately show ?thesis by (simp add: powi_Suc2)
  next
    case 2
    then have "expo x = expo (2 * x) - 1" by (simp add: expo.simps [of x])
    moreover have "2 powi expo (2 * x) \<le> 2 * x \<and> 2 * x < 2 * 2 powi expo (2 * x)"
      using "1.IH"(2) 2 by simp
    ultimately show ?thesis by (simp add: powi_diff1)
  next
    case 3
    then show ?thesis by (simp add: expo.simps [of x])
  qed
qed

lemma expo_unique:
  assumes "2 powi e \<le> x" and "x < 2 * 2 powi e"
  shows "expo x = e"
proof -
  have "(0::rat) < 2 powi e" by simp
  then have "0 < x" using assms(1) by linarith
  note b = expo_bounds [OF this]
  have "(2::rat) powi e < 2 powi (expo x + 1)" "(2::rat) powi expo x < 2 powi (e + 1)"
    using assms b by (auto simp: powi_Suc2)
  then have "e < expo x + 1" "expo x < e + 1"
    by (metis not_less power_int_increasing one_le_numeral)+
  then show ?thesis by simp
qed

text \<open>Evaluating a rounding whose binary exponent is known.\<close>

lemma round_half_even_near:
  assumes "\<bar>x - of_int n\<bar> < 1 / 2"
  shows "round_half_even x = n"
proof (cases "of_int n \<le> x")
  case True
  then have "\<lfloor>x\<rfloor> = n" using assms by (intro floor_unique) linarith+
  then show ?thesis using assms True by (simp add: round_half_even_def Let_def)
next
  case False
  then have f: "\<lfloor>x\<rfloor> = n - 1" using assms by (intro floor_unique) linarith+
  then show ?thesis using assms False by (simp add: round_half_even_def Let_def)
qed

lemma rnd_value:
  assumes "2 powi e \<le> x" and "x < 2 * 2 powi e" and "\<bar>x / 2 powi (e - 52) - of_int n\<bar> < 1 / 2"
  shows "rnd x = of_int n * 2 powi (e - 52)"
proof -
  have "(0::rat) < 2 powi e" by simp
  then have "0 < x" using assms(1) by linarith
  then show ?thesis
    using expo_unique [OF assms(1,2)] round_half_even_near [OF assms(3)] by (simp add: rnd_def rnd_at_def)
qed

lemma expo_mono:
  assumes "0 < x" and "x \<le> y"
  shows "expo x \<le> expo y"
proof -
  have "(2::rat) powi expo x < 2 powi (expo y + 1)"
    using expo_bounds [of x] expo_bounds [of y] assms by (simp add: powi_Suc2)
  then have "expo x < expo y + 1"
    by (metis not_less power_int_increasing one_le_numeral)
  then show ?thesis by simp
qed

lemma rnd_at_mono: "x \<le> y \<Longrightarrow> rnd_at e x \<le> rnd_at e y"
  by (simp add: rnd_at_def round_half_even_mono divide_right_mono)

text \<open>A multiple of the unit in the last place is left alone.\<close>

lemma rnd_at_multiple: "e - 52 \<le> k \<Longrightarrow> rnd_at e (of_int m * 2 powi k) = of_int m * 2 powi k"
proof -
  assume "e - 52 \<le> k"
  then obtain n where n: "k = e - 52 + int n" by (metis zle_iff_zadd)
  then have "(2::rat) powi k = 2 powi (e - 52) * 2 ^ n"
    by (simp add: power_int_add)
  then have q: "of_int m * (2::rat) powi k / 2 powi (e - 52) = of_int (m * 2 ^ n)"
    by simp
  show ?thesis
    unfolding rnd_at_def q round_half_even_int by (simp add: n power_int_add)
qed

lemma rnd_at_binade:
  assumes "2 powi e \<le> x" and "x \<le> 2 * 2 powi e"
  shows "2 powi e \<le> rnd_at e x \<and> rnd_at e x \<le> 2 * 2 powi e"
proof -
  have "rnd_at e (2 powi e) = 2 powi e" "rnd_at e (2 * 2 powi e) = 2 * 2 powi e"
    using rnd_at_multiple [of e e 1] rnd_at_multiple [of e e 2] by simp_all
  then show ?thesis using rnd_at_mono [OF assms(1), of e] rnd_at_mono [OF assms(2), of e] by simp
qed

lemma rnd_at_binade_neg:
  assumes "2 powi e \<le> - x" and "- x \<le> 2 * 2 powi e"
  shows "- (2 * 2 powi e) \<le> rnd_at e x \<and> rnd_at e x \<le> - (2 powi e)"
proof -
  have "rnd_at e (- (2 powi e)) = - (2 powi e)" "rnd_at e (- (2 * 2 powi e)) = - (2 * 2 powi e)"
    using rnd_at_multiple [of e e "-1"] rnd_at_multiple [of e e "-2"] by simp_all
  then show ?thesis
    using rnd_at_mono [of x "- (2 powi e)" e] rnd_at_mono [of "- (2 * 2 powi e)" x e] assms by simp
qed

lemma rnd_pos: "0 < x \<Longrightarrow> 2 powi expo x \<le> rnd x \<and> rnd x \<le> 2 * 2 powi expo x"
  using expo_bounds [of x] by (auto simp: rnd_def intro!: rnd_at_binade)

lemma rnd_neg: "x < 0 \<Longrightarrow> - (2 * 2 powi expo (- x)) \<le> rnd x \<and> rnd x \<le> - (2 powi expo (- x))"
  using expo_bounds [of "- x"] rnd_at_binade_neg [of "expo (- x)" x] by (auto simp: rnd_def)

lemma powi_step: "e < e' \<Longrightarrow> 2 * (2::rat) powi e \<le> 2 powi e'"
  using power_int_increasing [of "e + 1" e' "2::rat"] by (simp add: powi_Suc2)

lemma rnd_mono:
  assumes "x \<le> y"
  shows "rnd x \<le> rnd y"
proof -
  have pw: "(0::rat) < 2 powi e" for e by simp
  consider "x = y" | "0 < x" "x < y" | "x < 0" "0 < y" | "x = 0" "0 < y" | "x < 0" "y = 0"
    | "y < 0" "x < y" using assms by linarith
  then show ?thesis
  proof cases
    case 2
    show ?thesis
    proof (cases "expo x = expo y")
      case True
      with 2 show ?thesis by (simp add: rnd_def rnd_at_mono)
    next
      case False
      with 2 expo_mono [of x y] have "2 * (2::rat) powi expo x \<le> 2 powi expo y"
        by (intro powi_step) simp
      with 2 rnd_pos [of x] rnd_pos [of y] show ?thesis by linarith
    qed
  next
    case 3
    with rnd_neg [of x] rnd_pos [of y] pw [of "expo (- x)"] pw [of "expo y"] show ?thesis by linarith
  next
    case 4
    with rnd_pos [of y] pw [of "expo y"] show ?thesis by (simp add: rnd_def)
  next
    case 5
    with rnd_neg [of x] pw [of "expo (- x)"] show ?thesis by (simp add: rnd_def)
  next
    case 6
    show ?thesis
    proof (cases "expo (- x) = expo (- y)")
      case True
      with 6 show ?thesis by (simp add: rnd_def rnd_at_mono)
    next
      case False
      with 6 expo_mono [of "- y" "- x"] have "2 * (2::rat) powi expo (- y) \<le> 2 powi expo (- x)"
        by (intro powi_step) simp
      with 6 rnd_neg [of x] rnd_neg [of y] show ?thesis by linarith
    qed
  qed simp
qed

lemma rnd_is_double:
  assumes "is_double x"
  shows "rnd x = x"
proof (cases "x = 0")
  case False
  from assms obtain m e where m: "x = of_int m * 2 powi e" "\<bar>m\<bar> \<le> 2 ^ 53"
    by (auto simp: is_double_def)
  let ?e = "expo \<bar>x\<bar>"
  have b: "2 powi ?e \<le> \<bar>x\<bar>" using expo_bounds [of "\<bar>x\<bar>"] False by simp
  show ?thesis
  proof (cases "?e - 52 \<le> e")
    case True
    with m False rnd_at_multiple [of ?e e m] show ?thesis by (simp add: rnd_def)
  next
    case False
    have "\<bar>x\<bar> = of_int \<bar>m\<bar> * 2 powi e" using m(1) by (simp add: abs_mult)
    also have "\<dots> \<le> of_int (2 ^ 53) * 2 powi e"
      using m(2) by (intro mult_right_mono) (simp_all only: of_int_le_iff, simp)
    also have "\<dots> = 2 powi (e + 53)" by (simp add: power_int_add)
    also have "\<dots> \<le> 2 powi ?e" using False by (intro power_int_increasing) auto
    finally have "\<bar>x\<bar> = 2 powi ?e" using b by simp
    then have "x = of_int 1 * 2 powi ?e \<or> x = of_int (-1) * 2 powi ?e"
      by (cases "0 \<le> x") auto
    then have "rnd_at ?e x = x"
      using rnd_at_multiple [of ?e ?e 1] rnd_at_multiple [of ?e ?e "-1"] by auto
    then show ?thesis using \<open>x \<noteq> 0\<close> by (simp add: rnd_def)
  qed
qed (simp add: rnd_def)

lemma is_double_rnd: "is_double (rnd x)"
proof (cases "x = 0")
  case True
  then show ?thesis by (auto simp: rnd_def is_double_def intro: exI [of _ 0])
next
  case False
  let ?e = "expo \<bar>x\<bar>" and ?r = "round_half_even (x / 2 powi (expo \<bar>x\<bar> - 52))"
  have r: "rnd x = of_int ?r * 2 powi (?e - 52)" using False by (simp add: rnd_def rnd_at_def)
  have p: "(0::rat) < 2 powi (?e - 52)" by simp
  have "\<bar>rnd x\<bar> \<le> 2 * 2 powi ?e"
  proof (cases "0 < x")
    case True
    have "(0::rat) < 2 powi expo x" by simp
    with rnd_pos [OF True] True show ?thesis by simp
  next
    case neg: False
    have "(0::rat) < 2 powi expo (- x)" by simp
    with rnd_neg [of x] neg False show ?thesis by simp
  qed
  also have "2 * (2::rat) powi ?e = 2 ^ 53 * 2 powi (?e - 52)"
    by (simp add: power_int_diff)
  finally have "of_int \<bar>?r\<bar> * 2 powi (?e - 52) \<le> of_int (2 ^ 53) * (2::rat) powi (?e - 52)"
    unfolding r by (simp add: abs_mult)
  then have "\<bar>?r\<bar> \<le> 2 ^ 53"
    using p by (simp only: mult_le_cancel_right_pos of_int_le_iff)
  with r show ?thesis unfolding is_double_def by blast
qed

interpretation binary64: rounding rnd is_double
proof
  fix x y :: rat and n :: int
  show "x \<le> y \<Longrightarrow> rnd x \<le> rnd y" by (rule rnd_mono)
  show "is_double x \<Longrightarrow> rnd x = x" by (rule rnd_is_double)
  show "is_double (rnd x)" by (rule is_double_rnd)
  show "\<bar>n\<bar> \<le> 2 ^ 53 \<Longrightarrow> is_double (of_int n)"
    unfolding is_double_def by (intro exI [of _ n] exI [of _ 0]) simp
  show "is_double (2 * x)" if "is_double x"
  proof -
    from that obtain m e where "x = of_int m * 2 powi e" "\<bar>m\<bar> \<le> 2 ^ 53"
      by (auto simp: is_double_def)
    then show ?thesis unfolding is_double_def
      by (intro exI [of _ m] exI [of _ "e + 1"]) (simp add: powi_Suc2)
  qed
  show "is_double (x / 2)" if "is_double x"
  proof -
    from that obtain m e where "x = of_int m * 2 powi e" "\<bar>m\<bar> \<le> 2 ^ 53"
      by (auto simp: is_double_def)
    then show ?thesis unfolding is_double_def
      by (intro exI [of _ m] exI [of _ "e - 1"]) (simp add: powi_diff1)
  qed
qed

section \<open>The operations in terms of the laws\<close>

lemmas d_ops = dadd_def dsub_def dmul_def ddiv_def double_of_def

lemma is_double_ops [simp]:
  "is_double (dadd x y)" "is_double (dsub x y)" "is_double (dmul x y)" "is_double (ddiv x y)"
  "is_double (double_of n)"
  by (simp_all add: d_ops is_double_rnd)

lemma is_double_numeral [simp]: "is_double 0" "is_double 1" "is_double 2" "is_double 10"
  "is_double 100" "is_double 1000"
  using binary64.rep_int [of 0] binary64.rep_int [of 1] binary64.rep_int [of 2]
    binary64.rep_int [of 10] binary64.rep_int [of 100] binary64.rep_int [of 1000] by simp_all

text \<open>Integers up to \<open>2^53\<close> convert exactly; beyond that the conversion is still monotone.\<close>

lemma double_of_exact: "n \<le> 2 ^ 53 \<Longrightarrow> double_of n = of_nat n"
  using rnd_is_double [OF binary64.rep_int [of "int n"]] by (simp add: double_of_def)

lemma double_of_mono: "m \<le> n \<Longrightarrow> double_of m \<le> double_of n"
  by (simp add: double_of_def rnd_mono)

lemma double_of_nonneg: "0 \<le> double_of n"
  by (simp add: double_of_def binary64.rd_nonneg)

lemma ddiv_mono: "x \<le> y \<Longrightarrow> 0 \<le> c \<Longrightarrow> ddiv x c \<le> ddiv y c"
  by (simp add: ddiv_def rnd_mono divide_right_mono)

lemma ddiv_nonneg: "0 \<le> x \<Longrightarrow> 0 \<le> c \<Longrightarrow> 0 \<le> ddiv x c"
  by (simp add: ddiv_def binary64.rd_nonneg)

lemma dsub_self_nonneg: "y \<le> x \<Longrightarrow> 0 \<le> dsub x y"
  by (simp add: dsub_def binary64.rd_nonneg)

lemma dadd_mono: "x \<le> x' \<Longrightarrow> y \<le> y' \<Longrightarrow> dadd x y \<le> dadd x' y'"
  by (simp add: dadd_def rnd_mono)

end
