(* ===== verification/Stats.thy ===== *)
theory Stats
  imports Double
begin

text \<open>
  The order statistics every measurement program computes: \<open>qsort\<close> with a three-way comparison, the
  medians of \<open>week1/src/nullcall.c\<close> and \<open>week5/src/analyze.c\<close>, and the spread. The C standard promises
  of \<open>qsort\<close> only a sorted rearrangement; that promise is the interface \<open>sorter\<close>, and the clients'
  lemmas rest on it alone.
\<close>

section \<open>Sorting by a comparison function\<close>

fun insert_cmp :: "('a \<Rightarrow> 'a \<Rightarrow> int) \<Rightarrow> 'a \<Rightarrow> 'a list \<Rightarrow> 'a list" where
  "insert_cmp cmp x [] = [x]"
| "insert_cmp cmp x (y # ys) = (if cmp x y \<le> 0 then x # y # ys else y # insert_cmp cmp x ys)"

fun qsort :: "('a \<Rightarrow> 'a \<Rightarrow> int) \<Rightarrow> 'a list \<Rightarrow> 'a list" where
  "qsort cmp [] = []"
| "qsort cmp (x # xs) = insert_cmp cmp x (qsort cmp xs)"

lemma mset_insert_cmp: "mset (insert_cmp cmp x xs) = add_mset x (mset xs)"
  by (induction xs) auto

lemma mset_qsort: "mset (qsort cmp xs) = mset xs"
  by (induction xs) (auto simp: mset_insert_cmp)

lemma set_insert_cmp: "set (insert_cmp cmp x xs) = insert x (set xs)"
  by (metis mset_insert_cmp set_mset_mset set_mset_add_mset_insert)

text \<open>What a comparison function must satisfy for \<open>qsort\<close> to be defined.\<close>

definition cmp_ok :: "('a \<Rightarrow> 'a \<Rightarrow> int) \<Rightarrow> bool" where
  "cmp_ok cmp \<longleftrightarrow> (\<forall>x y. cmp x y \<le> 0 \<or> cmp y x \<le> 0) \<and>
     (\<forall>x y z. cmp x y \<le> 0 \<longrightarrow> cmp y z \<le> 0 \<longrightarrow> cmp x z \<le> 0)"

lemma sorted_insert_cmp:
  "cmp_ok cmp \<Longrightarrow> sorted_wrt (\<lambda>x y. cmp x y \<le> 0) xs \<Longrightarrow>
     sorted_wrt (\<lambda>x y. cmp x y \<le> 0) (insert_cmp cmp x xs)"
proof (induction xs)
  case (Cons y ys)
  then have c: "cmp a b \<le> 0 \<or> cmp b a \<le> 0" "cmp a b \<le> 0 \<Longrightarrow> cmp b d \<le> 0 \<Longrightarrow> cmp a d \<le> 0" for a b d
    unfolding cmp_ok_def by blast+
  show ?case
  proof (cases "cmp x y \<le> 0")
    case True
    then show ?thesis using Cons.prems(2) c(2) [OF True] by simp
  next
    case False
    then have "cmp y x \<le> 0" using c(1) [of x y] by simp
    with False Cons show ?thesis by (simp add: set_insert_cmp)
  qed
qed simp

lemma sorted_qsort: "cmp_ok cmp \<Longrightarrow> sorted_wrt (\<lambda>x y. cmp x y \<le> 0) (qsort cmp xs)"
  by (induction xs) (auto intro: sorted_insert_cmp)

text \<open>The promise of the standard library, for one comparison function.\<close>

locale sorter =
  fixes cmp :: "'a \<Rightarrow> 'a \<Rightarrow> int"
    and srt :: "'a list \<Rightarrow> 'a list"
  assumes srt_perm: "mset (srt xs) = mset xs"
    and srt_sorted: "sorted_wrt (\<lambda>x y. cmp x y \<le> 0) (srt xs)"
begin

lemma length_srt [simp]: "length (srt xs) = length xs"
  by (metis srt_perm size_mset)

lemma set_srt [simp]: "set (srt xs) = set xs"
  by (metis srt_perm set_mset_mset)

text \<open>When the comparison is that of a key in a linear order, the keys come out in ascending order.\<close>

lemma sorted_keys: "(\<And>x y. cmp x y \<le> 0 \<longleftrightarrow> (key x :: 'k::linorder) \<le> key y) \<Longrightarrow> sorted (map key (srt xs))"
  using srt_sorted [of xs] by (simp add: sorted_wrt_map)

end

section \<open>Doubles\<close>

text \<open>\<open>cmp_double\<close> of weeks 1, 3, 4 and 5, and \<open>compare_double\<close> of \<open>analyze.c\<close>.\<close>

definition cmp_double :: "double \<Rightarrow> double \<Rightarrow> int" where
  "cmp_double x y = c_bool (x > y) - c_bool (x < y)"

definition compare_double :: "double \<Rightarrow> double \<Rightarrow> int" where
  "compare_double l r = (if l < r then -1 else if l > r then 1 else 0)"

lemma compare_double_eq: "compare_double = cmp_double"
  by (auto simp: compare_double_def cmp_double_def fun_eq_iff)

lemma cmp_double_le: "cmp_double x y \<le> 0 \<longleftrightarrow> x \<le> y"
  by (auto simp: cmp_double_def)

lemma cmp_double_ok: "cmp_ok cmp_double"
  by (auto simp: cmp_ok_def cmp_double_le)

interpretation dsort: sorter cmp_double "qsort cmp_double"
  by unfold_locales (simp_all add: mset_qsort sorted_qsort cmp_double_ok)

lemma sorted_qsort_double: "sorted (qsort cmp_double xs)"
  using dsort.sorted_keys [of id xs] by (simp add: cmp_double_le)

text \<open>On doubles the order leaves no choice: any correct \<open>qsort\<close> returns the same array.\<close>

lemma qsort_double_sort: "qsort cmp_double xs = sort xs"
  by (rule properties_for_sort [symmetric]) (simp_all add: mset_qsort sorted_qsort_double)

section \<open>Median and spread\<close>

text \<open>
  The middle of a sorted array. An index before the array (\<open>n = 0\<close>) is undefined behaviour: \<open>None\<close>.
\<close>

definition middle :: "double list \<Rightarrow> double option" where
  "middle s = (let n = length s in
     if n = 0 then None
     else if n mod 2 = 1 then Some (s ! (n div 2))
     else Some (ddiv (dadd (s ! (n div 2 - 1)) (s ! (n div 2))) 2))"

text \<open>\<open>median_of\<close> sorts a copy; week 1's \<open>median\<close> sorts its argument in place and leaves it sorted.\<close>

definition median_of :: "double list \<Rightarrow> double option" where
  "median_of v = middle (qsort compare_double v)"

definition median :: "double list \<Rightarrow> (double \<times> double list) option" where
  "median v = (let v = qsort cmp_double v in map_option (\<lambda>m. (m, v)) (middle v))"

fun spread_loop :: "double \<Rightarrow> double \<Rightarrow> double list \<Rightarrow> double \<times> double" where
  "spread_loop minimum maximum [] = (minimum, maximum)"
| "spread_loop minimum maximum (x # xs) =
     spread_loop (if x < minimum then x else minimum) (if x > maximum then x else maximum) xs"

definition spread_of :: "double list \<Rightarrow> double option" where
  "spread_of v = (case v of [] \<Rightarrow> None
     | x # xs \<Rightarrow> let (minimum, maximum) = spread_loop x x xs in Some (dsub maximum minimum))"

lemma spread_loop_eq: "spread_loop lo hi xs = (fold min xs lo, fold max xs hi)"
  by (induction xs arbitrary: lo hi) (auto simp: min_def max_def)

lemma spread_of_eq:
  assumes "v \<noteq> []"
  shows "spread_of v = Some (dsub (Max (set v)) (Min (set v)))"
  using assms by (cases v) (simp_all add: spread_of_def spread_loop_eq del: list.set flip: Max.set_eq_fold Min.set_eq_fold)

lemma median_of_Some: "v \<noteq> [] \<Longrightarrow> \<exists>m. median_of v = Some m"
  by (auto simp: median_of_def middle_def Let_def compare_double_eq simp flip: length_greater_0_conv)

text \<open>Half of a sorted array is below its middle element and half above.\<close>

lemma sorted_count_le:
  assumes "sorted xs" and "i < length xs" and "xs ! i \<le> (m :: 'a::linorder)"
  shows "Suc i \<le> length (filter (\<lambda>x. x \<le> m) xs)"
proof -
  have "x \<le> m" if x: "x \<in> set (take (Suc i) xs)" for x
  proof -
    obtain j where "j \<le> i" "x = xs ! j" using x assms(2) by (auto simp: in_set_conv_nth less_Suc_eq_le)
    then show ?thesis using sorted_nth_mono [OF assms(1), of j i] assms(2,3) by simp
  qed
  then have "length (filter (\<lambda>x. x \<le> m) (take (Suc i) xs)) = Suc i"
    using assms(2) by (simp add: filter_id_conv [THEN iffD2])
  then show ?thesis
    by (metis append_take_drop_id filter_append le_add1 length_append)
qed

lemma sorted_count_ge:
  assumes "sorted xs" and "i < length xs" and "(m :: 'a::linorder) \<le> xs ! i"
  shows "length xs - i \<le> length (filter (\<lambda>x. m \<le> x) xs)"
proof -
  have "m \<le> x" if x: "x \<in> set (drop i xs)" for x
  proof -
    obtain j where "j < length xs - i" "x = xs ! (i + j)" using x by (auto simp: in_set_conv_nth)
    then show ?thesis using sorted_nth_mono [OF assms(1), of i "i + j"] assms(2,3)
      by (simp add: less_diff_conv add.commute)
  qed
  then have "length (filter (\<lambda>x. m \<le> x) (drop i xs)) = length xs - i"
    by (simp add: filter_id_conv [THEN iffD2])
  then show ?thesis
    by (metis append_take_drop_id filter_append le_add2 length_append)
qed

lemma length_filter_qsort: "length (filter P (qsort cmp xs)) = length (filter P xs)"
  by (metis mset_filter mset_qsort size_mset)

text \<open>The middle of a sorted array of doubles is squeezed between two of its elements.\<close>

lemma middle_between:
  assumes "sorted s" and "\<forall>x\<in>set s. is_double x" and "middle s = Some m"
  shows "\<exists>i j. i \<le> j \<and> j < length s \<and> s ! i \<le> m \<and> m \<le> s ! j \<and>
    length s \<le> 2 * Suc i \<and> length s \<le> 2 * (length s - j)"
proof -
  let ?n = "length s"
  have n: "0 < ?n" using assms(3) by (auto simp: middle_def)
  show ?thesis
  proof (cases "?n mod 2 = 1")
    case True
    then have "m = s ! (?n div 2)" using assms(3) n by (simp add: middle_def)
    moreover have "2 * (?n div 2) + 1 = ?n" using True by presburger
    ultimately show ?thesis using n by (intro exI [of _ "?n div 2"] conjI) auto
  next
    case False
    let ?i = "?n div 2 - 1" and ?j = "?n div 2"
    have e: "?n = 2 * ?j" "0 < ?j" using False n by presburger+
    have "s ! ?i \<le> s ! ?j" using assms(1) e by (intro sorted_nth_mono) auto
    moreover have "is_double (s ! ?i)" "is_double (s ! ?j)" using assms(2) e by auto
    moreover have "m = rnd (rnd (s ! ?i + s ! ?j) / 2)"
      using assms(3) False n by (simp add: middle_def ddiv_def dadd_def Let_def split: if_splits)
    ultimately have "s ! ?i \<le> m \<and> m \<le> s ! ?j"
      using binary64.average_between by blast
    then show ?thesis using e by (intro exI [of _ ?i] exI [of _ ?j] conjI) auto
  qed
qed

lemma middle_is_double:
  assumes "\<forall>x\<in>set s. is_double x" and "middle s = Some m"
  shows "is_double m"
  using assms by (auto simp: middle_def Let_def split: if_splits)

lemma set_qsort_double [simp]: "set (qsort cmp_double v) = set v"
  by (rule dsort.set_srt)

lemma median_of_is_double: "\<forall>x\<in>set v. is_double x \<Longrightarrow> median_of v = Some m \<Longrightarrow> is_double m"
  by (rule middle_is_double [of "qsort cmp_double v"]) (simp_all add: median_of_def compare_double_eq)

lemma median_of_split:
  assumes "\<forall>x\<in>set v. is_double x" and "median_of v = Some m"
  shows "length v \<le> 2 * length (filter (\<lambda>x. x \<le> m) v)"
    and "length v \<le> 2 * length (filter (\<lambda>x. m \<le> x) v)"
proof -
  let ?s = "qsort cmp_double v"
  obtain i j where ij: "i \<le> j" "j < length ?s" "?s ! i \<le> m" "m \<le> ?s ! j"
    "length ?s \<le> 2 * Suc i" "length ?s \<le> 2 * (length ?s - j)"
    using middle_between [OF sorted_qsort_double [of v]] assms
    by (auto simp: median_of_def compare_double_eq)
  have "Suc i \<le> length (filter (\<lambda>x. x \<le> m) ?s)" "length ?s - j \<le> length (filter (\<lambda>x. m \<le> x) ?s)"
    using ij sorted_count_le [OF sorted_qsort_double] sorted_count_ge [OF sorted_qsort_double] by auto
  then show "length v \<le> 2 * length (filter (\<lambda>x. x \<le> m) v)"
    and "length v \<le> 2 * length (filter (\<lambda>x. m \<le> x) v)"
    using ij by (simp_all add: length_filter_qsort)
qed

lemma median_of_range:
  assumes "\<forall>x\<in>set v. is_double x" and "median_of v = Some m"
  shows "Min (set v) \<le> m \<and> m \<le> Max (set v)"
proof -
  let ?s = "qsort cmp_double v"
  obtain i j where ij: "i \<le> j" "j < length ?s" "?s ! i \<le> m" "m \<le> ?s ! j"
    using middle_between [OF sorted_qsort_double [of v]] assms
    by (auto simp: median_of_def compare_double_eq)
  then have "?s ! i \<in> set v" "?s ! j \<in> set v"
    by (metis dsort.set_srt nth_mem order.strict_trans1)+
  then show ?thesis using ij(3,4)
    by (meson List.finite_set Max_ge Min_le order_trans)
qed

text \<open>\<open>m\<close> has half of \<open>v\<close> on either side and \<open>d\<close> is the distance of the extremes.\<close>

definition median_spread :: "double list \<Rightarrow> double \<Rightarrow> double \<Rightarrow> bool" where
  "median_spread v m d \<longleftrightarrow> length v \<le> 2 * length (filter (\<lambda>x. x \<le> m) v) \<and> length v \<le> 2 * length (filter (\<lambda>x. m \<le> x) v) \<and>
     Min (set v) \<le> m \<and> m \<le> Max (set v) \<and> d = dsub (Max (set v)) (Min (set v))"

lemma sorted_ends:
  fixes s :: "'a::linorder list"
  assumes "sorted s" and "s \<noteq> []"
  shows "s ! (length s - 1) = Max (set s)" and "s ! 0 = Min (set s)"
proof -
  have l: "0 < length s" using assms(2) by simp
  have "x \<le> s ! (length s - 1)" "s ! 0 \<le> x" if x: "x \<in> set s" for x
  proof -
    obtain i where "i < length s" "x = s ! i" using x by (auto simp: in_set_conv_nth)
    then show "x \<le> s ! (length s - 1)" "s ! 0 \<le> x" using assms(1) by (auto intro!: sorted_nth_mono)
  qed
  then show "s ! (length s - 1) = Max (set s)" "s ! 0 = Min (set s)"
    using l by (auto intro!: Max_eqI [symmetric] Min_eqI [symmetric])
qed

lemma median_facts:
  assumes "median v = Some (m, s)" and "\<forall>x\<in>set v. is_double x"
  shows "median_spread v m (dsub (s ! (length v - 1)) (s ! 0))"
proof -
  have s: "s = qsort cmp_double v" and m: "median_of v = Some m"
    using assms(1) by (auto simp: median_def median_of_def compare_double_eq Let_def)
  then have "v \<noteq> []" by (auto simp: median_of_def middle_def)
  then have "qsort cmp_double v \<noteq> []" by (metis mset_qsort mset_zero_iff)
  then have "s ! (length v - 1) = Max (set v)" "s ! 0 = Min (set v)"
    using sorted_ends [OF sorted_qsort_double, of v] unfolding s by (simp_all add: dsort.length_srt)
  then show ?thesis
    using median_of_split [OF assms(2) m] median_of_range [OF assms(2) m] by (simp add: median_spread_def)
qed

text \<open>
  The median in full: the middle element of the sorted values, or, when their number is even, the average of the two in
  the middle, in binary64; and a summary that has it.
\<close>

definition the_median :: "double list \<Rightarrow> double" where
  "the_median v = (let s = sort v; k = length v div 2 in
     if odd (length v) then s ! k else ddiv (dadd (s ! (k - 1)) (s ! k)) 2)"

definition summed_up :: "double list \<Rightarrow> double \<Rightarrow> double \<Rightarrow> bool" where
  "summed_up v m d \<longleftrightarrow> m = the_median v \<and> median_spread v m d"

lemma middle_exact: "middle (qsort cmp_double v) = Some m \<Longrightarrow> m = the_median v"
  by (auto simp: middle_def the_median_def qsort_double_sort Let_def odd_iff_mod_2_eq_one split: if_splits)

lemma median_sums_up:
  assumes "median v = Some (m, s)" and "\<forall>x\<in>set v. is_double x"
  shows "summed_up v m (dsub (s ! (length v - 1)) (s ! 0))"
  using median_facts [OF assms] middle_exact [of v m] assms(1) by (auto simp: summed_up_def median_def Let_def)

lemma summed_upD: "summed_up v m d \<Longrightarrow> median_spread v m d"
  unfolding summed_up_def by (rule conjunct2)

lemma median_spread_nonneg: "median_spread v m d \<Longrightarrow> v \<noteq> [] \<Longrightarrow> \<forall>x\<in>set v. 0 \<le> x \<Longrightarrow> 0 \<le> m"
  unfolding median_spread_def by (metis List.finite_set Min_in order_trans set_empty)

end
