(* ===== verification/Cstdlib.thy ===== *)
theory Cstdlib
  imports Prelude "HOL-Library.Monad_Syntax"
begin

text \<open>
  The library functions with which the command lines are read: \<open>strtol\<close> in base 10, \<open>atol\<close> and \<open>atoi\<close>, as the C
  standard defines them in the C locale. A \<open>long\<close> is the integer it stands for.
\<close>

section \<open>Definitions\<close>

definition is_space :: "char \<Rightarrow> bool" where
  "is_space c \<longleftrightarrow> of_char c = (32 :: nat) \<or> 9 \<le> (of_char c :: nat) \<and> (of_char c :: nat) \<le> 13"

definition is_digit :: "char \<Rightarrow> bool" where
  "is_digit c \<longleftrightarrow> 48 \<le> (of_char c :: nat) \<and> (of_char c :: nat) \<le> 57"

definition digits_value :: "string \<Rightarrow> int" where
  "digits_value ds = foldl (\<lambda>n c. 10 * n + (of_char c - 48)) 0 ds"

abbreviation LONG_MAX :: int where "LONG_MAX \<equiv> 2 ^ 63 - 1"
abbreviation LONG_MIN :: int where "LONG_MIN \<equiv> - (2 ^ 63)"

definition clamp_long :: "int \<Rightarrow> int" where
  "clamp_long n = max LONG_MIN (min LONG_MAX n)"

text \<open>\<open>strtol(s, &end, 10)\<close>: the value and the string \<open>end\<close> points to.\<close>

fun sign_of :: "string \<Rightarrow> int \<times> string" where
  "sign_of [] = (1, [])"
| "sign_of (c # cs) = (if c = CHR ''-'' then (-1, cs) else if c = CHR ''+'' then (1, cs) else (1, c # cs))"

definition strtol :: "string \<Rightarrow> int \<times> string" where
  "strtol s = (case sign_of (dropWhile is_space s) of (sg, r) \<Rightarrow>
     if takeWhile is_digit r = [] then (0, s)
     else (clamp_long (sg * digits_value (takeWhile is_digit r)), dropWhile is_digit r))"

definition atol :: "string \<Rightarrow> int" where
  "atol s = fst (strtol s)"

text \<open>\<open>atoi\<close>: \<open>None\<close> when the value is not an \<open>int\<close>, which is undefined.\<close>

definition atoi :: "string \<Rightarrow> int option" where
  "atoi s = (let n = fst (strtol s) in if - (2 ^ 31) \<le> n \<and> n < 2 ^ 31 then Some n else None)"

text \<open>The idiom of the programs: the whole argument must be a number.\<close>

definition whole_number :: "string \<Rightarrow> int option" where
  "whole_number a = (case strtol a of (n, end) \<Rightarrow> if end = a \<or> end \<noteq> [] then None else Some n)"

section \<open>Numbers as they are printed\<close>

fun show_nat :: "nat \<Rightarrow> string" where
  "show_nat n = (if n < 10 then [char_of (48 + n)] else show_nat (n div 10) @ [char_of (48 + n mod 10)])"

declare show_nat.simps [simp del]

lemma show_nat_digits: "show_nat n \<noteq> [] \<and> list_all is_digit (show_nat n)"
proof (induction n rule: show_nat.induct)
  case (1 n)
  have d: "is_digit (char_of (48 + k :: nat))" if "k < 10" for k
    using that by (simp add: is_digit_def)
  show ?case using 1 d by (subst (1 2) show_nat.simps) simp
qed

lemma digits_value_show: "digits_value (show_nat n) = int n"
proof (induction n rule: show_nat.induct)
  case (1 n)
  have d: "(of_char (char_of (48 + k :: nat)) :: int) = 48 + int k" if "k < 10" for k
    using that of_nat_of_char [of "char_of (48 + k :: nat)", where 'a = int] by simp
  show ?case
  proof (cases "n < 10")
    case True
    then show ?thesis using d by (simp add: show_nat.simps [of n] digits_value_def)
  next
    case False
    then have "digits_value (show_nat n) = 10 * digits_value (show_nat (n div 10)) + int (n mod 10)"
      using d [of "n mod 10"] by (simp add: show_nat.simps [of n] digits_value_def)
    moreover have "int n = 10 * int (n div 10) + int (n mod 10)"
      by (metis mult_div_mod_eq of_nat_add of_nat_mult of_nat_numeral)
    ultimately show ?thesis using False 1 by simp
  qed
qed

text \<open>Reading back what was printed.\<close>

lemma whole_number_show: "int n \<le> LONG_MAX \<Longrightarrow> whole_number (show_nat n) = Some (int n)"
proof -
  assume n: "int n \<le> LONG_MAX"
  have d: "show_nat n \<noteq> []" "list_all is_digit (show_nat n)" using show_nat_digits by blast+
  obtain c cs where c: "show_nat n = c # cs" using d(1) by (cases "show_nat n") auto
  then have "is_digit c" using d(2) by simp
  then have "\<not> is_space c" "c \<noteq> CHR ''-''" "c \<noteq> CHR ''+''" by (auto simp: is_digit_def is_space_def)
  then have s: "sign_of (dropWhile is_space (show_nat n)) = (1, show_nat n)" by (simp add: c)
  have w: "takeWhile is_digit (show_nat n) = show_nat n" "dropWhile is_digit (show_nat n) = []"
    using d(2) by (auto simp: list_all_iff)
  have "strtol (show_nat n) = (int n, [])"
    unfolding strtol_def s prod.case w digits_value_show using d(1) n by (simp add: clamp_long_def)
  then show ?thesis using d(1) by (simp add: whole_number_def)
qed

end
