(* ===== verification/Nullcall.thy ===== *)
theory Nullcall
  imports Stats Cstdlib
begin

text \<open>
  The syscall profiler \<open>week1/src/nullcall.c\<close>. Its environment is a parameter: the readings of the monotonic clock before
  and after every loop, and the answers of \<open>getppid\<close>. A \<open>long\<close> is an integer; a result outside its range is signed
  overflow, which is undefined: \<open>None\<close>.
\<close>

section \<open>The program\<close>

definition long :: "int \<Rightarrow> int option" where
  "long n = (if LONG_MIN \<le> n \<and> n \<le> LONG_MAX then Some n else None)"

text \<open>The readings around the \<open>k\<close>-th loop of each kind (0 is the warm-up) and the answers inside the syscall loop.\<close>

record nc_env =
  sys_clock :: "nat \<Rightarrow> timespec \<times> timespec"
  ctl_clock :: "nat \<Rightarrow> timespec \<times> timespec"
  getppid :: "nat \<Rightarrow> nat \<Rightarrow> int"

record nc_state =
  noop_sink :: int
  sink :: int

fun now_ns :: "timespec \<Rightarrow> double" where
  "now_ns (tv_sec, tv_nsec) = dadd (dmul (double_of tv_sec) 1000000000) (double_of tv_nsec)"

text \<open>\<open>noop\<close>: the new value of \<open>noop_sink\<close>, which is also the result.\<close>

definition noop :: "int \<Rightarrow> int option" where
  "noop s = long (s + 1)"

fun syscall_total :: "(nat \<Rightarrow> int) \<Rightarrow> nat \<Rightarrow> nat \<Rightarrow> int \<Rightarrow> int option" where
  "syscall_total ppid 0 i acc = Some acc"
| "syscall_total ppid (Suc n) i acc = do { acc \<leftarrow> long (acc + ppid i); syscall_total ppid n (Suc i) acc }"

fun control_total :: "nat \<Rightarrow> int \<Rightarrow> int \<Rightarrow> (int \<times> int) option" where
  "control_total 0 ns acc = Some (ns, acc)"
| "control_total (Suc n) ns acc = do { ns \<leftarrow> noop ns; acc \<leftarrow> long (acc + ns); control_total n ns acc }"

definition per_call :: "int \<Rightarrow> timespec \<times> timespec \<Rightarrow> double" where
  "per_call iters c = ddiv (dsub (now_ns (snd c)) (now_ns (fst c))) (double_of (nat iters))"

definition time_syscall_loop ::
    "int \<Rightarrow> (nat \<Rightarrow> int) \<Rightarrow> timespec \<times> timespec \<Rightarrow> nc_state \<Rightarrow> (double \<times> nc_state) option" where
  "time_syscall_loop iters ppid c s = do {
     acc \<leftarrow> syscall_total ppid (nat iters) 0 0;
     v \<leftarrow> long (sink s + acc);
     Some (per_call iters c, s\<lparr>sink := v\<rparr>)
   }"

definition time_control_loop :: "int \<Rightarrow> timespec \<times> timespec \<Rightarrow> nc_state \<Rightarrow> (double \<times> nc_state) option" where
  "time_control_loop iters c s = do {
     (ns, acc) \<leftarrow> control_total (nat iters) (noop_sink s) 0;
     v \<leftarrow> long (sink s + acc);
     Some (per_call iters c, s\<lparr>noop_sink := ns, sink := v\<rparr>)
   }"

text \<open>The trials, of which \<open>n\<close> are left and the next has number \<open>t\<close>.\<close>

fun trial_loop :: "int \<Rightarrow> nc_env \<Rightarrow> nat \<Rightarrow> nat \<Rightarrow> nc_state \<Rightarrow> (double list \<times> double list \<times> nc_state) option" where
  "trial_loop iters env 0 t s = Some ([], [], s)"
| "trial_loop iters env (Suc n) t s = do {
     (x, s) \<leftarrow> time_syscall_loop iters (getppid env (Suc t)) (sys_clock env (Suc t)) s;
     (y, s) \<leftarrow> time_control_loop iters (ctl_clock env (Suc t)) s;
     (xs, ys, s) \<leftarrow> trial_loop iters env n (Suc t) s;
     Some (x # xs, y # ys, s)
   }"

text \<open>What is printed: the ratio only when the control loop took time, a line on stderr when \<open>sink\<close> is \<open>0x7fffffff\<close>.\<close>

record nc_report =
  nc_iters :: int
  nc_trials :: int
  ctl_med :: double
  ctl_spread :: double
  sys_med :: double
  sys_spread :: double
  crossing :: double
  ratio :: "double option"
  unreachable :: bool

definition nc_iterations :: "string list \<Rightarrow> int" where
  "nc_iterations args = (case args of [] \<Rightarrow> 1000000 | a # _ \<Rightarrow> atol a)"

definition nc_trial_count :: "string list \<Rightarrow> int option" where
  "nc_trial_count args = (case args of _ # a # _ \<Rightarrow> atoi a | _ \<Rightarrow> Some 7)"

text \<open>
  \<open>main\<close>: exit status and report; \<open>malloc_ok\<close> says whether both arrays could be allocated. The sorted arrays that \<open>median\<close>
  leaves behind give the spreads.
\<close>

definition nullcall_main :: "string list \<Rightarrow> bool \<Rightarrow> nc_env \<Rightarrow> (int \<times> nc_report option) option" where
  "nullcall_main args malloc_ok env = do {
     let iters = nc_iterations args;
     trials \<leftarrow> nc_trial_count args;
     if iters \<le> 0 \<or> trials \<le> 0 then Some (2, None)
     else if \<not> malloc_ok then Some (1, None)
     else do {
       (_, s) \<leftarrow> time_syscall_loop (iters div 10 + 1) (getppid env 0) (sys_clock env 0) \<lparr>noop_sink = 0, sink = 0\<rparr>;
       (_, s) \<leftarrow> time_control_loop (iters div 10 + 1) (ctl_clock env 0) s;
       (xs, ys, s) \<leftarrow> trial_loop iters env (nat trials) 0 s;
       (m, xs) \<leftarrow> median xs;
       (c, ys) \<leftarrow> median ys;
       let last_ix = nat trials - 1;
       Some (if c \<le> 0 then 3 else 0, Some \<lparr>nc_iters = iters, nc_trials = trials, ctl_med = c,
         ctl_spread = dsub (ys ! last_ix) (ys ! 0), sys_med = m, sys_spread = dsub (xs ! last_ix) (xs ! 0),
         crossing = dsub m c, ratio = (if c > 0 then Some (ddiv m c) else None),
         unreachable = (\<not> c \<le> 0 \<and> sink s = 2147483647)\<rparr>)
     }
   }"

section \<open>The clock\<close>

text \<open>
  Seconds times \<open>10^9\<close> are a multiple of \<open>2^9\<close>, so that the product is exact for 136 years, although it needs more than
  53 bits after 104 days; hence later readings are not smaller.
\<close>

definition reading_ok :: "timespec \<Rightarrow> bool" where
  "reading_ok c \<longleftrightarrow> fst c < 2 ^ 32 \<and> snd c < 1000000000"

definition not_before :: "timespec \<Rightarrow> timespec \<Rightarrow> bool" where
  "not_before c d \<longleftrightarrow> fst c < fst d \<or> fst c = fst d \<and> snd c \<le> snd d"

lemma seconds_exact: "s < 2 ^ 32 \<Longrightarrow> dmul (double_of s) 1000000000 = of_nat s * 1000000000"
proof -
  assume s: "s < 2 ^ 32"
  have "(of_nat s * 1000000000 :: rat) = of_int (int s * 5 ^ 9) * 2 powi 9" by simp
  moreover have "\<bar>int s * 5 ^ 9\<bar> \<le> 2 ^ 53" using s by simp
  ultimately have "is_double (of_nat s * 1000000000)" unfolding is_double_def by blast
  then show ?thesis using s by (simp add: dmul_def double_of_exact binary64.rd_rep)
qed

lemma now_ns_mono:
  assumes "reading_ok c" and "reading_ok d" and "not_before c d"
  shows "now_ns c \<le> now_ns d"
proof -
  obtain s n s' n' where cd: "c = (s, n)" "d = (s', n')" by (cases c; cases d)
  have n: "double_of n = of_nat n" "double_of n' = of_nat n'"
    using assms(1,2) by (simp_all add: cd reading_ok_def double_of_exact)
  have "s * 1000000000 + n \<le> s' * 1000000000 + n'"
    using assms by (auto simp: cd reading_ok_def not_before_def)
  then have "(of_nat (s * 1000000000 + n) :: rat) \<le> of_nat (s' * 1000000000 + n')" by (simp only: of_nat_le_iff)
  then show ?thesis
    using assms(1,2) by (simp add: cd n seconds_exact reading_ok_def dadd_def binary64.rd_mono)
qed

lemma now_ns_exact:
  assumes "s < 9000000" and "n < 1000000000"
  shows "now_ns (s, n) = of_nat (s * 1000000000 + n)"
proof -
  have "s * 1000000000 + n \<le> 2 ^ 53" using assms by simp
  from double_of_exact [OF this] have "rnd (of_nat s * 1000000000 + of_nat n) = of_nat (s * 1000000000 + n)"
    by (simp add: double_of_def)
  then show ?thesis using assms seconds_exact [of s] double_of_exact [of n] by (simp add: dadd_def)
qed

lemma per_call_nonneg: "reading_ok (fst c) \<Longrightarrow> reading_ok (snd c) \<Longrightarrow> not_before (fst c) (snd c) \<Longrightarrow> 0 \<le> per_call iters c"
  unfolding per_call_def by (intro ddiv_nonneg dsub_self_nonneg now_ns_mono double_of_nonneg)

lemma per_call_double: "is_double (per_call iters c)"
  by (simp add: per_call_def)

section \<open>The sums\<close>

lemma syscall_total_value:
  "syscall_total ppid n i acc = Some acc' \<Longrightarrow> acc' = acc + (\<Sum>k<n. ppid (i + k))"
proof (induction n arbitrary: i acc)
  case (Suc n)
  then have "syscall_total ppid n (Suc i) (acc + ppid i) = Some acc'"
    by (auto simp: long_def split: Option.bind_splits if_splits)
  from Suc.IH [OF this] show ?case by (simp add: sum.lessThan_Suc_shift del: sum.lessThan_Suc)
qed simp

lemma control_total_value:
  "control_total n ns acc = Some (ns', acc') \<Longrightarrow> ns' = ns + int n \<and> 2 * acc' = 2 * acc + 2 * int n * ns + int n * (int n + 1)"
proof (induction n arbitrary: ns acc)
  case (Suc n)
  then have "control_total n (ns + 1) (acc + (ns + 1)) = Some (ns', acc')"
    by (auto simp: long_def noop_def split: Option.bind_splits if_splits)
  from Suc.IH [OF this] show ?case by (simp add: algebra_simps)
qed simp

text \<open>The calls so far and what \<open>sink\<close> holds: the numbers up to their count and what \<open>getppid\<close> added.\<close>

definition sums_to :: "int \<Rightarrow> int \<Rightarrow> nc_state \<Rightarrow> bool" where
  "sums_to m p s \<longleftrightarrow> noop_sink s = m \<and> 2 * sink s = m * (m + 1) + 2 * p \<and> sink s \<le> 9223372036854775807"

lemma syscall_loop_sums:
  assumes "time_syscall_loop n ppid c s = Some (x, s')" and "sums_to m p s"
  shows "x = per_call n c \<and> sums_to m (p + (\<Sum>k<nat n. ppid k)) s'"
  using assms syscall_total_value [of ppid "nat n" 0 0]
  by (auto simp: time_syscall_loop_def sums_to_def long_def split: Option.bind_splits if_splits)

lemma control_loop_sums:
  assumes "time_control_loop n c s = Some (x, s')" and "sums_to m p s" and "0 \<le> n"
  shows "x = per_call n c \<and> sums_to (m + n) p s'"
  using assms control_total_value [of "nat n" "noop_sink s" 0]
  by (auto simp: time_control_loop_def sums_to_def long_def algebra_simps split: Option.bind_splits if_splits)

lemma trial_loop_sums:
  assumes "trial_loop n env k t s = Some (xs, ys, s')" and "sums_to m p s" and "0 \<le> n"
  shows "xs = map (\<lambda>i. per_call n (sys_clock env (Suc i))) [t..<t + k] \<and> ys = map (\<lambda>i. per_call n (ctl_clock env (Suc i))) [t..<t + k] \<and>
    sums_to (m + int k * n) (p + (\<Sum>i<k. \<Sum>j<nat n. getppid env (Suc (t + i)) j)) s'"
  using assms
proof (induction k arbitrary: t s xs ys m p)
  case (Suc k)
  then obtain x s1 y s2 xs' ys' where r: "time_syscall_loop n (getppid env (Suc t)) (sys_clock env (Suc t)) s = Some (x, s1)"
    "time_control_loop n (ctl_clock env (Suc t)) s1 = Some (y, s2)" "trial_loop n env k (Suc t) s2 = Some (xs', ys', s')"
    "xs = x # xs'" "ys = y # ys'"
    by (auto split: Option.bind_splits)
  note a = syscall_loop_sums [OF r(1) Suc.prems(2)]
  note b = control_loop_sums [OF r(2) conjunct2 [OF a] Suc.prems(3)]
  have "[t..<t + Suc k] = t # [Suc t..<Suc t + k]" by (simp add: upt_conv_Cons)
  then show ?case using Suc.IH [OF r(3) conjunct2 [OF b] Suc.prems(3)] a b r(4,5)
    by (simp add: sum.lessThan_Suc_shift algebra_simps del: sum.lessThan_Suc)
qed (simp add: sums_to_def)

section \<open>When nothing overflows\<close>

text \<open>Process numbers are below \<open>2^31\<close>; \<open>m\<close> calls of each kind keep \<open>sink\<close> in range.\<close>

definition pids_ok :: "nc_env \<Rightarrow> bool" where
  "pids_ok env \<longleftrightarrow> (\<forall>k i. 0 \<le> getppid env k i \<and> getppid env k i < 2147483648)"

definition fits :: "int \<Rightarrow> bool" where
  "fits m \<longleftrightarrow> 0 \<le> m \<and> m * (m + 1) + 4294967296 * m \<le> 18446744073709551614"

lemma fits_less: "fits m \<Longrightarrow> 0 \<le> k \<Longrightarrow> k \<le> m \<Longrightarrow> fits k"
proof -
  assume a: "fits m" "0 \<le> k" "k \<le> m"
  then have "k * (k + 1) \<le> m * (m + 1)" by (intro mult_mono) auto
  then show ?thesis using a unfolding fits_def by linarith
qed

lemma syscall_total_defined:
  "\<forall>k. 0 \<le> ppid k \<and> ppid k < 2147483648 \<Longrightarrow> 0 \<le> acc \<Longrightarrow> acc + int n * 2147483648 \<le> 9223372036854775807 \<Longrightarrow>
     \<exists>acc'. syscall_total ppid n i acc = Some acc' \<and> 0 \<le> acc' \<and> acc' \<le> acc + int n * 2147483648"
proof (induction n arbitrary: i acc)
  case (Suc n)
  have p: "0 \<le> ppid i" "ppid i < 2147483648" using Suc.prems(1) by blast+
  have b: "acc + ppid i + int n * 2147483648 \<le> 9223372036854775807" using Suc.prems(3) p(2) by simp
  have "\<exists>acc'. syscall_total ppid n (Suc i) (acc + ppid i) = Some acc' \<and> 0 \<le> acc' \<and> acc' \<le> acc + ppid i + int n * 2147483648"
    using Suc.prems(2) p(1) by (intro Suc.IH [OF Suc.prems(1) _ b]) simp
  moreover have "long (acc + ppid i) = Some (acc + ppid i)" using Suc.prems(2,3) p by (simp add: long_def algebra_simps)
  ultimately show ?case using p by (auto simp: algebra_simps)
qed simp

lemma control_total_defined:
  "0 \<le> ns \<Longrightarrow> 0 \<le> acc \<Longrightarrow> ns + int n \<le> 9223372036854775807 \<Longrightarrow> 2 * acc + 2 * int n * ns + int n * (int n + 1) \<le> 18446744073709551614 \<Longrightarrow>
     \<exists>r. control_total n ns acc = Some r"
proof (induction n arbitrary: ns acc)
  case (Suc n)
  have e: "2 * (acc + (ns + 1)) + 2 * int n * (ns + 1) + int n * (int n + 1) = 2 * acc + 2 * int (Suc n) * ns + int (Suc n) * (int (Suc n) + 1)"
    by (simp add: algebra_simps)
  have "0 \<le> 2 * int n * (ns + 1)" "0 \<le> int n * (int n + 1)" using Suc.prems(1) by simp_all
  then have "2 * (acc + (ns + 1)) \<le> 18446744073709551614" using Suc.prems(4) unfolding e [symmetric] by linarith
  then have "acc + (ns + 1) \<le> 9223372036854775807" by simp
  then have "long (acc + (ns + 1)) = Some (acc + (ns + 1))" "noop ns = Some (ns + 1)"
    using Suc.prems by (simp_all add: long_def noop_def)
  moreover have "\<exists>r. control_total n (ns + 1) (acc + (ns + 1)) = Some r"
    using Suc.prems e by (intro Suc.IH) auto
  ultimately show ?case by simp
qed simp

lemma nonneg_part: "(a :: int) + b \<le> c \<Longrightarrow> 0 \<le> a \<Longrightarrow> b \<le> c"
  and sandwiched: "(a :: int) + x + y + z \<le> c \<Longrightarrow> 0 \<le> a \<Longrightarrow> 0 \<le> z \<Longrightarrow> x + y \<le> c"
  and half_nonneg: "2 * (x :: int) = a + 2 * b \<Longrightarrow> 0 \<le> a \<Longrightarrow> 0 \<le> b \<Longrightarrow> 0 \<le> x"
  and half_le: "2 * (x :: int) = a + 2 * b \<Longrightarrow> a + 4294967296 * k \<le> 18446744073709551614 \<Longrightarrow> b \<le> k * 2147483648 \<Longrightarrow>
    x \<le> 9223372036854775807"
  by simp_all

text \<open>\<open>m\<close> calls of \<open>noop\<close> and \<open>j\<close> of \<open>getppid\<close> so far.\<close>

definition calls :: "int \<Rightarrow> int \<Rightarrow> nc_state \<Rightarrow> bool" where
  "calls j m s \<longleftrightarrow> 0 \<le> m \<and> m \<le> j \<and> (\<exists>p. 0 \<le> p \<and> p \<le> j * 2147483648 \<and> sums_to m p s)"

lemma syscall_loop_defined:
  assumes c: "calls m m s" and n: "0 \<le> n" and fit: "fits (m + n)" and pid: "\<forall>k. 0 \<le> ppid k \<and> ppid k < 2147483648"
  shows "\<exists>x s'. time_syscall_loop n ppid c s = Some (x, s') \<and> calls (m + n) m s'"
proof -
  obtain p where p: "0 \<le> m" "0 \<le> p" "p \<le> m * 2147483648" "sums_to m p s" using c unfolding calls_def by blast
  have mm: "m * (m + 1) \<le> (m + n) * (m + n + 1)" "0 \<le> m * (m + 1)" using p(1) n by (auto intro: mult_mono)
  then have b: "m * (m + 1) + 4294967296 * (m + n) \<le> 18446744073709551614" using fit unfolding fits_def by linarith
  then have "0 + int (nat n) * 2147483648 \<le> 9223372036854775807" using nonneg_part [OF b mm(2)] n p(1) by simp
  from syscall_total_defined [OF pid order_refl this, of 0] obtain acc where
    acc: "syscall_total ppid (nat n) 0 0 = Some acc" "0 \<le> acc" "acc \<le> n * 2147483648" using n by auto
  have v: "2 * (sink s + acc) = m * (m + 1) + 2 * (p + acc)" using p(4) by (simp add: sums_to_def)
  have "0 \<le> sink s + acc" using p(2) acc(2) by (intro half_nonneg [OF v mm(2)]) simp
  moreover have "sink s + acc \<le> 9223372036854775807" using p(3) acc(3) by (intro half_le [OF v b]) simp
  moreover from this have "sums_to m (p + acc) (s\<lparr>sink := sink s + acc\<rparr>)" using v p(4) by (simp add: sums_to_def)
  ultimately show ?thesis using acc p n unfolding time_syscall_loop_def calls_def
    by (auto simp: long_def algebra_simps intro!: exI [of _ "p + acc"])
qed

lemma control_loop_defined:
  assumes c: "calls (m + n) m s" and n: "0 \<le> n" and fit: "fits (m + n)"
  shows "\<exists>x s'. time_control_loop n c s = Some (x, s') \<and> calls (m + n) (m + n) s'"
proof -
  obtain p where p: "0 \<le> m" "0 \<le> p" "p \<le> (m + n) * 2147483648" "sums_to m p s" using c unfolding calls_def by blast
  have b: "(m + n) * (m + n + 1) + 4294967296 * (m + n) \<le> 18446744073709551614" using fit by (simp add: fits_def)
  have e: "(m + n) * (m + n + 1) = m * (m + 1) + 2 * n * m + n * (n + 1)" by (simp add: algebra_simps)
  have pos: "0 \<le> m * (m + 1)" "0 \<le> (m + n) * (m + n + 1)" "0 \<le> 2 * n * m + n * (n + 1)" using p(1) n by simp_all
  have ns: "noop_sink s = m" and v: "2 * sink s = m * (m + 1) + 2 * p" using p(4) by (simp_all add: sums_to_def)
  have "2 * n * m + n * (n + 1) \<le> 18446744073709551614" using sandwiched [OF b [unfolded e] pos(1)] p(1) n by simp
  moreover have "m + n \<le> 9223372036854775807" using nonneg_part [OF b pos(2)] p(1) n by simp
  ultimately obtain acc where acc: "control_total (nat n) m 0 = Some (m + n, acc)" "2 * acc = 2 * n * m + n * (n + 1)"
    using control_total_defined [of m 0 "nat n"] control_total_value [of "nat n" m 0] p(1) n by fastforce
  have v': "2 * (sink s + acc) = (m + n) * (m + n + 1) + 2 * p" using v acc(2) e by simp
  moreover have "sink s + acc \<le> 9223372036854775807" "0 \<le> sink s + acc"
    using half_le [OF v' b p(3)] half_nonneg [OF v' pos(2) p(2)] by blast+
  moreover from calculation have "sums_to (m + n) p (s\<lparr>noop_sink := m + n, sink := sink s + acc\<rparr>)" by (simp add: sums_to_def)
  ultimately show ?thesis using acc(1) ns p n unfolding time_control_loop_def calls_def by (auto simp: long_def)
qed

lemma trial_loop_defined:
  assumes "calls m m s" and "0 \<le> n" and "fits (m + int k * n)" and pid: "pids_ok env"
  shows "trial_loop n env k t s \<noteq> None"
  using assms(1,3)
proof (induction k arbitrary: t s m)
  case (Suc k)
  have m: "0 \<le> m" using Suc.prems(1) by (simp add: calls_def)
  have e: "m + int (Suc k) * n = m + n + int k * n" and k: "0 \<le> int k * n" using assms(2) by (simp_all add: algebra_simps)
  have f: "fits (m + n)" by (rule fits_less [OF Suc.prems(2)]) (use e k m assms(2) in linarith)+
  have "\<forall>i. 0 \<le> getppid env (Suc t) i \<and> getppid env (Suc t) i < 2147483648" using pid by (simp add: pids_ok_def)
  from syscall_loop_defined [OF Suc.prems(1) assms(2) f this] obtain x s1 where
    s1: "time_syscall_loop n (getppid env (Suc t)) (sys_clock env (Suc t)) s = Some (x, s1)" "calls (m + n) m s1" by blast
  from control_loop_defined [OF s1(2) assms(2) f] obtain y s2 where
    s2: "time_control_loop n (ctl_clock env (Suc t)) s1 = Some (y, s2)" "calls (m + n) (m + n) s2" by blast
  have "trial_loop n env k (Suc t) s2 \<noteq> None" using Suc.IH [OF s2(2)] Suc.prems(2) unfolding e by blast
  then show ?case using s1(1) s2(1) by auto
qed simp

lemma calls_start: "calls 0 0 \<lparr>noop_sink = 0, sink = 0\<rparr>" and sums_start: "sums_to 0 0 \<lparr>noop_sink = 0, sink = 0\<rparr>"
  by (auto simp: calls_def sums_to_def)

text \<open>The calls of \<open>noop\<close> in a run, which are also those of \<open>getppid\<close>.\<close>

definition calls_of :: "int \<Rightarrow> int \<Rightarrow> int" where
  "calls_of iters trials = (iters div 10 + 1) + trials * iters"

lemma median_Some: "xs \<noteq> [] \<Longrightarrow> median xs \<noteq> None"
  using median_of_Some [of xs] by (auto simp: median_def median_of_def compare_double_eq Let_def)

lemma fits_defined:
  assumes "pids_ok env" and "nc_trial_count args = Some trials" and "0 < trials" and "0 < nc_iterations args"
    and fit: "fits (calls_of (nc_iterations args) trials)"
  shows "nullcall_main args True env \<noteq> None"
proof -
  let ?n = "nc_iterations args"
  let ?w = "?n div 10 + 1"
  have w: "0 \<le> ?w" using assms(4) by simp
  have pid: "\<forall>i. 0 \<le> getppid env k i \<and> getppid env k i < 2147483648" for k using assms(1) by (simp add: pids_ok_def)
  have "fits (0 + ?w)" by (rule fits_less [OF fit]) (use assms(3,4) w in \<open>simp_all add: calls_of_def\<close>)
  then obtain x s1 y s2 where s: "time_syscall_loop ?w (getppid env 0) (sys_clock env 0) \<lparr>noop_sink = 0, sink = 0\<rparr> = Some (x, s1)"
    "time_control_loop ?w (ctl_clock env 0) s1 = Some (y, s2)" "calls ?w ?w s2"
    using syscall_loop_defined [OF calls_start w _ pid] control_loop_defined [of 0 ?w, OF _ w] by (metis add_0)
  have "trial_loop ?n env (nat trials) 0 s2 \<noteq> None"
    using fit assms(1,3,4) by (intro trial_loop_defined [OF s(3)]) (simp_all add: calls_of_def)
  then obtain xs ys s3 where t: "trial_loop ?n env (nat trials) 0 s2 = Some (xs, ys, s3)" by auto
  then have "xs \<noteq> []" "ys \<noteq> []" using assms(3) by (cases "nat trials"; auto split: Option.bind_splits)+
  then show ?thesis using s t assms(2-4) median_Some [of xs] median_Some [of ys]
    by (auto simp: nullcall_main_def Let_def)
qed

section \<open>Properties\<close>

text \<open>
  C21: \<open>nullcall\<close> has undefined behaviour exactly in what its sums do: with \<open>M\<close> calls of \<open>noop\<close> in a run (the warm-up and all
  trials) it is well defined when \<open>M (M + 1) / 2 + 2^31 M\<close> is a \<open>long\<close>, which covers the default
  of 7 trials of a million, and it overflows \<open>sink\<close>, or an accumulator before, whenever \<open>M\<close> reaches \<open>2^32\<close>.
\<close>

theorem nullcall_overflow:
  assumes "pids_ok env" and "nc_trial_count args = Some trials" and "0 < trials" and "0 < nc_iterations args"
  shows "(fits (calls_of (nc_iterations args) trials) \<longrightarrow> nullcall_main args True env \<noteq> None) \<and>
     (2 ^ 32 \<le> calls_of (nc_iterations args) trials \<longrightarrow> nullcall_main args True env = None)"
proof -
  let ?n = "nc_iterations args"
  let ?w = "?n div 10 + 1"
  have w: "0 \<le> ?w" using assms(4) by simp
  have pid: "\<forall>i. 0 \<le> getppid env k i \<and> getppid env k i < 2147483648" for k using assms(1) by (simp add: pids_ok_def)
  have "nullcall_main args True env \<noteq> None" if "fits (calls_of ?n trials)"
    using fits_defined [OF assms that] .
  moreover have "nullcall_main args True env = None" if big: "2 ^ 32 \<le> calls_of ?n trials"
  proof (rule ccontr)
    assume "nullcall_main args True env \<noteq> None"
    then obtain x s1 y s2 xs ys s3 where s: "time_syscall_loop ?w (getppid env 0) (sys_clock env 0) \<lparr>noop_sink = 0, sink = 0\<rparr> = Some (x, s1)"
      "time_control_loop ?w (ctl_clock env 0) s1 = Some (y, s2)" "trial_loop ?n env (nat trials) 0 s2 = Some (xs, ys, s3)"
      using assms(2-4) by (auto simp: nullcall_main_def Let_def split: Option.bind_splits)
    note a = conjunct2 [OF syscall_loop_sums [OF s(1) sums_start]]
    note b = conjunct2 [OF control_loop_sums [OF s(2) a w]]
    let ?M = "calls_of ?n trials"
    obtain p where p: "sums_to ?M p s3" "0 \<le> p"
      using conjunct2 [OF conjunct2 [OF trial_loop_sums [OF s(3) b]]] assms(3,4) pid
      by (force simp: calls_of_def intro!: add_nonneg_nonneg sum_nonneg)
    have "4294967296 * 4294967296 \<le> ?M * (?M + 1)" using big by (intro mult_mono) auto
    then show False using p by (simp add: sums_to_def)
  qed
  ultimately show ?thesis by blast
qed

text \<open>The defaults are fine; a thousand million iterations, which take seconds, are not.\<close>

definition nc_idle :: nc_env where
  "nc_idle = \<lparr>sys_clock = (\<lambda>k. ((k, 0), (k, 500000000))), ctl_clock = (\<lambda>k. ((k, 500000000), (k, 510000000))),
     getppid = (\<lambda>k i. 4242)\<rparr>"

lemma nullcall_overflow_witness:
  "nullcall_main [] True nc_idle \<noteq> None \<and> nullcall_main [''1000000000''] True nc_idle = None"
proof -
  have p: "pids_ok nc_idle" by (simp add: pids_ok_def nc_idle_def)
  have a: "nc_trial_count [] = Some 7" "nc_iterations [] = 1000000" "calls_of 1000000 7 = 7100001"
    by (simp_all add: nc_trial_count_def nc_iterations_def calls_of_def)
  have b: "nc_trial_count [''1000000000''] = Some 7" "nc_iterations [''1000000000''] = 1000000000"
    by code_simp+
  have c: "calls_of 1000000000 7 = 7100000001" by (simp add: calls_of_def)
  show ?thesis
    using nullcall_overflow [OF p a(1)] nullcall_overflow [OF p b(1)] a b c by (simp add: fits_def)
qed

definition clocks_ok :: "nc_env \<Rightarrow> bool" where
  "clocks_ok env \<longleftrightarrow> (\<forall>k. \<forall>c\<in>{sys_clock env k, ctl_clock env k}.
     reading_ok (fst c) \<and> reading_ok (snd c) \<and> not_before (fst c) (snd c))"

text \<open>
  C28: the report of \<open>nullcall\<close>: status 2 and no output when an argument is not positive, 1 when memory runs out; otherwise the
  medians are those of exactly \<open>trials\<close> measured times per call of each kind: the middle time, or the average of the two in the
  middle; the spreads are slowest minus fastest, the crossing cost is the median of the system call minus that of the control, and may be
  negative, and the ratio is the first divided by the second. With a clock that does not run backwards no median is negative. The status is 3,
  and no ratio is printed, exactly when the median of the control is not positive.
\<close>

theorem nullcall_report:
  assumes "nullcall_main args malloc_ok env = Some (st, out)" and "nc_trial_count args = Some trials"
  shows "if nc_iterations args \<le> 0 \<or> trials \<le> 0 then st = 2 \<and> out = None
    else if \<not> malloc_ok then st = 1 \<and> out = None
    else \<exists>r. out = Some r \<and> nc_iters r = nc_iterations args \<and> nc_trials r = trials \<and>
      summed_up (map (\<lambda>k. per_call (nc_iterations args) (sys_clock env (Suc k))) [0..<nat trials]) (sys_med r) (sys_spread r) \<and>
      summed_up (map (\<lambda>k. per_call (nc_iterations args) (ctl_clock env (Suc k))) [0..<nat trials]) (ctl_med r) (ctl_spread r) \<and>
      crossing r = dsub (sys_med r) (ctl_med r) \<and>
      ratio r = (if ctl_med r \<le> 0 then None else Some (ddiv (sys_med r) (ctl_med r))) \<and>
      (clocks_ok env \<longrightarrow> 0 \<le> sys_med r \<and> 0 \<le> ctl_med r) \<and> st = (if ctl_med r \<le> 0 then 3 else 0)"
proof (cases "nc_iterations args \<le> 0 \<or> trials \<le> 0 \<or> \<not> malloc_ok")
  case True
  then show ?thesis using assms by (auto simp: nullcall_main_def Let_def split: if_splits)
next
  case False
  let ?n = "nc_iterations args"
  let ?xs = "map (\<lambda>k. per_call ?n (sys_clock env (Suc k))) [0..<nat trials]"
  let ?ys = "map (\<lambda>k. per_call ?n (ctl_clock env (Suc k))) [0..<nat trials]"
  obtain x s1 y s2 xs ys s3 m xs' c ys' where
    s: "time_syscall_loop (?n div 10 + 1) (getppid env 0) (sys_clock env 0) \<lparr>noop_sink = 0, sink = 0\<rparr> = Some (x, s1)"
      "time_control_loop (?n div 10 + 1) (ctl_clock env 0) s1 = Some (y, s2)" "trial_loop ?n env (nat trials) 0 s2 = Some (xs, ys, s3)"
    and med: "median xs = Some (m, xs')" "median ys = Some (c, ys')"
    and st: "st = (if c \<le> 0 then 3 else 0)" and out: "out = Some \<lparr>nc_iters = ?n, nc_trials = trials, ctl_med = c,
         ctl_spread = dsub (ys' ! (nat trials - 1)) (ys' ! 0), sys_med = m, sys_spread = dsub (xs' ! (nat trials - 1)) (xs' ! 0),
         crossing = dsub m c, ratio = (if c > 0 then Some (ddiv m c) else None), unreachable = (\<not> c \<le> 0 \<and> sink s3 = 2147483647)\<rparr>"
    using assms False by (auto simp: nullcall_main_def Let_def split: Option.bind_splits)
  have n: "0 \<le> ?n" and ne: "?xs \<noteq> []" "?ys \<noteq> []" using False by simp_all
  then have w: "0 \<le> ?n div 10 + 1" by simp
  note a = conjunct2 [OF syscall_loop_sums [OF s(1) sums_start]]
  note b = conjunct2 [OF control_loop_sums [OF s(2) a w]]
  have v: "xs = ?xs" "ys = ?ys" using trial_loop_sums [OF s(3) b n] by simp_all
  have ms: "summed_up ?xs m (dsub (xs' ! (nat trials - 1)) (xs' ! 0))" "summed_up ?ys c (dsub (ys' ! (nat trials - 1)) (ys' ! 0))"
    using median_sums_up [OF med(1)] median_sums_up [OF med(2)] by (simp_all add: v per_call_double)
  have "\<forall>x\<in>set ?xs. 0 \<le> x" "\<forall>y\<in>set ?ys. 0 \<le> y" if "clocks_ok env"
    using that by (simp_all add: clocks_ok_def per_call_nonneg)
  then have "clocks_ok env \<longrightarrow> 0 \<le> m \<and> 0 \<le> c"
    using median_spread_nonneg [OF summed_upD [OF ms(1)] ne(1)] median_spread_nonneg [OF summed_upD [OF ms(2)] ne(2)] by blast
  then show ?thesis using False st out ms by simp
qed

text \<open>Two trials of ten calls each: half a second for the system calls, ten milliseconds for the control.\<close>

lemma nullcall_report_witness:
  "\<exists>r. nullcall_main [''10'', ''2''] True nc_idle = Some (0, Some r) \<and> 0 < ctl_med r \<and> ratio r = Some (ddiv (sys_med r) (ctl_med r))"
proof -
  have a: "nc_trial_count [''10'', ''2''] = Some 2" "nc_iterations [''10'', ''2''] = 10" by code_simp+
  have p: "pids_ok nc_idle" by (simp add: pids_ok_def nc_idle_def)
  have "fits (calls_of 10 2)" by (simp add: fits_def calls_of_def)
  then obtain st out where m: "nullcall_main [''10'', ''2''] True nc_idle = Some (st, out)"
    using fits_defined [OF p a(1)] a(2) by auto
  from nullcall_report [OF m a(1)] obtain r where r: "out = Some r" "st = (if ctl_med r \<le> 0 then 3 else 0)"
    "ratio r = (if ctl_med r \<le> 0 then None else Some (ddiv (sys_med r) (ctl_med r)))"
    "median_spread (map (\<lambda>k. per_call 10 (ctl_clock nc_idle (Suc k))) [0..<2]) (ctl_med r) (ctl_spread r)"
    using a(2) by (auto simp: summed_up_def)
  have "per_call 10 (ctl_clock nc_idle (Suc k)) = 1000000" if "k < 2" for k
  proof -
    have "now_ns (Suc k, 510000000) - now_ns (Suc k, 500000000) = of_nat 10000000"
      using that by (simp add: now_ns_exact del: now_ns.simps)
    then have "dsub (now_ns (Suc k, 510000000)) (now_ns (Suc k, 500000000)) = 10000000"
      using double_of_exact [of 10000000] by (simp add: dsub_def double_of_def)
    then show ?thesis using double_of_exact [of 10] double_of_exact [of 1000000]
      by (simp add: per_call_def nc_idle_def ddiv_def double_of_def del: now_ns.simps)
  qed
  then have "0 < ctl_med r" using r(4) by (auto simp: median_spread_def)
  then show ?thesis using m r by auto
qed

end
