(* ===== verification/Fifo_Spec.thy ===== *)
theory Fifo_Spec
  imports Prelude
begin

text \<open>
  What a concurrent FIFO queue promises to its callers, stated once for the lock-free queue and the
  mutex queue of week 3. The specification is an abstract queue on which every operation takes effect in
  one step between its call and its return; what the callers observe is the history of calls and returns.
  An implementation refines it through the interface \<open>fifo_impl\<close>, in which the facts the callers rely on
  are proved.
\<close>

section \<open>Histories\<close>

datatype 'v event =
    CallEnq nat 'v
  | RetEnq nat bool
  | CallDeq nat
  | RetDeq nat "'v option"

text \<open>The status of a thread's current operation.\<close>

datatype 'v op =
    NoOp
  | PendEnq 'v
  | DoneEnq bool
  | PendDeq bool \<comment> \<open>has it found the queue empty (it may look again)?\<close>
  | DoneDeq 'v

record 'v fifo =
  items :: "'v list"
  ops :: "nat \<Rightarrow> 'v op"
  ahist :: "'v event list"

definition fifo_init :: "'v fifo \<Rightarrow> bool" where
  "fifo_init A \<longleftrightarrow> A = \<lparr>items = [], ops = (\<lambda>_. NoOp), ahist = []\<rparr>"

inductive fifo_step :: "'v fifo \<Rightarrow> 'v fifo \<Rightarrow> bool" where
  call_enq: "ops A t = NoOp \<Longrightarrow>
     fifo_step A (A\<lparr>ops := (ops A)(t := PendEnq v), ahist := ahist A @ [CallEnq t v]\<rparr>)"
| enq: "ops A t = PendEnq v \<Longrightarrow>
     fifo_step A (A\<lparr>items := items A @ [v], ops := (ops A)(t := DoneEnq True)\<rparr>)"
| enq_fail: "ops A t = PendEnq v \<Longrightarrow> fifo_step A (A\<lparr>ops := (ops A)(t := DoneEnq False)\<rparr>)"
| ret_enq: "ops A t = DoneEnq b \<Longrightarrow>
     fifo_step A (A\<lparr>ops := (ops A)(t := NoOp), ahist := ahist A @ [RetEnq t b]\<rparr>)"
| call_deq: "ops A t = NoOp \<Longrightarrow>
     fifo_step A (A\<lparr>ops := (ops A)(t := PendDeq False), ahist := ahist A @ [CallDeq t]\<rparr>)"
| see_empty: "ops A t = PendDeq b \<Longrightarrow> items A = [] \<Longrightarrow>
     fifo_step A (A\<lparr>ops := (ops A)(t := PendDeq True)\<rparr>)"
| look_again: "ops A t = PendDeq True \<Longrightarrow> fifo_step A (A\<lparr>ops := (ops A)(t := PendDeq False)\<rparr>)"
| deq: "ops A t = PendDeq b \<Longrightarrow> items A = v # vs \<Longrightarrow>
     fifo_step A (A\<lparr>items := vs, ops := (ops A)(t := DoneDeq v)\<rparr>)"
| ret_deq: "ops A t = DoneDeq v \<Longrightarrow>
     fifo_step A (A\<lparr>ops := (ops A)(t := NoOp), ahist := ahist A @ [RetDeq t (Some v)]\<rparr>)"
| ret_empty: "ops A t = PendDeq True \<Longrightarrow>
     fifo_step A (A\<lparr>ops := (ops A)(t := NoOp), ahist := ahist A @ [RetDeq t None]\<rparr>)"

inductive_cases fifo_stepE: "fifo_step A B"

section \<open>What the specification guarantees\<close>

text \<open>The values given to enqueue calls and handed out by dequeue returns.\<close>

fun offered :: "'v event list \<Rightarrow> 'v list" where
  "offered [] = []"
| "offered (CallEnq t v # h) = v # offered h"
| "offered (_ # h) = offered h"

fun returned :: "'v event list \<Rightarrow> 'v list" where
  "returned [] = []"
| "returned (RetDeq t (Some v) # h) = v # returned h"
| "returned (_ # h) = returned h"

lemma offered_append [simp]: "offered (h @ h') = offered h @ offered h'"
  by (induction h rule: offered.induct) auto

lemma returned_append [simp]: "returned (h @ h') = returned h @ returned h'"
  by (induction h rule: returned.induct) auto

text \<open>
  Every value offered is in the queue, in a pending enqueue, in a finished dequeue that has not
  returned, has been returned, or its enqueue failed: nothing is invented and nothing is handed out twice.
\<close>

definition in_hand :: "'v op \<Rightarrow> 'v multiset" where
  "in_hand p = (case p of PendEnq v \<Rightarrow> {#v#} | DoneDeq v \<Rightarrow> {#v#} | _ \<Rightarrow> {#})"

definition conserved :: "'v fifo \<Rightarrow> bool" where
  "conserved A \<longleftrightarrow> finite {t. ops A t \<noteq> NoOp} \<and>
     mset (returned (ahist A)) + mset (items A) + (\<Sum>t | ops A t \<noteq> NoOp. in_hand (ops A t))
       \<subseteq># mset (offered (ahist A))"

lemma op_sum_update:
  fixes g :: "'v op \<Rightarrow> 'm::comm_monoid_add"
  assumes "finite {t. f t \<noteq> NoOp}" and zero: "g NoOp = 0"
  shows "finite {x. (f(t := p)) x \<noteq> NoOp}"
    and "(\<Sum>x | (f(t := p)) x \<noteq> NoOp. g ((f(t := p)) x)) + g (f t) = (\<Sum>x | f x \<noteq> NoOp. g (f x)) + g p"
proof -
  let ?A = "{x. f x \<noteq> NoOp} - {t}"
  have fin: "finite ?A" using assms by simp
  have sub: "{x. (f(t := p)) x \<noteq> NoOp} \<subseteq> insert t ?A" by auto
  show "finite {x. (f(t := p)) x \<noteq> NoOp}" using finite_subset [OF sub] fin by simp
  have "(\<Sum>x | (f(t := p)) x \<noteq> NoOp. g ((f(t := p)) x)) = (\<Sum>x\<in>insert t ?A. g ((f(t := p)) x))"
    using fin by (intro sum.mono_neutral_left) (auto simp: zero)
  also have "\<dots> = g p + (\<Sum>x\<in>?A. g (f x))"
    using fin by (subst sum.insert) (auto intro!: arg_cong2 [where f = "(+)"] sum.cong)
  finally have new: "(\<Sum>x | (f(t := p)) x \<noteq> NoOp. g ((f(t := p)) x)) = g p + (\<Sum>x\<in>?A. g (f x))" .
  have "(\<Sum>x | f x \<noteq> NoOp. g (f x)) = (\<Sum>x\<in>insert t ?A. g (f x))"
    using fin by (intro sum.mono_neutral_left) (auto simp: zero)
  also have "\<dots> = g (f t) + (\<Sum>x\<in>?A. g (f x))"
    using fin by (subst sum.insert) auto
  finally show "(\<Sum>x | (f(t := p)) x \<noteq> NoOp. g ((f(t := p)) x)) + g (f t) = (\<Sum>x | f x \<noteq> NoOp. g (f x)) + g p"
    using new by (simp add: add_ac)
qed

lemma mset_exchange:
  fixes R S :: "'v multiset"
  assumes "S' + p0 = S + p" and "R' + p + C = R + p0 + D"
  shows "R' + S' + C = R + S + D"
proof (rule multiset_eqI)
  fix x
  from assms have "count S' x + count p0 x = count S x + count p x"
    and "count R' x + count p x + count C x = count R x + count p0 x + count D x"
    by (metis count_union)+
  then show "count (R' + S' + C) x = count (R + S + D) x" by simp
qed

lemma conserved_update:
  assumes "conserved A"
    and "ops B = (ops A)(t := p)"
    and "mset (returned (ahist B)) + mset (items B) + in_hand p + C =
      mset (returned (ahist A)) + mset (items A) + in_hand (ops A t) + D"
    and "mset (offered (ahist B)) = mset (offered (ahist A)) + D"
  shows "conserved B"
proof -
  let ?S = "\<lambda>A. \<Sum>t | ops A t \<noteq> NoOp. in_hand (ops A t)"
  have fin: "finite {t. ops A t \<noteq> NoOp}" using assms(1) by (simp add: conserved_def)
  have "in_hand NoOp = {#}" by (simp add: in_hand_def)
  note u = op_sum_update [of "ops A" in_hand, OF fin this, of t p, folded assms(2)]
  have "mset (returned (ahist B)) + mset (items B) + ?S B + C =
      mset (returned (ahist A)) + mset (items A) + ?S A + D"
    by (rule mset_exchange [OF u(2) assms(3)])
  then have "mset (returned (ahist B)) + mset (items B) + ?S B \<subseteq>#
      mset (returned (ahist A)) + mset (items A) + ?S A + D"
    by (metis mset_subset_eq_add_left)
  also have "\<dots> \<subseteq># mset (offered (ahist B))"
    using assms(1,4) by (simp add: conserved_def)
  finally show ?thesis using u(1) by (simp add: conserved_def)
qed

lemma conserved_step: "fifo_step A B \<Longrightarrow> conserved A \<Longrightarrow> conserved B"
proof (induction rule: fifo_step.induct)
  case (call_enq A t v)
  then show ?case by - (rule conserved_update [of A _ t "PendEnq v" "{#}" "{#v#}"], auto simp: in_hand_def)
next
  case (enq A t v)
  then show ?case by - (rule conserved_update [of A _ t "DoneEnq True" "{#}" "{#}"], auto simp: in_hand_def)
next
  case (enq_fail A t v)
  then show ?case by - (rule conserved_update [of A _ t "DoneEnq False" "{#v#}" "{#}"], auto simp: in_hand_def)
next
  case (ret_enq A t b)
  then show ?case by - (rule conserved_update [of A _ t NoOp "{#}" "{#}"], auto simp: in_hand_def)
next
  case (call_deq A t)
  then show ?case by - (rule conserved_update [of A _ t "PendDeq False" "{#}" "{#}"], auto simp: in_hand_def)
next
  case (see_empty A t b)
  then show ?case by - (rule conserved_update [of A _ t "PendDeq True" "{#}" "{#}"], auto simp: in_hand_def)
next
  case (look_again A t)
  then show ?case by - (rule conserved_update [of A _ t "PendDeq False" "{#}" "{#}"], auto simp: in_hand_def)
next
  case (deq A t b v vs)
  then show ?case by - (rule conserved_update [of A _ t "DoneDeq v" "{#}" "{#}"], auto simp: in_hand_def)
next
  case (ret_deq A t v)
  then show ?case by - (rule conserved_update [of A _ t NoOp "{#}" "{#}"], auto simp: in_hand_def)
next
  case (ret_empty A t)
  then show ?case by - (rule conserved_update [of A _ t NoOp "{#}" "{#}"], auto simp: in_hand_def)
qed

interpretation fifo: inductive_invariant fifo_init fifo_step conserved
  by unfold_locales (auto simp: fifo_init_def conserved_def [of "\<lparr>items = [], ops = \<lambda>_. NoOp, ahist = []\<rparr>"] intro: conserved_step)

section \<open>When a dequeue may report the queue empty\<close>

fun ev_tid :: "'v event \<Rightarrow> nat" where
  "ev_tid (CallEnq t v) = t"
| "ev_tid (RetEnq t b) = t"
| "ev_tid (CallDeq t) = t"
| "ev_tid (RetDeq t r) = t"

fun is_call_deq :: "'v event \<Rightarrow> bool" where
  "is_call_deq (CallDeq t) = True"
| "is_call_deq _ = False"

fun is_ret_enq :: "'v event \<Rightarrow> bool" where
  "is_ret_enq (RetEnq t b) = b"
| "is_ret_enq _ = False"

text \<open>The number of enqueues that have succeeded and returned, and of dequeues called.\<close>

definition enqueued :: "'v event list \<Rightarrow> nat" where
  "enqueued h = length (filter is_ret_enq h)"

definition deq_calls :: "'v event list \<Rightarrow> nat" where
  "deq_calls h = length (filter is_call_deq h)"

text \<open>
  The call of thread \<open>t\<close>'s current operation, at position \<open>j\<close> of the history; and what it means that a
  dequeue called at \<open>j\<close> may answer that the queue is empty: fewer enqueues had returned before its call
  than dequeues have been called.
\<close>

definition called_at :: "'v event list \<Rightarrow> nat \<Rightarrow> nat \<Rightarrow> bool" where
  "called_at h t j \<longleftrightarrow> j < length h \<and> h ! j = CallDeq t \<and> (\<forall>k. j < k \<longrightarrow> k < length h \<longrightarrow> ev_tid (h ! k) \<noteq> t)"

definition empties_ok :: "'v event list \<Rightarrow> bool" where
  "empties_ok h \<longleftrightarrow> (\<forall>i<length h. \<forall>t. h ! i = RetDeq t None \<longrightarrow>
     (\<exists>j. called_at (take i h) t j \<and> enqueued (take j h) < deq_calls (take i h)))"

definition owes :: "'v op \<Rightarrow> nat" where
  "owes p = (case p of PendDeq b \<Rightarrow> 1 | DoneEnq True \<Rightarrow> 1 | _ \<Rightarrow> 0)"

definition empty_inv :: "'v fifo \<Rightarrow> bool" where
  "empty_inv A \<longleftrightarrow> finite {t. ops A t \<noteq> NoOp} \<and>
     enqueued (ahist A) + (\<Sum>t | ops A t \<noteq> NoOp. owes (ops A t)) \<le> deq_calls (ahist A) + length (items A) \<and>
     (\<forall>t b. ops A t = PendDeq b \<longrightarrow> (\<exists>j. called_at (ahist A) t j \<and>
        (b \<longrightarrow> enqueued (take j (ahist A)) < deq_calls (ahist A)))) \<and>
     empties_ok (ahist A)"

lemma counts_append [simp]:
  "enqueued (h @ h') = enqueued h + enqueued h'" "deq_calls (h @ h') = deq_calls h + deq_calls h'"
  by (simp_all add: enqueued_def deq_calls_def)

lemma counts_Nil [simp]: "enqueued [] = 0" "deq_calls [] = 0"
  by (simp_all add: enqueued_def deq_calls_def)

lemma enqueued_take: "enqueued (take j h) \<le> enqueued h"
  by (metis append_take_drop_id counts_append(1) le_add1)

lemma called_at_snoc: "called_at h t j \<Longrightarrow> ev_tid e \<noteq> t \<Longrightarrow> called_at (h @ [e]) t j"
  by (auto simp: called_at_def nth_append less_Suc_eq)

lemma called_at_now: "called_at (h @ [CallDeq t]) t (length h)"
  by (auto simp: called_at_def)

lemma empties_ok_snoc:
  assumes "empties_ok h"
    and "\<And>t. e = RetDeq t None \<Longrightarrow> \<exists>j. called_at h t j \<and> enqueued (take j h) < deq_calls h"
  shows "empties_ok (h @ [e])"
  unfolding empties_ok_def
proof (intro allI impI)
  fix i t assume i: "i < length (h @ [e])" and e: "(h @ [e]) ! i = RetDeq t None"
  show "\<exists>j. called_at (take i (h @ [e])) t j \<and> enqueued (take j (h @ [e])) < deq_calls (take i (h @ [e]))"
  proof (cases "i = length h")
    case True
    then have "e = RetDeq t None" using e by simp
    then obtain j where "called_at h t j" "enqueued (take j h) < deq_calls h" using assms(2) by blast
    moreover from this(1) have "j \<le> length h" by (simp add: called_at_def)
    ultimately show ?thesis using True by (intro exI [of _ j]) simp
  next
    case False
    then have "i < length h" using i by simp
    with e assms(1) obtain j where "called_at (take i h) t j" "enqueued (take j h) < deq_calls (take i h)"
      unfolding empties_ok_def by (auto simp: nth_append)
    moreover from this(1) have "j \<le> length h" by (simp add: called_at_def)
    ultimately show ?thesis using \<open>i < length h\<close> by (intro exI [of _ j]) simp
  qed
qed

text \<open>One step of thread \<open>t\<close>: the other threads' calls stay where they were.\<close>

lemma empty_inv_update:
  assumes inv: "empty_inv A" and ops: "ops B = (ops A)(t := p)"
    and h: "ahist B = ahist A @ es" "\<forall>e\<in>set es. ev_tid e = t" "length es \<le> 1"
    and n: "enqueued (ahist B) + owes p + deq_calls (ahist A) + length (items A) \<le>
      enqueued (ahist A) + owes (ops A t) + deq_calls (ahist B) + length (items B)"
    and pend: "\<And>b. p = PendDeq b \<Longrightarrow> \<exists>j. called_at (ahist B) t j \<and>
        (b \<longrightarrow> enqueued (take j (ahist B)) < deq_calls (ahist B))"
    and ok: "empties_ok (ahist B)"
  shows "empty_inv B"
proof -
  have fin: "finite {t. ops A t \<noteq> NoOp}" using inv by (simp add: empty_inv_def)
  have "owes NoOp = 0" by (simp add: owes_def)
  note u = op_sum_update [of "ops A" owes, OF fin this, of t p, folded ops]
  have "\<exists>j. called_at (ahist B) x j \<and> (b \<longrightarrow> enqueued (take j (ahist B)) < deq_calls (ahist B))"
    if x: "ops B x = PendDeq b" for x b
  proof (cases "x = t")
    case True
    then show ?thesis using pend x ops by simp
  next
    case False
    then have "ops A x = PendDeq b" using x ops by simp
    then obtain j where j: "called_at (ahist A) x j" "b \<longrightarrow> enqueued (take j (ahist A)) < deq_calls (ahist A)"
      using inv by (auto simp: empty_inv_def)
    have "es = [] \<or> (\<exists>e. es = [e] \<and> ev_tid e \<noteq> x)" using h(2,3) False by (cases es) auto
    then have "called_at (ahist B) x j" using j(1) h(1) called_at_snoc by force
    moreover have "j < length (ahist A)" using j(1) by (simp add: called_at_def)
    then have "take j (ahist B) = take j (ahist A)" using h(1) by simp
    ultimately show ?thesis using j(2) h(1) by (intro exI [of _ j]) auto
  qed
  moreover have "enqueued (ahist A) + (\<Sum>t | ops A t \<noteq> NoOp. owes (ops A t)) \<le> deq_calls (ahist A) + length (items A)"
    using inv by (simp add: empty_inv_def)
  then have "enqueued (ahist B) + (\<Sum>t | ops B t \<noteq> NoOp. owes (ops B t)) \<le> deq_calls (ahist B) + length (items B)"
    using u(2) n by linarith
  ultimately show ?thesis using u(1) ok unfolding empty_inv_def by blast
qed

lemma empty_inv_pend:
  "empty_inv A \<Longrightarrow> ops A t = PendDeq b \<Longrightarrow> \<exists>j. called_at (ahist A) t j \<and>
     (b \<longrightarrow> enqueued (take j (ahist A)) < deq_calls (ahist A))"
  by (simp add: empty_inv_def)

lemma empty_inv_ok: "empty_inv A \<Longrightarrow> empties_ok (ahist A)"
  by (simp add: empty_inv_def)

lemma owes_member:
  assumes "empty_inv A" and "ops A t = PendDeq b" and "items A = []"
  shows "enqueued (ahist A) < deq_calls (ahist A)"
proof -
  have fin: "finite {t. ops A t \<noteq> NoOp}" using assms(1) by (simp add: empty_inv_def)
  have "owes (ops A t) \<le> (\<Sum>t | ops A t \<noteq> NoOp. owes (ops A t))"
    using assms(2) fin by (intro member_le_sum) auto
  then show ?thesis using assms by (simp add: empty_inv_def owes_def)
qed

lemma empty_inv_step: "fifo_step A B \<Longrightarrow> empty_inv A \<Longrightarrow> empty_inv B"
proof (induction rule: fifo_step.induct)
  case (call_enq A t v)
  then show ?case
    by - (rule empty_inv_update [of A _ t "PendEnq v" "[CallEnq t v]"],
        auto simp: owes_def enqueued_def deq_calls_def intro!: empties_ok_snoc empty_inv_ok)
next
  case (enq A t v)
  then show ?case
    by - (rule empty_inv_update [of A _ t "DoneEnq True" "[]"], auto simp: owes_def intro!: empty_inv_ok)
next
  case (enq_fail A t v)
  then show ?case
    by - (rule empty_inv_update [of A _ t "DoneEnq False" "[]"], auto simp: owes_def intro!: empty_inv_ok)
next
  case (ret_enq A t b)
  then show ?case
    by - (rule empty_inv_update [of A _ t NoOp "[RetEnq t b]"], auto simp: owes_def enqueued_def deq_calls_def
        intro!: empties_ok_snoc empty_inv_ok)
next
  case (call_deq A t)
  then show ?case
    using called_at_now [of "ahist A" t]
    by - (rule empty_inv_update [of A _ t "PendDeq False" "[CallDeq t]"],
        auto simp: owes_def enqueued_def deq_calls_def intro!: empties_ok_snoc empty_inv_ok)
next
  case (see_empty A t b)
  obtain j where "called_at (ahist A) t j" using empty_inv_pend [OF see_empty(3,1)] by blast
  moreover have "enqueued (take j (ahist A)) < deq_calls (ahist A)"
    using owes_member [OF see_empty(3,1,2)] enqueued_take [of j "ahist A"] by simp
  ultimately show ?case using see_empty
    by - (rule empty_inv_update [of A _ t "PendDeq True" "[]"], auto simp: owes_def intro!: empty_inv_ok)
next
  case (look_again A t)
  then show ?case using empty_inv_pend [OF look_again(2,1)]
    by - (rule empty_inv_update [of A _ t "PendDeq False" "[]"], auto simp: owes_def intro!: empty_inv_ok)
next
  case (deq A t b v vs)
  then show ?case
    by - (rule empty_inv_update [of A _ t "DoneDeq v" "[]"], auto simp: owes_def intro!: empty_inv_ok)
next
  case (ret_deq A t v)
  then show ?case
    by - (rule empty_inv_update [of A _ t NoOp "[RetDeq t (Some v)]"],
        auto simp: owes_def enqueued_def deq_calls_def intro!: empties_ok_snoc empty_inv_ok)
next
  case (ret_empty A t)
  then show ?case using empty_inv_pend [OF ret_empty(2,1)]
    by - (rule empty_inv_update [of A _ t NoOp "[RetDeq t None]"],
        auto simp: owes_def enqueued_def deq_calls_def intro!: empties_ok_snoc empty_inv_ok)
qed

interpretation fifo_empty: inductive_invariant fifo_init fifo_step empty_inv
proof
  show "empty_inv A" if "fifo_init A" for A :: "'v fifo"
    using that by (simp add: fifo_init_def empty_inv_def empties_ok_def enqueued_def deq_calls_def)
qed (rule empty_inv_step)

section \<open>The interface\<close>

locale fifo_impl = simulation init step inv fifo_init fifo_step abstr
  for init :: "'s \<Rightarrow> bool" and step and inv and abstr :: "'s \<Rightarrow> 'v fifo" +
  fixes obs :: "'s \<Rightarrow> 'v event list"
  assumes obs_abs: "inv s \<Longrightarrow> ahist (abstr s) = obs s"
begin

text \<open>Every history of the implementation is one of the specification.\<close>

lemma histories: "reach init step s \<Longrightarrow> \<exists>A. reach fifo_init fifo_step A \<and> ahist A = obs s"
  using reach_abs obs_abs reach_inv by blast

lemma values_conserved: "reach init step s \<Longrightarrow> mset (returned (obs s)) \<subseteq># mset (offered (obs s))"
proof -
  assume r: "reach init step s"
  have "conserved (abstr s)" by (rule fifo.reach_inv [OF reach_abs [OF r]])
  then have "mset (returned (ahist (abstr s))) \<subseteq># mset (offered (ahist (abstr s)))"
    unfolding conserved_def by (metis mset_subset_eq_add_left subset_mset.order_trans)
  then show ?thesis by (simp add: obs_abs reach_inv [OF r])
qed

text \<open>A dequeue that reports the queue empty was right to do so at some moment of its execution.\<close>

lemma empties_justified: "reach init step s \<Longrightarrow> empties_ok (obs s)"
  using histories fifo_empty.reach_inv empty_inv_ok by metis

end

end
