(* ===== verification/MSQueue.thy ===== *)
theory MSQueue
  imports Fifo_Spec
begin

text \<open>
  The lock-free queue of \<open>week3/src/msqueue.c\<close>, one step per access to shared memory. A thread's program
  counter carries the values of its local variables; every load, store and compare-and-swap of the code
  is one step. The memory is sequentially consistent here (\<open>MSQueue_Tso\<close> has the store
  buffers of x86), \<open>malloc\<close> answers with any address that is free, and nodes keep their contents after
  \<open>free\<close>, so that an access to a freed node can be seen: it sets \<open>uaf\<close>. An access through NULL or to memory that
  was never allocated sets \<open>wild\<close> and stops the thread.
\<close>

section \<open>Data\<close>

record tagged =
  ptr :: "addr option"
  cnt :: ulong

record node =
  nvalue :: clong
  nxt :: tagged

text \<open>Where a thread is, with its locals: the value, the new node, \<open>tail\<close>, \<open>next\<close>, \<open>head\<close> and \<open>val\<close>.\<close>

datatype pc =
    Idle
  | EqNew clong \<comment> \<open>\<open>node_new\<close>\<close>
  | EqTail clong addr \<comment> \<open>load \<open>q->tail\<close>\<close>
  | EqNext clong addr tagged \<comment> \<open>load \<open>tail.ptr->next\<close>\<close>
  | EqCheck clong addr tagged tagged \<comment> \<open>re-read \<open>q->tail\<close>\<close>
  | EqLink clong addr tagged tagged \<comment> \<open>weak CAS on \<open>tail.ptr->next\<close>\<close>
  | EqSwing addr tagged \<comment> \<open>CAS on \<open>q->tail\<close>, then return true\<close>
  | EqHelp clong addr tagged tagged \<comment> \<open>CAS on \<open>q->tail\<close>, then retry\<close>
  | EqRetry clong addr \<comment> \<open>count the retry\<close>
  | DoneEq bool
  | DqHead \<comment> \<open>load \<open>q->head\<close>\<close>
  | DqTail tagged \<comment> \<open>load \<open>q->tail\<close>\<close>
  | DqNext tagged tagged \<comment> \<open>load \<open>head.ptr->next\<close>\<close>
  | DqCheck tagged tagged tagged \<comment> \<open>re-read \<open>q->head\<close>\<close>
  | DqHelp tagged tagged \<comment> \<open>CAS on \<open>q->tail\<close>\<close>
  | DqRead tagged tagged \<comment> \<open>load \<open>next.ptr->value\<close>\<close>
  | DqCas tagged tagged clong \<comment> \<open>CAS on \<open>q->head\<close>\<close>
  | DqFree addr clong \<comment> \<open>\<open>free(head.ptr)\<close>\<close>
  | DqRetry \<comment> \<open>count the retry\<close>
  | DoneDq "clong option"
  | Crashed

record msq =
  qhead :: tagged
  qtail :: tagged
  retries :: ulong
  heap :: "addr \<Rightarrow> node option"
  freed :: "addr set"
  pcs :: "tid \<Rightarrow> pc"
  hist :: "clong event list" \<comment> \<open>the calls and returns so far\<close>
  uaf :: bool \<comment> \<open>a freed node was accessed\<close>
  dfree :: bool \<comment> \<open>a freed node was freed\<close>
  wild :: bool

abbreviation null_tag :: tagged where "null_tag \<equiv> \<lparr>ptr = None, cnt = 0\<rparr>"

section \<open>Operations\<close>

definition node_new :: "clong \<Rightarrow> node" where
  "node_new v = \<lparr>nvalue = v, nxt = null_tag\<rparr>"

text \<open>
  \<open>msq_create\<close>, given whether the queue object and the dummy node could be allocated; the queue starts
  with no thread inside an operation.
\<close>

definition msq_create :: "bool \<Rightarrow> addr option \<Rightarrow> msq option" where
  "msq_create q_ok dummy =
     (if \<not> q_ok then None
      else case dummy of None \<Rightarrow> None
      | Some d \<Rightarrow> Some \<lparr>qhead = \<lparr>ptr = Some d, cnt = 0\<rparr>, qtail = \<lparr>ptr = Some d, cnt = 0\<rparr>, retries = 0,
          heap = [d \<mapsto> node_new 0], freed = {}, pcs = (\<lambda>_. Idle), hist = [],
          uaf = False, dfree = False, wild = False\<rparr>)"

definition goto :: "tid \<Rightarrow> pc \<Rightarrow> msq \<Rightarrow> msq" where
  "goto t p s = s\<lparr>pcs := (pcs s)(t := p)\<rparr>"

definition log_ev :: "clong event \<Rightarrow> msq \<Rightarrow> msq" where
  "log_ev e s = s\<lparr>hist := hist s @ [e]\<rparr>"

text \<open>An access to the node \<open>p\<close> points to.\<close>

definition deref :: "tid \<Rightarrow> addr option \<Rightarrow> msq \<Rightarrow> (addr \<Rightarrow> node \<Rightarrow> msq \<Rightarrow> msq) \<Rightarrow> msq" where
  "deref t p s k =
     (case p of None \<Rightarrow> goto t Crashed (s\<lparr>wild := True\<rparr>)
      | Some a \<Rightarrow> (case heap s a of None \<Rightarrow> goto t Crashed (s\<lparr>wild := True\<rparr>)
         | Some nd \<Rightarrow> k a nd (s\<lparr>uaf := (uaf s \<or> a \<in> freed s)\<rparr>)))"

definition cas_tail :: "tagged \<Rightarrow> tagged \<Rightarrow> msq \<Rightarrow> msq" where
  "cas_tail old new s = (if qtail s = old then s\<lparr>qtail := new\<rparr> else s)"

definition free_node :: "addr \<Rightarrow> msq \<Rightarrow> msq" where
  "free_node a s = s\<lparr>dfree := (dfree s \<or> a \<in> freed s), freed := insert a (freed s)\<rparr>"

text \<open>
  One step of thread \<open>t\<close> inside an operation. \<open>spurious\<close> is the liberty of the weak CAS to fail although
  the value is the expected one.
\<close>

fun msq_go :: "bool \<Rightarrow> tid \<Rightarrow> pc \<Rightarrow> msq \<Rightarrow> msq option" where
  "msq_go spurious t (EqTail v n) s = Some (goto t (EqNext v n (qtail s)) s)"
| "msq_go spurious t (EqNext v n tlt) s =
     Some (deref t (ptr tlt) s (\<lambda>a nd. goto t (EqCheck v n tlt (nxt nd))))"
| "msq_go spurious t (EqCheck v n tlt nx) s = Some (
     if ptr tlt \<noteq> ptr (qtail s) then goto t (EqTail v n) s
     else if ptr nx = None then goto t (EqLink v n tlt nx) s
     else goto t (EqHelp v n tlt nx) s)"
| "msq_go spurious t (EqLink v n tlt nx) s =
     Some (deref t (ptr tlt) s (\<lambda>a nd s.
       if nxt nd = nx \<and> \<not> spurious
       then goto t (EqSwing n tlt)
         (s\<lparr>heap := (heap s)(a \<mapsto> nd\<lparr>nxt := \<lparr>ptr = Some n, cnt = cnt nx + 1\<rparr>\<rparr>)\<rparr>)
       else goto t (EqRetry v n) s))"
| "msq_go spurious t (EqSwing n tlt) s =
     Some (goto t (DoneEq True) (cas_tail tlt \<lparr>ptr = Some n, cnt = cnt tlt + 1\<rparr> s))"
| "msq_go spurious t (EqHelp v n tlt nx) s =
     Some (goto t (EqTail v n) (cas_tail tlt \<lparr>ptr = ptr nx, cnt = cnt tlt + 1\<rparr> s))"
| "msq_go spurious t (EqRetry v n) s = Some (goto t (EqTail v n) (s\<lparr>retries := retries s + 1\<rparr>))"
| "msq_go spurious t DqHead s = Some (goto t (DqTail (qhead s)) s)"
| "msq_go spurious t (DqTail hdt) s = Some (goto t (DqNext hdt (qtail s)) s)"
| "msq_go spurious t (DqNext hdt tlt) s =
     Some (deref t (ptr hdt) s (\<lambda>a nd. goto t (DqCheck hdt tlt (nxt nd))))"
| "msq_go spurious t (DqCheck hdt tlt nx) s = Some (
     if ptr hdt \<noteq> ptr (qhead s) then goto t DqHead s
     else if ptr hdt = ptr tlt then
       (if ptr nx = None then goto t (DoneDq None) s else goto t (DqHelp tlt nx) s)
     else goto t (DqRead hdt nx) s)"
| "msq_go spurious t (DqHelp tlt nx) s =
     Some (goto t DqRetry (cas_tail tlt \<lparr>ptr = ptr nx, cnt = cnt tlt + 1\<rparr> s))"
| "msq_go spurious t (DqRead hdt nx) s =
     Some (deref t (ptr nx) s (\<lambda>a nd. goto t (DqCas hdt nx (nvalue nd))))"
| "msq_go spurious t (DqCas hdt nx v) s = Some (
     if qhead s = hdt
     then goto t (case ptr hdt of None \<Rightarrow> Crashed | Some a \<Rightarrow> DqFree a v)
       (s\<lparr>qhead := \<lparr>ptr = ptr nx, cnt = cnt hdt + 1\<rparr>\<rparr>)
     else goto t DqRetry s)"
| "msq_go spurious t (DqFree a v) s = Some (goto t (DoneDq (Some v)) (free_node a s))"
| "msq_go spurious t DqRetry s = Some (goto t DqHead (s\<lparr>retries := retries s + 1\<rparr>))"
| "msq_go spurious t p s = None"

text \<open>
  What a thread can do next: call an operation, allocate (with the answer of \<open>malloc\<close>), take a step,
  return. \<open>reuse\<close> says whether \<open>malloc\<close> may hand out the address of a freed node again.
\<close>

datatype act = Enqueue clong | Dequeue | Malloc "addr option" | Go bool | Return

definition may_alloc :: "bool \<Rightarrow> msq \<Rightarrow> addr \<Rightarrow> bool" where
  "may_alloc reuse s a \<longleftrightarrow> heap s a = None \<or> reuse \<and> a \<in> freed s"

fun msq_step :: "bool \<Rightarrow> tid \<times> act \<Rightarrow> msq \<Rightarrow> msq option" where
  "msq_step reuse (t, Enqueue v) s =
     (if pcs s t = Idle then Some (goto t (EqNew v) (log_ev (CallEnq t v) s)) else None)"
| "msq_step reuse (t, Dequeue) s =
     (if pcs s t = Idle then Some (goto t DqHead (log_ev (CallDeq t) s)) else None)"
| "msq_step reuse (t, Malloc None) s =
     (case pcs s t of EqNew v \<Rightarrow> Some (goto t (DoneEq False) s) | _ \<Rightarrow> None)"
| "msq_step reuse (t, Malloc (Some n)) s =
     (case pcs s t of EqNew v \<Rightarrow>
        if may_alloc reuse s n
        then Some (goto t (EqTail v n) (s\<lparr>heap := (heap s)(n \<mapsto> node_new v), freed := freed s - {n}\<rparr>))
        else None
      | _ \<Rightarrow> None)"
| "msq_step reuse (t, Go spurious) s = msq_go spurious t (pcs s t) s"
| "msq_step reuse (t, Return) s =
     (case pcs s t of
        DoneEq b \<Rightarrow> Some (goto t Idle (log_ev (RetEnq t b) s))
      | DoneDq r \<Rightarrow> Some (goto t Idle (log_ev (RetDeq t r) s))
      | _ \<Rightarrow> None)"

definition msq_init :: "msq \<Rightarrow> bool" where
  "msq_init s \<longleftrightarrow> (\<exists>d. msq_create True (Some d) = Some s)"

text \<open>
  \<open>msq_destroy\<close>, called when no thread is inside an operation: it frees the nodes along the list. The
  fuel bounds the walk; running out of it, or reaching memory that is not a node, is \<open>None\<close>.
\<close>

fun destroy_nodes :: "nat \<Rightarrow> addr option \<Rightarrow> msq \<Rightarrow> msq option" where
  "destroy_nodes fuel None s = Some s"
| "destroy_nodes 0 (Some a) s = None"
| "destroy_nodes (Suc fuel) (Some a) s =
     (case heap s a of None \<Rightarrow> None
      | Some nd \<Rightarrow> destroy_nodes fuel (ptr (nxt nd)) (free_node a (s\<lparr>uaf := (uaf s \<or> a \<in> freed s)\<rparr>)))"

definition msq_destroy :: "nat \<Rightarrow> msq \<Rightarrow> msq option" where
  "msq_destroy fuel s = destroy_nodes fuel (ptr (qhead s)) s"

definition msq_retries :: "msq \<Rightarrow> ulong" where
  "msq_retries s = retries s"

end
