(* ===== verification/MSQueue_Inv.thy ===== *)
theory MSQueue_Inv
  imports MSQueue
begin

text \<open>
  Why the lock-free queue works as long as no address is handed out twice. The proof follows the list
  \<open>L\<close> of all nodes ever linked, in the order of their links: \<open>head\<close> points to \<open>L ! h\<close>, \<open>tail\<close> to
  \<open>L ! t\<close>, which is the last node or the one before it, and whatever a thread remembers from an earlier
  load lies at or before those positions.
\<close>

section \<open>The invariant\<close>

definition at_ix :: "addr list \<Rightarrow> addr option \<Rightarrow> nat \<Rightarrow> bool" where
  "at_ix L p k \<longleftrightarrow> k < length L \<and> p = Some (L ! k)"

definition nval :: "(addr \<Rightarrow> node option) \<Rightarrow> addr \<Rightarrow> clong" where
  "nval hp a = (case hp a of None \<Rightarrow> 0 | Some nd \<Rightarrow> nvalue nd)"

definition shared_ok ::
    "(addr \<Rightarrow> node option) \<Rightarrow> tagged \<Rightarrow> tagged \<Rightarrow> addr set \<Rightarrow> addr list \<Rightarrow> nat \<Rightarrow> nat \<Rightarrow> bool" where
  "shared_ok hp qh qt fr L h t \<longleftrightarrow>
     distinct L \<and> h \<le> t \<and> t < length L \<and> length L \<le> t + 2 \<and>
     at_ix L (ptr qh) h \<and> at_ix L (ptr qt) t \<and> fr \<subseteq> set (take h L) \<and>
     (\<forall>k < length L. \<exists>nd. hp (L ! k) = Some nd \<and>
        ptr (nxt nd) = (if Suc k < length L then Some (L ! Suc k) else None))"

text \<open>The node of an enqueue that is not linked yet.\<close>

definition priv :: "(addr \<Rightarrow> node option) \<Rightarrow> addr list \<Rightarrow> clong \<Rightarrow> addr \<Rightarrow> bool" where
  "priv hp L v n \<longleftrightarrow> n \<notin> set L \<and> (\<exists>nd. hp n = Some nd \<and> nvalue nd = v \<and> ptr (nxt nd) = None)"

fun tinv :: "(addr \<Rightarrow> node option) \<Rightarrow> addr set \<Rightarrow> addr list \<Rightarrow> nat \<Rightarrow> nat \<Rightarrow> pc \<Rightarrow> bool" where
  "tinv hp fr L h t (EqTail v n) \<longleftrightarrow> priv hp L v n"
| "tinv hp fr L h t (EqRetry v n) \<longleftrightarrow> priv hp L v n"
| "tinv hp fr L h t (EqNext v n ta) \<longleftrightarrow> priv hp L v n \<and> (\<exists>k\<le>t. at_ix L (ptr ta) k)"
| "tinv hp fr L h t (EqCheck v n ta nx) \<longleftrightarrow> priv hp L v n \<and>
     (\<exists>k\<le>t. at_ix L (ptr ta) k \<and> (ptr nx = None \<or> at_ix L (ptr nx) (Suc k)))"
| "tinv hp fr L h t (EqLink v n ta nx) \<longleftrightarrow> priv hp L v n \<and> (\<exists>k\<le>t. at_ix L (ptr ta) k) \<and> ptr nx = None"
| "tinv hp fr L h t (EqSwing n ta) \<longleftrightarrow> (\<exists>k\<le>t. at_ix L (ptr ta) k \<and> at_ix L (Some n) (Suc k))"
| "tinv hp fr L h t (EqHelp v n ta nx) \<longleftrightarrow> priv hp L v n \<and>
     (\<exists>k\<le>t. at_ix L (ptr ta) k \<and> at_ix L (ptr nx) (Suc k))"
| "tinv hp fr L h t (DqTail he) \<longleftrightarrow> (\<exists>a\<le>h. at_ix L (ptr he) a)"
| "tinv hp fr L h t (DqNext he ta) \<longleftrightarrow>
     (\<exists>a\<le>h. at_ix L (ptr he) a \<and> (\<exists>b\<le>t. a \<le> b \<and> at_ix L (ptr ta) b))"
| "tinv hp fr L h t (DqCheck he ta nx) \<longleftrightarrow>
     (\<exists>a\<le>h. at_ix L (ptr he) a \<and> (\<exists>b\<le>t. a \<le> b \<and> at_ix L (ptr ta) b \<and>
        (a < b \<longrightarrow> ptr nx \<noteq> None)) \<and> (ptr nx = None \<or> at_ix L (ptr nx) (Suc a)))"
| "tinv hp fr L h t (DqHelp ta nx) \<longleftrightarrow> (\<exists>k\<le>t. at_ix L (ptr ta) k \<and> at_ix L (ptr nx) (Suc k))"
| "tinv hp fr L h t (DqRead he nx) \<longleftrightarrow>
     (\<exists>a\<le>h. a < t \<and> at_ix L (ptr he) a \<and> at_ix L (ptr nx) (Suc a))"
| "tinv hp fr L h t (DqCas he nx v) \<longleftrightarrow>
     (\<exists>a\<le>h. a < t \<and> at_ix L (ptr he) a \<and> at_ix L (ptr nx) (Suc a) \<and> nval hp (L ! Suc a) = v)"
| "tinv hp fr L h t (DqFree x v) \<longleftrightarrow> (\<exists>a<h. at_ix L (Some x) a) \<and> x \<notin> fr"
| "tinv hp fr L h t Crashed \<longleftrightarrow> False"
| "tinv hp fr L h t _ \<longleftrightarrow> True"

text \<open>The node a thread has allocated and not linked, and the node it has unlinked and not freed.\<close>

fun owned :: "pc \<Rightarrow> addr option" where
  "owned (EqTail v n) = Some n"
| "owned (EqNext v n ta) = Some n"
| "owned (EqCheck v n ta nx) = Some n"
| "owned (EqLink v n ta nx) = Some n"
| "owned (EqHelp v n ta nx) = Some n"
| "owned (EqRetry v n) = Some n"
| "owned _ = None"

fun held :: "pc \<Rightarrow> addr option" where
  "held (DqFree x v) = Some x"
| "held _ = None"

definition threads_ok ::
    "(addr \<Rightarrow> node option) \<Rightarrow> addr set \<Rightarrow> addr list \<Rightarrow> nat \<Rightarrow> nat \<Rightarrow> (tid \<Rightarrow> pc) \<Rightarrow> bool" where
  "threads_ok hp fr L h t P \<longleftrightarrow> (\<forall>i. tinv hp fr L h t (P i)) \<and>
     separate (\<lambda>i. owned (P i)) \<and> separate (\<lambda>i. held (P i))"

text \<open>No node is lost: it is in the list or owned, and once off the list it is freed or held.\<close>

definition covered ::
    "(addr \<Rightarrow> node option) \<Rightarrow> addr set \<Rightarrow> addr list \<Rightarrow> nat \<Rightarrow> (tid \<Rightarrow> pc) \<Rightarrow> bool" where
  "covered hp fr L h P \<longleftrightarrow>
     (\<forall>a. hp a \<noteq> None \<longrightarrow> a \<in> set L \<or> (\<exists>i. owned (P i) = Some a)) \<and>
     (\<forall>k<h. L ! k \<in> fr \<or> (\<exists>i. held (P i) = Some (L ! k)))"

definition msq_inv :: "msq \<Rightarrow> addr list \<Rightarrow> nat \<Rightarrow> nat \<Rightarrow> bool" where
  "msq_inv s L h t \<longleftrightarrow> shared_ok (heap s) (qhead s) (qtail s) (freed s) L h t \<and>
     threads_ok (heap s) (freed s) L h t (pcs s) \<and> covered (heap s) (freed s) L h (pcs s) \<and>
     \<not> wild s \<and> \<not> dfree s"

section \<open>The abstract queue\<close>

fun op_of :: "pc \<Rightarrow> clong op" where
  "op_of (EqNew v) = PendEnq v"
| "op_of (EqTail v n) = PendEnq v"
| "op_of (EqNext v n ta) = PendEnq v"
| "op_of (EqCheck v n ta nx) = PendEnq v"
| "op_of (EqLink v n ta nx) = PendEnq v"
| "op_of (EqHelp v n ta nx) = PendEnq v"
| "op_of (EqRetry v n) = PendEnq v"
| "op_of (EqSwing n ta) = DoneEnq True"
| "op_of (DoneEq b) = DoneEnq b"
| "op_of (DqCheck he ta nx) = PendDeq (ptr nx = None)"
| "op_of (DqFree x v) = DoneDeq v"
| "op_of (DoneDq None) = PendDeq True"
| "op_of (DoneDq (Some v)) = DoneDeq v"
| "op_of Idle = NoOp"
| "op_of Crashed = NoOp"
| "op_of _ = PendDeq False"

definition contents :: "(addr \<Rightarrow> node option) \<Rightarrow> addr list \<Rightarrow> nat \<Rightarrow> clong list" where
  "contents hp L h = map (nval hp) (drop (Suc h) L)"

definition abs_of :: "msq \<Rightarrow> addr list \<Rightarrow> nat \<Rightarrow> clong fifo" where
  "abs_of s L h = \<lparr>items = contents (heap s) L h, ops = (\<lambda>i. op_of (pcs s i)), ahist = hist s\<rparr>"

definition keeps :: "msq \<Rightarrow> addr list \<Rightarrow> nat \<Rightarrow> msq \<Rightarrow> bool" where
  "keeps s L h s' \<longleftrightarrow> (\<exists>L' h' t'. msq_inv s' L' h' t' \<and>
     (fifo_step (abs_of s L h) (abs_of s' L' h') \<or> abs_of s' L' h' = abs_of s L h))"

section \<open>Positions in the list\<close>

lemma at_ix_unique: "distinct L \<Longrightarrow> at_ix L p i \<Longrightarrow> at_ix L p j \<Longrightarrow> i = j"
  by (auto simp: at_ix_def distinct_nth_eq)

lemma at_ix_append: "at_ix L p k \<Longrightarrow> at_ix (L @ M) p k"
  by (auto simp: at_ix_def nth_append)

lemma at_ix_last: "at_ix (L @ [n]) (Some n) (length L)"
  by (simp add: at_ix_def)

lemma nval_upd: "hp a = Some nd \<Longrightarrow> nvalue nd' = nvalue nd \<Longrightarrow> nval (hp(a \<mapsto> nd')) = nval hp"
  by (auto simp: nval_def fun_eq_iff)

section \<open>What other threads keep when one thread moves\<close>

lemma tinv_mono:
  assumes "tinv hp fr L h t p" and "h \<le> h'" and "t \<le> t'"
    and at: "\<And>q k. at_ix L q k \<Longrightarrow> at_ix L' q k"
    and pr: "\<And>v m. owned p = Some m \<Longrightarrow> priv hp L v m \<Longrightarrow> priv hp' L' v m"
    and nv: "\<And>k. k < length L \<Longrightarrow> nval hp' (L' ! k) = nval hp (L ! k)"
    and fr: "\<And>x. held p = Some x \<Longrightarrow> x \<notin> fr \<Longrightarrow> x \<notin> fr'"
  shows "tinv hp' fr' L' h' t' p"
proof -
  have le: "k \<le> t \<Longrightarrow> k \<le> t'" "k \<le> h \<Longrightarrow> k \<le> h'" "k < t \<Longrightarrow> k < t'" "k < h \<Longrightarrow> k < h'" for k
    using assms(2,3) by auto
  show ?thesis
  proof (cases p)
    case (DqCas he nx v)
    then obtain b where b: "b \<le> h" "b < t" "at_ix L (ptr he) b" "at_ix L (ptr nx) (Suc b)"
      "nval hp (L ! Suc b) = v"
      using assms(1) by auto
    then have "nval hp' (L' ! Suc b) = v" using nv [of "Suc b"] by (simp add: at_ix_def)
    then show ?thesis using b DqCas at le by (auto intro!: exI [of _ b])
  next
    case (DqCheck he ta nx)
    then show ?thesis using assms(1) at le(1,2) by simp meson
  next
    case (DqNext he ta)
    then show ?thesis using assms(1) at le(1,2) by simp meson
  next
    case (EqCheck v n ta nx)
    then show ?thesis using assms(1) at le(1,2) pr by simp meson
  qed (use assms(1) pr fr at le in \<open>simp; meson?\<close>)+
qed

lemma tinv_tail: "tinv hp fr L h t p \<Longrightarrow> tinv hp fr L h (Suc t) p"
  by (erule tinv_mono) auto

lemma tinv_head: "tinv hp fr L h t p \<Longrightarrow> tinv hp fr L (Suc h) t p"
  by (erule tinv_mono) auto

lemma tinv_free: "tinv hp fr L h t p \<Longrightarrow> held p \<noteq> Some a \<Longrightarrow> tinv hp (insert a fr) L h t p"
  by (erule tinv_mono) auto

lemma tinv_alloc:
  assumes "tinv hp fr L h t p" and "hp n = None" and "\<forall>k<length L. hp (L ! k) \<noteq> None"
  shows "tinv (hp(n \<mapsto> nd)) (fr - {n}) L h t p"
proof (rule tinv_mono [OF assms(1)])
  show "priv (hp(n \<mapsto> nd)) L v m" if "priv hp L v m" for v m
    using that assms(2) by (auto simp: priv_def)
  show "nval (hp(n \<mapsto> nd)) (L ! k) = nval hp (L ! k)" if "k < length L" for k
    using that assms(2,3) by (auto simp: nval_def)
qed auto

lemma tinv_link:
  assumes "tinv hp fr L h t p" and "owned p \<noteq> Some n" and "a \<in> set L" and "hp a = Some nd"
    and "nvalue nd' = nvalue nd"
  shows "tinv (hp(a \<mapsto> nd')) fr (L @ [n]) h t p"
proof (rule tinv_mono [OF assms(1)])
  show "priv (hp(a \<mapsto> nd')) (L @ [n]) v m" if "owned p = Some m" "priv hp L v m" for v m
    using that assms(2,3) by (auto simp: priv_def)
  show "nval (hp(a \<mapsto> nd')) ((L @ [n]) ! k) = nval hp (L ! k)" if "k < length L" for k
    using that nval_upd [of hp a nd nd'] assms(4,5) by (simp add: nth_append)
qed (auto intro: at_ix_append)

text \<open>Changing the program counter of one thread.\<close>

lemma threads_ok_move:
  assumes "threads_ok hp fr L h t P" and "tinv hp fr L h t p"
    and "owned p = None \<or> owned p = owned (P i)" and "held p = None \<or> held p = held (P i)"
  shows "threads_ok hp fr L h t (P(i := p))"
proof -
  have own: "owned ((P(i := p)) x) = owned (P x) \<or> owned ((P(i := p)) x) = None"
    and hel: "held ((P(i := p)) x) = held (P x) \<or> held ((P(i := p)) x) = None" for x
    using assms(3,4) by auto
  from assms(1) have "tinv hp fr L h t (P x)" for x by (simp add: threads_ok_def)
  then show ?thesis
    using separate_sub [of "\<lambda>x. owned (P x)" "\<lambda>x. owned ((P(i := p)) x)", OF _ own]
      separate_sub [of "\<lambda>x. held (P x)" "\<lambda>x. held ((P(i := p)) x)", OF _ hel] assms(1,2)
    unfolding threads_ok_def separate_def by simp
qed

lemma covered_move:
  assumes "covered hp fr L h P" and "owned p = owned (P i)" and "held p = held (P i)"
  shows "covered hp fr L h (P(i := p))"
proof -
  have "owned ((P(i := p)) x) = owned (P x)" "held ((P(i := p)) x) = held (P x)" for x
    using assms(2,3) by auto
  then show ?thesis using assms(1) by (simp only: covered_def)
qed

text \<open>A step that only moves the thread (and may log, count or access a node).\<close>

lemma inv_move:
  assumes "msq_inv s L h t" and "tinv (heap s) (freed s) L h t p"
    and "owned p = owned (pcs s i)" and "held p = held (pcs s i)"
  shows "msq_inv (goto i p s) L h t"
  using assms threads_ok_move [of "heap s" "freed s" L h t "pcs s" p i]
    covered_move [of "heap s" "freed s" L h "pcs s" p i]
  by (simp add: msq_inv_def goto_def)

lemma abs_move: "abs_of (goto i p s) L h = (abs_of s L h)\<lparr>ops := (ops (abs_of s L h))(i := op_of p)\<rparr>"
  by (auto simp: abs_of_def goto_def fun_eq_iff)

lemma keeps_move:
  assumes "msq_inv s L h t" and "tinv (heap s) (freed s) L h t p"
    and "owned p = owned (pcs s i)" and "held p = held (pcs s i)"
    and "op_of p = op_of (pcs s i)"
  shows "keeps s L h (goto i p s)"
proof -
  have "abs_of (goto i p s) L h = abs_of s L h"
    unfolding abs_move using assms(5) by (simp add: abs_of_def fun_upd_idem)
  then show ?thesis using inv_move [OF assms(1-4)] unfolding keeps_def by blast
qed

lemma deref_inv:
  assumes "msq_inv s L h t" and "at_ix L p k"
  shows "\<exists>nd. heap s (L ! k) = Some nd \<and>
     ptr (nxt nd) = (if Suc k < length L then Some (L ! Suc k) else None) \<and>
     (\<forall>i f. deref i p s f = f (L ! k) nd (s\<lparr>uaf := (uaf s \<or> L ! k \<in> freed s)\<rparr>))"
  using assms by (fastforce simp: msq_inv_def shared_ok_def deref_def at_ix_def)

lemma inv_flags [simp]:
  "msq_inv (s\<lparr>uaf := u\<rparr>) L h t = msq_inv s L h t"
  "msq_inv (s\<lparr>retries := r\<rparr>) L h t = msq_inv s L h t"
  "msq_inv (s\<lparr>hist := hs\<rparr>) L h t = msq_inv s L h t"
  "abs_of (s\<lparr>uaf := u\<rparr>) L h = abs_of s L h"
  "abs_of (s\<lparr>retries := r\<rparr>) L h = abs_of s L h"
  "keeps (s\<lparr>uaf := u\<rparr>) L h s' = keeps s L h s'"
  "keeps (s\<lparr>retries := r\<rparr>) L h s' = keeps s L h s'"
  by (simp_all add: msq_inv_def abs_of_def keeps_def)

end
