(* ===== verification/MSQueue_Steps.thy ===== *)
theory MSQueue_Steps
  imports MSQueue_Inv
begin

text \<open>
  Every step of the lock-free queue keeps its invariant and is a step of the FIFO specification or
  invisible to it, provided \<open>malloc\<close> never hands out an address twice.
\<close>

section \<open>The steps that change the shared state\<close>

lemma inv_parts:
  assumes "msq_inv s L h t"
  shows "shared_ok (heap s) (qhead s) (qtail s) (freed s) L h t"
    and "tinv (heap s) (freed s) L h t (pcs s i)"
    and "separate (\<lambda>i. owned (pcs s i))" and "separate (\<lambda>i. held (pcs s i))"
    and "covered (heap s) (freed s) L h (pcs s)" and "\<not> wild s" and "\<not> dfree s"
  using assms by (auto simp: msq_inv_def threads_ok_def)

lemma owned_priv: "tinv hp fr L h t p \<Longrightarrow> owned p = Some n \<Longrightarrow> \<exists>v. priv hp L v n"
  by (cases p) auto

text \<open>Linking a node.\<close>

lemma inv_link:
  assumes inv: "msq_inv s L h t" and pc: "pcs s i = EqLink v n ta nx"
    and k: "k \<le> t" "at_ix L (ptr ta) k" and nd: "heap s (L ! k) = Some nd" "ptr (nxt nd) = None"
    and s': "s' = goto i (EqSwing n ta) (s\<lparr>heap := (heap s)(L ! k \<mapsto> nd\<lparr>nxt := \<lparr>ptr = Some n, cnt = c\<rparr>\<rparr>)\<rparr>)"
  shows "msq_inv s' (L @ [n]) h t"
    and "abs_of s' (L @ [n]) h = (abs_of s L h)
      \<lparr>items := items (abs_of s L h) @ [v], ops := (ops (abs_of s L h))(i := DoneEnq True)\<rparr>"
proof -
  let ?nd = "nd\<lparr>nxt := \<lparr>ptr = Some n, cnt = c\<rparr>\<rparr>" and ?L = "L @ [n]"
  let ?hp = "(heap s)(L ! k \<mapsto> ?nd)"
  note sh = inv_parts(1) [OF inv]
  have pr: "priv (heap s) L v n" using inv_parts(2) [OF inv, of i] pc by simp
  obtain nn where nn: "n \<notin> set L" "heap s n = Some nn" "nvalue nn = v" "ptr (nxt nn) = None"
    using pr by (auto simp: priv_def)
  have kl: "k < length L" using k(2) by (simp add: at_ix_def)
  then have last: "Suc k = length L"
    using sh nd unfolding shared_ok_def by (metis Suc_lessI option.inject option.simps(3))
  then have kt: "k = t" using k(1) sh by (simp add: shared_ok_def)
  have mem: "L ! k \<in> set L" using kl by simp
  have chain: "\<exists>nd. ?hp (?L ! j) = Some nd \<and> ptr (nxt nd) = (if Suc j < length ?L then Some (?L ! Suc j) else None)"
    if j: "j < length ?L" for j
  proof -
    have "j < k \<or> j = k \<or> j = Suc k" using j last by auto
    then consider "j < k" | "j = k" | "j = Suc k" by blast
    then show ?thesis
    proof cases
      case 1
      then have q: "?L ! j \<noteq> L ! k" "?L ! j = L ! j" "?L ! Suc j = L ! Suc j" "Suc j < length L"
        using sh kl last by (auto simp: shared_ok_def distinct_nth_eq nth_append)
      then have "\<exists>nd. heap s (L ! j) = Some nd \<and> ptr (nxt nd) = Some (L ! Suc j)"
        using sh unfolding shared_ok_def by (metis Suc_lessD)
      then show ?thesis using q by simp
    next
      case 2
      then show ?thesis using last kl by (simp add: nth_append)
    next
      case 3
      then have "?L ! j = n" using last by simp
      then show ?thesis using 3 nn mem last by auto
    qed
  qed
  have nv: "nval ?hp = nval (heap s)" by (rule nval_upd [of "heap s" "L ! k" nd, OF nd(1)]) simp
  have at: "at_ix L q j \<Longrightarrow> at_ix ?L q j" for q j by (rule at_ix_append)
  have tk: "take h ?L = take h L" using sh by (simp add: shared_ok_def)
  have sh': "shared_ok ?hp (qhead s) (qtail s) (freed s) ?L h t"
    unfolding shared_ok_def tk using sh nn(1) last kt chain by (auto simp: shared_ok_def intro: at_ix_append)
  have own_i: "owned (pcs s i) = Some n" and hel_i: "held (pcs s i) = None" using pc by simp_all
  have own: "owned (pcs s j) \<noteq> Some n" if "j \<noteq> i" for j
    using inv_parts(3) [OF inv] that pc unfolding separate_def by (metis own_i option.distinct(1))
  have ti: "tinv ?hp (freed s) ?L h t (((pcs s)(i := EqSwing n ta)) j)" for j
  proof (cases "j = i")
    case True
    then show ?thesis using k at at_ix_last [of L n] last by auto
  next
    case False
    then show ?thesis
      using tinv_link [OF inv_parts(2) [OF inv] own mem nd(1), of j ?nd] by simp
  qed
  have "separate (\<lambda>j. owned (((pcs s)(i := EqSwing n ta)) j))" "separate (\<lambda>j. held (((pcs s)(i := EqSwing n ta)) j))"
    by (rule separate_sub [OF inv_parts(3) [OF inv]], simp) (rule separate_sub [OF inv_parts(4) [OF inv]], simp)
  moreover have "covered ?hp (freed s) ?L h ((pcs s)(i := EqSwing n ta))"
    unfolding covered_def
  proof (intro conjI allI impI)
    fix a assume "?hp a \<noteq> None"
    then have "heap s a \<noteq> None" using nd(1) by (auto split: if_splits)
    then have "a \<in> set L \<or> (\<exists>j. owned (pcs s j) = Some a)"
      using inv_parts(5) [OF inv] by (simp add: covered_def)
    then show "a \<in> set ?L \<or> (\<exists>j. owned (((pcs s)(i := EqSwing n ta)) j) = Some a)"
      using own_i by (cases "a = n") (auto, metis option.inject)
  next
    fix j assume "j < h"
    then have "?L ! j = L ! j" using sh by (simp add: shared_ok_def nth_append)
    moreover have "L ! j \<in> freed s \<or> (\<exists>m. held (pcs s m) = Some (L ! j))"
      using inv_parts(5) [OF inv] \<open>j < h\<close> by (simp add: covered_def)
    ultimately show "?L ! j \<in> freed s \<or> (\<exists>m. held (((pcs s)(i := EqSwing n ta)) m) = Some (?L ! j))"
      using hel_i by (metis fun_upd_other option.distinct(1))
  qed
  ultimately show "msq_inv s' (L @ [n]) h t"
    using sh' ti inv_parts(6,7) [OF inv] by (simp add: s' goto_def msq_inv_def threads_ok_def)
  have "h < length L" using sh by (simp add: shared_ok_def)
  then have "contents ?hp ?L h = contents (heap s) L h @ [v]"
    using nn by (simp add: contents_def nv, simp add: nval_def)
  then show "abs_of s' (L @ [n]) h = (abs_of s L h)
      \<lparr>items := items (abs_of s L h) @ [v], ops := (ops (abs_of s L h))(i := DoneEnq True)\<rparr>"
    by (auto simp: s' goto_def abs_of_def fun_eq_iff)
qed

text \<open>Swinging the tail.\<close>

lemma inv_swing:
  assumes inv: "msq_inv s L h t" and k: "k \<le> t" "at_ix L (ptr ta) k" "at_ix L (ptr new) (Suc k)"
  shows "\<exists>t'. (t' = t \<or> t' = Suc t) \<and> msq_inv (cas_tail ta new s) L h t'"
proof (cases "qtail s = ta")
  case True
  note sh = inv_parts(1) [OF inv]
  have "at_ix L (ptr ta) t" "distinct L" using sh True by (auto simp: shared_ok_def)
  then have "k = t" using k(2) at_ix_unique by blast
  then have "shared_ok (heap s) (qhead s) new (freed s) L h (Suc t)"
    using sh k(3) by (auto simp: shared_ok_def at_ix_def)
  moreover have "threads_ok (heap s) (freed s) L h (Suc t) (pcs s)"
    using inv by (simp add: msq_inv_def threads_ok_def tinv_tail)
  ultimately show ?thesis using inv True by (auto simp: msq_inv_def cas_tail_def)
qed (use inv in \<open>auto simp: cas_tail_def\<close>)

lemma cas_tail_frame [simp]:
  "heap (cas_tail a b s) = heap s" "pcs (cas_tail a b s) = pcs s" "freed (cas_tail a b s) = freed s"
  "hist (cas_tail a b s) = hist s" "qhead (cas_tail a b s) = qhead s"
  by (simp_all add: cas_tail_def)

lemma abs_cas_tail [simp]: "abs_of (cas_tail a b s) L h = abs_of s L h"
  by (simp add: abs_of_def)

text \<open>Advancing the head.\<close>

lemma inv_pop:
  assumes inv: "msq_inv s L h t" and pc: "pcs s i = DqCas he nx v" and eq: "qhead s = he"
    and s': "s' = goto i (case ptr he of None \<Rightarrow> Crashed | Some a \<Rightarrow> DqFree a v)
     (s\<lparr>qhead := \<lparr>ptr = ptr nx, cnt = c\<rparr>\<rparr>)"
  shows "msq_inv s' L (Suc h) t"
    and "items (abs_of s L h) = v # items (abs_of s' L (Suc h))"
    and "abs_of s' L (Suc h) = (abs_of s L h)
      \<lparr>items := items (abs_of s' L (Suc h)), ops := (ops (abs_of s L h))(i := DoneDeq v)\<rparr>"
proof -
  note sh = inv_parts(1) [OF inv]
  obtain a where a: "a \<le> h" "a < t" "at_ix L (ptr he) a" "at_ix L (ptr nx) (Suc a)" "nval (heap s) (L ! Suc a) = v"
    using inv_parts(2) [OF inv, of i] pc by auto
  have "at_ix L (ptr he) h" "distinct L" using sh eq by (auto simp: shared_ok_def)
  then have ah: "a = h" using a(3) at_ix_unique by blast
  have hlen: "h < length L" "Suc h < length L" using sh a(2) ah by (auto simp: shared_ok_def)
  have own_i: "owned (pcs s i) = None" and hel_i: "held (pcs s i) = None" using pc by simp_all
  have pc': "(case ptr he of None \<Rightarrow> Crashed | Some a \<Rightarrow> DqFree a v) = DqFree (L ! h) v"
    using a(3) ah by (simp add: at_ix_def)
  have tk: "set (take h L) \<subseteq> set (take (Suc h) L)" by (simp add: set_take_subset_set_take)
  have notin: "L ! h \<notin> set (take h L)"
    using sh hlen by (simp add: shared_ok_def distinct_conv_nth in_set_conv_nth)
  then have nf: "L ! h \<notin> freed s" using sh by (auto simp: shared_ok_def)
  have sh': "shared_ok (heap s) \<lparr>ptr = ptr nx, cnt = c\<rparr> (qtail s) (freed s) L (Suc h) t"
    using sh a ah tk unfolding shared_ok_def by auto
  have ti: "tinv (heap s) (freed s) L (Suc h) t (((pcs s)(i := DqFree (L ! h) v)) j)" for j
    using tinv_head [OF inv_parts(2) [OF inv, of j]] hlen nf by (auto simp: at_ix_def)
  have hel: "held (pcs s j) \<noteq> Some (L ! h)" for j
  proof
    assume "held (pcs s j) = Some (L ! h)"
    then obtain w where "pcs s j = DqFree (L ! h) w" by (cases "pcs s j") auto
    then obtain b where "b < h" "b < length L" "L ! b = L ! h"
      using inv_parts(2) [OF inv, of j] by (auto simp: at_ix_def)
    then show False using sh hlen by (simp add: shared_ok_def distinct_nth_eq)
  qed
  have "(\<lambda>j. held (((pcs s)(i := DqFree (L ! h) v)) j)) = (\<lambda>j. held (pcs s j))(i := Some (L ! h))"
    by auto
  then have "separate (\<lambda>j. held (((pcs s)(i := DqFree (L ! h) v)) j))"
    using separate_new [OF inv_parts(4) [OF inv] hel] by simp
  moreover have "separate (\<lambda>j. owned (((pcs s)(i := DqFree (L ! h) v)) j))"
    by (rule separate_sub [OF inv_parts(3) [OF inv]]) simp
  moreover have "covered (heap s) (freed s) L (Suc h) ((pcs s)(i := DqFree (L ! h) v))"
    unfolding covered_def
  proof (intro conjI allI impI)
    fix x assume "heap s x \<noteq> None"
    then have "x \<in> set L \<or> (\<exists>j. owned (pcs s j) = Some x)"
      using inv_parts(5) [OF inv] by (simp add: covered_def)
    then show "x \<in> set L \<or> (\<exists>j. owned (((pcs s)(i := DqFree (L ! h) v)) j) = Some x)"
      using own_i by (metis fun_upd_other option.distinct(1))
  next
    fix j assume "j < Suc h"
    then consider "j = h" | "j < h" by linarith
    then show "L ! j \<in> freed s \<or> (\<exists>m. held (((pcs s)(i := DqFree (L ! h) v)) m) = Some (L ! j))"
    proof cases
      case 1
      then show ?thesis by (metis fun_upd_same held.simps(1))
    next
      case 2
      then have "L ! j \<in> freed s \<or> (\<exists>m. held (pcs s m) = Some (L ! j))"
        using inv_parts(5) [OF inv] by (simp add: covered_def)
      then show ?thesis using hel_i by (metis fun_upd_other option.distinct(1))
    qed
  qed
  ultimately show "msq_inv s' L (Suc h) t"
    using sh' ti inv_parts(6,7) [OF inv] by (simp add: s' pc' goto_def msq_inv_def threads_ok_def)
  have "drop (Suc h) L = L ! Suc h # drop (Suc (Suc h)) L"
    using hlen by (simp add: Cons_nth_drop_Suc)
  then show "items (abs_of s L h) = v # items (abs_of s' L (Suc h))"
    using a(5) ah by (simp add: abs_of_def contents_def s' goto_def)
  show "abs_of s' L (Suc h) = (abs_of s L h)
      \<lparr>items := items (abs_of s' L (Suc h)), ops := (ops (abs_of s L h))(i := DoneDeq v)\<rparr>"
    by (auto simp: s' pc' goto_def abs_of_def fun_eq_iff)
qed

text \<open>Freeing the old dummy, and allocating a new node.\<close>

lemma inv_free:
  assumes inv: "msq_inv s L h t" and pc: "pcs s i = DqFree x v"
  shows "msq_inv (goto i (DoneDq (Some v)) (free_node x s)) L h t"
proof -
  note sh = inv_parts(1) [OF inv]
  obtain a where a: "a < h" "at_ix L (Some x) a" "x \<notin> freed s"
    using inv_parts(2) [OF inv, of i] pc by auto
  then have "x \<in> set (take h L)"
    using sh by (auto simp: at_ix_def shared_ok_def in_set_conv_nth intro!: exI [of _ a])
  then have sh': "shared_ok (heap s) (qhead s) (qtail s) (insert x (freed s)) L h t"
    using sh by (simp add: shared_ok_def)
  have hel_i: "held (pcs s i) = Some x" and own_i: "owned (pcs s i) = None" using pc by simp_all
  have other: "held (pcs s j) \<noteq> Some x" if "j \<noteq> i" for j
    using inv_parts(4) [OF inv] that hel_i unfolding separate_def by (metis option.distinct(1))
  have "tinv (heap s) (insert x (freed s)) L h t (((pcs s)(i := DoneDq (Some v))) j)" for j
    using tinv_free [OF inv_parts(2) [OF inv, of j]] other [of j] by (cases "j = i") auto
  moreover have "separate (\<lambda>j. owned (((pcs s)(i := DoneDq (Some v))) j))"
    by (rule separate_sub [OF inv_parts(3) [OF inv]]) simp
  moreover have "separate (\<lambda>j. held (((pcs s)(i := DoneDq (Some v))) j))"
    by (rule separate_sub [OF inv_parts(4) [OF inv]]) simp
  moreover have "covered (heap s) (insert x (freed s)) L h ((pcs s)(i := DoneDq (Some v)))"
    unfolding covered_def
  proof (intro conjI allI impI)
    fix y assume "heap s y \<noteq> None"
    then have "y \<in> set L \<or> (\<exists>j. owned (pcs s j) = Some y)"
      using inv_parts(5) [OF inv] by (simp add: covered_def)
    then show "y \<in> set L \<or> (\<exists>j. owned (((pcs s)(i := DoneDq (Some v))) j) = Some y)"
      using own_i by (metis fun_upd_other option.distinct(1))
  next
    fix k assume "k < h"
    then have "L ! k \<in> freed s \<or> (\<exists>j. held (pcs s j) = Some (L ! k))"
      using inv_parts(5) [OF inv] by (simp add: covered_def)
    then show "L ! k \<in> insert x (freed s) \<or> (\<exists>j. held (((pcs s)(i := DoneDq (Some v))) j) = Some (L ! k))"
      using hel_i by (metis fun_upd_other insertCI option.inject)
  qed
  ultimately show ?thesis
    using sh' a(3) inv_parts(6,7) [OF inv]
    by (simp add: goto_def free_node_def msq_inv_def threads_ok_def)
qed

lemma inv_alloc:
  assumes inv: "msq_inv s L h t" and pc: "pcs s i = EqNew v" and new: "heap s n = None"
    and s': "s' = goto i (EqTail v n) (s\<lparr>heap := (heap s)(n \<mapsto> node_new v), freed := freed s - {n}\<rparr>)"
  shows "msq_inv s' L h t" and "abs_of s' L h = abs_of s L h"
proof -
  let ?hp = "(heap s)(n \<mapsto> node_new v)"
  note sh = inv_parts(1) [OF inv]
  have nodes: "\<forall>k<length L. heap s (L ! k) \<noteq> None" using sh unfolding shared_ok_def by (metis option.distinct(1))
  then have n: "n \<notin> set L" using new by (auto simp: in_set_conv_nth)
  then have ne: "L ! k \<noteq> n" if "k < length L" for k using that by auto
  have sh': "shared_ok ?hp (qhead s) (qtail s) (freed s - {n}) L h t"
    using sh ne unfolding shared_ok_def by auto
  have nown: "owned (pcs s j) \<noteq> Some n" for j
    using owned_priv [OF inv_parts(2) [OF inv, of j]] new by (auto simp: priv_def)
  have own_i: "owned (pcs s i) = None" and hel_i: "held (pcs s i) = None" using pc by simp_all
  have "tinv ?hp (freed s - {n}) L h t (((pcs s)(i := EqTail v n)) j)" for j
    using tinv_alloc [OF inv_parts(2) [OF inv, of j] new nodes] n by (auto simp: priv_def node_new_def)
  moreover have "(\<lambda>j. owned (((pcs s)(i := EqTail v n)) j)) = (\<lambda>j. owned (pcs s j))(i := Some n)" by auto
  then have "separate (\<lambda>j. owned (((pcs s)(i := EqTail v n)) j))"
    using separate_new [OF inv_parts(3) [OF inv] nown] by simp
  moreover have "separate (\<lambda>j. held (((pcs s)(i := EqTail v n)) j))"
    by (rule separate_sub [OF inv_parts(4) [OF inv]]) simp
  moreover have "covered ?hp (freed s - {n}) L h ((pcs s)(i := EqTail v n))"
    unfolding covered_def
  proof (intro conjI allI impI)
    fix y assume "?hp y \<noteq> None"
    then have "y = n \<or> y \<in> set L \<or> (\<exists>j. owned (pcs s j) = Some y)"
      using inv_parts(5) [OF inv] by (auto simp: covered_def split: if_splits)
    then show "y \<in> set L \<or> (\<exists>j. owned (((pcs s)(i := EqTail v n)) j) = Some y)"
      using own_i by (metis fun_upd_apply option.distinct(1) owned.simps(1))
  next
    fix k assume "k < h"
    then have "L ! k \<in> freed s \<or> (\<exists>j. held (pcs s j) = Some (L ! k))" "L ! k \<noteq> n"
      using inv_parts(5) [OF inv] sh ne by (auto simp: covered_def shared_ok_def)
    then show "L ! k \<in> freed s - {n} \<or> (\<exists>j. held (((pcs s)(i := EqTail v n)) j) = Some (L ! k))"
      using hel_i by (metis DiffI fun_upd_other option.distinct(1) singletonD)
  qed
  ultimately show "msq_inv s' L h t"
    using sh' inv_parts(6,7) [OF inv] by (simp add: s' goto_def msq_inv_def threads_ok_def)
  have "contents ?hp L h = contents (heap s) L h"
    using n by (auto simp: contents_def nval_def dest: in_set_dropD)
  then show "abs_of s' L h = abs_of s L h"
    using pc by (auto simp: s' goto_def abs_of_def fun_eq_iff)
qed

section \<open>One step\<close>

lemma keepsI:
  assumes "msq_inv s' L' h' t'"
    and "fifo_step (abs_of s L h) (abs_of s' L' h') \<or> abs_of s' L' h' = abs_of s L h"
  shows "keeps s L h s'"
  using assms unfolding keeps_def by blast

lemma ops_abs [simp]: "ops (abs_of s L h) i = op_of (pcs s i)"
  by (simp add: abs_of_def)

text \<open>Calls and returns.\<close>

lemma keeps_log:
  assumes inv: "msq_inv s L h t" and "tinv (heap s) (freed s) L h t p"
    and "owned p = owned (pcs s i)" and "held p = held (pcs s i)"
    and "fifo_step (abs_of s L h)
      ((abs_of s L h)\<lparr>ops := (ops (abs_of s L h))(i := op_of p), ahist := ahist (abs_of s L h) @ [e]\<rparr>)"
  shows "keeps s L h (goto i p (log_ev e s))"
proof (rule keepsI)
  show "msq_inv (goto i p (log_ev e s)) L h t"
    unfolding log_ev_def by (rule inv_move) (use assms in simp_all)
  have "abs_of (goto i p (log_ev e s)) L h = (abs_of s L h)
      \<lparr>ops := (ops (abs_of s L h))(i := op_of p), ahist := ahist (abs_of s L h) @ [e]\<rparr>"
    unfolding abs_move by (simp add: abs_of_def log_ev_def)
  then show "fifo_step (abs_of s L h) (abs_of (goto i p (log_ev e s)) L h) \<or>
      abs_of (goto i p (log_ev e s)) L h = abs_of s L h"
    using assms(5) by simp
qed

text \<open>A private step whose abstract counterpart is a change of the operation's status.\<close>

lemma keeps_status:
  assumes inv: "msq_inv s L h t" and "tinv (heap s) (freed s) L h t p"
    and "owned p = owned (pcs s i)" and "held p = held (pcs s i)"
    and "fifo_step (abs_of s L h) ((abs_of s L h)\<lparr>ops := (ops (abs_of s L h))(i := op_of p)\<rparr>)"
  shows "keeps s L h (goto i p s)"
  by (rule keepsI [OF inv_move [OF assms(1-4)]]) (simp only: abs_move assms(5) simp_thms)

end
