(* ===== verification/MSQueue_Props.thy ===== *)
theory MSQueue_Props
  imports MSQueue_Steps
begin

text \<open>
  The steps of the two operations of the lock-free queue, one program point at a time, and with them the interpretation of the
  FIFO interface: the queue implements the specification when no address is handed out twice.
\<close>

section \<open>Every step keeps the invariant\<close>

lemma go_enqueue:
  assumes inv: "msq_inv s L h t" and pc: "pcs s i = p" and go: "msq_go sp i p s = Some s'"
    and p: "op_of p = PendEnq v \<or> op_of p = DoneEnq b"
  shows "keeps s L h s'"
proof (cases p)
  case (EqTail v n)
  then show ?thesis using go pc inv_parts(1,2) [OF inv] inv_parts(2) [OF inv, of i]
    by (auto simp: shared_ok_def intro!: keeps_move [OF inv])
next
  case (EqNext v n ta)
  then obtain k where k: "k \<le> t" "at_ix L (ptr ta) k" "priv (heap s) L v n"
    using inv_parts(2) [OF inv, of i] pc by auto
  obtain nd where nd: "heap s (L ! k) = Some nd"
    "ptr (nxt nd) = (if Suc k < length L then Some (L ! Suc k) else None)"
    "\<And>f. deref i (ptr ta) s f = f (L ! k) nd (s\<lparr>uaf := (uaf s \<or> L ! k \<in> freed s)\<rparr>)"
    using deref_inv [OF inv k(2)] by blast
  have "ptr (nxt nd) = None \<or> at_ix L (ptr (nxt nd)) (Suc k)" using nd(2) by (simp add: at_ix_def)
  then have ti: "tinv (heap s) (freed s) L h t (EqCheck v n ta (nxt nd))" using k by auto
  let ?s = "s\<lparr>uaf := (uaf s \<or> L ! k \<in> freed s)\<rparr>"
  have "keeps ?s L h (goto i (EqCheck v n ta (nxt nd)) ?s)"
    using keeps_move [of ?s L h t "EqCheck v n ta (nxt nd)" i] inv ti pc EqNext by (simp del: tinv.simps)
  then show ?thesis using go EqNext nd(3) by auto
next
  case (EqCheck v n ta nx)
  then have ti: "tinv (heap s) (freed s) L h t (EqCheck v n ta nx)" using inv_parts(2) [OF inv, of i] pc by simp
  then show ?thesis using go pc EqCheck
    by (auto split: if_splits intro!: keeps_move [OF inv])
next
  case (EqLink v n ta nx)
  then obtain k where k: "k \<le> t" "at_ix L (ptr ta) k" "priv (heap s) L v n" "ptr nx = None"
    using inv_parts(2) [OF inv, of i] pc by auto
  obtain nd where nd: "heap s (L ! k) = Some nd"
    "\<And>f. deref i (ptr ta) s f = f (L ! k) nd (s\<lparr>uaf := (uaf s \<or> L ! k \<in> freed s)\<rparr>)"
    using deref_inv [OF inv k(2)] by blast
  let ?s = "s\<lparr>uaf := (uaf s \<or> L ! k \<in> freed s)\<rparr>"
  have inv': "msq_inv ?s L h t" using inv by simp
  show ?thesis
  proof (cases "nxt nd = nx \<and> \<not> sp")
    case True
    then have s': "s' = goto i (EqSwing n ta)
        (?s\<lparr>heap := (heap ?s)(L ! k \<mapsto> nd\<lparr>nxt := \<lparr>ptr = Some n, cnt = cnt nx + 1\<rparr>\<rparr>)\<rparr>)"
      using go EqLink nd(2) by simp
    have pc': "pcs ?s i = EqLink v n ta nx" "heap ?s (L ! k) = Some nd" "ptr (nxt nd) = None"
      using pc EqLink nd(1) k(4) True by simp_all
    note link = inv_link [OF inv' pc'(1) k(1,2) pc'(2,3) s']
    have "keeps ?s L h s'"
    proof (rule keepsI [OF link(1)])
      have "ops (abs_of ?s L h) i = PendEnq v" using pc EqLink by (simp del: inv_flags)
      then show "fifo_step (abs_of ?s L h) (abs_of s' (L @ [n]) h) \<or> abs_of s' (L @ [n]) h = abs_of ?s L h"
        unfolding link(2) by (blast intro: fifo_step.enq)
    qed
    then show ?thesis by simp
  next
    case False
    have "keeps ?s L h (goto i (EqRetry v n) ?s)"
      by (rule keeps_move) (use inv k pc EqLink in simp_all)
    then show ?thesis using go EqLink nd(2) False by auto
  qed
next
  case (EqSwing n ta)
  then obtain k where k: "k \<le> t" "at_ix L (ptr ta) k" "at_ix L (Some n) (Suc k)"
    using inv_parts(2) [OF inv, of i] pc by auto
  obtain t' where t': "msq_inv (cas_tail ta \<lparr>ptr = Some n, cnt = cnt ta + 1\<rparr> s) L h t'"
    using inv_swing [OF inv k(1,2), of "\<lparr>ptr = Some n, cnt = cnt ta + 1\<rparr>"] k(3) by auto
  have "keeps (cas_tail ta \<lparr>ptr = Some n, cnt = cnt ta + 1\<rparr> s) L h s'"
    using go EqSwing pc by (auto intro!: keeps_move [OF t'])
  then show ?thesis by (simp add: keeps_def)
next
  case (EqHelp v n ta nx)
  then obtain k where k: "k \<le> t" "at_ix L (ptr ta) k" "at_ix L (ptr nx) (Suc k)" "priv (heap s) L v n"
    using inv_parts(2) [OF inv, of i] pc by auto
  obtain t' where t': "msq_inv (cas_tail ta \<lparr>ptr = ptr nx, cnt = cnt ta + 1\<rparr> s) L h t'"
    using inv_swing [OF inv k(1,2), of "\<lparr>ptr = ptr nx, cnt = cnt ta + 1\<rparr>"] k(3) by auto
  have "keeps (cas_tail ta \<lparr>ptr = ptr nx, cnt = cnt ta + 1\<rparr> s) L h s'"
    using go EqHelp pc k(4) by (auto intro!: keeps_move [OF t'])
  then show ?thesis by (simp add: keeps_def)
next
  case (EqRetry v n)
  then have ti: "tinv (heap s) (freed s) L h t (EqTail v n)" using inv_parts(2) [OF inv, of i] pc by simp
  have "keeps (s\<lparr>retries := retries s + 1\<rparr>) L h (goto i (EqTail v n) (s\<lparr>retries := retries s + 1\<rparr>))"
    by (rule keeps_move) (use inv ti pc EqRetry in simp_all)
  then show ?thesis using go EqRetry by simp
next
  case (DoneDq r)
  then show ?thesis using p by (cases r) auto
qed (use p go in auto)

lemma go_dequeue:
  assumes inv: "msq_inv s L h t" and pc: "pcs s i = p" and go: "msq_go sp i p s = Some s'"
    and p: "op_of p = PendDeq b \<or> op_of p = DoneDeq v"
  shows "keeps s L h s'"
proof (cases p)
  case DqHead
  then show ?thesis using go pc inv_parts(1) [OF inv]
    by (auto simp: shared_ok_def intro!: keeps_move [OF inv])
next
  case (DqTail he)
  then obtain a where a: "a \<le> h" "at_ix L (ptr he) a" using inv_parts(2) [OF inv, of i] pc by auto
  have "h \<le> t" "at_ix L (ptr (qtail s)) t" using inv_parts(1) [OF inv] by (simp_all add: shared_ok_def)
  then have "tinv (heap s) (freed s) L h t (DqNext he (qtail s))" using a by (auto intro: order_trans)
  then have "keeps s L h (goto i (DqNext he (qtail s)) s)"
    by (rule keeps_move [OF inv]) (use pc DqTail in simp_all)
  then show ?thesis using go DqTail by simp
next
  case (DqNext he ta)
  then obtain a b where ab: "a \<le> h" "at_ix L (ptr he) a" "b \<le> t" "a \<le> b" "at_ix L (ptr ta) b"
    using inv_parts(2) [OF inv, of i] pc by auto
  obtain nd where nd: "ptr (nxt nd) = (if Suc a < length L then Some (L ! Suc a) else None)"
    "\<And>f. deref i (ptr he) s f = f (L ! a) nd (s\<lparr>uaf := (uaf s \<or> L ! a \<in> freed s)\<rparr>)"
    using deref_inv [OF inv ab(2)] by blast
  note sh = inv_parts(1) [OF inv]
  let ?p = "DqCheck he ta (nxt nd)" and ?s = "s\<lparr>uaf := (uaf s \<or> L ! a \<in> freed s)\<rparr>"
  have "a < b \<longrightarrow> ptr (nxt nd) \<noteq> None" "ptr (nxt nd) = None \<or> at_ix L (ptr (nxt nd)) (Suc a)"
    using nd(1) ab(5) by (auto simp: at_ix_def)
  then have ti: "tinv (heap s) (freed s) L h t ?p" using ab by auto
  have s': "s' = goto i ?p ?s" using go DqNext nd(2) by simp
  have "keeps ?s L h (goto i ?p ?s)"
  proof (cases "ptr (nxt nd) = None")
    case True
    then have "length L \<le> Suc h" using nd(1) ab(1) by (auto split: if_splits)
    then have "items (abs_of ?s L h) = []" by (simp add: abs_of_def contents_def)
    moreover have "ops (abs_of ?s L h) i = PendDeq False" using pc DqNext by (simp del: inv_flags)
    ultimately have "fifo_step (abs_of ?s L h) ((abs_of ?s L h)\<lparr>ops := (ops (abs_of ?s L h))(i := op_of ?p)\<rparr>)"
      using True by (auto intro: fifo_step.see_empty)
    then show ?thesis
      by (intro keeps_status) (use inv ti pc DqNext in simp_all)
  next
    case False
    then show ?thesis by (intro keeps_move) (use inv ti pc DqNext in auto)
  qed
  then show ?thesis using s' by simp
next
  case (DqCheck he ta nx)
  then obtain a b' where ab: "a \<le> h" "at_ix L (ptr he) a" "b' \<le> t" "a \<le> b'" "at_ix L (ptr ta) b'"
    "a < b' \<longrightarrow> ptr nx \<noteq> None" "ptr nx = None \<or> at_ix L (ptr nx) (Suc a)"
    using inv_parts(2) [OF inv, of i] pc by auto
  have dist: "distinct L" using inv_parts(1) [OF inv] by (simp add: shared_ok_def)
  have same: "ptr he = ptr ta \<longleftrightarrow> a = b'"
    using ab dist by (auto simp: at_ix_def distinct_nth_eq)
  have ops: "ops (abs_of s L h) i = PendDeq (ptr nx = None)" using pc DqCheck by simp
  consider "s' = goto i DqHead s" | "s' = goto i (DoneDq None) s" "ptr nx = None"
    | "s' = goto i (DqHelp ta nx) s" "ptr nx \<noteq> None" "a = b'" | "s' = goto i (DqRead he nx) s" "a < b'"
    using go DqCheck same ab(4) by (auto split: if_splits)
  then show ?thesis
  proof cases
    case 1
    show ?thesis
    proof (cases "ptr nx = None")
      case True
      then have "fifo_step (abs_of s L h) ((abs_of s L h)\<lparr>ops := (ops (abs_of s L h))(i := op_of DqHead)\<rparr>)"
        using ops by (auto intro: fifo_step.look_again)
      then show ?thesis unfolding 1 by (intro keeps_status [OF inv]) (use pc DqCheck in simp_all)
    next
      case False
      then show ?thesis unfolding 1 by (intro keeps_move [OF inv]) (use pc DqCheck in simp_all)
    qed
  next
    case 2
    then show ?thesis by (auto intro!: keeps_move [OF inv] simp: pc DqCheck)
  next
    case 3
    then show ?thesis using ab pc DqCheck by (auto intro!: keeps_move [OF inv])
  next
    case 4
    then show ?thesis using ab pc DqCheck by (auto intro!: keeps_move [OF inv] exI [of _ a])
  qed
next
  case (DqHelp ta nx)
  then obtain k where k: "k \<le> t" "at_ix L (ptr ta) k" "at_ix L (ptr nx) (Suc k)"
    using inv_parts(2) [OF inv, of i] pc by auto
  obtain t' where t': "msq_inv (cas_tail ta \<lparr>ptr = ptr nx, cnt = cnt ta + 1\<rparr> s) L h t'"
    using inv_swing [OF inv k(1,2), of "\<lparr>ptr = ptr nx, cnt = cnt ta + 1\<rparr>"] k(3) by auto
  have "keeps (cas_tail ta \<lparr>ptr = ptr nx, cnt = cnt ta + 1\<rparr> s) L h s'"
    using go DqHelp pc by (auto intro!: keeps_move [OF t'])
  then show ?thesis by (simp add: keeps_def)
next
  case (DqRead he nx)
  then obtain a where a: "a \<le> h" "a < t" "at_ix L (ptr he) a" "at_ix L (ptr nx) (Suc a)"
    using inv_parts(2) [OF inv, of i] pc by auto
  obtain nd where nd: "heap s (L ! Suc a) = Some nd"
    "\<And>f. deref i (ptr nx) s f = f (L ! Suc a) nd (s\<lparr>uaf := (uaf s \<or> L ! Suc a \<in> freed s)\<rparr>)"
    using deref_inv [OF inv a(4)] by blast
  let ?p = "DqCas he nx (nvalue nd)" and ?s = "s\<lparr>uaf := (uaf s \<or> L ! Suc a \<in> freed s)\<rparr>"
  have "tinv (heap s) (freed s) L h t ?p" using a nd(1) by (auto simp: nval_def intro!: exI [of _ a])
  then have "keeps ?s L h (goto i ?p ?s)" by (intro keeps_move) (use inv pc DqRead in simp_all)
  then show ?thesis using go DqRead nd(2) by simp
next
  case (DqCas he nx v)
  show ?thesis
  proof (cases "qhead s = he")
    case True
    have pc': "pcs s i = DqCas he nx v" using pc DqCas by simp
    have s': "s' = goto i (case ptr he of None \<Rightarrow> Crashed | Some a \<Rightarrow> DqFree a v)
        (s\<lparr>qhead := \<lparr>ptr = ptr nx, cnt = cnt he + 1\<rparr>\<rparr>)"
      using go DqCas True by simp
    note pop = inv_pop [OF inv pc' True s']
    have "ops (abs_of s L h) i = PendDeq False" using pc' by simp
    then have "fifo_step (abs_of s L h) ((abs_of s L h)
        \<lparr>items := items (abs_of s' L (Suc h)), ops := (ops (abs_of s L h))(i := DoneDeq v)\<rparr>)"
      using pop(2) by (rule fifo_step.deq)
    then have "fifo_step (abs_of s L h) (abs_of s' L (Suc h))" by (simp only: pop(3) [symmetric])
    then show ?thesis using pop(1) by (blast intro: keepsI)
  next
    case False
    then show ?thesis using go pc DqCas by (auto intro!: keeps_move [OF inv])
  qed
next
  case (DqFree x v)
  then have pc': "pcs s i = DqFree x v" using pc by simp
  have s': "s' = goto i (DoneDq (Some v)) (free_node x s)" using go DqFree by simp
  have "abs_of s' L h = abs_of s L h"
    unfolding s' abs_move using pc' by (simp add: abs_of_def free_node_def fun_upd_idem)
  then show ?thesis using inv_free [OF inv pc'] s' by (blast intro: keepsI)
next
  case DqRetry
  have "keeps (s\<lparr>retries := retries s + 1\<rparr>) L h (goto i DqHead (s\<lparr>retries := retries s + 1\<rparr>))"
    by (rule keeps_move) (use inv pc DqRetry in simp_all)
  then show ?thesis using go DqRetry by simp
qed (use p go in auto)

lemma msq_step_keeps:
  assumes inv: "msq_inv s L h t" and step: "msq_step False l s = Some s'"
  shows "keeps s L h s'"
proof -
  obtain i a where l: "l = (i, a)" by (cases l)
  show ?thesis
  proof (cases a)
    case (Enqueue v)
    then have "s' = goto i (EqNew v) (log_ev (CallEnq i v) s)" "pcs s i = Idle"
      using step l by (auto split: if_splits)
    then show ?thesis by (auto intro!: keeps_log [OF inv] fifo_step.call_enq)
  next
    case Dequeue
    then have "s' = goto i DqHead (log_ev (CallDeq i) s)" "pcs s i = Idle"
      using step l by (auto split: if_splits)
    then show ?thesis by (auto intro!: keeps_log [OF inv] fifo_step.call_deq)
  next
    case (Malloc m)
    then obtain v where pc: "pcs s i = EqNew v" using step l by (cases m) (auto split: pc.splits)
    show ?thesis
    proof (cases m)
      case None
      then have "s' = goto i (DoneEq False) s" using step l Malloc pc by simp
      then show ?thesis using pc
        by (auto intro!: keeps_status [OF inv] fifo_step.enq_fail [of _ i v])
    next
      case (Some n)
      then have new: "heap s n = None"
        and s': "s' = goto i (EqTail v n) (s\<lparr>heap := (heap s)(n \<mapsto> node_new v), freed := freed s - {n}\<rparr>)"
        using step l Malloc pc by (auto simp: may_alloc_def split: if_splits)
      show ?thesis using inv_alloc [OF inv pc new s'] by (intro keepsI) auto
    qed
  next
    case (Go sp)
    then have go: "msq_go sp i (pcs s i) s = Some s'" using step l by simp
    show ?thesis
    proof (cases "op_of (pcs s i)")
      case NoOp
      then show ?thesis using go inv_parts(2) [OF inv, of i]
        by (cases "pcs s i" rule: op_of.cases) auto
    next
      case (PendEnq v)
      then show ?thesis by (intro go_enqueue [OF inv refl go]) auto
    next
      case (DoneEnq b)
      then show ?thesis by (intro go_enqueue [OF inv refl go]) auto
    next
      case (PendDeq b)
      then show ?thesis by (intro go_dequeue [OF inv refl go]) auto
    next
      case (DoneDeq v)
      then show ?thesis by (intro go_dequeue [OF inv refl go]) auto
    qed
  next
    case Return
    then consider b where "pcs s i = DoneEq b" "s' = goto i Idle (log_ev (RetEnq i b) s)"
      | r where "pcs s i = DoneDq r" "s' = goto i Idle (log_ev (RetDeq i r) s)"
      using step l by (auto split: pc.splits)
    then show ?thesis
    proof cases
      case 1
      then show ?thesis by (auto intro!: keeps_log [OF inv] fifo_step.ret_enq)
    next
      case 2
      then show ?thesis
        by (cases r) (auto intro!: keeps_log [OF inv] fifo_step.ret_deq fifo_step.ret_empty)
    qed
  qed
qed

section \<open>The abstraction, read off the memory\<close>

text \<open>The nodes from a pointer on, to NULL; the queue is what follows the dummy.\<close>

fun is_chain :: "(addr \<Rightarrow> node option) \<Rightarrow> addr option \<Rightarrow> addr list \<Rightarrow> bool" where
  "is_chain hp p [] \<longleftrightarrow> p = None"
| "is_chain hp p (a # as) \<longleftrightarrow> p = Some a \<and> (\<exists>nd. hp a = Some nd \<and> is_chain hp (ptr (nxt nd)) as)"

definition queue_of :: "msq \<Rightarrow> clong list \<Rightarrow> bool" where
  "queue_of s vs \<longleftrightarrow> (\<exists>d ns. is_chain (heap s) (ptr (qhead s)) (d # ns) \<and> vs = map (nval (heap s)) ns)"

definition msq_abs :: "msq \<Rightarrow> clong fifo" where
  "msq_abs s = \<lparr>items = (THE vs. queue_of s vs), ops = (\<lambda>i. op_of (pcs s i)), ahist = hist s\<rparr>"

lemma is_chain_unique: "is_chain hp p ns \<Longrightarrow> is_chain hp p ms \<Longrightarrow> ns = ms"
proof (induction hp p ns arbitrary: ms rule: is_chain.induct)
  case (1 hp p)
  then show ?case by (cases ms) auto
next
  case (2 hp p a as)
  then show ?case by (cases ms) auto
qed

lemma chain_drop:
  assumes "shared_ok hp qh qt fr L h t"
  shows "k < length L \<Longrightarrow> is_chain hp (Some (L ! k)) (drop k L)"
proof (induction "length L - k" arbitrary: k)
  case (Suc n)
  obtain nd where nd: "hp (L ! k) = Some nd"
    "ptr (nxt nd) = (if Suc k < length L then Some (L ! Suc k) else None)"
    using assms Suc.prems unfolding shared_ok_def by blast
  have d: "drop k L = L ! k # drop (Suc k) L" using Suc.prems by (simp add: Cons_nth_drop_Suc)
  show ?case
  proof (cases "Suc k < length L")
    case True
    then show ?thesis using Suc.hyps nd d by auto
  next
    case False
    then show ?thesis using nd d by simp
  qed
qed simp

lemma inv_queue_of:
  assumes "msq_inv s L h t"
  shows "queue_of s vs \<longleftrightarrow> vs = contents (heap s) L h"
proof -
  note sh = inv_parts(1) [OF assms]
  then have h: "h < length L" "ptr (qhead s) = Some (L ! h)" by (simp_all add: shared_ok_def at_ix_def)
  have c: "is_chain (heap s) (ptr (qhead s)) (L ! h # drop (Suc h) L)"
    using chain_drop [OF sh h(1)] h by (simp add: Cons_nth_drop_Suc)
  have "d = L ! h \<and> ns = drop (Suc h) L" if "is_chain (heap s) (ptr (qhead s)) (d # ns)" for d ns
    using is_chain_unique [OF that c] by simp
  then show ?thesis using c unfolding queue_of_def contents_def by blast
qed

lemma msq_abs_eq: "msq_inv s L h t \<Longrightarrow> msq_abs s = abs_of s L h"
  by (simp add: msq_abs_def abs_of_def inv_queue_of)

lemma msq_inv_start:
  assumes "msq_create True (Some d) = Some s"
  shows "msq_inv s [d] 0 0" and "msq_abs s = \<lparr>items = [], ops = (\<lambda>_. NoOp), ahist = []\<rparr>"
proof -
  show *: "msq_inv s [d] 0 0"
    using assms by (auto simp: msq_create_def msq_inv_def shared_ok_def at_ix_def node_new_def
        threads_ok_def separate_def covered_def)
  show "msq_abs s = \<lparr>items = [], ops = (\<lambda>_. NoOp), ahist = []\<rparr>"
    unfolding msq_abs_eq [OF *] using assms by (auto simp: msq_create_def abs_of_def contents_def)
qed

interpretation ms: fifo_impl msq_init "step_of (msq_step False)" "\<lambda>s. \<exists>L h t. msq_inv s L h t" msq_abs hist
proof
  fix s s' :: msq
  show "\<exists>L h t. msq_inv s L h t" if "msq_init s"
    using that msq_inv_start(1) unfolding msq_init_def by blast
  show "fifo_init (msq_abs s)" if "msq_init s"
    using that msq_inv_start(2) by (auto simp: msq_init_def fifo_init_def)
  show "ahist (msq_abs s) = hist s" by (simp add: msq_abs_def)
  show "\<exists>L h t. msq_inv s' L h t" if "step_of (msq_step False) s s'" "\<exists>L h t. msq_inv s L h t"
    using that msq_step_keeps unfolding keeps_def by blast
  show "fifo_step (msq_abs s) (msq_abs s') \<or> msq_abs s' = msq_abs s"
    if ex: "\<exists>L h t. msq_inv s L h t" and st: "step_of (msq_step False) s s'"
  proof -
    obtain L h t where inv: "msq_inv s L h t" using ex by blast
    obtain L' h' t' where "msq_inv s' L' h' t'"
      "fifo_step (abs_of s L h) (abs_of s' L' h') \<or> abs_of s' L' h' = abs_of s L h"
      using msq_step_keeps [OF inv] st unfolding keeps_def by blast
    then show ?thesis using inv by (simp add: msq_abs_eq)
  qed
qed

end
