(* ===== verification/MSQueue_Progress.thy ===== *)
theory MSQueue_Progress
  imports MSQueue_Props
begin

text \<open>
  Obstruction freedom of the lock-free queue: from every reachable state, a thread that runs alone
  (its CAS not failing spuriously) finishes its operation within a fixed number of steps, wherever the
  others were stopped.
\<close>

section \<open>Runs of one thread\<close>

fun solo :: "nat \<Rightarrow> tid \<Rightarrow> (msq \<Rightarrow> bool) \<Rightarrow> msq \<Rightarrow> bool" where
  "solo 0 i P s = P s"
| "solo (Suc n) i P s = (P s \<or> (\<exists>s'. msq_step False (i, Go False) s = Some s' \<and> solo n i P s'))"

lemma solo_step: "msq_step False (i, Go False) s = Some s' \<Longrightarrow> solo n i P s' \<Longrightarrow> solo (Suc n) i P s"
  by auto

lemma solo_now: "P s \<Longrightarrow> solo n i P s"
  by (cases n) auto

lemma solo_mono: "solo n i P s \<Longrightarrow> n \<le> m \<Longrightarrow> (\<And>s. P s \<Longrightarrow> Q s) \<Longrightarrow> solo m i Q s"
proof (induction n arbitrary: s m)
  case 0
  then show ?case by (simp add: solo_now)
next
  case (Suc n)
  then obtain k where m: "m = Suc k" "n \<le> k" by (metis Suc_le_D Suc_le_mono)
  show ?case
  proof (cases "P s")
    case True
    then show ?thesis using Suc.prems(3) by (simp add: solo_now)
  next
    case False
    then show ?thesis using Suc m by auto
  qed
qed

lemma solo_trans: "solo n i P s \<Longrightarrow> (\<And>s. P s \<Longrightarrow> solo m i Q s) \<Longrightarrow> solo (n + m) i Q s"
proof (induction n arbitrary: s)
  case (Suc n)
  show ?case
  proof (cases "P s")
    case True
    then show ?thesis using solo_mono [of m i Q s "Suc n + m" Q] Suc.prems(2) by simp
  next
    case False
    then show ?thesis using Suc by auto
  qed
qed simp

lemma solo_exec:
  "solo n i P s \<Longrightarrow> \<exists>k s'. k \<le> n \<and> exec (msq_step False) s (replicate k (i, Go False)) = Some s' \<and> P s'"
proof (induction n arbitrary: s)
  case 0
  then show ?case by auto
next
  case (Suc n)
  show ?case
  proof (cases "P s")
    case True
    then show ?thesis by (intro exI [of _ 0]) simp
  next
    case False
    then obtain u where u: "msq_step False (i, Go False) s = Some u" "solo n i P u" using Suc.prems by auto
    then obtain k s' where "k \<le> n" "exec (msq_step False) u (replicate k (i, Go False)) = Some s'" "P s'"
      using Suc.IH by blast
    then show ?thesis using u(1) by (intro exI [of _ "Suc k"] exI [of _ s']) simp
  qed
qed

lemma goto_simps [simp]:
  "pcs (goto i p s) i = p" "heap (goto i p s) = heap s" "qtail (goto i p s) = qtail s"
  "qhead (goto i p s) = qhead s" "freed (goto i p s) = freed s"
  by (simp_all add: goto_def)

section \<open>Leaving a stale pass\<close>

text \<open>How far a thread is from the head of its loop, or from the end of its operation.\<close>

fun rank :: "pc \<Rightarrow> nat" where
  "rank (EqNext v n ta) = 4"
| "rank (EqCheck v n ta nx) = 3"
| "rank (EqLink v n ta nx) = 2"
| "rank (EqHelp v n ta nx) = 1"
| "rank (EqRetry v n) = 1"
| "rank (EqSwing n ta) = 1"
| "rank (DqTail he) = 6"
| "rank (DqNext he ta) = 5"
| "rank (DqCheck he ta nx) = 4"
| "rank (DqRead he nx) = 3"
| "rank (DqCas he nx v) = 2"
| "rank (DqHelp ta nx) = 2"
| "rank (DqFree x v) = 1"
| "rank DqRetry = 1"
| "rank _ = 0"

definition inv_of :: "msq \<Rightarrow> bool" where
  "inv_of s \<longleftrightarrow> (\<exists>L h t. msq_inv s L h t)"

lemma inv_of_step: "inv_of s \<Longrightarrow> msq_step False l s = Some s' \<Longrightarrow> inv_of s'"
  using msq_step_keeps unfolding inv_of_def keeps_def by blast

definition in_loop :: "pc \<Rightarrow> bool" where
  "in_loop p \<longleftrightarrow> op_of p \<noteq> NoOp \<and> (\<forall>v. p \<noteq> EqNew v)"

definition turning :: "tid \<Rightarrow> msq \<Rightarrow> bool" where
  "turning i s \<longleftrightarrow> inv_of s \<and> in_loop (pcs s i) \<and> rank (pcs s i) = 0"

lemma rank_step:
  assumes inv: "inv_of s" and p: "in_loop (pcs s i)" and r: "0 < rank (pcs s i)"
  shows "\<exists>s'. msq_step False (i, Go False) s = Some s' \<and> inv_of s' \<and> in_loop (pcs s' i) \<and>
    rank (pcs s' i) < rank (pcs s i)"
proof -
  obtain L h t where I: "msq_inv s L h t" using inv by (auto simp: inv_of_def)
  note ti = inv_parts(2) [OF I, of i]
  have "\<exists>s'. msq_step False (i, Go False) s = Some s' \<and> in_loop (pcs s' i) \<and> rank (pcs s' i) < rank (pcs s i)"
  proof (cases "pcs s i")
    case (EqNext v n ta)
    then obtain k where "at_ix L (ptr ta) k" using ti by auto
    from deref_inv [OF I this] EqNext show ?thesis by (auto simp: in_loop_def)
  next
    case (EqLink v n ta nx)
    then obtain k where "at_ix L (ptr ta) k" using ti by auto
    from deref_inv [OF I this] obtain nd where
      "\<forall>i f. deref i (ptr ta) s f = f (L ! k) nd (s\<lparr>uaf := (uaf s \<or> L ! k \<in> freed s)\<rparr>)"
      by blast
    then show ?thesis using EqLink by (cases "nxt nd = nx") (simp_all add: in_loop_def)
  next
    case (DqNext he ta)
    then obtain k where "at_ix L (ptr he) k" using ti by auto
    from deref_inv [OF I this] DqNext show ?thesis by (auto simp: in_loop_def)
  next
    case (DqRead he nx)
    then obtain k where "at_ix L (ptr nx) k" using ti by auto
    from deref_inv [OF I this] DqRead show ?thesis by (auto simp: in_loop_def)
  next
    case (DqCas he nx v)
    then obtain k where "at_ix L (ptr he) k" using ti by auto
    then show ?thesis using DqCas by (auto simp: in_loop_def at_ix_def)
  qed (use r in \<open>auto simp: in_loop_def\<close>)
  then show ?thesis using inv_of_step [OF inv] by blast
qed

lemma solo_turning:
  "inv_of s \<Longrightarrow> in_loop (pcs s i) \<Longrightarrow> rank (pcs s i) \<le> n \<Longrightarrow> solo n i (turning i) s"
proof (induction n arbitrary: s)
  case 0
  then show ?case by (simp add: turning_def)
next
  case (Suc n)
  show ?case
  proof (cases "rank (pcs s i) = 0")
    case True
    then show ?thesis using Suc.prems by (intro solo_now) (simp add: turning_def)
  next
    case False
    then obtain s' where "msq_step False (i, Go False) s = Some s'" "inv_of s'" "in_loop (pcs s' i)"
      "rank (pcs s' i) < rank (pcs s i)"
      using rank_step [OF Suc.prems(1,2)] by auto
    then show ?thesis using Suc by (intro solo_step) auto
  qed
qed

section \<open>A fresh pass\<close>

definition finished :: "tid \<Rightarrow> msq \<Rightarrow> bool" where
  "finished i s \<longleftrightarrow> inv_of s \<and> ((\<exists>b. pcs s i = DoneEq b) \<or> (\<exists>r. pcs s i = DoneDq r))"

lemma step_Go: "msq_step False (i, Go False) s = msq_go False i (pcs s i) s"
  by simp

text \<open>An enqueue whose tail does not lag links its node in this pass; otherwise it helps once.\<close>

lemma solo_keeps: "solo n i P s \<Longrightarrow> inv_of s \<Longrightarrow> solo n i (\<lambda>s. P s \<and> inv_of s) s"
proof (induction n arbitrary: s)
  case (Suc n)
  then show ?case using inv_of_step by (simp del: msq_step.simps) blast
qed simp

lemma enq_fresh:
  assumes I: "msq_inv s L h t" and pc: "pcs s i = EqTail v n" and lag: "Suc t = length L"
  shows "solo 5 i (finished i) s"
proof -
  have at: "at_ix L (ptr (qtail s)) t" using inv_parts(1) [OF I] by (simp add: shared_ok_def)
  obtain nd where nd: "heap s (L ! t) = Some nd" "ptr (nxt nd) = None" "ptr (qtail s) = Some (L ! t)"
    using deref_inv [OF I at] lag at by (auto simp: at_ix_def)
  have "solo (Suc (Suc (Suc (Suc (Suc 0))))) i (\<lambda>s. pcs s i = DoneEq True) s"
    by (rule solo_step, simp add: pc nd deref_def)+ (simp add: pc)
  moreover have "inv_of s" using I by (auto simp: inv_of_def)
  ultimately show ?thesis
    by (rule solo_mono [OF solo_keeps]) (auto simp: finished_def)
qed

lemma deq_fresh:
  assumes I: "msq_inv s L h t" and pc: "pcs s i = DqHead" and lag: "h < t \<or> Suc t = length L"
  shows "solo 7 i (finished i) s"
proof -
  note sh = inv_parts(1) [OF I]
  have at: "at_ix L (ptr (qhead s)) h" using sh by (simp add: shared_ok_def)
  obtain nd where nd: "heap s (L ! h) = Some nd" "ptr (qhead s) = Some (L ! h)"
    "ptr (nxt nd) = (if Suc h < length L then Some (L ! Suc h) else None)"
    using deref_inv [OF I at] at by (auto simp: at_ix_def)
  have tl: "ptr (qtail s) = Some (L ! t)" "h \<le> t" "t < length L" "distinct L"
    using sh by (auto simp: shared_ok_def at_ix_def)
  have "solo (Suc (Suc (Suc (Suc (Suc (Suc (Suc 0))))))) i (\<lambda>s. \<exists>r. pcs s i = DoneDq r) s"
  proof (cases "h < t")
    case True
    then have "L ! h \<noteq> L ! t" using tl by (simp add: distinct_nth_eq)
    moreover obtain nd' where "heap s (L ! Suc h) = Some nd'"
      using sh True tl unfolding shared_ok_def by (metis Suc_leI le_less_trans)
    moreover have "Suc h < length L" using True tl by simp
    ultimately have facts: "L ! h \<noteq> L ! t" "heap s (L ! Suc h) = Some nd'" "Suc h < length L" by simp_all
    show ?thesis
      by (rule solo_step, simp add: facts pc nd tl deref_def)+ (simp add: facts)
  next
    case False
    then have "h = t" "Suc h = length L" using lag tl by auto
    then have facts: "h = t" "\<not> Suc t < length L" by simp_all
    note nd = nd [unfolded facts(1)]
    have "solo (Suc (Suc (Suc (Suc 0)))) i (\<lambda>s. \<exists>r. pcs s i = DoneDq r) s"
      by (rule solo_step, simp add: facts(2) pc nd tl(1) deref_def)+ (simp add: pc)
    then show ?thesis by (rule solo_mono) simp_all
  qed
  moreover have "inv_of s" using I by (auto simp: inv_of_def)
  ultimately show ?thesis
    by (rule solo_mono [OF solo_keeps]) (auto simp: finished_def)
qed

text \<open>The tail points to the last node.\<close>

definition tail_last :: "msq \<Rightarrow> bool" where
  "tail_last s \<longleftrightarrow> (\<exists>a nd. ptr (qtail s) = Some a \<and> heap s a = Some nd \<and> ptr (nxt nd) = None)"

lemma tail_last_iff:
  assumes "msq_inv s L h t"
  shows "tail_last s \<longleftrightarrow> Suc t = length L"
proof -
  have at: "at_ix L (ptr (qtail s)) t" using inv_parts(1) [OF assms] by (simp add: shared_ok_def)
  obtain nd where "heap s (L ! t) = Some nd"
    "ptr (nxt nd) = (if Suc t < length L then Some (L ! Suc t) else None)"
    using deref_inv [OF assms at] by blast
  with at show ?thesis by (simp add: tail_last_def at_ix_def not_less)
qed

lemma lagging_nodes:
  assumes I: "msq_inv s L h t" and lag: "\<not> tail_last s"
  shows "\<exists>nd nd'. ptr (qtail s) = Some (L ! t) \<and> heap s (L ! t) = Some nd \<and> ptr (nxt nd) = Some (L ! Suc t) \<and>
    heap s (L ! Suc t) = Some nd' \<and> ptr (nxt nd') = None"
proof -
  note sh = inv_parts(1) [OF I]
  have l: "length L = Suc (Suc t)" using lag sh unfolding tail_last_iff [OF I] by (auto simp: shared_ok_def)
  have "at_ix L (ptr (qtail s)) t" "at_ix L (Some (L ! Suc t)) (Suc t)"
    using sh l by (simp_all add: shared_ok_def at_ix_def)
  with deref_inv [OF I this(1)] deref_inv [OF I this(2)] l show ?thesis
    by (auto simp: at_ix_def)
qed

lemma enq_help:
  assumes "inv_of s" and pc: "pcs s i = EqTail v n" and lag: "\<not> tail_last s"
  shows "solo (Suc (Suc (Suc (Suc 0)))) i (\<lambda>s. pcs s i = EqTail v n \<and> tail_last s) s"
proof -
  obtain L h t where I: "msq_inv s L h t" using assms(1) by (auto simp: inv_of_def)
  obtain nd nd' where nd: "ptr (qtail s) = Some (L ! t)" "heap s (L ! t) = Some nd"
    "ptr (nxt nd) = Some (L ! Suc t)" "heap s (L ! Suc t) = Some nd'" "ptr (nxt nd') = None"
    using lagging_nodes [OF I lag] by blast
  show ?thesis
    by (rule solo_step, simp add: pc nd deref_def)+ (simp add: nd cas_tail_def tail_last_def)
qed

lemma deq_help:
  assumes "inv_of s" and pc: "pcs s i = DqHead" and lag: "\<not> tail_last s" "ptr (qhead s) = ptr (qtail s)"
  shows "solo (Suc (Suc (Suc (Suc (Suc (Suc 0)))))) i (\<lambda>s. pcs s i = DqHead \<and> tail_last s) s"
proof -
  obtain L h t where I: "msq_inv s L h t" using assms(1) by (auto simp: inv_of_def)
  obtain nd nd' where nd: "ptr (qtail s) = Some (L ! t)" "heap s (L ! t) = Some nd"
    "ptr (nxt nd) = Some (L ! Suc t)" "heap s (L ! Suc t) = Some nd'" "ptr (nxt nd') = None"
    using lagging_nodes [OF I lag(1)] by blast
  show ?thesis
    by (rule solo_step, simp add: pc nd deref_def lag(2))+ (simp add: nd cas_tail_def tail_last_def)
qed

section \<open>Every operation finishes alone\<close>

lemma solo_from_turn:
  assumes "turning i s"
  shows "solo 13 i (finished i) s"
proof -
  have inv: "inv_of s" and r: "in_loop (pcs s i)" "rank (pcs s i) = 0" using assms by (simp_all add: turning_def)
  obtain L h t where I: "msq_inv s L h t" using inv by (auto simp: inv_of_def)
  have tl: "at_ix L (ptr (qhead s)) h" "at_ix L (ptr (qtail s)) t" "h \<le> t" "distinct L"
    using inv_parts(1) [OF I] by (auto simp: shared_ok_def)
  have enq: "solo 5 i (finished i) s" if "inv_of s" "pcs s i = EqTail v n" "tail_last s" for s v n
    using that enq_fresh unfolding inv_of_def by (metis tail_last_iff)
  have deq: "solo 7 i (finished i) s" if "inv_of s" "pcs s i = DqHead" "tail_last s" for s
    using that deq_fresh unfolding inv_of_def by (metis tail_last_iff)
  consider v n where "pcs s i = EqTail v n" | "pcs s i = DqHead" | "finished i s"
    using r inv by (cases "pcs s i") (auto simp: in_loop_def finished_def)
  then show ?thesis
  proof cases
    case 1
    show ?thesis
    proof (cases "tail_last s")
      case True
      show ?thesis by (rule solo_mono [OF enq [OF inv 1 True]]) simp_all
    next
      case False
      have "solo (Suc (Suc (Suc (Suc 0))) + 5) i (finished i) s"
        by (rule solo_trans [OF solo_keeps [OF enq_help [OF inv 1 False] inv]]) (blast intro: enq)
      then show ?thesis by (rule solo_mono) simp_all
    qed
  next
    case 2
    show ?thesis
    proof (cases "tail_last s \<or> ptr (qhead s) \<noteq> ptr (qtail s)")
      case True
      then have "h < t \<or> Suc t = length L"
        using tl tail_last_iff [OF I] by (auto simp: at_ix_def order_le_less)
      from deq_fresh [OF I 2 this] show ?thesis by (rule solo_mono) simp_all
    next
      case False
      have "solo (Suc (Suc (Suc (Suc (Suc (Suc 0))))) + 7) i (finished i) s"
        by (rule solo_trans [OF solo_keeps [OF deq_help [OF inv 2] inv]]) (use False deq in blast)+
      then show ?thesis by (rule solo_mono) simp_all
    qed
  next
    case 3
    then show ?thesis by (rule solo_now)
  qed
qed

lemma solo_finish:
  assumes "inv_of s" and "in_loop (pcs s i)"
  shows "solo 19 i (finished i) s"
proof -
  have "rank (pcs s i) \<le> 6" by (cases "pcs s i") auto
  from solo_trans [OF solo_turning [OF assms this] solo_from_turn] show ?thesis by simp
qed

end
