(* ===== verification/MSQueue_Thms.thy ===== *)
theory MSQueue_Thms
  imports MSQueue_Progress
begin

text \<open>
  The properties of the lock-free queue of week 3. The first group holds when \<open>malloc\<close> never hands out
  the address of a freed node again (\<open>msq_step False\<close>), and so does the use after free that C38 derives from any state of
  a certain shape; the last shows what happens to the queue without that assumption.
\<close>

abbreviation msq_reach :: "bool \<Rightarrow> msq \<Rightarrow> bool" where
  "msq_reach reuse \<equiv> reach msq_init (step_of (msq_step reuse))"

definition msq_start :: msq where
  "msq_start = \<lparr>qhead = \<lparr>ptr = Some 0, cnt = 0\<rparr>, qtail = \<lparr>ptr = Some 0, cnt = 0\<rparr>, retries = 0,
     heap = [0 \<mapsto> node_new 0], freed = {}, pcs = (\<lambda>_. Idle), hist = [], uaf = False, dfree = False, wild = False\<rparr>"

lemma msq_init_start: "msq_init msq_start"
  by (auto simp: msq_init_def msq_create_def msq_start_def)

text \<open>One whole enqueue of thread 1 and one whole dequeue of thread 2, for the witnesses.\<close>

definition enq_then_deq :: "(tid \<times> act) list" where
  "enq_then_deq =
     [(1, Enqueue 7), (1, Malloc (Some 1))] @ replicate 5 (1, Go False) @ [(1, Return), (2, Dequeue)] @
     replicate 7 (2, Go False) @ [(2, Return)]"

lemma enq_then_deq_run:
  "\<exists>s. exec (msq_step False) msq_start enq_then_deq = Some s \<and> pcs s 0 = Idle \<and> pcs s 1 = Idle \<and> pcs s 2 = Idle \<and>
     hist s = [CallEnq 1 7, RetEnq 1 True, CallDeq 2, RetDeq 2 (Some 7)] \<and> freed s = {0}"
  by (simp add: enq_then_deq_def eval_nat_numeral msq_start_def goto_def log_ev_def may_alloc_def node_new_def
      deref_def cas_tail_def free_node_def)

lemma reach_example:
  "\<exists>s. msq_reach False s \<and> pcs s 0 = Idle \<and> pcs s 1 = Idle \<and> pcs s 2 = Idle \<and>
     hist s = [CallEnq 1 7, RetEnq 1 True, CallDeq 2, RetDeq 2 (Some 7)] \<and> freed s = {0}"
  using enq_then_deq_run exec_from_init [of msq_init msq_start "msq_step False", OF msq_init_start] by blast

section \<open>Without reuse of addresses\<close>

text \<open>
  C2: the lock-free queue is a FIFO queue. In every reachable state, under every interleaving and with
  every answer of \<open>malloc\<close> and of the weak CAS, the history of calls and returns is one of the abstract queue,
  in which each operation takes effect in one step between its call and its return, and the list in
  memory from \<open>head\<close> on holds exactly the elements of that abstract queue.
\<close>

theorem msq_refines_fifo:
  assumes "msq_reach False s"
  shows "\<exists>A. reach fifo_init fifo_step A \<and> ahist A = hist s \<and> queue_of s (items A)"
proof -
  obtain L h t where inv: "msq_inv s L h t" using ms.reach_inv [OF assms] by blast
  have "queue_of s (items (msq_abs s))"
    using inv_queue_of [OF inv] by (simp add: msq_abs_eq [OF inv] abs_of_def)
  moreover have "ahist (msq_abs s) = hist s" by (simp add: msq_abs_def)
  ultimately show ?thesis using ms.reach_abs [OF assms] by blast
qed

theorem msq_refines_fifo_witness:
  "\<exists>s A. msq_reach False s \<and> reach fifo_init fifo_step A \<and>
     ahist A = [CallEnq 1 7, RetEnq 1 True, CallDeq 2, RetDeq 2 (Some 7)] \<and> queue_of s (items A)"
proof -
  obtain s where s: "msq_reach False s" "hist s = [CallEnq 1 7, RetEnq 1 True, CallDeq 2, RetDeq 2 (Some 7)]"
    using reach_example by blast
  from msq_refines_fifo [OF s(1)] s show ?thesis by auto
qed

text \<open>
  What callers can rely on. The values handed out by dequeues are among the values offered to
  enqueues, each at most as often as it was offered; and a dequeue answers that the queue is empty only
  if fewer enqueues had returned before its call than dequeues have been called.
\<close>

lemma msq_values_and_empties:
  assumes "msq_reach False s"
  shows "mset (returned (hist s)) \<subseteq># mset (offered (hist s)) \<and> empties_ok (hist s)"
  using ms.values_conserved [OF assms] ms.empties_justified [OF assms] by blast

lemma drop_freed:
  assumes "shared_ok hp qh qt fr L h t"
  shows "set (drop h L) \<inter> fr = {}"
proof -
  have "set (take h L) \<inter> set (drop h L) = {}" "fr \<subseteq> set (take h L)"
    using assms set_take_disj_set_drop_if_distinct [of L h h] by (auto simp: shared_ok_def)
  then show ?thesis by blast
qed

text \<open>
  C14: memory safety of the structure. No thread ever follows NULL or a pointer to memory that was
  never allocated, no node is freed twice, and \<open>head\<close> leads through distinct nodes, none of them freed, to
  NULL, with \<open>tail\<close> at the last of them or one before.
\<close>

theorem msq_memory_safe:
  assumes "msq_reach False s"
  shows "\<not> wild s \<and> \<not> dfree s \<and> (\<forall>i. pcs s i \<noteq> Crashed) \<and>
    (\<exists>ns. is_chain (heap s) (ptr (qhead s)) ns \<and> distinct ns \<and> set ns \<inter> freed s = {} \<and> ns \<noteq> [] \<and>
       (ptr (qtail s) = Some (last ns) \<or> ptr (qtail s) = Some (last (butlast ns))))"
proof -
  obtain L h t where inv: "msq_inv s L h t" using ms.reach_inv [OF assms] by blast
  note sh = inv_parts(1) [OF inv]
  have l: "h < length L" "ptr (qhead s) = Some (L ! h)" "ptr (qtail s) = Some (L ! t)" "h \<le> t" "t < length L"
    "length L \<le> t + 2" "distinct L"
    using sh by (auto simp: shared_ok_def at_ix_def)
  have "is_chain (heap s) (ptr (qhead s)) (drop h L)" using chain_drop [OF sh l(1)] l(2) by simp
  moreover have "L ! t = last (drop h L) \<or> L ! t = last (butlast (drop h L))"
  proof (cases "Suc t = length L")
    case True
    then have "t = length L - 1" by simp
    then show ?thesis using l by (simp add: last_conv_nth)
  next
    case False
    then have len: "length L = Suc (Suc t)" using l by simp
    then have "butlast (drop h L) = drop h (take (Suc t) L)" by (simp add: butlast_conv_take drop_take)
    then show ?thesis using l len by (simp add: last_conv_nth)
  qed
  moreover have "pcs s i \<noteq> Crashed" for i using inv_parts(2) [OF inv, of i] by auto
  ultimately show ?thesis
    using inv_parts(6,7) [OF inv] drop_freed [OF sh] l by (auto intro!: exI [of _ "drop h L"])
qed

theorem msq_memory_safe_witness:
  "\<exists>s. msq_reach False s \<and> freed s = {0} \<and> \<not> wild s \<and> \<not> dfree s"
proof -
  obtain s where s: "msq_reach False s" "freed s = {0}" using reach_example by blast
  from msq_memory_safe [OF s(1)] s show ?thesis by blast
qed

text \<open>
  C22: obstruction freedom, when \<open>malloc\<close> does not hand out the address of a freed node. In every state reachable that way,
  wherever the other threads were stopped in the middle of any of their operations, a thread inside an operation that runs
  alone, its weak CAS not failing spuriously, has its result after at most 19 of its own steps, and one more
  for \<open>malloc\<close>, whatever that answers, when it has still to allocate its node.
\<close>

theorem msq_solo_finishes:
  assumes "msq_reach False s" and "pcs s i \<noteq> Idle" and "m = None \<or> (\<exists>n. m = Some n \<and> heap s n = None)"
  shows "\<exists>k\<le>19. \<exists>s'. exec (msq_step False) s
      ((case pcs s i of EqNew v \<Rightarrow> [(i, Malloc m)] | _ \<Rightarrow> []) @ replicate k (i, Go False)) = Some s' \<and>
    ((\<exists>b. pcs s' i = DoneEq b) \<or> (\<exists>r. pcs s' i = DoneDq r))"
proof -
  obtain L h t where inv: "msq_inv s L h t" using ms.reach_inv [OF assms(1)] by blast
  then have inv': "inv_of s" by (auto simp: inv_of_def)
  have fin: "\<exists>k\<le>19. \<exists>s'. exec (msq_step False) u (replicate k (i, Go False)) = Some s' \<and>
    ((\<exists>b. pcs s' i = DoneEq b) \<or> (\<exists>r. pcs s' i = DoneDq r))" if "inv_of u" "in_loop (pcs u i)" for u
    using solo_exec [OF solo_finish [OF that]] unfolding finished_def by blast
  show ?thesis
  proof (cases "\<exists>v. pcs s i = EqNew v")
    case True
    then obtain v where v: "pcs s i = EqNew v" by blast
    show ?thesis
    proof (cases m)
      case None
      then show ?thesis using v by (intro exI [of _ 0]) auto
    next
      case (Some n)
      then obtain u where u: "msq_step False (i, Malloc m) s = Some u" "pcs u i = EqTail v n"
        using v assms(3) by (auto simp: may_alloc_def)
      have "in_loop (pcs u i)" using u(2) by (simp add: in_loop_def)
      from fin [OF inv_of_step [OF inv' u(1)] this] show ?thesis using u(1) v by (simp add: exec_append)
    qed
  next
    case False
    have "pcs s i \<noteq> Crashed" using inv_parts(2) [OF inv, of i] by auto
    then have "in_loop (pcs s i)"
      using assms(2) False by (cases "pcs s i" rule: op_of.cases) (auto simp: in_loop_def)
    then show ?thesis using fin [OF inv'] False by (cases "pcs s i") simp_all
  qed
qed

text \<open>Thread 1 is stopped between linking its node and swinging the tail; thread 2 finishes a dequeue.\<close>

theorem msq_solo_finishes_witness:
  "\<exists>s. msq_reach False s \<and> pcs s 1 = EqSwing 1 \<lparr>ptr = Some 0, cnt = 0\<rparr> \<and>
     (\<exists>k\<le>19. \<exists>s'. exec (msq_step False) s (replicate k (2, Go False)) = Some s' \<and>
        ((\<exists>b. pcs s' 2 = DoneEq b) \<or> (\<exists>r. pcs s' 2 = DoneDq r)))"
proof -
  let ?ls = "[(1, Enqueue 7), (1, Malloc (Some 1)), (1, Go False), (1, Go False), (1, Go False), (1, Go False), (2, Dequeue)]"
  have "\<exists>s. exec (msq_step False) msq_start ?ls = Some s \<and> pcs s 1 = EqSwing 1 \<lparr>ptr = Some 0, cnt = 0\<rparr> \<and> pcs s 2 = DqHead"
    by (simp add: msq_start_def goto_def log_ev_def may_alloc_def node_new_def deref_def)
  then obtain s where s: "msq_reach False s" "pcs s 1 = EqSwing 1 \<lparr>ptr = Some 0, cnt = 0\<rparr>" "pcs s 2 = DqHead"
    using exec_from_init [of msq_init msq_start "msq_step False", OF msq_init_start] by blast
  have "pcs s 2 \<noteq> Idle" using s(3) by simp
  from msq_solo_finishes [OF s(1) this, of None] have "\<exists>k\<le>19. \<exists>s'. exec (msq_step False) s (replicate k (2, Go False)) = Some s' \<and>
      ((\<exists>b. pcs s' 2 = DoneEq b) \<or> (\<exists>r. pcs s' 2 = DoneDq r))" unfolding s(3) by simp
  then show ?thesis using s(1,2) by blast
qed

section \<open>Destroying the queue\<close>

lemma destroy_chain:
  assumes "is_chain (heap s) p ns" and "distinct ns" and "set ns \<inter> freed s = {}" and "length ns \<le> fuel"
  shows "\<exists>s'. destroy_nodes fuel p s = Some s' \<and> freed s' = freed s \<union> set ns \<and> heap s' = heap s \<and>
    dfree s' = dfree s \<and> uaf s' = uaf s"
  using assms
proof (induction ns arbitrary: p s fuel)
  case Nil
  then show ?case by (cases fuel) auto
next
  case (Cons a ns)
  obtain f where f: "fuel = Suc f" using Cons.prems(4) by (cases fuel) auto
  obtain nd where nd: "p = Some a" "heap s a = Some nd" "is_chain (heap s) (ptr (nxt nd)) ns"
    using Cons.prems(1) by auto
  let ?s = "free_node a (s\<lparr>uaf := (uaf s \<or> a \<in> freed s)\<rparr>)"
  have "\<exists>s'. destroy_nodes f (ptr (nxt nd)) ?s = Some s' \<and> freed s' = freed ?s \<union> set ns \<and> heap s' = heap ?s \<and>
      dfree s' = dfree ?s \<and> uaf s' = uaf ?s"
    using Cons.prems nd f by (intro Cons.IH) (auto simp: free_node_def)
  then show ?case using f nd Cons.prems(3) by (auto simp: free_node_def)
qed

text \<open>
  \<open>msq_destroy\<close>, called when no operation is in progress, walks the list, frees every node left in it
  exactly once without touching a freed node, and leaves nothing behind: afterwards every node that was
  ever allocated has been freed.
\<close>

lemma msq_destroy_frees_all:
  assumes "msq_reach False s" and "\<forall>i. pcs s i = Idle"
  shows "\<exists>n. \<forall>fuel\<ge>n. \<exists>s'. msq_destroy fuel s = Some s' \<and> freed s' = {a. heap s a \<noteq> None} \<and>
    \<not> dfree s' \<and> uaf s' = uaf s"
proof -
  obtain L h t where inv: "msq_inv s L h t" using ms.reach_inv [OF assms(1)] by blast
  note sh = inv_parts(1) [OF inv]
  have l: "h < length L" "ptr (qhead s) = Some (L ! h)" "distinct L" "freed s \<subseteq> set (take h L)"
    using sh by (auto simp: shared_ok_def at_ix_def)
  have chain: "is_chain (heap s) (ptr (qhead s)) (drop h L)" using chain_drop [OF sh l(1)] l(2) by simp
  have "heap s a \<noteq> None \<longleftrightarrow> a \<in> set L" for a
    using inv_parts(5) [OF inv] sh assms(2) unfolding covered_def shared_ok_def
    by (metis in_set_conv_nth option.distinct(1) owned.simps(7))
  moreover have "freed s = set (take h L)"
  proof
    show "set (take h L) \<subseteq> freed s"
      using inv_parts(5) [OF inv] assms(2) l(1) unfolding covered_def by (auto simp: in_set_conv_nth)
  qed (rule l(4))
  then have "freed s \<union> set (drop h L) = set L" by (metis append_take_drop_id set_append)
  ultimately have "freed s \<union> set (drop h L) = {a. heap s a \<noteq> None}" by simp
  moreover have "\<exists>s'. msq_destroy fuel s = Some s' \<and> freed s' = freed s \<union> set (drop h L) \<and>
      dfree s' = dfree s \<and> uaf s' = uaf s" if "length L \<le> fuel" for fuel
    using destroy_chain [OF chain _ drop_freed [OF sh], of fuel] l(3) that
    unfolding msq_destroy_def by fastforce
  ultimately show ?thesis using inv_parts(7) [OF inv] by (intro exI [of _ "length L"]) auto
qed

text \<open>The example's threads are 1 and 2; the rest never moved.\<close>

section \<open>What the code as written allows\<close>

text \<open>The dummy and the first node of a queue that is not empty.\<close>

lemma front_nodes:
  assumes inv: "msq_inv s L h t" and q: "queue_of s (v # vs)"
  obtains nd nd' where "ptr (qhead s) = Some (L ! h)" and "heap s (L ! h) = Some nd" and "ptr (nxt nd) = Some (L ! Suc h)"
    and "heap s (L ! Suc h) = Some nd'" and "nvalue nd' = v" and "L ! h \<noteq> L ! Suc h"
    and "L ! h \<notin> freed s" and "L ! Suc h \<notin> freed s" and "h \<le> t"
proof -
  note sh = inv_parts(1) [OF inv]
  have c: "v # vs = contents (heap s) L h" using q inv_queue_of [OF inv] by simp
  then have l: "Suc h < length L" by (cases "Suc h < length L") (simp_all add: contents_def)
  then have "L ! h \<in> set (drop h L)" "L ! Suc h \<in> set (drop h L)"
    by (auto simp: in_set_conv_nth intro: exI [of _ 0] exI [of _ "Suc 0"])
  then have f: "L ! h \<notin> freed s" "L ! Suc h \<notin> freed s" using drop_freed [OF sh] by blast+
  have node: "\<exists>nd. heap s (L ! k) = Some nd \<and> ptr (nxt nd) = (if Suc k < length L then Some (L ! Suc k) else None)" if "k < length L" for k
    using sh that by (simp add: shared_ok_def)
  obtain nd where nd: "heap s (L ! h) = Some nd" "ptr (nxt nd) = Some (L ! Suc h)" using node [of h] l by auto
  obtain nd' where nd': "heap s (L ! Suc h) = Some nd'" using node [OF l] by blast
  have "drop (Suc h) L = L ! Suc h # drop (Suc (Suc h)) L" using l by (simp add: Cons_nth_drop_Suc)
  then have v: "nvalue nd' = v" using c nd' by (simp add: contents_def nval_def)
  have e: "L ! h \<noteq> L ! Suc h" using sh l by (auto simp: shared_ok_def nth_eq_iff_index_eq)
  have p: "ptr (qhead s) = Some (L ! h)" "h \<le> t" using sh by (simp_all add: shared_ok_def at_ix_def)
  show ?thesis by (rule that [OF p(1) nd nd' v e f p(2)])
qed

text \<open>A whole dequeue of thread \<open>j\<close>, with \<open>lag\<close> when \<open>tail\<close> is behind.\<close>

definition dequeue_alone :: "tid \<Rightarrow> bool \<Rightarrow> (tid \<times> act) list" where
  "dequeue_alone j lag = (j, Dequeue) # (if lag then replicate 6 (j, Go False) else []) @ replicate 7 (j, Go False)"

lemma dequeue_frees_head:
  assumes "pcs s j = Idle" and "ptr (qhead s) = Some a" and "heap s a = Some nd" and "ptr (nxt nd) = Some b"
    and "heap s b = Some nd'" and "a \<noteq> b" and "a \<notin> freed s" and "b \<notin> freed s" and "ptr (qtail s) \<noteq> None"
  shows "\<exists>s'. exec (msq_step False) s (dequeue_alone j (ptr (qtail s) = Some a)) = Some s' \<and>
    pcs s' = (pcs s)(j := DoneDq (Some (nvalue nd'))) \<and> freed s' = insert a (freed s) \<and> uaf s' = uaf s \<and> heap s' = heap s"
  using assms by (cases "ptr (qtail s) = Some a")
    (auto simp: dequeue_alone_def eval_nat_numeral goto_def log_ev_def deref_def cas_tail_def free_node_def fun_eq_iff)

text \<open>
  C38: \<open>free(head.ptr)\<close> is a use-after-free waiting to happen, even if no address is ever handed out twice. Take any reachable state in
  which a thread \<open>i\<close> has loaded \<open>head\<close> and \<open>tail\<close> and is about to read \<open>head.ptr->next\<close>, \<open>head\<close> has not moved since, the queue
  is not empty and another thread \<open>j\<close> is idle. Then a single dequeue of \<open>j\<close>, running alone, takes the first
  element and frees that very node, which was not freed before, without touching any freed memory itself (\<open>uaf\<close> stays as it was), and the
  next step of \<open>i\<close>, the read, is an access to it: the re-check of \<open>head\<close> comes too late.
\<close>

theorem msq_use_after_free:
  assumes "msq_reach False s" and "pcs s i = DqNext hdt tlt" and "ptr (qhead s) = ptr hdt" and "queue_of s (v # vs)"
    and "pcs s j = Idle"
  shows "\<exists>a ls s1. ptr hdt = Some a \<and> a \<notin> freed s \<and> (\<forall>l\<in>set ls. fst l = j) \<and> exec (msq_step False) s ls = Some s1 \<and>
    pcs s1 j = DoneDq (Some v) \<and> pcs s1 i = DqNext hdt tlt \<and> a \<in> freed s1 \<and> uaf s1 = uaf s \<and>
    (\<forall>spurious. \<exists>s2. msq_step False (i, Go spurious) s1 = Some s2 \<and> uaf s2)"
proof -
  obtain L h t where inv: "msq_inv s L h t" using ms.reach_inv [OF assms(1)] by blast
  obtain nd nd' where n: "ptr (qhead s) = Some (L ! h)" "heap s (L ! h) = Some nd" "ptr (nxt nd) = Some (L ! Suc h)"
    "heap s (L ! Suc h) = Some nd'" "nvalue nd' = v" "L ! h \<noteq> L ! Suc h" "L ! h \<notin> freed s" "L ! Suc h \<notin> freed s"
    using front_nodes [OF inv assms(4)] by blast
  have "ptr (qtail s) \<noteq> None" using inv_parts(1) [OF inv] by (auto simp: shared_ok_def at_ix_def)
  from dequeue_frees_head [OF assms(5) n(1-4,6-8) this] obtain s1 where s1:
    "exec (msq_step False) s (dequeue_alone j (ptr (qtail s) = Some (L ! h))) = Some s1"
    "pcs s1 = (pcs s)(j := DoneDq (Some v))" "freed s1 = insert (L ! h) (freed s)" "uaf s1 = uaf s" "heap s1 = heap s"
    unfolding n(5) by blast
  have "i \<noteq> j" using assms(2,5) by auto
  then have "pcs s1 i = DqNext hdt tlt" using s1(2) assms(2) by simp
  moreover have "\<exists>s2. msq_step False (i, Go spurious) s1 = Some s2 \<and> uaf s2" for spurious
    using \<open>pcs s1 i = DqNext hdt tlt\<close> s1(3,5) n(1,2) assms(3) by (simp add: deref_def goto_def)
  moreover have "\<forall>l\<in>set (dequeue_alone j lag). fst l = j" for lag by (simp add: dequeue_alone_def)
  ultimately show ?thesis using s1 n(1,7) assms(3)
    by (intro exI [of _ "L ! h"] exI [of _ "dequeue_alone j (ptr (qtail s) = Some (L ! h))"] exI [of _ s1]) simp
qed

text \<open>One element is enqueued, thread 3 has loaded \<open>head\<close> and \<open>tail\<close>; thread 2 dequeues, and the next step of thread 3 is the access.\<close>

theorem msq_use_after_free_witness:
  "\<exists>s s1 s2. msq_reach False s \<and> \<not> uaf s \<and> freed s = {} \<and> 0 \<in> freed s1 \<and> \<not> uaf s1 \<and> pcs s1 2 = DoneDq (Some 7) \<and>
     msq_step False (3, Go False) s1 = Some s2 \<and> uaf s2"
proof -
  let ?ls = "[(1, Enqueue 7), (1, Malloc (Some 1))] @ replicate 5 (1, Go False) @ [(3, Dequeue), (3, Go False), (3, Go False)]"
  let ?p = "\<lparr>ptr = Some 0, cnt = 0\<rparr> :: tagged"
  have "\<exists>s. exec (msq_step False) msq_start ?ls = Some s \<and> pcs s 3 = DqNext ?p \<lparr>ptr = Some 1, cnt = 1\<rparr> \<and> pcs s 2 = Idle \<and>
      ptr (qhead s) = Some 0 \<and> is_chain (heap s) (Some 0) [0, 1] \<and> nval (heap s) 1 = 7 \<and> \<not> uaf s \<and> freed s = {}"
    by (simp add: eval_nat_numeral msq_start_def goto_def log_ev_def may_alloc_def node_new_def
        deref_def cas_tail_def free_node_def nval_def)
  then obtain s where e: "exec (msq_step False) msq_start ?ls = Some s" and s: "pcs s 3 = DqNext ?p \<lparr>ptr = Some 1, cnt = 1\<rparr>" "pcs s 2 = Idle"
    "ptr (qhead s) = ptr ?p" "is_chain (heap s) (Some 0) [0, 1]" "nval (heap s) 1 = 7" "\<not> uaf s" "freed s = {}"
    by auto
  have r: "msq_reach False s" by (rule exec_from_init [of msq_init, OF msq_init_start e])
  have "queue_of s [7]" using s(3-5) unfolding queue_of_def by (intro exI [of _ 0] exI [of _ "[1]"]) simp
  from msq_use_after_free [OF r s(1,3) this s(2)] obtain s1 where s1: "0 \<in> freed s1" "uaf s1 = uaf s" "pcs s1 2 = DoneDq (Some 7)"
    "\<forall>spurious. \<exists>s2. msq_step False (3, Go spurious) s1 = Some s2 \<and> uaf s2" unfolding tagged.select_convs option.inject by blast
  then show ?thesis using r s(6,7) by blast
qed

text \<open>
  C39: the count in \<open>tagged\<close> does not protect \<open>next\<close>, because \<open>node_new\<close> starts it at 0 again. When
  \<open>malloc\<close> hands out a freed address, there is an execution that follows no wild pointer and no freed node
  and still is not a FIFO queue: an enqueuer links its node behind one that has left the queue and been
  allocated again, returns true, and a dequeue called afterwards reports the queue empty.
\<close>

theorem msq_reuse_not_fifo:
  "\<exists>s. msq_reach True s \<and> \<not> uaf s \<and> \<not> wild s \<and> \<not> (\<exists>A. reach fifo_init fifo_step A \<and> ahist A = hist s)"
proof -
  let ?ls = "[(1, Enqueue 7), (1, Malloc (Some 1)), (1, Go False), (1, Go False), (1, Go False),
      (2, Enqueue 5), (2, Malloc (Some 2))] @ replicate 5 (2, Go False) @
    [(2, Return), (2, Dequeue)] @ replicate 7 (2, Go False) @ [(2, Return),
      (2, Enqueue 6), (2, Malloc (Some 0)), (1, Go False), (1, Go False), (1, Return), (3, Dequeue)] @
    replicate 4 (3, Go False) @ [(3, Return)]"
  let ?h = "[CallEnq 1 7, CallEnq 2 5, RetEnq 2 True, CallDeq 2, RetDeq 2 (Some 5), CallEnq 2 6, RetEnq 1 True,
     CallDeq 3, RetDeq 3 None] :: clong event list"
  have "\<exists>s. exec (msq_step True) msq_start ?ls = Some s \<and> \<not> uaf s \<and> \<not> wild s \<and> hist s = ?h"
    by (simp add: eval_nat_numeral msq_start_def goto_def log_ev_def may_alloc_def node_new_def
        deref_def cas_tail_def free_node_def)
  then obtain s where s: "msq_reach True s" "\<not> uaf s" "\<not> wild s" "hist s = ?h"
    using exec_from_init [of msq_init msq_start "msq_step True", OF msq_init_start] by blast
  have "\<not> empties_ok ?h"
  proof
    assume "empties_ok ?h"
    moreover have "8 < length ?h" "?h ! 8 = RetDeq 3 None" by simp_all
    ultimately obtain j where j: "called_at (take 8 ?h) 3 j" "enqueued (take j ?h) < deq_calls (take 8 ?h)"
      unfolding empties_ok_def by blast
    then have "j = 7" by (auto simp: called_at_def less_Suc_eq eval_nat_numeral)
    with j(2) show False by (simp add: enqueued_def deq_calls_def)
  qed
  then have "\<not> (\<exists>A. reach fifo_init fifo_step A \<and> ahist A = hist s)"
    using fifo_empty.reach_inv empty_inv_ok s(4) by metis
  with s show ?thesis by blast
qed

end
