(* ===== verification/MutexQueue.thy ===== *)
theory MutexQueue
  imports Fifo_Spec
begin

text \<open>
  The mutex-protected queue of \<open>week3/src/mutexqueue.c\<close>. The fields \<open>head\<close>, \<open>tail\<close> and the \<open>next\<close> of a
  linked node are only touched between \<open>pthread_mutex_lock\<close> and \<open>pthread_mutex_unlock\<close>, so each such
  section is one step; the allocation before it and the read and \<open>free\<close> of the removed node after it are
  steps of their own. A freed node leaves the heap, its address may be allocated again, and an access to
  memory that is not allocated sets \<open>mq_wild\<close> and stops the thread.
\<close>

section \<open>Data\<close>

record mnode =
  mvalue :: clong
  mnext :: "addr option"

datatype mq_pc =
    MIdle
  | MNew clong \<comment> \<open>\<open>malloc\<close> and initialisation of the node\<close>
  | MEnq clong addr \<comment> \<open>the locked section of \<open>mq_enqueue\<close>\<close>
  | MDoneEq bool
  | MDeq \<comment> \<open>the locked section of \<open>mq_dequeue\<close>\<close>
  | MRead addr \<comment> \<open>\<open>*out = n->value\<close>\<close>
  | MFree addr clong \<comment> \<open>\<open>free(n)\<close>\<close>
  | MDoneDq "clong option"
  | MCrashed

record mqueue =
  mq_head :: "addr option"
  mq_tail :: "addr option"
  mheap :: "addr \<Rightarrow> mnode option"
  mpcs :: "tid \<Rightarrow> mq_pc"
  mhist :: "clong event list"
  mq_wild :: bool

section \<open>Operations\<close>

text \<open>\<open>mq_create\<close>: whether \<open>malloc\<close> and \<open>pthread_mutex_init\<close> succeed.\<close>

definition mq_create :: "bool \<Rightarrow> bool \<Rightarrow> mqueue option" where
  "mq_create malloc_ok mutex_ok =
     (if \<not> malloc_ok then None
      else if \<not> mutex_ok then None
      else Some \<lparr>mq_head = None, mq_tail = None, mheap = (\<lambda>_. None), mpcs = (\<lambda>_. MIdle), mhist = [],
                 mq_wild = False\<rparr>)"

definition mgoto :: "tid \<Rightarrow> mq_pc \<Rightarrow> mqueue \<Rightarrow> mqueue" where
  "mgoto t p s = s\<lparr>mpcs := (mpcs s)(t := p)\<rparr>"

definition mlog :: "clong event \<Rightarrow> mqueue \<Rightarrow> mqueue" where
  "mlog e s = s\<lparr>mhist := mhist s @ [e]\<rparr>"

definition mcrash :: "tid \<Rightarrow> mqueue \<Rightarrow> mqueue" where
  "mcrash t s = mgoto t MCrashed (s\<lparr>mq_wild := True\<rparr>)"

definition enq_locked :: "tid \<Rightarrow> addr \<Rightarrow> mqueue \<Rightarrow> mqueue" where
  "enq_locked t n s =
     (case mq_tail s of
        None \<Rightarrow> mgoto t (MDoneEq True) (s\<lparr>mq_head := Some n, mq_tail := Some n\<rparr>)
      | Some a \<Rightarrow> (case mheap s a of
          None \<Rightarrow> mcrash t s
        | Some nd \<Rightarrow> mgoto t (MDoneEq True)
            (s\<lparr>mheap := (mheap s)(a \<mapsto> nd\<lparr>mnext := Some n\<rparr>), mq_tail := Some n\<rparr>)))"

definition deq_locked :: "tid \<Rightarrow> mqueue \<Rightarrow> mqueue" where
  "deq_locked t s =
     (case mq_head s of
        None \<Rightarrow> mgoto t (MDoneDq None) s
      | Some n \<Rightarrow> (case mheap s n of
          None \<Rightarrow> mcrash t s
        | Some nd \<Rightarrow> mgoto t (MRead n)
            (s\<lparr>mq_head := mnext nd, mq_tail := (if mnext nd = None then None else mq_tail s)\<rparr>)))"

datatype mq_act = MEnqueue clong | MDequeue | MMalloc "addr option" | MGo | MReturn

fun mq_step :: "tid \<times> mq_act \<Rightarrow> mqueue \<Rightarrow> mqueue option" where
  "mq_step (t, MEnqueue v) s =
     (if mpcs s t = MIdle then Some (mgoto t (MNew v) (mlog (CallEnq t v) s)) else None)"
| "mq_step (t, MDequeue) s =
     (if mpcs s t = MIdle then Some (mgoto t MDeq (mlog (CallDeq t) s)) else None)"
| "mq_step (t, MMalloc m) s =
     (case mpcs s t of
        MNew v \<Rightarrow> (case m of
          None \<Rightarrow> Some (mgoto t (MDoneEq False) s)
        | Some n \<Rightarrow> if mheap s n = None
            then Some (mgoto t (MEnq v n) (s\<lparr>mheap := (mheap s)(n \<mapsto> \<lparr>mvalue = v, mnext = None\<rparr>)\<rparr>))
            else None)
      | _ \<Rightarrow> None)"
| "mq_step (t, MGo) s =
     (case mpcs s t of
        MEnq v n \<Rightarrow> Some (enq_locked t n s)
      | MDeq \<Rightarrow> Some (deq_locked t s)
      | MRead n \<Rightarrow> (case mheap s n of
          None \<Rightarrow> Some (mcrash t s)
        | Some nd \<Rightarrow> Some (mgoto t (MFree n (mvalue nd)) s))
      | MFree n v \<Rightarrow>
          if mheap s n = None then Some (mcrash t s)
          else Some (mgoto t (MDoneDq (Some v)) (s\<lparr>mheap := (mheap s)(n := None)\<rparr>))
      | _ \<Rightarrow> None)"
| "mq_step (t, MReturn) s =
     (case mpcs s t of
        MDoneEq b \<Rightarrow> Some (mgoto t MIdle (mlog (RetEnq t b) s))
      | MDoneDq r \<Rightarrow> Some (mgoto t MIdle (mlog (RetDeq t r) s))
      | _ \<Rightarrow> None)"

definition mq_init :: "mqueue \<Rightarrow> bool" where
  "mq_init s \<longleftrightarrow> mq_create True True = Some s"

text \<open>\<open>mq_destroy\<close>: free along the list; \<open>None\<close> when it reaches memory that is not a node.\<close>

fun mq_destroy_nodes :: "nat \<Rightarrow> addr option \<Rightarrow> (addr \<Rightarrow> mnode option) \<Rightarrow> (addr \<Rightarrow> mnode option) option" where
  "mq_destroy_nodes fuel None hp = Some hp"
| "mq_destroy_nodes 0 (Some a) hp = None"
| "mq_destroy_nodes (Suc fuel) (Some a) hp =
     (case hp a of None \<Rightarrow> None | Some nd \<Rightarrow> mq_destroy_nodes fuel (mnext nd) (hp(a := None)))"

definition mq_destroy :: "nat \<Rightarrow> mqueue \<Rightarrow> (addr \<Rightarrow> mnode option) option" where
  "mq_destroy fuel s = mq_destroy_nodes fuel (mq_head s) (mheap s)"

section \<open>The invariant\<close>

fun mchain :: "(addr \<Rightarrow> mnode option) \<Rightarrow> addr option \<Rightarrow> addr list \<Rightarrow> bool" where
  "mchain hp p [] \<longleftrightarrow> p = None"
| "mchain hp p (a # as) \<longleftrightarrow> p = Some a \<and> (\<exists>nd. hp a = Some nd \<and> mchain hp (mnext nd) as)"

fun mowned :: "mq_pc \<Rightarrow> addr option" where
  "mowned (MEnq v n) = Some n"
| "mowned (MRead n) = Some n"
| "mowned (MFree n v) = Some n"
| "mowned _ = None"

definition mval :: "(addr \<Rightarrow> mnode option) \<Rightarrow> addr \<Rightarrow> clong" where
  "mval hp a = (case hp a of None \<Rightarrow> 0 | Some nd \<Rightarrow> mvalue nd)"

fun mtinv :: "(addr \<Rightarrow> mnode option) \<Rightarrow> mq_pc \<Rightarrow> bool" where
  "mtinv hp (MEnq v n) \<longleftrightarrow> hp n = Some \<lparr>mvalue = v, mnext = None\<rparr>"
| "mtinv hp (MRead n) \<longleftrightarrow> hp n \<noteq> None"
| "mtinv hp (MFree n v) \<longleftrightarrow> hp n \<noteq> None"
| "mtinv hp MCrashed \<longleftrightarrow> False"
| "mtinv hp _ \<longleftrightarrow> True"

definition mq_inv :: "mqueue \<Rightarrow> addr list \<Rightarrow> bool" where
  "mq_inv s ns \<longleftrightarrow> mchain (mheap s) (mq_head s) ns \<and> distinct ns \<and>
     mq_tail s = (if ns = [] then None else Some (last ns)) \<and>
     (\<forall>i. mtinv (mheap s) (mpcs s i) \<and> (\<forall>a. mowned (mpcs s i) = Some a \<longrightarrow> a \<notin> set ns)) \<and>
     separate (\<lambda>i. mowned (mpcs s i)) \<and>
     (\<forall>a. mheap s a \<noteq> None \<longrightarrow> a \<in> set ns \<or> (\<exists>i. mowned (mpcs s i) = Some a)) \<and> \<not> mq_wild s"

fun mop_of :: "(addr \<Rightarrow> mnode option) \<Rightarrow> mq_pc \<Rightarrow> clong op" where
  "mop_of hp (MNew v) = PendEnq v"
| "mop_of hp (MEnq v n) = PendEnq v"
| "mop_of hp (MDoneEq b) = DoneEnq b"
| "mop_of hp MDeq = PendDeq False"
| "mop_of hp (MRead n) = DoneDeq (mval hp n)"
| "mop_of hp (MFree n v) = DoneDeq v"
| "mop_of hp (MDoneDq None) = PendDeq True"
| "mop_of hp (MDoneDq (Some v)) = DoneDeq v"
| "mop_of hp _ = NoOp"

definition mq_queue_of :: "mqueue \<Rightarrow> clong list \<Rightarrow> bool" where
  "mq_queue_of s vs \<longleftrightarrow> (\<exists>ns. mchain (mheap s) (mq_head s) ns \<and> vs = map (mval (mheap s)) ns)"

definition mq_abs :: "mqueue \<Rightarrow> clong fifo" where
  "mq_abs s = \<lparr>items = (THE vs. mq_queue_of s vs), ops = (\<lambda>i. mop_of (mheap s) (mpcs s i)), ahist = mhist s\<rparr>"

definition mabs :: "mqueue \<Rightarrow> addr list \<Rightarrow> clong fifo" where
  "mabs s ns = \<lparr>items = map (mval (mheap s)) ns, ops = (\<lambda>i. mop_of (mheap s) (mpcs s i)), ahist = mhist s\<rparr>"

section \<open>Lemmas\<close>

lemma mchain_unique: "mchain hp p ns \<Longrightarrow> mchain hp p ms \<Longrightarrow> ns = ms"
proof (induction hp p ns arbitrary: ms rule: mchain.induct)
  case (1 hp p)
  then show ?case by (cases ms) auto
next
  case (2 hp p a as)
  then show ?case by (cases ms) auto
qed

lemma mq_abs_eq: "mq_inv s ns \<Longrightarrow> mq_abs s = mabs s ns"
  unfolding mq_abs_def mabs_def mq_queue_of_def mq_inv_def
  by (auto intro!: the_equality dest: mchain_unique)

lemma mchain_upd: "mchain hp p ns \<Longrightarrow> a \<notin> set ns \<Longrightarrow> mchain (hp(a := x)) p ns"
  by (induction hp p ns rule: mchain.induct) auto

lemma mchain_alloc: "mchain hp p ns \<Longrightarrow> a \<in> set ns \<Longrightarrow> hp a \<noteq> None"
  by (induction hp p ns rule: mchain.induct) auto

lemma mchain_snoc:
  assumes "mchain hp p (ns @ [a])" and "distinct (ns @ [a])" and "hp a = Some nd" and "n \<notin> set (ns @ [a])"
    and "hp n = Some nd'" and "mnext nd' = None"
  shows "mchain (hp(a \<mapsto> nd\<lparr>mnext := Some n\<rparr>)) p (ns @ [a, n])"
  using assms by (induction ns arbitrary: p) auto

lemma mtinv_other:
  assumes "mtinv hp p" and "mowned p \<noteq> Some a"
  shows "mtinv (hp(a := x)) p" and "mop_of (hp(a := x)) p = mop_of hp p"
proof -
  show "mtinv (hp(a := x)) p" using assms by (cases p) auto
  show "mop_of (hp(a := x)) p = mop_of hp p"
  proof (cases p)
    case (MDoneDq r)
    then show ?thesis by (cases r) simp_all
  qed (use assms(2) in \<open>simp_all add: mval_def\<close>)
qed

lemma mop_upd_next: "hp a = Some nd \<Longrightarrow> mop_of (hp(a \<mapsto> nd\<lparr>mnext := q\<rparr>)) p = mop_of hp p"
proof (cases p)
  case (MDoneDq r)
  then show ?thesis by (cases r) simp_all
qed (simp_all add: mval_def)

end
