(* ===== verification/MutexQueue_Thms.thy ===== *)
theory MutexQueue_Thms
  imports MutexQueue
begin

text \<open>
  The mutex queue implements the same FIFO specification as the lock-free one, and, unlike it, does so
  whatever addresses \<open>malloc\<close> hands out: it never touches freed memory.
\<close>

section \<open>Steps\<close>

lemma mq_inv_step:
  assumes inv: "mq_inv s ns"
    and chain: "mchain hp h ns'" "distinct ns'" "tt = (if ns' = [] then None else Some (last ns'))"
    and others: "\<And>j. j \<noteq> i \<Longrightarrow> mtinv hp (mpcs s j)"
      "\<And>j a. j \<noteq> i \<Longrightarrow> mowned (mpcs s j) = Some a \<Longrightarrow> a \<notin> set ns'"
    and this_one: "mtinv hp p" "\<And>a. mowned p = Some a \<Longrightarrow> a \<notin> set ns'"
      "\<And>a j. mowned p = Some a \<Longrightarrow> j \<noteq> i \<Longrightarrow> mowned (mpcs s j) \<noteq> Some a"
    and cov: "\<And>a. hp a \<noteq> None \<Longrightarrow> a \<in> set ns' \<or> mowned p = Some a \<or> (\<exists>j. j \<noteq> i \<and> mowned (mpcs s j) = Some a)"
    and s': "mq_head s' = h" "mq_tail s' = tt" "mheap s' = hp" "mpcs s' = (mpcs s)(i := p)" "mq_wild s' = mq_wild s"
  shows "mq_inv s' ns'"
proof -
  have sep: "separate (\<lambda>j. mowned (mpcs s j))" using inv by (simp add: mq_inv_def)
  have "separate (\<lambda>j. mowned (((mpcs s)(i := p)) j))"
    using sep this_one(3) unfolding separate_def by (metis fun_upd_apply option.exhaust_sel)
  moreover have "a \<in> set ns' \<or> (\<exists>j. mowned (((mpcs s)(i := p)) j) = Some a)" if "hp a \<noteq> None" for a
    using cov [OF that] by (metis fun_upd_other fun_upd_same)
  moreover have "mtinv hp (((mpcs s)(i := p)) j)" for j using others(1) this_one(1) by (cases "j = i") auto
  moreover have "a \<notin> set ns'" if "mowned (((mpcs s)(i := p)) j) = Some a" for j a
    using that others(2) this_one(2) by (cases "j = i") auto
  ultimately show ?thesis using inv chain unfolding mq_inv_def s' by blast
qed

lemma mq_inv_parts:
  assumes "mq_inv s ns"
  shows "mchain (mheap s) (mq_head s) ns" and "distinct ns"
    and "mq_tail s = (if ns = [] then None else Some (last ns))"
    and "mtinv (mheap s) (mpcs s i)" and "mowned (mpcs s i) = Some a \<Longrightarrow> a \<notin> set ns"
    and "mowned (mpcs s i) = Some a \<Longrightarrow> j \<noteq> i \<Longrightarrow> mowned (mpcs s j) \<noteq> Some a"
    and "mheap s a \<noteq> None \<Longrightarrow> a \<in> set ns \<or> (\<exists>i. mowned (mpcs s i) = Some a)"
    and "\<not> mq_wild s"
  using assms unfolding mq_inv_def separate_def by (metis option.distinct(1))+

lemma cov_other:
  assumes "mq_inv s ns" and "mheap s a \<noteq> None"
  shows "a \<in> set ns \<or> mowned (mpcs s i) = Some a \<or> (\<exists>j. j \<noteq> i \<and> mowned (mpcs s j) = Some a)"
  using mq_inv_parts(7) [OF assms] by metis

definition mkeeps :: "mqueue \<Rightarrow> addr list \<Rightarrow> mqueue \<Rightarrow> bool" where
  "mkeeps s ns s' \<longleftrightarrow> (\<exists>ns'. mq_inv s' ns' \<and> (fifo_step (mabs s ns) (mabs s' ns') \<or> mabs s' ns' = mabs s ns))"

lemma mkeepsI:
  "mq_inv s' ns' \<Longrightarrow> fifo_step (mabs s ns) (mabs s' ns') \<or> mabs s' ns' = mabs s ns \<Longrightarrow> mkeeps s ns s'"
  unfolding mkeeps_def by blast

lemma mops_abs [simp]: "ops (mabs s ns) i = mop_of (mheap s) (mpcs s i)"
  by (simp add: mabs_def)

lemma minv_move:
  assumes inv: "mq_inv s ns" and "mtinv (mheap s) p" and "mowned p = mowned (mpcs s i)"
  shows "mq_inv (mgoto i p (s\<lparr>mhist := hs\<rparr>)) ns"
proof (rule mq_inv_step [OF inv mq_inv_parts(1-3) [OF inv], where i = i and p = p])
  show "a \<in> set ns \<or> mowned p = Some a \<or> (\<exists>j. j \<noteq> i \<and> mowned (mpcs s j) = Some a)" if "mheap s a \<noteq> None" for a
    using mq_inv_parts(7) [OF inv that] assms(3) by metis
qed (use assms mq_inv_parts [OF inv] in \<open>simp_all add: mgoto_def\<close>)

lemma mabs_move:
  "mabs (mgoto i p (s\<lparr>mhist := hs\<rparr>)) ns =
     (mabs s ns)\<lparr>ops := (ops (mabs s ns))(i := mop_of (mheap s) p), ahist := hs\<rparr>"
  by (auto simp: mabs_def mgoto_def fun_eq_iff)

lemma mkeeps_log:
  assumes "mq_inv s ns" and "mtinv (mheap s) p" and "mowned p = mowned (mpcs s i)"
    and "fifo_step (mabs s ns) ((mabs s ns)\<lparr>ops := (ops (mabs s ns))(i := mop_of (mheap s) p),
      ahist := ahist (mabs s ns) @ [e]\<rparr>)"
  shows "mkeeps s ns (mgoto i p (mlog e s))"
  unfolding mlog_def by (rule mkeepsI [OF minv_move [OF assms(1-3)]]) (use assms(4) in \<open>simp add: mabs_move, simp add: mabs_def\<close>)

lemma mkeeps_move:
  assumes inv: "mq_inv s ns" and "mtinv (mheap s) p" and "mowned p = mowned (mpcs s i)"
    and "fifo_step (mabs s ns) ((mabs s ns)\<lparr>ops := (ops (mabs s ns))(i := mop_of (mheap s) p)\<rparr>)
      \<or> mop_of (mheap s) p = mop_of (mheap s) (mpcs s i)"
  shows "mkeeps s ns (mgoto i p s)"
proof -
  have s: "s\<lparr>mhist := mhist s\<rparr> = s" and h: "ahist (mabs s ns) = mhist s" by (simp_all add: mabs_def)
  have a: "mabs (mgoto i p s) ns = (mabs s ns)\<lparr>ops := (ops (mabs s ns))(i := mop_of (mheap s) p)\<rparr>"
    by (auto simp: mabs_def mgoto_def fun_eq_iff)
  have "(mabs s ns)\<lparr>ops := (ops (mabs s ns))(i := mop_of (mheap s) (mpcs s i))\<rparr> = mabs s ns"
    by (simp add: mabs_def fun_upd_idem)
  then show ?thesis using minv_move [OF assms(1-3), of "mhist s"] a assms(4) unfolding s
    by (auto intro: mkeepsI)
qed

lemma mkeeps_alloc:
  assumes inv: "mq_inv s ns" and pc: "mpcs s i = MNew v" and new: "mheap s n = None"
  shows "mkeeps s ns (mgoto i (MEnq v n) (s\<lparr>mheap := (mheap s)(n \<mapsto> \<lparr>mvalue = v, mnext = None\<rparr>)\<rparr>))"
proof -
  let ?hp = "(mheap s)(n \<mapsto> \<lparr>mvalue = v, mnext = None\<rparr>)"
  have n: "n \<notin> set ns" using mchain_alloc [OF mq_inv_parts(1) [OF inv]] new by blast
  have own: "mowned (mpcs s j) \<noteq> Some n" for j
    using mq_inv_parts(4) [OF inv, of j] new by (cases "mpcs s j") auto
  have "mval ?hp a = mval (mheap s) a" if "a \<in> set ns" for a using that n by (auto simp: mval_def)
  then have "mabs (mgoto i (MEnq v n) (s\<lparr>mheap := ?hp\<rparr>)) ns = mabs s ns"
    using mtinv_other(2) [OF mq_inv_parts(4) [OF inv] own] pc
    by (auto simp: mabs_def mgoto_def fun_eq_iff)
  moreover have "mq_inv (mgoto i (MEnq v n) (s\<lparr>mheap := ?hp\<rparr>)) ns"
  proof (rule mq_inv_step [OF inv mchain_upd [OF mq_inv_parts(1) [OF inv] n] mq_inv_parts(2,3) [OF inv],
        where i = i and p = "MEnq v n"])
    show "a \<in> set ns \<or> mowned (MEnq v n) = Some a \<or> (\<exists>j. j \<noteq> i \<and> mowned (mpcs s j) = Some a)"
      if "?hp a \<noteq> None" for a
      using cov_other [OF inv, of a i] that pc by (cases "a = n") simp_all
  qed (use n own mtinv_other(1) [OF mq_inv_parts(4) [OF inv] own] mq_inv_parts(5) [OF inv] in
      \<open>auto simp: mgoto_def\<close>)
  ultimately show ?thesis by (intro mkeepsI) auto
qed

lemma mkeeps_enq:
  assumes inv: "mq_inv s ns" and pc: "mpcs s i = MEnq v n"
  shows "mkeeps s ns (enq_locked i n s)"
proof -
  have hn: "mheap s n = Some \<lparr>mvalue = v, mnext = None\<rparr>" using mq_inv_parts(4) [OF inv, of i] pc by simp
  have n: "n \<notin> set ns" using mq_inv_parts(5) [OF inv, of i n] pc by simp
  have cov: "a \<in> set (ns @ [n]) \<or> mowned (MDoneEq True) = Some a \<or> (\<exists>j. j \<noteq> i \<and> mowned (mpcs s j) = Some a)"
    if "mheap s a \<noteq> None" for a
    using cov_other [OF inv that, of i] pc by auto
  have other: "a \<notin> set (ns @ [n])" if "j \<noteq> i" "mowned (mpcs s j) = Some a" for j a
    using that mq_inv_parts(5) [OF inv that(2)] mq_inv_parts(6) [OF inv, of i n j] pc by auto
  show ?thesis
  proof (cases "ns = []")
    case True
    have t: "mq_tail s = None" using mq_inv_parts(3) [OF inv] True by simp
    let ?s = "mgoto i (MDoneEq True) (s\<lparr>mq_head := Some n, mq_tail := Some n\<rparr>)"
    have "mq_inv ?s (ns @ [n])"
      by (rule mq_inv_step [OF inv, where i = i and p = "MDoneEq True" and hp = "mheap s"])
        (use True hn other cov mq_inv_parts(4) [OF inv] in \<open>auto simp: mgoto_def\<close>)
    moreover have "mabs ?s (ns @ [n]) = (mabs s ns)\<lparr>items := items (mabs s ns) @ [v],
        ops := (ops (mabs s ns))(i := DoneEnq True)\<rparr>"
      using hn by (auto simp: mabs_def mgoto_def fun_eq_iff mval_def)
    ultimately show ?thesis using t pc
      by (auto simp: enq_locked_def intro!: mkeepsI fifo_step.enq)
  next
    case False
    then obtain m a where ns: "ns = m @ [a]" by (metis append_butlast_last_id)
    have t: "mq_tail s = Some a" using mq_inv_parts(3) [OF inv] ns by simp
    obtain nd where nd: "mheap s a = Some nd"
      using mchain_alloc [OF mq_inv_parts(1) [OF inv], of a] ns by auto
    let ?hp = "(mheap s)(a \<mapsto> nd\<lparr>mnext := Some n\<rparr>)"
    let ?s = "mgoto i (MDoneEq True) (s\<lparr>mheap := ?hp, mq_tail := Some n\<rparr>)"
    have c: "mchain ?hp (mq_head s) (ns @ [n])"
      using mchain_snoc [of "mheap s" "mq_head s" m a nd n] mq_inv_parts(1,2) [OF inv] ns nd n hn by simp
    have ti: "mtinv ?hp (mpcs s j)" for j
    proof (rule mtinv_other(1) [OF mq_inv_parts(4) [OF inv]])
      show "mowned (mpcs s j) \<noteq> Some a" using mq_inv_parts(5) [OF inv, of j a] ns by auto
    qed
    have "mq_inv ?s (ns @ [n])"
      by (rule mq_inv_step [OF inv c, where i = i and p = "MDoneEq True"])
        (use n other cov ti nd mq_inv_parts(2) [OF inv] in \<open>auto simp: mgoto_def split: if_splits\<close>)
    moreover have "mabs ?s (ns @ [n]) = (mabs s ns)\<lparr>items := items (mabs s ns) @ [v],
        ops := (ops (mabs s ns))(i := DoneEnq True)\<rparr>"
      using hn nd mop_upd_next [of "mheap s" a nd, OF nd] by (auto simp: mabs_def mgoto_def fun_eq_iff mval_def)
    ultimately show ?thesis using t nd pc
      by (auto simp: enq_locked_def intro!: mkeepsI fifo_step.enq)
  qed
qed

lemma mkeeps_deq:
  assumes inv: "mq_inv s ns" and pc: "mpcs s i = MDeq"
  shows "mkeeps s ns (deq_locked i s)"
proof (cases ns)
  case Nil
  then have "mq_head s = None" using mq_inv_parts(1) [OF inv] by simp
  moreover have "fifo_step (mabs s ns) ((mabs s ns)\<lparr>ops := (ops (mabs s ns))(i := PendDeq True)\<rparr>)"
    using pc Nil by (intro fifo_step.see_empty [of _ _ False]) (simp_all add: mabs_def)
  ultimately show ?thesis using pc by (auto simp: deq_locked_def intro!: mkeeps_move [OF inv])
next
  case (Cons n m)
  obtain nd where nd: "mq_head s = Some n" "mheap s n = Some nd" "mchain (mheap s) (mnext nd) m"
    using mq_inv_parts(1) [OF inv] Cons by auto
  let ?s = "mgoto i (MRead n) (s\<lparr>mq_head := mnext nd, mq_tail := (if mnext nd = None then None else mq_tail s)\<rparr>)"
  have m: "mnext nd = None \<longleftrightarrow> m = []" using nd(3) by (cases m) auto
  have cov: "a \<in> set m \<or> mowned (MRead n) = Some a \<or> (\<exists>j. j \<noteq> i \<and> mowned (mpcs s j) = Some a)"
    if "mheap s a \<noteq> None" for a
    using cov_other [OF inv that, of i] pc Cons by auto
  have "mq_inv ?s m"
    by (rule mq_inv_step [OF inv nd(3), where i = i and p = "MRead n"])
      (use m nd cov Cons mq_inv_parts(2-5) [OF inv] in \<open>auto simp: mgoto_def\<close>)
  moreover have "mabs ?s m = (mabs s ns)\<lparr>items := map (mval (mheap s)) m,
      ops := (ops (mabs s ns))(i := DoneDeq (mval (mheap s) n))\<rparr>"
    by (auto simp: mabs_def mgoto_def fun_eq_iff)
  moreover have "items (mabs s ns) = mval (mheap s) n # map (mval (mheap s)) m"
    using Cons by (simp add: mabs_def)
  ultimately show ?thesis using nd pc
    by (auto simp: deq_locked_def intro!: mkeepsI fifo_step.deq [where b = False])
qed

lemma mkeeps_free:
  assumes inv: "mq_inv s ns" and pc: "mpcs s i = MFree n v"
  shows "mkeeps s ns (mgoto i (MDoneDq (Some v)) (s\<lparr>mheap := (mheap s)(n := None)\<rparr>))"
proof -
  let ?hp = "(mheap s)(n := None)" and ?s = "mgoto i (MDoneDq (Some v)) (s\<lparr>mheap := (mheap s)(n := None)\<rparr>)"
  have n: "n \<notin> set ns" using mq_inv_parts(5) [OF inv, of i n] pc by simp
  have own: "mowned (mpcs s j) \<noteq> Some n" if "j \<noteq> i" for j
    using mq_inv_parts(6) [OF inv, of i n j] pc that by simp
  note oth = mtinv_other [OF mq_inv_parts(4) [OF inv] own]
  have "mq_inv ?s ns"
  proof (rule mq_inv_step [OF inv mchain_upd [OF mq_inv_parts(1) [OF inv] n] mq_inv_parts(2,3) [OF inv],
        where i = i and p = "MDoneDq (Some v)"])
    show "a \<in> set ns \<or> mowned (MDoneDq (Some v)) = Some a \<or> (\<exists>j. j \<noteq> i \<and> mowned (mpcs s j) = Some a)"
      if "?hp a \<noteq> None" for a
      using cov_other [OF inv, of a i] that pc by (cases "a = n") auto
  qed (use oth(1) mq_inv_parts(5) [OF inv] in \<open>auto simp: mgoto_def\<close>)
  moreover have "mabs ?s ns = mabs s ns"
  proof -
    have "mval ?hp a = mval (mheap s) a" if "a \<in> set ns" for a using that n by (auto simp: mval_def)
    then show ?thesis using oth(2) pc by (auto simp: mabs_def mgoto_def fun_eq_iff)
  qed
  ultimately show ?thesis by (intro mkeepsI) auto
qed

lemma mq_step_keeps:
  assumes inv: "mq_inv s ns" and step: "mq_step l s = Some s'"
  shows "mkeeps s ns s'"
proof -
  obtain i a where l: "l = (i, a)" by (cases l)
  show ?thesis
  proof (cases a)
    case (MEnqueue v)
    then have "s' = mgoto i (MNew v) (mlog (CallEnq i v) s)" "mpcs s i = MIdle"
      using step l by (auto split: if_splits)
    then show ?thesis by (auto intro!: mkeeps_log [OF inv] fifo_step.call_enq)
  next
    case MDequeue
    then have "s' = mgoto i MDeq (mlog (CallDeq i) s)" "mpcs s i = MIdle"
      using step l by (auto split: if_splits)
    then show ?thesis by (auto intro!: mkeeps_log [OF inv] fifo_step.call_deq)
  next
    case (MMalloc m)
    then obtain v where pc: "mpcs s i = MNew v" using step l by (auto split: mq_pc.splits)
    show ?thesis
    proof (cases m)
      case None
      then have "s' = mgoto i (MDoneEq False) s" using step l MMalloc pc by simp
      then show ?thesis using pc by (auto intro!: mkeeps_move [OF inv] fifo_step.enq_fail)
    next
      case (Some n)
      then show ?thesis using step l MMalloc pc mkeeps_alloc [OF inv pc, of n] by (auto split: if_splits)
    qed
  next
    case MGo
    note ti = mq_inv_parts(4) [OF inv, of i]
    show ?thesis
    proof (cases "mpcs s i")
      case (MEnq v n)
      then show ?thesis using step l MGo mkeeps_enq [OF inv MEnq] by simp
    next
      case MDeq
      then show ?thesis using step l MGo mkeeps_deq [OF inv MDeq] by simp
    next
      case (MRead n)
      then obtain nd where nd: "mheap s n = Some nd" using ti by auto
      then have "s' = mgoto i (MFree n (mvalue nd)) s" using step l MGo MRead by simp
      then show ?thesis using MRead nd by (auto simp: mval_def intro!: mkeeps_move [OF inv])
    next
      case (MFree n v)
      then show ?thesis using step l MGo ti mkeeps_free [OF inv MFree] by (auto split: if_splits)
    qed (use step l MGo in auto)
  next
    case MReturn
    then consider b where "mpcs s i = MDoneEq b" "s' = mgoto i MIdle (mlog (RetEnq i b) s)"
      | r where "mpcs s i = MDoneDq r" "s' = mgoto i MIdle (mlog (RetDeq i r) s)"
      using step l by (auto split: mq_pc.splits)
    then show ?thesis
    proof cases
      case 1
      then show ?thesis by (auto intro!: mkeeps_log [OF inv] fifo_step.ret_enq)
    next
      case 2
      then show ?thesis
        by (cases r) (auto intro!: mkeeps_log [OF inv] fifo_step.ret_deq fifo_step.ret_empty)
    qed
  qed
qed

lemma mq_init_inv: "mq_init s \<Longrightarrow> mq_inv s []"
  by (auto simp: mq_init_def mq_create_def mq_inv_def separate_def)

interpretation mq: fifo_impl mq_init "step_of mq_step" "\<lambda>s. \<exists>ns. mq_inv s ns" mq_abs mhist
proof
  fix s s' :: mqueue
  show "\<exists>ns. mq_inv s ns" if "mq_init s" using mq_init_inv [OF that] by blast
  show "fifo_init (mq_abs s)" if "mq_init s"
    unfolding mq_abs_eq [OF mq_init_inv [OF that]] using that
    by (auto simp: mq_init_def mq_create_def fifo_init_def mabs_def)
  show "ahist (mq_abs s) = mhist s" by (simp add: mq_abs_def)
  show "\<exists>ns. mq_inv s' ns" if "step_of mq_step s s'" "\<exists>ns. mq_inv s ns"
    using that mq_step_keeps unfolding mkeeps_def by blast
  show "fifo_step (mq_abs s) (mq_abs s') \<or> mq_abs s' = mq_abs s"
    if ex: "\<exists>ns. mq_inv s ns" and st: "step_of mq_step s s'"
  proof -
    obtain ns where inv: "mq_inv s ns" using ex by blast
    obtain ns' where "mq_inv s' ns'" "fifo_step (mabs s ns) (mabs s' ns') \<or> mabs s' ns' = mabs s ns"
      using mq_step_keeps [OF inv] st unfolding mkeeps_def by blast
    then show ?thesis using inv by (simp add: mq_abs_eq)
  qed
qed

abbreviation mq_reach :: "mqueue \<Rightarrow> bool" where
  "mq_reach \<equiv> reach mq_init (step_of mq_step)"

section \<open>Properties\<close>

definition mq_start :: mqueue where
  "mq_start = \<lparr>mq_head = None, mq_tail = None, mheap = (\<lambda>_. None), mpcs = (\<lambda>_. MIdle), mhist = [], mq_wild = False\<rparr>"

lemma mq_init_start: "mq_init mq_start"
  by (simp add: mq_init_def mq_create_def mq_start_def)

text \<open>Two enqueues that overlap, then a dequeue.\<close>

lemma mq_example:
  "\<exists>s. mq_reach s \<and> mhist s = [CallEnq 1 7, CallEnq 2 8, RetEnq 2 True, CallDeq 2, RetDeq 2 (Some 8)] \<and> mpcs s 1 = MEnq 7 1"
proof -
  let ?ls = "[(1, MEnqueue 7), (1, MMalloc (Some 1)), (2, MEnqueue 8), (2, MMalloc (Some 2)), (2, MGo), (2, MReturn),
    (2, MDequeue), (2, MGo), (2, MGo), (2, MGo), (2, MReturn)]"
  have "\<exists>s. exec mq_step mq_start ?ls = Some s \<and>
      mhist s = [CallEnq 1 7, CallEnq 2 8, RetEnq 2 True, CallDeq 2, RetDeq 2 (Some 8)] \<and> mpcs s 1 = MEnq 7 1"
    by (simp add: mq_start_def mgoto_def mlog_def enq_locked_def deq_locked_def)
  then show ?thesis using exec_from_init [of mq_init mq_start mq_step, OF mq_init_start] by blast
qed

text \<open>
  C12: the mutex queue is a FIFO queue: every history of calls and returns is one of the abstract queue, and
  the list from \<open>head\<close> holds its elements. Addresses may be reused without restriction; still no thread ever
  touches memory that is not allocated, and \<open>head\<close> and \<open>tail\<close> are NULL together.
\<close>

theorem mq_refines_fifo:
  assumes "mq_reach s"
  shows "\<exists>A. reach fifo_init fifo_step A \<and> ahist A = mhist s \<and> mq_queue_of s (items A) \<and>
    \<not> mq_wild s \<and> (mq_head s = None \<longleftrightarrow> mq_tail s = None)"
proof -
  obtain ns where inv: "mq_inv s ns" using mq.reach_inv [OF assms] by blast
  have "mq_queue_of s (items (mq_abs s))"
    unfolding mq_abs_eq [OF inv] mq_queue_of_def using mq_inv_parts(1) [OF inv] by (auto simp: mabs_def)
  moreover have "mq_head s = None \<longleftrightarrow> mq_tail s = None"
    using mq_inv_parts(1,3) [OF inv] by (cases ns) auto
  moreover have "ahist (mq_abs s) = mhist s" by (simp add: mq_abs_def)
  ultimately show ?thesis
    using mq.reach_abs [OF assms] mq_inv_parts(8) [OF inv] by (intro exI [of _ "mq_abs s"]) simp
qed

theorem mq_refines_fifo_witness:
  "\<exists>s A. mq_reach s \<and> reach fifo_init fifo_step A \<and> ahist A = mhist s \<and> mpcs s 1 = MEnq 7 1 \<and>
     mq_queue_of s (items A) \<and> \<not> mq_wild s"
proof -
  obtain s where s: "mq_reach s" "mpcs s 1 = MEnq 7 1" using mq_example by blast
  from mq_refines_fifo [OF s(1)] s show ?thesis by blast
qed

lemma mq_destroy_chain:
  assumes "mchain hp p ns" and "distinct ns" and "length ns \<le> fuel"
  shows "mq_destroy_nodes fuel p hp = Some (\<lambda>a. if a \<in> set ns then None else hp a)"
  using assms
proof (induction ns arbitrary: p hp fuel)
  case Nil
  then show ?case by (cases fuel) auto
next
  case (Cons a ns)
  obtain f where f: "fuel = Suc f" using Cons.prems(3) by (cases fuel) auto
  obtain nd where nd: "p = Some a" "hp a = Some nd" "mchain hp (mnext nd) ns" using Cons.prems(1) by auto
  have "mq_destroy_nodes f (mnext nd) (hp(a := None)) = Some (\<lambda>x. if x \<in> set ns then None else (hp(a := None)) x)"
    using Cons.prems nd f by (intro Cons.IH mchain_upd) auto
  then show ?case using f nd by (auto simp: fun_eq_iff)
qed

text \<open>
  \<open>mq_destroy\<close> after the threads are done frees every node, each once, and nothing stays allocated.
\<close>

lemma mq_destroy_frees_all:
  assumes "mq_reach s" and "\<forall>i. mpcs s i = MIdle"
  shows "\<exists>n. \<forall>fuel\<ge>n. mq_destroy fuel s = Some (\<lambda>_. None)"
proof -
  obtain ns where inv: "mq_inv s ns" using mq.reach_inv [OF assms(1)] by blast
  have "mheap s a = None" if "a \<notin> set ns" for a
    using mq_inv_parts(7) [OF inv, of a] assms(2) that by (cases "mheap s a") auto
  then have "(\<lambda>a. if a \<in> set ns then None else mheap s a) = (\<lambda>_. None)" by auto
  then show ?thesis
    unfolding mq_destroy_def using mq_destroy_chain [OF mq_inv_parts(1,2) [OF inv]] by auto
qed

end
