(* ===== verification/Fifo_Cycles.thy ===== *)
theory Fifo_Cycles
  imports Fifo_Spec
begin

text \<open>
  Callers of a FIFO queue that enqueue and dequeue in turn: each has put one value in before it takes one out, so the
  queue is never empty when one of them looks. Proved once of the specification, for the benchmark of week 3.
\<close>

section \<open>Alternating histories\<close>

text \<open>Where a thread is in its cycle of successful enqueues and dequeues; anything else is \<open>None\<close>.\<close>

datatype stage = Ready | InEnq | Full | InDeq

fun thread_of :: "'v event \<Rightarrow> tid" where
  "thread_of (CallEnq t v) = t" | "thread_of (RetEnq t b) = t" | "thread_of (CallDeq t) = t" | "thread_of (RetDeq t r) = t"

fun cycle :: "stage \<Rightarrow> 'v event \<Rightarrow> stage option" where
  "cycle Ready (CallEnq t v) = Some InEnq"
| "cycle InEnq (RetEnq t True) = Some Full"
| "cycle Full (CallDeq t) = Some InDeq"
| "cycle InDeq (RetDeq t r) = Some Ready"
| "cycle st e = None"

definition advance :: "tid \<Rightarrow> stage option \<Rightarrow> 'v event \<Rightarrow> stage option" where
  "advance t st e = (if thread_of e = t then Option.bind st (\<lambda>st. cycle st e) else st)"

definition stage_of :: "tid \<Rightarrow> 'v event list \<Rightarrow> stage option" where
  "stage_of t h = foldl (advance t) (Some Ready) h"

lemma stage_of_Nil [simp]: "stage_of t [] = Some Ready"
  by (simp add: stage_of_def)

lemma stage_of_snoc [simp]: "stage_of t (h @ [e]) = advance t (stage_of t h) e"
  by (simp add: stage_of_def)

fun matches :: "stage \<Rightarrow> 'v op \<Rightarrow> bool" where
  "matches InEnq (PendEnq v) = True"
| "matches InEnq (DoneEnq b) = True"
| "matches InDeq (PendDeq b) = (\<not> b)"
| "matches InDeq (DoneDeq v) = True"
| "matches Ready NoOp = True"
| "matches Full NoOp = True"
| "matches st p = False"

text \<open>The values in the queue a thread stands for.\<close>

fun credit :: "stage \<Rightarrow> 'v op \<Rightarrow> nat" where
  "credit InEnq (DoneEnq True) = 1"
| "credit Full p = 1"
| "credit InDeq (PendDeq b) = 1"
| "credit st p = 0"

definition cycling :: "nat \<Rightarrow> 'v event list \<Rightarrow> bool" where
  "cycling n h \<longleftrightarrow> (\<forall>t. stage_of t h \<noteq> None) \<and> (\<forall>e\<in>set h. thread_of e < n)"

definition hits :: "'v event list \<Rightarrow> bool" where
  "hits h \<longleftrightarrow> (\<forall>t. RetDeq t None \<notin> set h)"

definition hit_inv :: "nat \<Rightarrow> 'v fifo \<Rightarrow> bool" where
  "hit_inv n A \<longleftrightarrow> (cycling n (ahist A) \<longrightarrow> (\<forall>t. matches (the (stage_of t (ahist A))) (ops A t)) \<and>
     length (items A) = (\<Sum>t<n. credit (the (stage_of t (ahist A))) (ops A t)) \<and> hits (ahist A))"

lemma stage_of_other: "\<forall>e\<in>set h. thread_of e \<noteq> t \<Longrightarrow> stage_of t h = Some Ready"
  by (induction h rule: rev_induct) (auto simp: advance_def)

lemma stage_of_append_other: "\<forall>e\<in>set es. thread_of e \<noteq> t \<Longrightarrow> stage_of t (h @ es) = stage_of t h"
  by (induction es rule: rev_induct) (auto simp: advance_def simp flip: append_assoc)

lemma cycling_prefix: "cycling n (h @ es) \<Longrightarrow> cycling n h"
proof (induction es rule: rev_induct)
  case (snoc e es)
  then have "cycling n ((h @ es) @ [e])" by simp
  then have "advance t (stage_of t (h @ es)) e \<noteq> None" for t unfolding cycling_def stage_of_snoc by blast
  then have "stage_of t (h @ es) \<noteq> None" for t unfolding advance_def by (metis bind_eq_None_conv)
  then show ?case using snoc by (simp add: cycling_def)
qed simp

lemma sum_change:
  fixes f g :: "nat \<Rightarrow> nat"
  assumes "t < n" and "\<And>u. u \<noteq> t \<Longrightarrow> g u = f u"
  shows "sum g {..<n} + f t = sum f {..<n} + g t"
proof -
  have "sum f {..<n} = f t + sum f ({..<n} - {t})" "sum g {..<n} = g t + sum g ({..<n} - {t})"
    using assms(1) by (simp_all add: sum.remove)
  moreover have "sum g ({..<n} - {t}) = sum f ({..<n} - {t})" using assms(2) by (intro sum.cong) auto
  ultimately show ?thesis by simp
qed

text \<open>A step of thread \<open>t\<close> in stage \<open>st\<close>: the other threads keep their stage and their operation.\<close>

definition turn :: "'v fifo \<Rightarrow> tid \<Rightarrow> stage \<Rightarrow> 'v op \<Rightarrow> 'v list \<Rightarrow> 'v event list \<Rightarrow> bool" where
  "turn A t st p vs es \<longleftrightarrow> (\<exists>st'. stage_of t (ahist A @ es) = Some st' \<and> matches st' p \<and>
     length vs + credit st (ops A t) = length (items A) + credit st' p \<and> (\<forall>t. RetDeq t None \<notin> set es))"

lemma hit_update:
  assumes inv: "hit_inv n A" and B: "B = A\<lparr>items := vs, ops := (ops A)(t := p), ahist := ahist A @ es\<rparr>"
    and es: "\<forall>e\<in>set es. thread_of e = t"
    and new: "\<And>st. cycling n (ahist A @ es) \<Longrightarrow> stage_of t (ahist A) = Some st \<Longrightarrow> matches st (ops A t) \<Longrightarrow> t < n \<Longrightarrow>
      turn A t st p vs es"
    and idle: "ops A t = NoOp \<longrightarrow> es \<noteq> []"
  shows "hit_inv n B"
  unfolding hit_inv_def
proof
  assume "cycling n (ahist B)"
  then have c: "cycling n (ahist A @ es)" by (simp add: B)
  note cA = cycling_prefix [OF c]
  let ?h = "ahist A"
  have m: "\<And>u. matches (the (stage_of u ?h)) (ops A u)" and len: "length (items A) = (\<Sum>u<n. credit (the (stage_of u ?h)) (ops A u))"
    and ok: "hits ?h" using inv cA by (auto simp: hit_inv_def)
  obtain st where st: "stage_of t ?h = Some st" using cA by (auto simp: cycling_def)
  have t: "t < n"
  proof (rule ccontr)
    assume "\<not> t < n"
    then have out: "\<forall>e\<in>set (?h @ es). thread_of e \<noteq> t" using c by (auto simp: cycling_def)
    then have "es = []" using es by (cases es) auto
    moreover have "ops A t = NoOp" using m [of t] out by (cases "ops A t") (simp_all add: stage_of_other)
    ultimately show False using idle by simp
  qed
  obtain st' where st': "stage_of t (?h @ es) = Some st'" "matches st' p" "length vs + credit st (ops A t) = length (items A) + credit st' p"
    "\<forall>t. RetDeq t None \<notin> set es" using new [OF c st _ t] m [of t] st by (auto simp: turn_def)
  have other: "stage_of u (?h @ es) = stage_of u ?h" if "u \<noteq> t" for u
    using that es by (intro stage_of_append_other) auto
  have "(\<Sum>u<n. credit (the (stage_of u (?h @ es))) (((ops A)(t := p)) u)) + credit st (ops A t) = length (items A) + credit st' p"
    unfolding len using sum_change [OF t, of "\<lambda>u. credit (the (stage_of u (?h @ es))) (((ops A)(t := p)) u)"
      "\<lambda>u. credit (the (stage_of u ?h)) (ops A u)"] other st st'(1) by simp
  then have "length vs = (\<Sum>u<n. credit (the (stage_of u (?h @ es))) (((ops A)(t := p)) u))" using st'(3) by linarith
  moreover have "matches (the (stage_of u (?h @ es))) (((ops A)(t := p)) u)" for u
    using m [of u] other st'(1,2) by (cases "u = t") auto
  moreover have "hits (?h @ es)" using ok st'(4) by (auto simp: hits_def)
  ultimately show "(\<forall>u. matches (the (stage_of u (ahist B))) (ops B u)) \<and>
      length (items B) = (\<Sum>u<n. credit (the (stage_of u (ahist B))) (ops B u)) \<and> hits (ahist B)"
    by (simp add: B)
qed

lemma cycling_snoc:
  "cycling n (h @ [e]) \<Longrightarrow> stage_of (thread_of e) h = Some st \<Longrightarrow> \<exists>st'. cycle st e = Some st'"
proof -
  assume c: "cycling n (h @ [e])" and st: "stage_of (thread_of e) h = Some st"
  then have "stage_of (thread_of e) (h @ [e]) \<noteq> None" unfolding cycling_def by blast
  then show ?thesis using st by (auto simp: advance_def)
qed

lemma hit_step: "fifo_step A B \<Longrightarrow> hit_inv n A \<Longrightarrow> hit_inv n B"
proof (induction rule: fifo_step.induct)
  case (call_enq A t v)
  show ?case
  proof (rule hit_update [OF call_enq(2), where vs = "items A" and t = t and p = "PendEnq v" and es = "[CallEnq t v]"])
    fix st assume "cycling n (ahist A @ [CallEnq t v])" "stage_of t (ahist A) = Some st" "matches st (ops A t)"
    then show "turn A t st (PendEnq v) (items A) [CallEnq t v]"
      using cycling_snoc [of n "ahist A" "CallEnq t v" st] call_enq(1) by (cases st) (auto simp: turn_def advance_def)
  qed simp_all
next
  case (enq A t v)
  show ?case
  proof (rule hit_update [OF enq(2), where vs = "items A @ [v]" and t = t and p = "DoneEnq True" and es = "[]"])
    fix st assume "stage_of t (ahist A) = Some st" "matches st (ops A t)"
    then show "turn A t st (DoneEnq True) (items A @ [v]) []"
      using enq(1) by (cases st) (auto simp: turn_def)
  qed (use enq(1) in simp_all)
next
  case (enq_fail A t v)
  show ?case
  proof (rule hit_update [OF enq_fail(2), where vs = "items A" and t = t and p = "DoneEnq False" and es = "[]"])
    fix st assume "stage_of t (ahist A) = Some st" "matches st (ops A t)"
    then show "turn A t st (DoneEnq False) (items A) []"
      using enq_fail(1) by (cases st) (auto simp: turn_def)
  qed (use enq_fail(1) in simp_all)
next
  case (ret_enq A t b)
  show ?case
  proof (rule hit_update [OF ret_enq(2), where vs = "items A" and t = t and p = NoOp and es = "[RetEnq t b]"])
    fix st assume "cycling n (ahist A @ [RetEnq t b])" "stage_of t (ahist A) = Some st" "matches st (ops A t)"
    then show "turn A t st NoOp (items A) [RetEnq t b]"
      using cycling_snoc [of n "ahist A" "RetEnq t b" st] ret_enq(1) by (cases st; cases b) (auto simp: turn_def advance_def)
  qed simp_all
next
  case (call_deq A t)
  show ?case
  proof (rule hit_update [OF call_deq(2), where vs = "items A" and t = t and p = "PendDeq False" and es = "[CallDeq t]"])
    fix st assume "cycling n (ahist A @ [CallDeq t])" "stage_of t (ahist A) = Some st" "matches st (ops A t)"
    then show "turn A t st (PendDeq False) (items A) [CallDeq t]"
      using cycling_snoc [of n "ahist A" "CallDeq t" st] call_deq(1) by (cases st) (auto simp: turn_def advance_def)
  qed simp_all
next
  case (see_empty A t b)
  show ?case
  proof (rule hit_update [OF see_empty(3), where vs = "items A" and t = t and p = "PendDeq True" and es = "[]"])
    fix st assume c: "cycling n (ahist A @ [])" and st: "stage_of t (ahist A) = Some st" "matches st (ops A t)" "t < n"
    have "credit (the (stage_of t (ahist A))) (ops A t) \<le> (\<Sum>u<n. credit (the (stage_of u (ahist A))) (ops A u))"
      using st(3) by (intro member_le_sum) auto
    also have "\<dots> = 0" using see_empty(2,3) c by (simp add: hit_inv_def)
    finally have False using st(1,2) see_empty(1) by (cases st) auto
    then show "turn A t st (PendDeq True) (items A) []" ..
  qed (use see_empty(1) in simp_all)
next
  case (look_again A t)
  show ?case
  proof (rule hit_update [OF look_again(2), where vs = "items A" and t = t and p = "PendDeq False" and es = "[]"])
    fix st assume "stage_of t (ahist A) = Some st" "matches st (ops A t)"
    then show "turn A t st (PendDeq False) (items A) []"
      using look_again(1) by (cases st) (auto simp: turn_def)
  qed (use look_again(1) in simp_all)
next
  case (deq A t b v vs)
  show ?case
  proof (rule hit_update [OF deq(3), where vs = vs and t = t and p = "DoneDeq v" and es = "[]"])
    fix st assume "stage_of t (ahist A) = Some st" "matches st (ops A t)"
    then show "turn A t st (DoneDeq v) vs []"
      using deq(1,2) by (cases st) (auto simp: turn_def)
  qed (use deq(1) in simp_all)
next
  case (ret_deq A t v)
  show ?case
  proof (rule hit_update [OF ret_deq(2), where vs = "items A" and t = t and p = NoOp and es = "[RetDeq t (Some v)]"])
    fix st assume "cycling n (ahist A @ [RetDeq t (Some v)])" "stage_of t (ahist A) = Some st" "matches st (ops A t)"
    then show "turn A t st NoOp (items A) [RetDeq t (Some v)]"
      using cycling_snoc [of n "ahist A" "RetDeq t (Some v)" st] ret_deq(1) by (cases st) (auto simp: turn_def advance_def)
  qed simp_all
next
  case (ret_empty A t)
  show ?case
  proof (rule hit_update [OF ret_empty(2), where vs = "items A" and t = t and p = NoOp and es = "[RetDeq t None]"])
    fix st assume "stage_of t (ahist A) = Some st" "matches st (ops A t)"
    then have False using ret_empty(1) by (cases st) auto
    then show "turn A t st NoOp (items A) [RetDeq t None]" ..
  qed simp_all
qed

interpretation hit: inductive_invariant fifo_init fifo_step "hit_inv n" for n
proof
  show "hit_inv n A" if "fifo_init A" for A :: "'v fifo"
    using that by (simp add: fifo_init_def hit_inv_def hits_def)
qed (rule hit_step)

end
