(* ===== verification/QueueBench.thy ===== *)
theory QueueBench
  imports MSQueue_Thms MutexQueue_Thms Fifo_Cycles Nullcall
begin

text \<open>
  The contention benchmark \<open>week3/src/bench.c\<close>: every thread enqueues and dequeues in turn on one shared queue. It drives
  either queue through the same four calls, which are an argument of the model (\<open>queue_api\<close>). What a benchmark must rely on
  is shown for both: as long as no enqueue fails no dequeue comes back empty, so that every measured operation really moved a value.
\<close>

section \<open>The workers\<close>

text \<open>The calls of a queue: creation from the answers of \<open>malloc\<close>, a step, its labels, destruction with fuel.\<close>

record ('c, 'q, 'a) queue_api =
  api_create :: "'c \<Rightarrow> 'q option"
  api_step :: "tid \<times> 'a \<Rightarrow> 'q \<Rightarrow> 'q option"
  api_enq :: "clong \<Rightarrow> 'a"
  api_deq :: 'a
  api_ret :: 'a
  api_inner :: "'a \<Rightarrow> bool" \<comment> \<open>a step inside an operation\<close>
  api_destroy :: "nat \<Rightarrow> 'q \<Rightarrow> bool" \<comment> \<open>does the walk end without touching foreign memory?\<close>

fun msq_inner :: "act \<Rightarrow> bool" where
  "msq_inner (Malloc m) = True" | "msq_inner (Go sp) = True" | "msq_inner a = False"

fun mq_inner :: "mq_act \<Rightarrow> bool" where
  "mq_inner (MMalloc m) = True" | "mq_inner MGo = True" | "mq_inner a = False"

definition msq_api :: "bool \<Rightarrow> (bool \<times> addr option, msq, act) queue_api" where
  "msq_api reuse = \<lparr>api_create = (\<lambda>(q_ok, dummy). msq_create q_ok dummy), api_step = msq_step reuse, api_enq = Enqueue,
     api_deq = Dequeue, api_ret = Return, api_inner = msq_inner, api_destroy = (\<lambda>fuel s. msq_destroy fuel s \<noteq> None)\<rparr>"

definition mq_api :: "(bool \<times> bool, mqueue, mq_act) queue_api" where
  "mq_api = \<lparr>api_create = (\<lambda>(malloc_ok, mutex_ok). mq_create malloc_ok mutex_ok), api_step = mq_step, api_enq = MEnqueue,
     api_deq = MDequeue, api_ret = MReturn, api_inner = mq_inner, api_destroy = (\<lambda>fuel s. mq_destroy fuel s \<noteq> None)\<rparr>"

text \<open>Where a worker is in iteration \<open>i\<close>; \<open>s\<close> counts the spins of \<open>do_other_work\<close>.\<close>

datatype bench_pc = WTop nat | WEnqueue nat | WWork1 nat nat | WDequeue nat | WWork2 nat nat | WEnd

record 'q bench =
  queue :: 'q
  bpcs :: "tid \<Rightarrow> bench_pc"

definition bgoto :: "tid \<Rightarrow> bench_pc \<Rightarrow> 'q bench \<Rightarrow> 'q bench" where
  "bgoto t p b = b\<lparr>bpcs := (bpcs b)(t := p)\<rparr>"

definition on_queue :: "('c, 'q, 'a) queue_api \<Rightarrow> tid \<Rightarrow> 'a \<Rightarrow> bench_pc \<Rightarrow> 'q bench \<Rightarrow> 'q bench option" where
  "on_queue api t a p b = map_option (\<lambda>q. bgoto t p (b\<lparr>queue := q\<rparr>)) (api_step api (t, a) (queue b))"

fun in_call :: "bench_pc \<Rightarrow> bool" where
  "in_call (WEnqueue i) = True" | "in_call (WDequeue i) = True" | "in_call p = False"

text \<open>A step of thread \<open>t\<close>: \<open>None\<close> is one of \<open>worker\<close> itself, \<open>Some a\<close> one of the queue operation it is in.\<close>

fun worker_step :: "('c, 'q, 'a) queue_api \<Rightarrow> nat \<Rightarrow> nat \<Rightarrow> tid \<times> 'a option \<Rightarrow> 'q bench \<Rightarrow> 'q bench option" where
  "worker_step api nops other_work (t, Some a) b =
     (if in_call (bpcs b t) \<and> api_inner api a then on_queue api t a (bpcs b t) b else None)"
| "worker_step api nops other_work (t, None) b =
     (case bpcs b t of
        WTop i \<Rightarrow> if i < nops then on_queue api t (api_enq api (of_nat i)) (WEnqueue i) b else Some (bgoto t WEnd b)
      | WEnqueue i \<Rightarrow> on_queue api t (api_ret api) (WWork1 i 0) b
      | WWork1 i s \<Rightarrow> if s < other_work then Some (bgoto t (WWork1 i (Suc s)) b) else on_queue api t (api_deq api) (WDequeue i) b
      | WDequeue i \<Rightarrow> on_queue api t (api_ret api) (WWork2 i 0) b
      | WWork2 i s \<Rightarrow> if s < other_work then Some (bgoto t (WWork2 i (Suc s)) b) else Some (bgoto t (WTop (Suc i)) b)
      | WEnd \<Rightarrow> None)"

definition bench_start :: "'q \<Rightarrow> nat \<Rightarrow> 'q bench" where
  "bench_start q nthreads = \<lparr>queue = q, bpcs = (\<lambda>t. if t < nthreads then WTop 0 else WEnd)\<rparr>"

section \<open>The program\<close>

fun now_s :: "timespec \<Rightarrow> double" where
  "now_s (tv_sec, tv_nsec) = dadd (double_of tv_sec) (ddiv (double_of tv_nsec) 1000000000)"

abbreviation OPS_PER_THREAD :: nat where "OPS_PER_THREAD \<equiv> 20000"

text \<open>What happens in one call of \<open>run_once\<close>: allocations, the interleaving of the workers, the clock.\<close>

record ('c, 'a) bench_run =
  br_create :: 'c
  br_arrays :: bool
  br_sched :: "(tid \<times> 'a option) list"
  br_fuel :: nat
  br_clock :: "timespec \<times> timespec"

text \<open>\<open>run_once\<close>; \<open>None\<close> when the schedule does not bring every thread to its end or \<open>destroy\<close> goes astray.\<close>

definition run_once :: "('c, 'q, 'a) queue_api \<Rightarrow> nat \<Rightarrow> nat \<Rightarrow> ('c, 'a) bench_run \<Rightarrow> double option" where
  "run_once api other_work nthreads r =
     (case api_create api (br_create r) of None \<Rightarrow> Some (-1)
      | Some q \<Rightarrow>
          if \<not> br_arrays r then Some (-1)
          else (case exec (worker_step api OPS_PER_THREAD other_work) (bench_start q nthreads) (br_sched r) of None \<Rightarrow> None
            | Some b \<Rightarrow>
                if list_all (\<lambda>t. bpcs b t = WEnd) [0..<nthreads] \<and> api_destroy api (br_fuel r) (queue b)
                then Some (dsub (now_s (snd (br_clock r))) (now_s (fst (br_clock r)))) else None))"

record bench_row =
  brow_lockfree :: bool
  brow_threads :: nat
  brow_other_work :: int
  brow_ops_total :: double
  brow_median :: double
  brow_spread :: double
  brow_throughput :: double

fun all_some :: "'b option list \<Rightarrow> 'b list option" where
  "all_some [] = Some []"
| "all_some (x # xs) = do { y \<leftarrow> x; ys \<leftarrow> all_some xs; Some (y # ys) }"

text \<open>A row of one queue and thread count, from the seconds of its trials; \<open>calloc\<close> is not checked, NULL crashes.\<close>

definition bench_cell :: "bool \<Rightarrow> int \<Rightarrow> nat \<Rightarrow> bool \<Rightarrow> double option list \<Rightarrow> bench_row option" where
  "bench_cell lf other_work n calloc_ok secs =
     (if \<not> calloc_ok then None
      else do {
        t \<leftarrow> all_some secs;
        let t = qsort cmp_double t;
        let med = t ! (length t div 2);
        let spread = dsub (t ! (length t - 1)) (t ! 0);
        let tot = dmul (dmul (double_of n) (double_of OPS_PER_THREAD)) 2;
        Some \<lparr>brow_lockfree = lf, brow_threads = n, brow_other_work = other_work, brow_ops_total = tot, brow_median = med,
          brow_spread = spread, brow_throughput = (if med > 0 then ddiv tot med else 0)\<rparr>
      })"

definition bench_args :: "string list \<Rightarrow> (int \<times> int) option" where
  "bench_args args = do {
     trials \<leftarrow> (case args of [] \<Rightarrow> Some 5 | a # _ \<Rightarrow> atoi a);
     let trials = (if trials < 1 then 1 else trials);
     other_work \<leftarrow> (case args of _ # a # _ \<Rightarrow> atoi a | _ \<Rightarrow> Some 0);
     let other_work = (if other_work < 0 then 0 else other_work);
     Some (trials, other_work)
   }"

definition bench_main ::
    "string list \<Rightarrow> bool \<Rightarrow> (nat \<Rightarrow> nat \<Rightarrow> (bool \<times> addr option, act) bench_run) \<Rightarrow> (nat \<Rightarrow> nat \<Rightarrow> (bool \<times> bool, mq_act) bench_run) \<Rightarrow>
     (bool \<Rightarrow> nat \<Rightarrow> bool) \<Rightarrow> bench_row list option" where
  "bench_main args reuse lf_runs mx_runs calloc_ok = do {
     (trials, other_work) \<leftarrow> bench_args args;
     let threads = [1, 2, 4, 8];
     lf \<leftarrow> all_some (map (\<lambda>n. bench_cell True other_work n (calloc_ok True n)
       (map (\<lambda>k. run_once (msq_api reuse) (nat other_work) n (lf_runs n k)) [0..<nat trials])) threads);
     mx \<leftarrow> all_some (map (\<lambda>n. bench_cell False other_work n (calloc_ok False n)
       (map (\<lambda>k. run_once mq_api (nat other_work) n (mx_runs n k)) [0..<nat trials])) threads);
     Some (lf @ mx)
   }"

section \<open>What the benchmark measures\<close>

fun wstage :: "bench_pc \<Rightarrow> stage" where
  "wstage (WTop i) = Ready" | "wstage (WEnqueue i) = InEnq" | "wstage (WWork1 i s) = Full" | "wstage (WDequeue i) = InDeq"
| "wstage (WWork2 i s) = Ready" | "wstage WEnd = Ready"

text \<open>How many enqueues a worker has begun and how many dequeues it has finished.\<close>

fun begun :: "nat \<Rightarrow> bench_pc \<Rightarrow> nat" where
  "begun nops (WTop i) = i" | "begun nops (WEnqueue i) = Suc i" | "begun nops (WWork1 i s) = Suc i" | "begun nops (WDequeue i) = Suc i"
| "begun nops (WWork2 i s) = Suc i" | "begun nops WEnd = nops"

fun taken :: "nat \<Rightarrow> bench_pc \<Rightarrow> nat" where
  "taken nops (WTop i) = i" | "taken nops (WEnqueue i) = i" | "taken nops (WWork1 i s) = i" | "taken nops (WDequeue i) = i"
| "taken nops (WWork2 i s) = Suc i" | "taken nops WEnd = nops"

definition no_failure :: "'v event list \<Rightarrow> bool" where
  "no_failure h \<longleftrightarrow> (\<forall>t. RetEnq t False \<notin> set h)"

lemma fifo_returns:
  assumes "fifo_step A B" and "ahist B = ahist A @ [e]"
  shows "e = RetEnq t b \<Longrightarrow> ops A t = DoneEnq b" and "e = RetDeq t r \<Longrightarrow> \<exists>v. ops A t = DoneDeq v \<and> r = Some v \<or> ops A t = PendDeq True \<and> r = None"
  using assms by (auto elim!: fifo_stepE)

text \<open>A queue as the workers see it: each call leaves its event in the history.\<close>

locale bench_queue = fifo_impl init "step_of (api_step api)" inv abstr obs
  for init :: "'q \<Rightarrow> bool" and api :: "('c, 'q, 'a) queue_api" and inv :: "'q \<Rightarrow> bool" and abstr :: "'q \<Rightarrow> clong fifo"
    and obs :: "'q \<Rightarrow> clong event list" +
  assumes enq_obs: "api_step api (t, api_enq api v) q = Some q' \<Longrightarrow> obs q' = obs q @ [CallEnq t v]"
    and deq_obs: "api_step api (t, api_deq api) q = Some q' \<Longrightarrow> obs q' = obs q @ [CallDeq t]"
    and inner_obs: "api_inner api a \<Longrightarrow> api_step api (t, a) q = Some q' \<Longrightarrow> obs q' = obs q"
    and ret_obs: "api_step api (t, api_ret api) q = Some q' \<Longrightarrow>
      \<exists>e. obs q' = obs q @ [e] \<and> ((\<exists>b. e = RetEnq t b) \<or> (\<exists>r. e = RetDeq t r))"
begin

definition steady :: "nat \<Rightarrow> nat \<Rightarrow> 'q bench \<Rightarrow> bool" where
  "steady nops n b \<longleftrightarrow> cycling n (obs (queue b)) \<and> (\<forall>t. stage_of t (obs (queue b)) = Some (wstage (bpcs b t))) \<and>
     length (offered (obs (queue b))) = (\<Sum>t<n. begun nops (bpcs b t)) \<and>
     length (returned (obs (queue b))) = (\<Sum>t<n. taken nops (bpcs b t))"

definition bench_inv :: "nat \<Rightarrow> nat \<Rightarrow> 'q bench \<Rightarrow> bool" where
  "bench_inv nops n b \<longleftrightarrow> reach init (step_of (api_step api)) (queue b) \<and> (\<forall>t\<ge>n. bpcs b t = WEnd) \<and>
     (\<forall>t. begun nops (bpcs b t) \<le> nops) \<and> (no_failure (obs (queue b)) \<longrightarrow> steady nops n b)"

lemma bench_inv_start: "init q \<Longrightarrow> obs q = [] \<Longrightarrow> bench_inv nops n (bench_start q n)"
  by (simp add: bench_inv_def bench_start_def steady_def cycling_def reach.reach_init)

lemma reach_hit: "reach init (step_of (api_step api)) q \<Longrightarrow> hit_inv n (abstr q) \<and> ahist (abstr q) = obs q"
  using hit.reach_inv [OF reach_abs] obs_abs [OF reach_inv] by blast

lemma bench_move:
  assumes inv: "bench_inv nops n b" and p: "bpcs b t \<noteq> WEnd" "begun nops p \<le> nops"
    and q: "reach init (step_of (api_step api)) q'" "obs q' = obs (queue b) @ es" "\<forall>e\<in>set es. thread_of e = t"
    and es: "no_failure (obs q') \<Longrightarrow> steady nops n b \<Longrightarrow>
      stage_of t (obs q') = Some (wstage p) \<and> length (offered es) + begun nops (bpcs b t) = begun nops p \<and>
      length (returned es) + taken nops (bpcs b t) = taken nops p"
  shows "bench_inv nops n (bgoto t p (b\<lparr>queue := q'\<rparr>))"
proof -
  let ?b = "bgoto t p (b\<lparr>queue := q'\<rparr>)"
  have t: "t < n" using inv p(1) unfolding bench_inv_def by (meson not_le)
  have "steady nops n ?b" if nf: "no_failure (obs q')"
  proof -
    have s: "steady nops n b" using inv nf by (simp add: bench_inv_def no_failure_def q(2))
    note new = es [OF nf s]
    have other: "stage_of u (obs q') = stage_of u (obs (queue b))" if "u \<noteq> t" for u
      unfolding q(2) using that q(3) by (intro stage_of_append_other) auto
    have st: "stage_of u (obs q') = Some (wstage (((bpcs b)(t := p)) u))" for u
      using s new other by (cases "u = t") (auto simp: steady_def)
    then have "cycling n (obs q')" using s q(2,3) t by (auto simp: cycling_def steady_def)
    moreover have "length (offered (obs q')) = (\<Sum>u<n. begun nops (((bpcs b)(t := p)) u))"
      using sum_change [OF t, of "\<lambda>u. begun nops (((bpcs b)(t := p)) u)" "\<lambda>u. begun nops (bpcs b u)"] s new
      by (simp add: steady_def q(2))
    moreover have "length (returned (obs q')) = (\<Sum>u<n. taken nops (((bpcs b)(t := p)) u))"
      using sum_change [OF t, of "\<lambda>u. taken nops (((bpcs b)(t := p)) u)" "\<lambda>u. taken nops (bpcs b u)"] s new
      by (simp add: steady_def q(2))
    ultimately show ?thesis using st by (simp add: steady_def bgoto_def)
  qed
  then show ?thesis using inv p q(1) t by (auto simp: bench_inv_def bgoto_def)
qed

text \<open>The events that are new, in the stage a worker is in.\<close>

lemma bench_call:
  assumes inv: "bench_inv nops n b" and a: "api_step api (t, a) (queue b) = Some q'" and obs: "obs q' = obs (queue b) @ [e]"
    and e: "thread_of e = t" "cycle (wstage (bpcs b t)) e = Some (wstage p)" "bpcs b t \<noteq> WEnd"
    and c: "begun nops p \<le> nops" "length (offered [e]) + begun nops (bpcs b t) = begun nops p"
      "length (returned [e]) + taken nops (bpcs b t) = taken nops p"
  shows "bench_inv nops n (bgoto t p (b\<lparr>queue := q'\<rparr>))"
proof (rule bench_move [OF inv e(3) c(1) _ obs])
  show "reach init (step_of (api_step api)) q'" using inv a by (auto simp: bench_inv_def intro: reach.reach_step)
  show "\<forall>f\<in>set [e]. thread_of f = t" using e(1) by simp
  assume "steady nops n b"
  then show "stage_of t (obs q') = Some (wstage p) \<and> length (offered [e]) + begun nops (bpcs b t) = begun nops p \<and>
      length (returned [e]) + taken nops (bpcs b t) = taken nops p"
    using c(2,3) e(1,2) by (simp only: obs steady_def stage_of_snoc advance_def) simp
qed

text \<open>A return, given what the specification says of the operation the worker is in.\<close>

lemma ret_event:
  assumes inv: "bench_inv nops n b" and a: "api_step api (t, api_ret api) (queue b) = Some q'" and nf: "no_failure (obs q')"
    and s: "steady nops n b"
  obtains e where "obs q' = obs (queue b) @ [e]" and "thread_of e = t"
    and "\<And>i. bpcs b t = WEnqueue i \<Longrightarrow> e = RetEnq t True" and "\<And>i. bpcs b t = WDequeue i \<Longrightarrow> \<exists>v. e = RetDeq t (Some v)"
proof -
  have r: "reach init (step_of (api_step api)) (queue b)" using inv by (simp add: bench_inv_def)
  obtain e where e: "obs q' = obs (queue b) @ [e]" "(\<exists>b. e = RetEnq t b) \<or> (\<exists>r. e = RetDeq t r)" using ret_obs [OF a] by blast
  have st: "step_of (api_step api) (queue b) q'" using a by blast
  have r': "reach init (step_of (api_step api)) q'" by (rule reach.reach_step [OF r st])
  let ?A = "abstr (queue b)" and ?B = "abstr q'"
  have A: "hit_inv n ?A" "ahist ?A = obs (queue b)" "ahist ?B = obs q'" using reach_hit [OF r] reach_hit [OF r'] by blast+
  have step: "fifo_step ?A ?B" using sim_step [OF reach_inv [OF r] st] A(2,3) e(1) by auto
  have B: "ahist ?B = ahist ?A @ [e]" using A(2,3) e(1) by simp
  have "cycling n (obs (queue b))" and w: "stage_of t (obs (queue b)) = Some (wstage (bpcs b t))" using s by (simp_all add: steady_def)
  then have m: "matches (wstage (bpcs b t)) (ops ?A t)" using A(1,2) by (metis hit_inv_def option.sel)
  have th: "thread_of e = t" using e(2) by auto
  show ?thesis
  proof (rule that [OF e(1) th])
    fix i assume i: "bpcs b t = WEnqueue i"
    then have "e \<noteq> RetDeq t r" for r using fifo_returns(2) [OF step B, of t r] m by auto
    then show "e = RetEnq t True" using e nf by (cases e) (auto simp: no_failure_def)
  next
    fix i assume i: "bpcs b t = WDequeue i"
    then have ne: "e \<noteq> RetEnq t c" for c using fifo_returns(1) [OF step B, of t c] m by auto
    then obtain r where r: "e = RetDeq t r" using e(2) by blast
    then obtain v where "r = Some v" using fifo_returns(2) [OF step B r] m i by auto
    then show "\<exists>v. e = RetDeq t (Some v)" using r by blast
  qed
qed

lemma bench_ret:
  assumes inv: "bench_inv nops n b" and a: "api_step api (t, api_ret api) (queue b) = Some q'"
    and p: "(\<exists>i. bpcs b t = WEnqueue i \<and> p = WWork1 i 0) \<or> (\<exists>i. bpcs b t = WDequeue i \<and> p = WWork2 i 0)"
  shows "bench_inv nops n (bgoto t p (b\<lparr>queue := q'\<rparr>))"
proof -
  obtain e where e: "obs q' = obs (queue b) @ [e]" "thread_of e = t" using ret_obs [OF a] by auto
  have le: "begun nops (bpcs b t) \<le> nops" using inv by (simp add: bench_inv_def)
  show ?thesis
  proof (rule bench_move [OF inv _ _ _ e(1)])
    show "reach init (step_of (api_step api)) q'" using inv a by (auto simp: bench_inv_def intro: reach.reach_step)
    assume nf: "no_failure (obs q')" and s: "steady nops n b"
    have w: "stage_of t (obs (queue b)) = Some (wstage (bpcs b t))" using s by (simp add: steady_def)
    obtain f where "obs q' = obs (queue b) @ [f]" "\<And>i. bpcs b t = WEnqueue i \<Longrightarrow> f = RetEnq t True"
      "\<And>i. bpcs b t = WDequeue i \<Longrightarrow> \<exists>v. f = RetDeq t (Some v)" using ret_event [OF inv a nf s] by metis
    then have "(\<exists>i. bpcs b t = WEnqueue i \<and> p = WWork1 i 0 \<and> e = RetEnq t True) \<or>
        (\<exists>i v. bpcs b t = WDequeue i \<and> p = WWork2 i 0 \<and> e = RetDeq t (Some v))" using e(1) p by auto
    then show "stage_of t (obs q') = Some (wstage p) \<and> length (offered [e]) + begun nops (bpcs b t) = begun nops p \<and>
        length (returned [e]) + taken nops (bpcs b t) = taken nops p"
      using w unfolding e(1) stage_of_snoc advance_def by auto
  qed (use p le e(2) in auto)
qed

lemma bench_stay:
  assumes "bench_inv nops n b" and "reach init (step_of (api_step api)) q'" and "obs q' = obs (queue b)" and "bpcs b t \<noteq> WEnd"
    and "begun nops p \<le> nops" and "wstage p = wstage (bpcs b t)" and "begun nops p = begun nops (bpcs b t)"
    and "taken nops p = taken nops (bpcs b t)"
  shows "bench_inv nops n (bgoto t p (b\<lparr>queue := q'\<rparr>))"
  using assms by (intro bench_move [where es = "[]"]) (simp_all add: steady_def)

lemma bench_goto:
  assumes "bench_inv nops n b" and "bpcs b t \<noteq> WEnd" and "begun nops p \<le> nops" and "wstage p = wstage (bpcs b t)"
    and "begun nops p = begun nops (bpcs b t)" and "taken nops p = taken nops (bpcs b t)"
  shows "bench_inv nops n (bgoto t p b)"
  using bench_stay [of nops n b "queue b" t p] assms by (simp add: bench_inv_def)

lemma bench_inv_step:
  assumes "step_of (worker_step api nops other_work) b b'" and inv: "bench_inv nops n b"
  shows "bench_inv nops n b'"
proof -
  obtain t a where st: "worker_step api nops other_work (t, a) b = Some b'" using assms(1) by (auto simp: step_of_def)
  have le: "begun nops (bpcs b t) \<le> nops" and r: "reach init (step_of (api_step api)) (queue b)"
    using inv by (simp_all add: bench_inv_def)
  show ?thesis
  proof (cases a)
    case (Some x)
    then obtain q where q: "in_call (bpcs b t)" "api_inner api x" "api_step api (t, x) (queue b) = Some q" "b' = bgoto t (bpcs b t) (b\<lparr>queue := q\<rparr>)"
      using st by (auto simp: on_queue_def split: if_splits)
    have "reach init (step_of (api_step api)) q" using r q(3) by (auto intro: reach.reach_step)
    then show ?thesis unfolding q(4) using q(1) inner_obs [OF q(2,3)] le by (intro bench_stay [OF inv]) auto
  next
    case None
    show ?thesis
    proof (cases "bpcs b t")
      case (WTop i)
      show ?thesis
      proof (cases "i < nops")
        case True
        then obtain q where q: "api_step api (t, api_enq api (of_nat i)) (queue b) = Some q" "b' = bgoto t (WEnqueue i) (b\<lparr>queue := q\<rparr>)"
          using st None WTop by (auto simp: on_queue_def)
        show ?thesis unfolding q(2) by (rule bench_call [OF inv q(1) enq_obs [OF q(1)]]) (use WTop True in simp_all)
      next
        case False
        then show ?thesis using st None WTop le by (auto intro!: bench_goto [OF inv])
      qed
    next
      case (WWork1 i s)
      show ?thesis
      proof (cases "s < other_work")
        case True
        then show ?thesis using st None WWork1 le by (auto intro!: bench_goto [OF inv])
      next
        case False
        then obtain q where q: "api_step api (t, api_deq api) (queue b) = Some q" "b' = bgoto t (WDequeue i) (b\<lparr>queue := q\<rparr>)"
          using st None WWork1 by (auto simp: on_queue_def)
        show ?thesis unfolding q(2) by (rule bench_call [OF inv q(1) deq_obs [OF q(1)]]) (use WWork1 le in simp_all)
      qed
    next
      case (WEnqueue i)
      then obtain q where q: "api_step api (t, api_ret api) (queue b) = Some q" "b' = bgoto t (WWork1 i 0) (b\<lparr>queue := q\<rparr>)"
        using st None by (auto simp: on_queue_def)
      show ?thesis unfolding q(2) by (rule bench_ret [OF inv q(1)]) (use WEnqueue in simp)
    next
      case (WDequeue i)
      then obtain q where q: "api_step api (t, api_ret api) (queue b) = Some q" "b' = bgoto t (WWork2 i 0) (b\<lparr>queue := q\<rparr>)"
        using st None by (auto simp: on_queue_def)
      show ?thesis unfolding q(2) by (rule bench_ret [OF inv q(1)]) (use WDequeue in simp)
    next
      case (WWork2 i s)
      then show ?thesis using st None le by (auto intro!: bench_goto [OF inv] split: if_splits)
    next
      case WEnd
      then show ?thesis using st None by simp
    qed
  qed
qed

text \<open>What holds at the end of a run, and at any moment of it.\<close>

lemma bench_outcome:
  assumes q: "init q" "obs q = []" and r: "exec (worker_step api nops other_work) (bench_start q n) ls = Some b"
    and nf: "no_failure (obs (queue b))"
  shows "hits (obs (queue b)) \<and> reach init (step_of (api_step api)) (queue b) \<and>
    ((\<forall>t<n. bpcs b t = WEnd) \<longrightarrow> items (abstr (queue b)) = [] \<and> (\<forall>t. ops (abstr (queue b)) t = NoOp) \<and> length (offered (obs (queue b))) = n * nops \<and>
      mset (returned (obs (queue b))) = mset (offered (obs (queue b))))"
proof -
  have inv: "bench_inv nops n b"
  proof -
    have "reach (\<lambda>b. b = bench_start q n) (step_of (worker_step api nops other_work)) b" by (rule exec_from_init [OF refl r])
    then show ?thesis by (induction rule: reach.induct) (auto intro: bench_inv_start [OF q] bench_inv_step)
  qed
  have r: "reach init (step_of (api_step api)) (queue b)" and s: "steady nops n b" and out: "\<forall>t\<ge>n. bpcs b t = WEnd"
    using inv nf by (simp_all add: bench_inv_def)
  have h: "hit_inv n (abstr (queue b))" "ahist (abstr (queue b)) = obs (queue b)" using reach_hit [OF r] by blast+
  have c: "cycling n (obs (queue b))" "\<And>t. stage_of t (obs (queue b)) = Some (wstage (bpcs b t))" using s by (simp_all add: steady_def)
  have hits: "hits (obs (queue b))" and len: "length (items (abstr (queue b))) = (\<Sum>t<n. credit (wstage (bpcs b t)) (ops (abstr (queue b)) t))"
    using h c by (simp_all add: hit_inv_def)
  have "items (abstr (queue b)) = [] \<and> (\<forall>t. ops (abstr (queue b)) t = NoOp) \<and> length (offered (obs (queue b))) = n * nops \<and>
      mset (returned (obs (queue b))) = mset (offered (obs (queue b)))" if e: "\<forall>t<n. bpcs b t = WEnd"
  proof -
    have l: "length (offered (obs (queue b))) = n * nops" "length (returned (obs (queue b))) = n * nops"
      using s e by (simp_all add: steady_def)
    then have "size (mset (returned (obs (queue b)))) = size (mset (offered (obs (queue b))))" by simp
    then have "mset (returned (obs (queue b))) = mset (offered (obs (queue b)))"
      using values_conserved [OF r] mset_subset_size subset_mset.le_neq_trans by (metis less_irrefl)
    moreover have "items (abstr (queue b)) = []" using len e by simp
    moreover have "ops (abstr (queue b)) t = NoOp" for t
    proof -
      have "bpcs b t = WEnd" using e out by (cases "t < n") auto
      then have "matches Ready (ops (abstr (queue b)) t)" using h c unfolding hit_inv_def by (metis option.sel wstage.simps(6))
      then show ?thesis by (cases "ops (abstr (queue b)) t") auto
    qed
    ultimately show ?thesis using l(1) by blast
  qed
  then show ?thesis using hits r by blast
qed

end

lemma msq_api_simps [simp]:
  "api_step (msq_api r) = msq_step r" "api_enq (msq_api r) = Enqueue" "api_deq (msq_api r) = Dequeue" "api_ret (msq_api r) = Return"
  "api_inner (msq_api r) = msq_inner"
  by (simp_all add: msq_api_def)

lemma mq_api_simps [simp]:
  "api_step mq_api = mq_step" "api_enq mq_api = MEnqueue" "api_deq mq_api = MDequeue" "api_ret mq_api = MReturn"
  "api_inner mq_api = mq_inner"
  by (simp_all add: mq_api_def)

lemma msq_go_hist: "msq_go sp t p s = Some s' \<Longrightarrow> hist s' = hist s"
  by (induction sp t p s rule: msq_go.induct)
    (auto simp: goto_def deref_def cas_tail_def free_node_def split: option.splits if_splits)

lemma msq_inner_hist: "msq_inner a \<Longrightarrow> msq_step r (t, a) q = Some q' \<Longrightarrow> hist q' = hist q"
proof (induction a rule: msq_inner.induct)
  case (1 m)
  then show ?case by (cases m; cases "pcs q t") (auto simp: goto_def split: if_splits)
qed (auto simp: msq_go_hist)

lemma mq_inner_hist: "mq_inner a \<Longrightarrow> mq_step (t, a) q = Some q' \<Longrightarrow> mhist q' = mhist q"
proof (induction a rule: mq_inner.induct)
  case (1 m)
  then show ?case by (cases m; cases "mpcs q t") (auto simp: mgoto_def split: if_splits)
next
  case 2
  then show ?case
    by (cases "mpcs q t") (auto simp: mgoto_def mcrash_def enq_locked_def deq_locked_def split: option.splits if_splits)
qed simp_all

interpretation msb: bench_queue msq_init "msq_api False" "\<lambda>s. \<exists>L h t. msq_inv s L h t" msq_abs hist
proof (intro bench_queue.intro bench_queue_axioms.intro)
  show "fifo_impl msq_init (step_of (api_step (msq_api False))) (\<lambda>s. \<exists>L h t. msq_inv s L h t) msq_abs hist"
    unfolding msq_api_simps by (rule ms.fifo_impl_axioms)
qed (auto simp: goto_def log_ev_def msq_inner_hist split: pc.splits if_splits)

interpretation mqb: bench_queue mq_init mq_api "\<lambda>s. \<exists>ns. mq_inv s ns" mq_abs mhist
proof (intro bench_queue.intro bench_queue_axioms.intro)
  show "fifo_impl mq_init (step_of (api_step mq_api)) (\<lambda>s. \<exists>ns. mq_inv s ns) mq_abs mhist"
    unfolding mq_api_simps by (rule mq.fifo_impl_axioms)
qed (auto simp: mgoto_def mlog_def mq_inner_hist split: mq_pc.splits if_splits)

section \<open>Properties\<close>

text \<open>After the last return both queues are idle and can be destroyed.\<close>

lemma msq_bench_end:
  assumes r: "msq_reach False s" and e: "items (msq_abs s) = []" "\<forall>t. ops (msq_abs s) t = NoOp"
  shows "queue_of s [] \<and> (\<exists>m. \<forall>fuel\<ge>m. api_destroy (msq_api False) fuel s)"
proof -
  obtain L h t where inv: "msq_inv s L h t" using ms.reach_inv [OF r] by blast
  note A = msq_abs_eq [OF inv]
  have "pcs s i = Idle" for i
  proof -
    have "op_of (pcs s i) = NoOp" using e(2) by (simp add: A)
    moreover have "pcs s i \<noteq> Crashed" using inv unfolding msq_inv_def threads_ok_def by (metis tinv.simps(15))
    ultimately show ?thesis by (cases "pcs s i" rule: op_of.cases) auto
  qed
  then have "\<exists>m. \<forall>fuel\<ge>m. api_destroy (msq_api False) fuel s"
    using msq_destroy_frees_all [OF r] by (fastforce simp: msq_api_def)
  moreover have "queue_of s []" using e(1) inv_queue_of [OF inv] by (simp add: A abs_of_def)
  ultimately show ?thesis by blast
qed

lemma mq_bench_end:
  assumes r: "mq_reach s" and e: "items (mq_abs s) = []" "\<forall>t. ops (mq_abs s) t = NoOp"
  shows "mq_queue_of s [] \<and> (\<exists>m. \<forall>fuel\<ge>m. api_destroy mq_api fuel s)"
proof -
  obtain ns where inv: "mq_inv s ns" using mq.reach_inv [OF r] by blast
  note A = mq_abs_eq [OF inv]
  have "mpcs s i = MIdle" for i
  proof -
    have "mop_of (mheap s) (mpcs s i) = NoOp" using e(2) by (simp add: A mabs_def)
    moreover have "mtinv (mheap s) (mpcs s i)" using inv by (simp add: mq_inv_def)
    then have "mpcs s i \<noteq> MCrashed" by auto
    ultimately show ?thesis by (cases "(mheap s, mpcs s i)" rule: mop_of.cases) auto
  qed
  then have "\<exists>m. \<forall>fuel\<ge>m. api_destroy mq_api fuel s"
    using mq_destroy_frees_all [OF r] by (fastforce simp: mq_api_def)
  moreover have "mq_queue_of s []"
    using e(1) mq_inv_parts(1) [OF inv] unfolding A mq_queue_of_def by (auto simp: mabs_def)
  ultimately show ?thesis by blast
qed

text \<open>A finished run has put \<open>k\<close> values in and taken exactly those out.\<close>

definition moved_all :: "nat \<Rightarrow> 'v event list \<Rightarrow> bool" where
  "moved_all k h \<longleftrightarrow> length (offered h) = k \<and> mset (returned h) = mset (offered h)"

lemma lockfree_bench_exact:
  assumes "msq_init q" and "exec (worker_step (msq_api False) nops other_work) (bench_start q n) ls = Some b" and "no_failure (hist (queue b))"
  shows "hits (hist (queue b)) \<and> ((\<forall>t<n. bpcs b t = WEnd) \<longrightarrow> moved_all (n * nops) (hist (queue b)) \<and> queue_of (queue b) [] \<and>
    (\<exists>m. \<forall>fuel\<ge>m. api_destroy (msq_api False) fuel (queue b)))"
proof -
  have "hist q = []" using assms(1) by (auto simp: msq_init_def msq_create_def)
  from msb.bench_outcome [OF assms(1) this, unfolded msq_api_simps] show ?thesis
    using assms(2,3) msq_bench_end unfolding moved_all_def by blast
qed

lemma mutex_bench_exact:
  assumes "mq_init q" and "exec (worker_step mq_api nops other_work) (bench_start q n) ls = Some b" and "no_failure (mhist (queue b))"
  shows "hits (mhist (queue b)) \<and> ((\<forall>t<n. bpcs b t = WEnd) \<longrightarrow> moved_all (n * nops) (mhist (queue b)) \<and> mq_queue_of (queue b) [] \<and>
    (\<exists>m. \<forall>fuel\<ge>m. api_destroy mq_api fuel (queue b)))"
proof -
  have "mhist q = []" using assms(1) by (auto simp: mq_init_def mq_create_def)
  from mqb.bench_outcome [OF assms(1) this, unfolded mq_api_simps] show ?thesis
    using assms(2,3) mq_bench_end unfolding moved_all_def by blast
qed

text \<open>
  C19: the benchmark measures what it says, with either queue, any number of threads and any interleaving: unless an enqueue ran out of memory no
  dequeue of a worker finds the queue empty; when the workers are done, every thread has put \<open>nops\<close> values in, exactly those
  were taken out again, the queue is empty, and \<open>destroy\<close> succeeds. For the lock-free queue this needs that
  addresses of freed nodes are not handed out again.
\<close>

theorem bench_never_misses:
  assumes "msq_init q" and "mq_init q'"
  shows "(exec (worker_step (msq_api False) nops other_work) (bench_start q n) ls = Some b \<and> no_failure (hist (queue b)) \<longrightarrow>
      hits (hist (queue b)) \<and> ((\<forall>t<n. bpcs b t = WEnd) \<longrightarrow> moved_all (n * nops) (hist (queue b)) \<and> queue_of (queue b) [] \<and>
        (\<exists>m. \<forall>fuel\<ge>m. api_destroy (msq_api False) fuel (queue b)))) \<and>
    (exec (worker_step mq_api nops other_work) (bench_start q' n) ls' = Some b' \<and> no_failure (mhist (queue b')) \<longrightarrow>
      hits (mhist (queue b')) \<and> ((\<forall>t<n. bpcs b' t = WEnd) \<longrightarrow> moved_all (n * nops) (mhist (queue b')) \<and> mq_queue_of (queue b') [] \<and>
        (\<exists>m. \<forall>fuel\<ge>m. api_destroy mq_api fuel (queue b'))))"
  using lockfree_bench_exact [OF assms(1)] mutex_bench_exact [OF assms(2)] by blast

text \<open>One thread, two operations.\<close>

lemma bench_never_misses_witness:
  "\<exists>ls b ls' b'. exec (worker_step (msq_api False) 2 1) (bench_start msq_start 1) ls = Some b \<and> moved_all 2 (hist (queue b)) \<and>
     exec (worker_step mq_api 2 1) (bench_start mq_start 1) ls' = Some b' \<and> moved_all 2 (mhist (queue b'))"
proof -
  let ?go = "(0, Some (Go False))" and ?me = "(0, None)" and ?mg = "(0, Some MGo)"
  let ?cycle = "\<lambda>a. [?me, (0, Some (Malloc (Some a)))] @ replicate 5 ?go @ [?me, ?me, ?me] @ replicate 7 ?go @ [?me, ?me, ?me]"
  let ?ls = "?cycle 1 @ ?cycle 2 @ [?me]"
  let ?mcycle = "[?me, (0, Some (MMalloc (Some 1))), ?mg, ?me, ?me, ?me, ?mg, ?mg, ?mg, ?me, ?me, ?me]"
  let ?ls' = "?mcycle @ ?mcycle @ [?me]"
  obtain b where b: "exec (worker_step (msq_api False) 2 1) (bench_start msq_start 1) ?ls = Some b" "bpcs b 0 = WEnd"
    "hist (queue b) = [CallEnq 0 0, RetEnq 0 True, CallDeq 0, RetDeq 0 (Some 0), CallEnq 0 1, RetEnq 0 True, CallDeq 0, RetDeq 0 (Some 1)]"
    by (simp add: eval_nat_numeral bench_start_def on_queue_def bgoto_def msq_start_def goto_def log_ev_def may_alloc_def node_new_def
      deref_def cas_tail_def free_node_def)
  obtain b' where b': "exec (worker_step mq_api 2 1) (bench_start mq_start 1) ?ls' = Some b'" "bpcs b' 0 = WEnd"
    "mhist (queue b') = [CallEnq 0 0, RetEnq 0 True, CallDeq 0, RetDeq 0 (Some 0), CallEnq 0 1, RetEnq 0 True, CallDeq 0, RetDeq 0 (Some 1)]"
    by (simp add: eval_nat_numeral bench_start_def on_queue_def bgoto_def mq_start_def mgoto_def mlog_def enq_locked_def deq_locked_def)
  have "no_failure (hist (queue b))" "no_failure (mhist (queue b'))" by (simp_all add: b(3) b'(3) no_failure_def)
  then have "moved_all (1 * 2) (hist (queue b))" "moved_all (1 * 2) (mhist (queue b'))"
    using bench_never_misses [OF msq_init_start mq_init_start, of 2 1 1 ?ls b ?ls' b'] b(1,2) b'(1,2) by (metis less_one)+
  then have "moved_all 2 (hist (queue b))" "moved_all 2 (mhist (queue b'))" by (simp_all only: mult_1)
  then show ?thesis using b(1) b'(1) by blast
qed

end
