(* ===== verification/QueueBench_Rows.thy ===== *)
theory QueueBench_Rows
  imports QueueBench
begin

text \<open>
  The table that the contention benchmark of week 3 prints, and the runs behind it: complete runs of the workers exist for every
  number of threads, and each row sums up its trials.
\<close>

section \<open>Complete runs\<close>

text \<open>If a thread can do one iteration from a resting queue to a resting queue, the threads can do all of theirs one after the other.\<close>

lemma all_threads_run:
  assumes cyc: "\<And>b t i. rest (queue b) \<Longrightarrow> bpcs b t = WTop i \<Longrightarrow> i < nops \<Longrightarrow>
      \<exists>ls b'. exec (worker_step api nops w) b ls = Some b' \<and> rest (queue b') \<and> bpcs b' = (bpcs b)(t := WTop (Suc i))"
    and "rest q"
  shows "\<exists>ls b. exec (worker_step api nops w) (bench_start q n) ls = Some b \<and> rest (queue b) \<and> (\<forall>t<n. bpcs b t = WEnd)"
proof -
  let ?P = "\<lambda>k b. rest (queue b) \<and> bpcs b = (\<lambda>t. if k \<le> t \<and> t < n then WTop 0 else WEnd)"
  have "\<exists>ls b'. exec (worker_step api nops w) b ls = Some b' \<and> ?P (Suc k) b'" if k: "k < n" and b: "?P k b" for k b
  proof -
    let ?Q = "\<lambda>i b'. rest (queue b') \<and> bpcs b' = (bpcs b)(k := WTop i)"
    have "\<exists>ls b2. exec (worker_step api nops w) b1 ls = Some b2 \<and> ?Q (Suc i) b2" if "i < nops" "?Q i b1" for i b1
      using cyc [of b1 k i] that by auto
    moreover have "?Q 0 b" using b k by auto
    ultimately obtain ls b1 where b1: "exec (worker_step api nops w) b ls = Some b1" "?Q nops b1"
      using exec_stages [where P = ?Q] by blast
    then have "exec (worker_step api nops w) b (ls @ [(k, None)]) = Some (bgoto k WEnd b1)" by (simp add: exec_append)
    moreover have "?P (Suc k) (bgoto k WEnd b1)" using b b1(2) k by (auto simp: bgoto_def fun_eq_iff)
    ultimately show ?thesis by blast
  qed
  moreover have "?P 0 (bench_start q n)" using assms(2) by (auto simp: bench_start_def)
  ultimately obtain ls b where "exec (worker_step api nops w) (bench_start q n) ls = Some b" "?P n b"
    using exec_stages [where P = ?P and n = n] by blast
  then show ?thesis by (intro exI [of _ ls] exI [of _ b]) auto
qed

definition mq_rest :: "mqueue \<Rightarrow> bool" where
  "mq_rest q \<longleftrightarrow> mq_head q = None \<and> mq_tail q = None \<and> mheap q = (\<lambda>_. None) \<and> mpcs q = (\<lambda>_. MIdle) \<and> no_failure (mhist q)"

lemma mq_cycle:
  assumes "mq_rest (queue b)" and "bpcs b t = WTop i" and "i < nops"
  shows "\<exists>ls b'. exec (worker_step mq_api nops 0) b ls = Some b' \<and> mq_rest (queue b') \<and> bpcs b' = (bpcs b)(t := WTop (Suc i))"
proof -
  let ?me = "(t, None)" and ?mg = "(t, Some MGo)"
  let ?ls = "[?me, (t, Some (MMalloc (Some 1))), ?mg, ?me, ?me, ?mg, ?mg, ?mg, ?me, ?me]"
  have "\<exists>b'. exec (worker_step mq_api nops 0) b ?ls = Some b' \<and> mq_rest (queue b') \<and> bpcs b' = (bpcs b)(t := WTop (Suc i))"
    using assms by (simp add: mq_rest_def on_queue_def bgoto_def mgoto_def mlog_def enq_locked_def deq_locked_def no_failure_def fun_upd_def fun_eq_iff)
  then show ?thesis by blast
qed

definition msq_rest :: "msq \<Rightarrow> bool" where
  "msq_rest q \<longleftrightarrow> (\<exists>k nd. ptr (qhead q) = Some k \<and> ptr (qtail q) = Some k \<and> heap q k = Some nd \<and> ptr (nxt nd) = None \<and>
     (\<forall>a>k. heap q a = None) \<and> pcs q = (\<lambda>_. Idle) \<and> no_failure (hist q))"

lemma msq_cycle:
  assumes "msq_rest (queue b)" and "bpcs b t = WTop i" and "i < nops"
  shows "\<exists>ls b'. exec (worker_step (msq_api False) nops 0) b ls = Some b' \<and> msq_rest (queue b') \<and> bpcs b' = (bpcs b)(t := WTop (Suc i))"
proof -
  obtain k nd where q: "ptr (qhead (queue b)) = Some k" "ptr (qtail (queue b)) = Some k" "heap (queue b) k = Some nd" "ptr (nxt nd) = None"
    "\<forall>a>k. heap (queue b) a = None" "pcs (queue b) = (\<lambda>_. Idle)" "no_failure (hist (queue b))"
    using assms(1) by (auto simp: msq_rest_def)
  let ?me = "(t, None)" and ?go = "(t, Some (Go False))"
  let ?ls = "[?me, (t, Some (Malloc (Some (Suc k)))), ?go, ?go, ?go, ?go, ?go, ?me, ?me, ?go, ?go, ?go, ?go, ?go, ?go, ?go, ?me, ?me]"
  have "\<exists>b'. exec (worker_step (msq_api False) nops 0) b ?ls = Some b' \<and> msq_rest (queue b') \<and> bpcs b' = (bpcs b)(t := WTop (Suc i))"
    using assms(2,3) q by (simp add: msq_rest_def on_queue_def bgoto_def goto_def log_ev_def may_alloc_def node_new_def
      deref_def cas_tail_def free_node_def no_failure_def fun_upd_def fun_eq_iff)
  then show ?thesis by blast
qed

text \<open>So \<open>run_once\<close> can return the time between the two readings, for every number of threads.\<close>

lemma run_once_lockfree:
  "\<exists>r. br_clock r = c \<and> run_once (msq_api False) 0 n r = Some (dsub (now_s (snd c)) (now_s (fst c)))"
proof -
  have c: "msq_create True (Some 0) = Some msq_start" by (simp add: msq_create_def msq_start_def)
  have "msq_rest msq_start" by (simp add: msq_rest_def msq_start_def node_new_def no_failure_def)
  from all_threads_run [where rest = msq_rest, OF msq_cycle this] obtain ls b where
    b: "exec (worker_step (msq_api False) OPS_PER_THREAD 0) (bench_start msq_start n) ls = Some b" "msq_rest (queue b)" "\<forall>t<n. bpcs b t = WEnd"
    by blast
  obtain m where "\<forall>fuel\<ge>m. api_destroy (msq_api False) fuel (queue b)"
    using lockfree_bench_exact [OF msq_init_start b(1)] b(2,3) by (auto simp: msq_rest_def)
  then have d: "api_destroy (msq_api False) m (queue b)" by simp
  show ?thesis
    by (rule exI [of _ "\<lparr>br_create = (True, Some 0), br_arrays = True, br_sched = ls, br_fuel = m, br_clock = c\<rparr>"])
      (use b(1,3) d c in \<open>simp add: run_once_def msq_api_def list_all_iff\<close>)
qed

lemma run_once_mutex:
  "\<exists>r. br_clock r = c \<and> run_once mq_api 0 n r = Some (dsub (now_s (snd c)) (now_s (fst c)))"
proof -
  have c: "mq_create True True = Some mq_start" by (simp add: mq_create_def mq_start_def)
  have "mq_rest mq_start" by (simp add: mq_rest_def mq_start_def no_failure_def)
  from all_threads_run [where rest = mq_rest, OF mq_cycle this] obtain ls b where
    b: "exec (worker_step mq_api OPS_PER_THREAD 0) (bench_start mq_start n) ls = Some b" "mq_rest (queue b)" "\<forall>t<n. bpcs b t = WEnd"
    by blast
  obtain m where "\<forall>fuel\<ge>m. api_destroy mq_api fuel (queue b)"
    using mutex_bench_exact [OF mq_init_start b(1)] b(2,3) by (auto simp: mq_rest_def)
  then have d: "api_destroy mq_api m (queue b)" by simp
  show ?thesis
    by (rule exI [of _ "\<lparr>br_create = (True, True), br_arrays = True, br_sched = ls, br_fuel = m, br_clock = c\<rparr>"])
      (use b(1,3) d c in \<open>simp add: run_once_def mq_api_def list_all_iff\<close>)
qed

section \<open>The rows\<close>

lemma all_some_map: "all_some xs = Some ys \<Longrightarrow> xs = map Some ys"
  by (induction xs arbitrary: ys) (auto split: Option.bind_splits)

lemma all_some_Some [simp]: "all_some (map Some ys) = Some ys"
  by (induction ys) auto

lemma upper_middle:
  assumes "ts \<noteq> []"
  shows "median_spread ts (qsort cmp_double ts ! (length ts div 2)) (dsub (qsort cmp_double ts ! (length ts - 1)) (qsort cmp_double ts ! 0))"
proof -
  let ?s = "qsort cmp_double ts"
  have l: "length ?s = length ts" "?s \<noteq> []" "length ts div 2 < length ts" using assms by (simp_all add: dsort.length_srt flip: length_greater_0_conv)
  have e: "?s ! (length ts - 1) = Max (set ts)" "?s ! 0 = Min (set ts)" using sorted_ends [OF sorted_qsort_double l(2)] l(1) by simp_all
  let ?m = "?s ! (length ts div 2)"
  have "Suc (length ts div 2) \<le> length (filter (\<lambda>x. x \<le> ?m) ?s)" "length ts - length ts div 2 \<le> length (filter (\<lambda>x. ?m \<le> x) ?s)"
    using sorted_count_le [OF sorted_qsort_double, of "length ts div 2" ts] sorted_count_ge [OF sorted_qsort_double, of "length ts div 2" ts] l by auto
  then have "length ts \<le> 2 * length (filter (\<lambda>x. x \<le> ?m) ?s)" "length ts \<le> 2 * length (filter (\<lambda>x. ?m \<le> x) ?s)" by arith+
  moreover have "?m \<in> set ts" using l by (metis nth_mem set_qsort_double)
  ultimately show ?thesis by (simp add: median_spread_def length_filter_qsort e [unfolded One_nat_def])
qed

text \<open>A row that sums up \<open>k\<close> trials with the results \<open>f\<close>.\<close>

definition queue_row_ok :: "nat \<Rightarrow> (nat \<Rightarrow> double option) \<Rightarrow> bench_row \<Rightarrow> bool" where
  "queue_row_ok k f r \<longleftrightarrow> brow_ops_total r = 40000 * of_nat (brow_threads r) \<and>
     (\<exists>ts. length ts = k \<and> (\<forall>i<k. f i = Some (ts ! i)) \<and> median_spread ts (brow_median r) (brow_spread r)) \<and>
     brow_throughput r = (if brow_median r > 0 then ddiv (brow_ops_total r) (brow_median r) else 0)"

lemma bench_cell_row:
  assumes "bench_cell lf ow n ok (map f [0..<k]) = Some r" and "n \<le> 8" and "0 < k"
  shows "brow_lockfree r = lf \<and> brow_threads r = n \<and> queue_row_ok k f r"
proof -
  obtain ts where ts: "map f [0..<k] = map Some ts" using assms(1) by (auto simp: bench_cell_def dest: all_some_map split: if_splits Option.bind_splits)
  have len: "length ts = k" using ts by (metis diff_zero length_map length_upt)
  have f: "\<forall>i<k. f i = Some (ts ! i)" using ts len by (metis add_0 diff_zero length_upt nth_map nth_upt)
  have "ts \<noteq> []" using len assms(3) by auto
  from upper_middle [OF this] have m: "median_spread ts (qsort cmp_double ts ! (k div 2)) (dsub (qsort cmp_double ts ! (k - 1)) (qsort cmp_double ts ! 0))"
    unfolding len .
  have "dmul (double_of n) (double_of OPS_PER_THREAD) = of_nat (n * 20000)"
    using double_of_exact [of n] double_of_exact [of OPS_PER_THREAD] double_of_exact [of "n * 20000"] assms(2)
    by (simp add: dmul_def double_of_def)
  moreover have "dmul (of_nat (n * 20000)) 2 = of_nat (n * 40000)"
    using double_of_exact [of "n * 40000"] assms(2) by (simp add: dmul_def double_of_def mult.commute)
  ultimately have "dmul (dmul (double_of n) (double_of OPS_PER_THREAD)) 2 = 40000 * of_nat n" by simp
  then show ?thesis using assms(1) f m len unfolding bench_cell_def queue_row_ok_def
    by (auto simp: ts Let_def dsort.length_srt split: if_splits)
qed

text \<open>
  The table of the benchmark: whatever the arguments, at least one trial is run and eight rows are printed, for the lock-free queue and then
  the mutex queue with 1, 2, 4 and 8 threads; each row counts 40000 operations per thread, its median has half of the trials' times
  on either side, the spread is slowest minus fastest and the throughput is operations over median, or 0 when the median is not positive.
\<close>

lemma bench_rows:
  assumes "bench_main args reuse lf mx ok = Some rows" and "bench_args args = Some (trials, ow)"
  shows "1 \<le> trials \<and> 0 \<le> ow \<and>
    map (\<lambda>r. (brow_lockfree r, brow_threads r)) rows = map (Pair True) [1, 2, 4, 8] @ map (Pair False) [1, 2, 4, 8] \<and>
    (\<forall>r\<in>set rows. queue_row_ok (nat trials) (\<lambda>k. if brow_lockfree r
       then run_once (msq_api reuse) (nat ow) (brow_threads r) (lf (brow_threads r) k)
       else run_once mq_api (nat ow) (brow_threads r) (mx (brow_threads r) k)) r)"
proof -
  have t: "1 \<le> trials" "0 \<le> ow" using assms(2) by (auto simp: bench_args_def Let_def split: Option.bind_splits)
  let ?f = "\<lambda>n k. run_once (msq_api reuse) (nat ow) n (lf n k)" and ?g = "\<lambda>n k. run_once mq_api (nat ow) n (mx n k)"
  let ?row = "\<lambda>b h n. bench_cell b ow n (ok b n) (map (h n) [0..<nat trials])"
  obtain rs rs' where rs: "all_some (map (?row True ?f) [1, 2, 4, 8]) = Some rs" "all_some (map (?row False ?g) [1, 2, 4, 8]) = Some rs'"
    "rows = rs @ rs'"
    using assms unfolding bench_main_def Let_def by (auto split: Option.bind_splits simp del: all_some.simps list.map upt.simps)
  obtain a b c d a' b' c' d' where rows: "rows = [a, b, c, d, a', b', c', d']" and cells:
    "?row True ?f 1 = Some a" "?row True ?f 2 = Some b" "?row True ?f 4 = Some c" "?row True ?f 8 = Some d"
    "?row False ?g 1 = Some a'" "?row False ?g 2 = Some b'" "?row False ?g 4 = Some c'" "?row False ?g 8 = Some d'"
    using rs by (auto split: Option.bind_splits)
  have pos: "0 < nat trials" using t(1) by simp
  note facts = cells [THEN bench_cell_row, OF _ pos, simplified]
  show ?thesis using t facts unfolding rows by simp
qed

text \<open>Three trials of a second each.\<close>

lemma bench_rows_example:
  "\<exists>lf mx rows. bench_main [''3''] False lf mx (\<lambda>_ _. True) = Some rows \<and> length rows = 8 \<and> (\<forall>r\<in>set rows. brow_median r = 1)"
proof -
  let ?c = "((0, 0), (1, 0)) :: timespec \<times> timespec"
  have one: "dsub (now_s (snd ?c)) (now_s (fst ?c)) = 1"
    using double_of_exact [of 0] double_of_exact [of 1] by (simp add: dsub_def dadd_def ddiv_def double_of_def)
  have "\<forall>n. \<exists>r. run_once (msq_api False) 0 n r = Some 1" "\<forall>n. \<exists>r. run_once mq_api 0 n r = Some 1"
    using run_once_lockfree [where c = ?c] run_once_mutex [where c = ?c] unfolding one by blast+
  then obtain f g where "\<forall>n. run_once (msq_api False) 0 n (f n) = Some 1" "\<forall>n. run_once mq_api 0 n (g n) = Some 1"
    unfolding choice_iff by blast
  then obtain lf mx :: "nat \<Rightarrow> nat \<Rightarrow> _" where lf: "\<And>n k. run_once (msq_api False) 0 n (lf n k) = Some 1" and mx: "\<And>n k. run_once mq_api 0 n (mx n k) = Some 1"
    using that [of "\<lambda>n k. f n" "\<lambda>n k. g n"] by blast
  have args: "bench_args [''3''] = Some (3, 0)" by code_simp
  have "\<exists>r. bench_cell b 0 n True (map (\<lambda>k. Some (1 :: double)) [0..<3]) = Some r" for b n
    using all_some_Some [of "replicate 3 (1 :: double)"] by (simp add: bench_cell_def Let_def map_replicate_const)
  then obtain row where row: "\<And>b n. bench_cell b 0 n True (map (\<lambda>k. Some (1 :: double)) [0..<3]) = Some (row b n)" by metis
  then obtain rows where rows: "bench_main [''3''] False lf mx (\<lambda>_ _. True) = Some rows"
    unfolding bench_main_def args by (auto simp: lf mx Let_def simp del: upt.simps)
  note rr = bench_rows [OF rows args]
  have "map (\<lambda>r. (brow_lockfree r, brow_threads r)) rows = map (Pair True) [1, 2, 4, 8] @ map (Pair False) [1, 2, 4, 8]" using rr by blast
  from arg_cong [OF this, of length] have "length rows = 8" by simp
  moreover have "brow_median r = 1" if "r \<in> set rows" for r
  proof -
    have "queue_row_ok (nat 3) (\<lambda>k. if brow_lockfree r then run_once (msq_api False) (nat 0) (brow_threads r) (lf (brow_threads r) k)
        else run_once mq_api (nat 0) (brow_threads r) (mx (brow_threads r) k)) r" using rr that by blast
    then have "queue_row_ok 3 (\<lambda>k. Some 1) r" by (simp only: lf mx if_cancel nat_0 nat_numeral)
    then obtain ts where ts: "length ts = 3" "\<forall>k<3. ts ! k = 1" "median_spread ts (brow_median r) (brow_spread r)"
      by (auto simp: queue_row_ok_def)
    then have "ts = replicate 3 1" by (intro replicate_eqI) (auto simp: in_set_conv_nth)
    then show ?thesis using ts(3) by (simp add: median_spread_def)
  qed
  ultimately show ?thesis using rows by blast
qed

end
