(* ===== verification/AbaStack.thy ===== *)
theory AbaStack
  imports Prelude
begin

text \<open>
  The ABA demonstration of \<open>week3/src/aba_stack.c\<close>: a Treiber stack whose compare-and-swap targets a
  bare pointer, and two threads whose interleaving is fixed by the gates \<open>t2_may_run\<close> and \<open>t2_done\<close>. One
  step per access to shared memory; thread 1 is the main thread (\<open>slow_pop\<close>, then the verdict), thread 2
  runs \<open>thread2\<close>, which calls \<open>push\<close>.
\<close>

section \<open>The program\<close>

datatype anode = A | B | Cn

datatype pc1 =
    P1Load | P1Next anode | P1Signal anode "anode option" | P1Wait anode "anode option"
  | P1Cas anode "anode option" | P1Join "anode option" | P1Done "anode option" int

datatype pc2 =
    P2Wait | P2LoadA | P2NextA anode | P2StoreA anode "anode option"
  | P2LoadB anode | P2NextB anode anode | P2StoreB anode "anode option"
  | P2PushLoad anode | P2PushCas anode | P2Signal | P2Done | P2Crashed

record aba =
  top :: "anode option"
  anext :: "anode \<Rightarrow> anode option"
  t2_may_run :: bool
  t2_done :: bool
  th1 :: pc1
  th2 :: pc2

definition aba_start :: aba where
  "aba_start = \<lparr>top = Some A, anext = (\<lambda>n. case n of A \<Rightarrow> Some B | B \<Rightarrow> Some Cn | Cn \<Rightarrow> None),
     t2_may_run = False, t2_done = False, th1 = P1Load, th2 = P2Wait\<rparr>"

text \<open>The main thread: \<open>slow_pop\<close> up to the join, then the exit status.\<close>

fun main_step :: "pc1 \<Rightarrow> aba \<Rightarrow> aba option" where
  "main_step P1Load s = Some (s\<lparr>th1 := (case top s of None \<Rightarrow> P1Join None | Some t \<Rightarrow> P1Next t)\<rparr>)"
| "main_step (P1Next t) s = Some (s\<lparr>th1 := P1Signal t (anext s t)\<rparr>)"
| "main_step (P1Signal t nx) s = Some (s\<lparr>t2_may_run := True, th1 := P1Wait t nx\<rparr>)"
| "main_step (P1Wait t nx) s = Some (if t2_done s then s\<lparr>th1 := P1Cas t nx\<rparr> else s)"
| "main_step (P1Cas t nx) s = Some
     (if top s = Some t then s\<lparr>top := nx, th1 := P1Join (Some t)\<rparr> else s\<lparr>th1 := P1Join None\<rparr>)"
| "main_step (P1Join got) s =
     (if th2 s = P2Done then Some (s\<lparr>th1 := P1Done got (if top s = Some B then 1 else 0)\<rparr>) else None)"
| "main_step (P1Done got status) s = None"

text \<open>
  Thread 2, with \<open>push\<close> at its end. A failing weak CAS writes the value it found to \<open>n->next\<close>, and the
  loop reads \<open>top\<close> again.
\<close>

fun thread2_step :: "bool \<Rightarrow> pc2 \<Rightarrow> aba \<Rightarrow> aba option" where
  "thread2_step spurious P2Wait s = Some (if t2_may_run s then s\<lparr>th2 := P2LoadA\<rparr> else s)"
| "thread2_step spurious P2LoadA s =
     Some (s\<lparr>th2 := (case top s of None \<Rightarrow> P2Crashed | Some a \<Rightarrow> P2NextA a)\<rparr>)"
| "thread2_step spurious (P2NextA a) s = Some (s\<lparr>th2 := P2StoreA a (anext s a)\<rparr>)"
| "thread2_step spurious (P2StoreA a nx) s = Some (s\<lparr>top := nx, th2 := P2LoadB a\<rparr>)"
| "thread2_step spurious (P2LoadB a) s =
     Some (s\<lparr>th2 := (case top s of None \<Rightarrow> P2Crashed | Some b \<Rightarrow> P2NextB a b)\<rparr>)"
| "thread2_step spurious (P2NextB a b) s = Some (s\<lparr>th2 := P2StoreB a (anext s b)\<rparr>)"
| "thread2_step spurious (P2StoreB a nx) s = Some (s\<lparr>top := nx, th2 := P2PushLoad a\<rparr>)"
| "thread2_step spurious (P2PushLoad n) s = Some (s\<lparr>anext := (anext s)(n := top s), th2 := P2PushCas n\<rparr>)"
| "thread2_step spurious (P2PushCas n) s = Some
     (if top s = anext s n \<and> \<not> spurious then s\<lparr>top := Some n, th2 := P2Signal\<rparr>
      else s\<lparr>anext := (anext s)(n := top s), th2 := P2PushLoad n\<rparr>)"
| "thread2_step spurious P2Signal s = Some (s\<lparr>t2_done := True, th2 := P2Done\<rparr>)"
| "thread2_step spurious P2Done s = None"
| "thread2_step spurious P2Crashed s = None"

datatype aba_label = Main | Thread2 bool

fun aba_step :: "aba_label \<Rightarrow> aba \<Rightarrow> aba option" where
  "aba_step Main s = main_step (th1 s) s"
| "aba_step (Thread2 spurious) s = thread2_step spurious (th2 s) s"

abbreviation aba_reach :: "aba \<Rightarrow> bool" where
  "aba_reach \<equiv> reach (\<lambda>s. s = aba_start) (step_of aba_step)"

text \<open>The nodes on the stack, following \<open>next\<close>; at most \<open>fuel\<close> of them.\<close>

fun stack_from :: "nat \<Rightarrow> (anode \<Rightarrow> anode option) \<Rightarrow> anode option \<Rightarrow> anode list" where
  "stack_from 0 nx p = []"
| "stack_from (Suc fuel) nx None = []"
| "stack_from (Suc fuel) nx (Some n) = n # stack_from fuel nx (nx n)"

section \<open>The only executions\<close>

text \<open>What memory holds, given how far the two threads are.\<close>

fun t2_view :: "pc2 \<Rightarrow> (anode option \<times> anode option) option" where
  "t2_view P2Wait = Some (Some A, Some B)"
| "t2_view P2LoadA = Some (Some A, Some B)"
| "t2_view (P2NextA n) = (if n = A then Some (Some A, Some B) else None)"
| "t2_view (P2StoreA n nx) = (if n = A \<and> nx = Some B then Some (Some A, Some B) else None)"
| "t2_view (P2LoadB n) = (if n = A then Some (Some B, Some B) else None)"
| "t2_view (P2NextB n m) = (if n = A \<and> m = B then Some (Some B, Some B) else None)"
| "t2_view (P2StoreB n nx) = (if n = A \<and> nx = Some Cn then Some (Some B, Some B) else None)"
| "t2_view (P2PushLoad n) = (if n = A then Some (Some Cn, None) else None)"
| "t2_view (P2PushCas n) = (if n = A then Some (Some Cn, Some Cn) else None)"
| "t2_view P2Signal = Some (Some A, Some Cn)"
| "t2_view P2Done = Some (Some A, Some Cn)"
| "t2_view P2Crashed = None"

definition aba_inv :: "aba \<Rightarrow> bool" where
  "aba_inv s \<longleftrightarrow> anext s B = Some Cn \<and> anext s Cn = None \<and> t2_done s = (th2 s = P2Done) \<and>
     (case th1 s of
        P1Load \<Rightarrow> th2 s = P2Wait \<and> \<not> t2_may_run s \<and> top s = Some A \<and> anext s A = Some B
      | P1Next t \<Rightarrow> t = A \<and> th2 s = P2Wait \<and> \<not> t2_may_run s \<and> top s = Some A \<and> anext s A = Some B
      | P1Signal t nx \<Rightarrow> t = A \<and> nx = Some B \<and> th2 s = P2Wait \<and> \<not> t2_may_run s \<and> top s = Some A \<and>
          anext s A = Some B
      | P1Wait t nx \<Rightarrow> t = A \<and> nx = Some B \<and> t2_may_run s \<and>
          (case t2_view (th2 s) of None \<Rightarrow> False
           | Some (tp, an) \<Rightarrow> top s = tp \<and> (an = None \<or> anext s A = an))
      | P1Cas t nx \<Rightarrow> t = A \<and> nx = Some B \<and> th2 s = P2Done \<and> top s = Some A \<and> anext s A = Some Cn
      | P1Join got \<Rightarrow> got = Some A \<and> th2 s = P2Done \<and> top s = Some B \<and> anext s A = Some Cn
      | P1Done got status \<Rightarrow> got = Some A \<and> status = 1 \<and> th2 s = P2Done \<and> top s = Some B \<and> anext s A = Some Cn)"

lemma aba_inv_start: "aba_inv aba_start"
  by (simp add: aba_inv_def aba_start_def)

lemma aba_inv_main: "aba_inv s \<Longrightarrow> main_step (th1 s) s = Some t \<Longrightarrow> aba_inv t"
  by (cases "th1 s") (auto simp: aba_inv_def split: if_splits)

lemma aba_inv_thread2:
  assumes "aba_inv s" and "thread2_step sp (th2 s) s = Some t"
  shows "aba_inv t"
proof (cases "th1 s")
  case (P1Wait n nx)
  then show ?thesis using assms by (cases "th2 s") (auto simp: aba_inv_def split: if_splits)
qed (use assms in \<open>auto simp: aba_inv_def\<close>)

interpretation aba: inductive_invariant "\<lambda>s. s = aba_start" "step_of aba_step" aba_inv
proof
  show "aba_inv t" if st: "step_of aba_step s t" and inv: "aba_inv s" for s t
  proof -
    obtain l where l: "aba_step l s = Some t" using st by blast
    show ?thesis
    proof (cases l)
      case Main
      then show ?thesis using l aba_inv_main [OF inv] by simp
    next
      case (Thread2 sp)
      then show ?thesis using l aba_inv_thread2 [OF inv] by simp
    qed
  qed
qed (simp add: aba_inv_start)

text \<open>How far the two threads are from the end; some thread can always get closer.\<close>

fun left1 :: "pc1 \<Rightarrow> nat" where
  "left1 P1Load = 6"
| "left1 (P1Next t) = 5"
| "left1 (P1Signal t nx) = 4"
| "left1 (P1Wait t nx) = 3"
| "left1 (P1Cas t nx) = 2"
| "left1 (P1Join got) = 1"
| "left1 (P1Done got st) = 0"

fun left2 :: "pc2 \<Rightarrow> nat" where
  "left2 P2Wait = 10"
| "left2 P2LoadA = 9"
| "left2 (P2NextA a) = 8"
| "left2 (P2StoreA a nx) = 7"
| "left2 (P2LoadB a) = 6"
| "left2 (P2NextB a b) = 5"
| "left2 (P2StoreB a nx) = 4"
| "left2 (P2PushLoad n) = 3"
| "left2 (P2PushCas n) = 2"
| "left2 P2Signal = 1"
| "left2 P2Done = 0"
| "left2 P2Crashed = 0"

definition distance :: "aba \<Rightarrow> nat" where
  "distance s = left1 (th1 s) + left2 (th2 s)"

lemma aba_progress:
  assumes "aba_inv s" and "\<nexists>got st. th1 s = P1Done got st"
  shows "\<exists>l t. aba_step l s = Some t \<and> distance t < distance s"
proof (cases "th1 s")
  case (P1Wait n nx)
  show ?thesis
  proof (cases "th2 s = P2Done")
    case True
    then show ?thesis using assms P1Wait
      by (intro exI [of _ Main]) (auto simp: aba_inv_def distance_def)
  next
    case False
    then have "\<exists>t. aba_step (Thread2 False) s = Some t \<and> distance t < distance s"
      using assms P1Wait by (cases "th2 s") (auto simp: aba_inv_def distance_def split: if_splits)
    then show ?thesis by blast
  qed
qed (use assms in \<open>auto simp: aba_inv_def distance_def intro!: exI [of _ Main]\<close>)

lemma aba_finishes:
  "aba_inv s \<Longrightarrow> \<exists>ls t got st. length ls \<le> distance s \<and> exec aba_step s ls = Some t \<and> th1 t = P1Done got st"
proof (induction "distance s" arbitrary: s rule: less_induct)
  case less
  show ?case
  proof (cases "\<exists>got st. th1 s = P1Done got st")
    case True
    then show ?thesis by (intro exI [of _ "[]"]) auto
  next
    case False
    then obtain l u where u: "aba_step l s = Some u" "distance u < distance s"
      using aba_progress [OF less.prems] by blast
    then have "aba_inv u" using aba.inv_step less.prems by blast
    then obtain ls t got st where "length ls \<le> distance u" "exec aba_step u ls = Some t" "th1 t = P1Done got st"
      using less.hyps u(2) by blast
    then show ?thesis using u by (intro exI [of _ "l # ls"] exI [of _ t]) auto
  qed
qed

section \<open>Properties\<close>

text \<open>
  C35: the demonstration shows the bug on demand. Under every schedule that lets the main thread finish,
  its CAS succeeds although the stack underneath has changed: it pops A, \<open>top\<close> is B, which thread 2
  had popped already, and the exit status is 1. The stack then is B, C, so C is still on it.
\<close>

theorem aba_always_broken:
  assumes "aba_reach s" and "th1 s = P1Done got status"
  shows "got = Some A \<and> status = 1 \<and> top s = Some B \<and> stack_from 4 (anext s) (top s) = [B, Cn]"
  using aba.reach_inv [OF assms(1)] assms(2) by (auto simp: aba_inv_def eval_nat_numeral)

lemma aba_run:
  "\<exists>s. exec aba_step aba_start ([Main, Main, Main, Main] @ replicate 8 (Thread2 False) @ [Thread2 True] @
     replicate 3 (Thread2 False) @ replicate 3 Main) = Some s \<and> th1 s = P1Done (Some A) 1"
  by (simp add: eval_nat_numeral aba_start_def)

theorem aba_always_broken_witness:
  "\<exists>s. aba_reach s \<and> th1 s = P1Done (Some A) 1 \<and> stack_from 4 (anext s) (top s) = [B, Cn]"
proof -
  obtain s where s: "aba_reach s" "th1 s = P1Done (Some A) 1"
    using aba_run exec_from_init [of "\<lambda>s. s = aba_start" aba_start aba_step] by blast
  from aba_always_broken [OF s] s show ?thesis by blast
qed

text \<open>
  The gates cannot deadlock and no thread follows NULL: from every reachable state, at most 16 further
  steps, suitably scheduled, bring the main thread to its end.
\<close>

lemma aba_can_always_finish:
  assumes "aba_reach s"
  shows "th2 s \<noteq> P2Crashed \<and> (\<exists>ls t got status. length ls \<le> 16 \<and> exec aba_step s ls = Some t \<and>
    th1 t = P1Done got status)"
proof -
  have inv: "aba_inv s" by (rule aba.reach_inv [OF assms])
  have "left1 p \<le> 6" "left2 q \<le> 10" for p q by (cases p, simp_all) (cases q, simp_all)
  then have "distance s \<le> 6 + 10" unfolding distance_def by (intro add_mono)
  moreover have "th2 s \<noteq> P2Crashed" using inv by (cases "th1 s") (auto simp: aba_inv_def)
  ultimately show ?thesis using aba_finishes [OF inv] by (fastforce intro: order_trans)
qed

end
