(* ===== verification/MSQueue_Tso.thy ===== *)
theory MSQueue_Tso
  imports MSQueue
begin

text \<open>
  The lock-free queue of \<open>week3/src/msqueue.c\<close> on a machine with store buffers (x86-TSO). Its only stores that are not
  compare-and-swaps or fetch-and-adds are those of \<open>node_new\<close>: they are appended to the buffer of the thread and
  reach memory later, in order, so that the memory of a new node holds for a while what \<open>malloc\<close> left there. The
  compare-and-swaps and the counting of retries are locked instructions, which wait for the buffer of their thread to be
  empty; a load sees the stores of its own thread.
\<close>

section \<open>Data\<close>

datatype nstore = StValue addr clong | StNext addr tagged

record tmsq =
  qmem :: msq
  qbufs :: "tid \<Rightarrow> nstore list"

section \<open>Steps\<close>

definition write_node :: "addr \<Rightarrow> (node \<Rightarrow> node) \<Rightarrow> (addr \<Rightarrow> node option) \<Rightarrow> addr \<Rightarrow> node option" where
  "write_node a f h = (case h a of None \<Rightarrow> h | Some nd \<Rightarrow> h(a \<mapsto> f nd))"

fun node_effect :: "nstore \<Rightarrow> (addr \<Rightarrow> node option) \<Rightarrow> addr \<Rightarrow> node option" where
  "node_effect (StValue a v) h = write_node a (\<lambda>nd. nd\<lparr>nvalue := v\<rparr>) h"
| "node_effect (StNext a x) h = write_node a (\<lambda>nd. nd\<lparr>nxt := x\<rparr>) h"

text \<open>What a thread with the buffer \<open>b\<close> sees.\<close>

definition seen_msq :: "nstore list \<Rightarrow> msq \<Rightarrow> msq" where
  "seen_msq b s = s\<lparr>heap := fold node_effect b (heap s)\<rparr>"

text \<open>The program points whose next instruction is a load, and those whose next one is locked.\<close>

fun loads :: "pc \<Rightarrow> bool" where
  "loads (EqTail v n) = True" | "loads (EqNext v n ta) = True" | "loads (EqCheck v n ta nx) = True"
| "loads DqHead = True" | "loads (DqTail he) = True" | "loads (DqNext he ta) = True" | "loads (DqCheck he ta nx) = True"
| "loads (DqRead he nx) = True" | "loads p = False"

fun locked :: "pc \<Rightarrow> bool" where
  "locked (EqLink v n ta nx) = True" | "locked (EqSwing n ta) = True" | "locked (EqHelp v n ta nx) = True"
| "locked (EqRetry v n) = True" | "locked (DqHelp ta nx) = True" | "locked (DqCas he nx v) = True" | "locked DqRetry = True"
| "locked p = False"

text \<open>A load: the step on what the thread sees, of which its program point and the flags are kept.\<close>

definition msq_tso_go :: "bool \<Rightarrow> tid \<Rightarrow> msq \<times> nstore list \<Rightarrow> (msq \<times> nstore list) option" where
  "msq_tso_go spurious t sb = (case sb of (s, b) \<Rightarrow>
     if loads (pcs s t) then map_option (\<lambda>v. (s\<lparr>pcs := pcs v, uaf := uaf v, wild := wild v\<rparr>, b))
       (msq_go spurious t (pcs s t) (seen_msq b s))
     else if locked (pcs s t) \<and> b \<noteq> [] then None
     else map_option (\<lambda>s'. (s', b)) (msq_go spurious t (pcs s t) s))"

text \<open>
  A thread acts, or gets a new node (at an address that \<open>malloc\<close> may hand out, holding anything), or the oldest store in its
  buffer reaches memory.
\<close>

datatype tq_act = QAct act | QNode addr node | QCommit

fun msq_tso_step :: "bool \<Rightarrow> tid \<times> tq_act \<Rightarrow> tmsq \<Rightarrow> tmsq option" where
  "msq_tso_step reuse (t, QAct (Malloc (Some n))) S = None"
| "msq_tso_step reuse (t, QAct (Go spurious)) S = (case msq_tso_go spurious t (qmem S, qbufs S t) of None \<Rightarrow> None
     | Some (s, b) \<Rightarrow> Some (S\<lparr>qmem := s, qbufs := (qbufs S)(t := b)\<rparr>))"
| "msq_tso_step reuse (t, QAct a) S = map_option (\<lambda>s. S\<lparr>qmem := s\<rparr>) (msq_step reuse (t, a) (qmem S))"
| "msq_tso_step reuse (t, QNode n junk) S = (let s = qmem S in
     case pcs s t of EqNew v \<Rightarrow>
       if may_alloc reuse s n
       then Some (S\<lparr>qmem := goto t (EqTail v n) (s\<lparr>heap := (heap s)(n \<mapsto> junk), freed := freed s - {n}\<rparr>),
         qbufs := (qbufs S)(t := qbufs S t @ [StValue n v, StNext n null_tag])\<rparr>)
       else None
     | _ \<Rightarrow> None)"
| "msq_tso_step reuse (t, QCommit) S = (case qbufs S t of [] \<Rightarrow> None
     | w # b \<Rightarrow> Some (S\<lparr>qmem := (qmem S)\<lparr>heap := node_effect w (heap (qmem S))\<rparr>, qbufs := (qbufs S)(t := b)\<rparr>))"

definition msq_tso_init :: "tmsq \<Rightarrow> bool" where
  "msq_tso_init S \<longleftrightarrow> msq_init (qmem S) \<and> qbufs S = (\<lambda>_. [])"

end
