(* ===== verification/MSQueue_Tso_Sim.thy ===== *)
theory MSQueue_Tso_Sim
  imports MSQueue_Tso MSQueue_Thms
begin

text \<open>
  Every execution of the lock-free queue with store buffers is a sequentially consistent one, in which new nodes are
  complete from the beginning: nobody else can reach a node before its thread has linked it, for which its buffer is empty.
\<close>

section \<open>The simulation relation\<close>

text \<open>The value and the node of an enqueue that is not linked.\<close>

fun new_node :: "pc \<Rightarrow> (clong \<times> addr) option" where
  "new_node (EqTail v n) = Some (v, n)" | "new_node (EqNext v n ta) = Some (v, n)"
| "new_node (EqCheck v n ta nx) = Some (v, n)" | "new_node (EqLink v n ta nx) = Some (v, n)"
| "new_node (EqHelp v n ta nx) = Some (v, n)" | "new_node p = None"

text \<open>
  Both executions are in the same state but for the new nodes whose stores are delayed: there, the node
  is complete from the beginning.
\<close>

definition delayed_ok :: "msq \<Rightarrow> (addr \<Rightarrow> node option) \<Rightarrow> pc \<Rightarrow> nstore list \<Rightarrow> bool" where
  "delayed_ok s h p b \<longleftrightarrow> b = [] \<or> (\<exists>v n nd. new_node p = Some (v, n) \<and> heap s n = Some nd \<and> h n = Some (node_new v) \<and>
     (b = [StValue n v, StNext n null_tag] \<or> nvalue nd = v \<and> b = [StNext n null_tag]))"

definition msq_rel :: "msq \<Rightarrow> (tid \<Rightarrow> nstore list) \<Rightarrow> msq \<Rightarrow> bool" where
  "msq_rel s B q \<longleftrightarrow> q = s\<lparr>heap := heap q\<rparr> \<and> (\<forall>t. delayed_ok s (heap q) (pcs s t) (B t)) \<and>
     (\<forall>a. (\<forall>t. B t \<noteq> [] \<longrightarrow> owned (pcs s t) \<noteq> Some a) \<longrightarrow> heap q a = heap s a)"

lemma new_node_owned: "new_node p = Some (v, n) \<Longrightarrow> owned p = Some n"
  by (cases p) auto

text \<open>The node a step accesses.\<close>

fun accesses :: "pc \<Rightarrow> addr option" where
  "accesses (EqNext v n ta) = ptr ta" | "accesses (EqLink v n ta nx) = ptr ta" | "accesses (DqNext he ta) = ptr he"
| "accesses (DqRead he nx) = ptr nx" | "accesses p = None"

lemma accesses_listed:
  assumes inv: "msq_inv q L h t" and "accesses (pcs q i) = Some a"
  shows "a \<in> set L"
proof -
  have "tinv (heap q) (freed q) L h t (pcs q i)" using inv by (simp add: msq_inv_def threads_ok_def)
  then show ?thesis using assms(2) by (cases "pcs q i") (auto simp: at_ix_def)
qed

lemma listed_not_owned:
  assumes inv: "msq_inv q L h t" and "a \<in> set L"
  shows "owned (pcs q i) \<noteq> Some a"
proof
  assume "owned (pcs q i) = Some a"
  moreover have "tinv (heap q) (freed q) L h t (pcs q i)" using inv by (simp add: msq_inv_def threads_ok_def)
  ultimately obtain v where "priv (heap q) L v a" using owned_priv by blast
  then show False using assms(2) by (simp add: priv_def)
qed

text \<open>A step does not depend on the rest of the heap.\<close>

lemma go_heap:
  assumes "msq_go sp t p s = Some s'" and "\<And>a. accesses p = Some a \<Longrightarrow> H a = heap s a" and "\<And>v n ta nx. p \<noteq> EqLink v n ta nx"
  shows "msq_go sp t p (s\<lparr>heap := H\<rparr>) = Some (s'\<lparr>heap := H\<rparr>) \<and> heap s' = heap s"
  using assms by (cases p) (auto simp: goto_def deref_def cas_tail_def free_node_def split: option.splits)

lemma go_load:
  assumes "msq_go sp t p s = Some s'" and "loads p"
  shows "s' = s\<lparr>pcs := pcs s', uaf := uaf s', wild := wild s'\<rparr>"
  using assms by (cases p) (auto simp: goto_def deref_def split: option.splits if_splits)

lemma load_node:
  assumes "msq_go sp t p s = Some s'" and "loads p" and "new_node p = Some x"
  shows "pcs s' t = Crashed \<or> new_node (pcs s' t) = Some x"
  using assms by (cases p) (auto simp: goto_def deref_def split: option.splits if_splits)

lemma msq_relD:
  assumes "msq_rel s B q"
  shows "q = s\<lparr>heap := heap q\<rparr>" "delayed_ok s (heap q) (pcs s t) (B t)"
    "(\<And>u. B u \<noteq> [] \<Longrightarrow> owned (pcs s u) \<noteq> Some a) \<Longrightarrow> heap q a = heap s a"
  using assms unfolding msq_rel_def by blast+

lemma rel_pcs: "msq_rel s B q \<Longrightarrow> pcs q = pcs s"
  using msq_relD(1) [of s B q] by (metis msq.select_convs(6) msq.surjective msq.update_convs(4))

lemma delayed_cong:
  "delayed_ok s h p b \<Longrightarrow> (\<And>v n. b \<noteq> [] \<Longrightarrow> new_node p = Some (v, n) \<Longrightarrow> heap s' n = heap s n \<and> h' n = h n) \<Longrightarrow> delayed_ok s' h' p b"
  unfolding delayed_ok_def by metis

lemma delayed_node: "delayed_ok s h p b \<Longrightarrow> b \<noteq> [] \<Longrightarrow> \<exists>v n. new_node p = Some (v, n) \<and> heap s n \<noteq> None"
  by (auto simp: delayed_ok_def)

text \<open>A node in the list is the same in both executions, and no thread has stores to it in its buffer.\<close>

lemma listed_same:
  assumes rel: "msq_rel s B q" and inv: "msq_inv q L h t" and a: "a \<in> set L"
  shows "heap q a = heap s a" and "fold node_effect (B i) (heap s) a = heap s a"
proof -
  have no: "owned (pcs s u) \<noteq> Some a" for u using listed_not_owned [OF inv a, of u] rel_pcs [OF rel] by simp
  then show "heap q a = heap s a" by (rule msq_relD(3) [OF rel])
  show "fold node_effect (B i) (heap s) a = heap s a"
  proof (cases "B i = []")
    case False
    then obtain v n where n: "new_node (pcs s i) = Some (v, n)" "B i = [StValue n v, StNext n null_tag] \<or> B i = [StNext n null_tag]"
      using msq_relD(2) [OF rel, of i] by (auto simp: delayed_ok_def)
    then have "n \<noteq> a" using no new_node_owned by metis
    then show ?thesis using n(2) by (auto simp: write_node_def split: option.splits)
  qed simp
qed

text \<open>A step that changes no node.\<close>

lemma msq_rel_frame:
  assumes rel: "msq_rel s B q" and q': "q' = s'\<lparr>heap := heap q\<rparr>" and s': "pcs s' = (pcs s)(t := p)" "heap s' = heap s"
    and p: "B t = [] \<or> new_node p = new_node (pcs s t) \<and> owned p = owned (pcs s t)"
  shows "msq_rel s' B q'"
proof -
  have "delayed_ok s' (heap q') (pcs s' u) (B u)" for u
    using msq_relD(2) [OF rel, of u] p s' by (auto simp: q' delayed_ok_def)
  moreover have "heap q' a = heap s' a" if "\<And>u. B u \<noteq> [] \<Longrightarrow> owned (pcs s' u) \<noteq> Some a" for a
  proof -
    have "owned (pcs s u) \<noteq> Some a" if "B u \<noteq> []" for u
      using \<open>\<And>u. B u \<noteq> [] \<Longrightarrow> owned (pcs s' u) \<noteq> Some a\<close> [OF that] p s' that by (cases "u = t") auto
    then show ?thesis using msq_relD(3) [OF rel] s' by (simp add: q')
  qed
  ultimately show ?thesis unfolding msq_rel_def by (simp add: q')
qed

lemma go_pcs: "msq_go sp t p s = Some s' \<Longrightarrow> pcs s' = (pcs s)(t := pcs s' t)"
  by (cases p) (auto simp: goto_def deref_def cas_tail_def free_node_def split: option.splits)

lemma msq_load_sim:
  assumes rel: "msq_rel s B q" and inv: "msq_inv q L h t" and ld: "loads (pcs s i)"
    and st: "msq_tso_go sp i (s, B i) = Some (s', b')"
  shows "b' = B i \<and> (\<exists>q'. msq_step False (i, Go sp) q = Some q' \<and> msq_rel s' B q')"
proof -
  obtain v where v: "msq_go sp i (pcs s i) (seen_msq (B i) s) = Some v"
    and s': "s' = s\<lparr>pcs := pcs v, uaf := uaf v, wild := wild v\<rparr>" and b': "b' = B i"
    using st ld by (auto simp: msq_tso_go_def)
  note pcs = rel_pcs [OF rel]
  have acc: "heap q a = heap (seen_msq (B i) s) a" if "accesses (pcs s i) = Some a" for a
    using listed_same(1) [OF rel inv, of a] listed_same(2) [OF rel inv, of a i] accesses_listed [OF inv, of i a] that pcs by (simp add: seen_msq_def)
  have nl: "pcs s i \<noteq> EqLink x n ta nx" for x n ta nx using ld by auto
  have same: "(seen_msq (B i) s)\<lparr>heap := heap q\<rparr> = q" using msq_relD(1) [OF rel] by (simp add: seen_msq_def)
  let ?q = "v\<lparr>heap := heap q\<rparr>"
  have g: "msq_go sp i (pcs s i) q = Some ?q" using go_heap [OF v acc nl] same by simp
  then have sq: "msq_step False (i, Go sp) q = Some ?q" using pcs by simp
  obtain L' h' t' where "msq_inv ?q L' h' t'" using msq_step_keeps [OF inv sq] by (auto simp: keeps_def)
  then have "pcs v i \<noteq> Crashed" by (auto simp: msq_inv_def threads_ok_def dest: spec [of _ i])
  then have nn: "new_node (pcs s i) = Some x \<Longrightarrow> new_node (pcs v i) = Some x" for x using load_node [OF v ld] by blast
  have pv: "pcs v = (pcs s)(i := pcs v i)" using go_pcs [OF v] by (simp add: seen_msq_def)
  have "?q = s'\<lparr>heap := heap q\<rparr>"
    using arg_cong [OF go_load [OF v ld], of "\<lambda>x. x\<lparr>heap := heap q\<rparr>"] by (simp add: s' seen_msq_def)
  then have "msq_rel s' B ?q"
  proof (rule msq_rel_frame [OF rel])
    show "pcs s' = (pcs s)(i := pcs v i)" "heap s' = heap s" using pv by (simp_all add: s')
    show "B i = [] \<or> new_node (pcs v i) = new_node (pcs s i) \<and> owned (pcs v i) = owned (pcs s i)"
      using nn msq_relD(2) [OF rel, of i] new_node_owned by (fastforce simp: delayed_ok_def)
  qed
  then show ?thesis using sq b' by blast
qed

text \<open>The compare-and-swap that links a node: the only one that changes the heap.\<close>

lemma link_cases:
  assumes "msq_go sp t (EqLink v n ta nx) s = Some s'" and "ptr ta = Some a" and "heap s a = Some nd" and "H a = Some nd"
  shows "(\<exists>f. msq_go sp t (EqLink v n ta nx) (s\<lparr>heap := H\<rparr>) = Some (s'\<lparr>heap := H(a \<mapsto> f)\<rparr>) \<and> heap s' = (heap s)(a \<mapsto> f)) \<or>
    msq_go sp t (EqLink v n ta nx) (s\<lparr>heap := H\<rparr>) = Some (s'\<lparr>heap := H\<rparr>) \<and> heap s' = heap s"
proof (cases "nxt nd = nx \<and> \<not> sp")
  case True
  then show ?thesis using assms
    by (intro disjI1 exI [of _ "nd\<lparr>nxt := \<lparr>ptr = Some n, cnt = cnt nx + 1\<rparr>\<rparr>"]) (auto simp: goto_def deref_def)
next
  case False
  then show ?thesis using assms by (intro disjI2) (auto simp: goto_def deref_def)
qed

lemma msq_store_listed:
  assumes rel: "msq_rel s B q" and inv: "msq_inv q L h t" and a: "a \<in> set L" and B: "B i = []"
    and q': "q' = s'\<lparr>heap := (heap q)(a \<mapsto> f)\<rparr>" and s': "pcs s' = (pcs s)(i := p)" "heap s' = (heap s)(a \<mapsto> f)"
  shows "msq_rel s' B q'"
proof -
  have no: "owned (pcs s u) \<noteq> Some a" for u using listed_not_owned [OF inv a, of u] rel_pcs [OF rel] by simp
  have "delayed_ok s' (heap q') (pcs s' u) (B u)" for u
  proof (cases "u = i")
    case False
    have "heap s' n = heap s n \<and> heap q' n = heap q n" if "new_node (pcs s u) = Some (v, n)" for v n
      using no [of u] new_node_owned [OF that] s'(2) by (simp add: q')
    then show ?thesis using delayed_cong [OF msq_relD(2) [OF rel, of u]] False s'(1) by simp
  qed (use B in \<open>simp add: delayed_ok_def\<close>)
  moreover have "heap q' b = heap s' b" if "\<And>u. B u \<noteq> [] \<Longrightarrow> owned (pcs s' u) \<noteq> Some b" for b
  proof (cases "b = a")
    case False
    have "owned (pcs s u) \<noteq> Some b" if "B u \<noteq> []" for u
      using \<open>\<And>u. B u \<noteq> [] \<Longrightarrow> owned (pcs s' u) \<noteq> Some b\<close> [OF that] B s'(1) that by (cases "u = i") auto
    then show ?thesis using msq_relD(3) [OF rel] s'(2) False by (simp add: q')
  qed (simp add: q' s'(2))
  ultimately show ?thesis unfolding msq_rel_def by (simp add: q')
qed

lemma msq_locked_sim:
  assumes rel: "msq_rel s B q" and inv: "msq_inv q L h t" and B: "B i = []"
    and st: "msq_go sp i (pcs s i) s = Some s'"
  shows "\<exists>q'. msq_step False (i, Go sp) q = Some q' \<and> msq_rel s' B q'"
proof -
  note pcs = rel_pcs [OF rel] and q = msq_relD(1) [OF rel]
  have acc: "heap q a = heap s a \<and> a \<in> set L" if "accesses (pcs s i) = Some a" for a
    using listed_same(1) [OF rel inv] accesses_listed [OF inv, of i a] that pcs by simp
  show ?thesis
  proof (cases "\<exists>v n ta nx. pcs s i = EqLink v n ta nx")
    case False
    have g: "msq_go sp i (pcs s i) q = Some (s'\<lparr>heap := heap q\<rparr>)" and h: "heap s' = heap s"
      using go_heap [OF st, of "heap q"] acc False q by auto
    have "msq_rel s' B (s'\<lparr>heap := heap q\<rparr>)"
      by (rule msq_rel_frame [OF rel refl go_pcs [OF st] h]) (use B in simp)
    then show ?thesis using g pcs by auto
  next
    case True
    then obtain v n ta nx where p: "pcs s i = EqLink v n ta nx" by blast
    have "tinv (heap q) (freed q) L h t (pcs q i)" using inv by (simp add: msq_inv_def threads_ok_def)
    then obtain k where k: "at_ix L (ptr ta) k" using pcs p by auto
    obtain nd where nd: "heap q (L ! k) = Some nd" using deref_inv [OF inv k] by blast
    have a: "ptr ta = Some (L ! k)" "L ! k \<in> set L" using k by (auto simp: at_ix_def)
    have hs: "heap s (L ! k) = Some nd" using acc [of "L ! k"] p a nd by simp
    from link_cases [where H = "heap q", OF st [unfolded p] a(1) hs nd] q
    consider f where "msq_go sp i (pcs s i) q = Some (s'\<lparr>heap := (heap q)(L ! k \<mapsto> f)\<rparr>)" "heap s' = (heap s)(L ! k \<mapsto> f)"
      | "msq_go sp i (pcs s i) q = Some (s'\<lparr>heap := heap q\<rparr>)" "heap s' = heap s"
      unfolding p by metis
    then show ?thesis
    proof cases
      case 1
      then show ?thesis using msq_store_listed [OF rel inv a(2) B refl go_pcs [OF st] 1(2)] pcs by auto
    next
      case 2
      have "msq_rel s' B (s'\<lparr>heap := heap q\<rparr>)"
        by (rule msq_rel_frame [OF rel refl go_pcs [OF st] 2(2)]) (use B in simp)
      then show ?thesis using 2 pcs by auto
    qed
  qed
qed

section \<open>Every step\<close>

text \<open>Calls and returns.\<close>

lemma msq_call_frame:
  assumes st: "msq_step False (i, a) s = Some s'" and "\<nexists>sp. a = Go sp" and "\<And>n. a \<noteq> Malloc (Some n)"
  shows "new_node (pcs s i) = None" "pcs s' = (pcs s)(i := pcs s' i)" "heap s' = heap s"
    "msq_step False (i, a) (s\<lparr>heap := H\<rparr>) = Some (s'\<lparr>heap := H\<rparr>)"
proof -
  have "a = Malloc None \<or> a = Dequeue \<or> a = Return \<or> (\<exists>v. a = Enqueue v)" using assms(2,3) by (cases a) auto
  then show "new_node (pcs s i) = None" "pcs s' = (pcs s)(i := pcs s' i)" "heap s' = heap s"
    "msq_step False (i, a) (s\<lparr>heap := H\<rparr>) = Some (s'\<lparr>heap := H\<rparr>)"
    using st by (auto simp: goto_def log_ev_def split: if_splits pc.splits)
qed

lemma msq_act_sim:
  assumes rel: "msq_rel (qmem S) (qbufs S) q" and inv: "msq_inv q L h t" and st: "msq_tso_step False (i, QAct a) S = Some S'"
  shows "\<exists>q'. (q' = q \<or> (\<exists>a. msq_step False (i, a) q = Some q')) \<and> msq_rel (qmem S') (qbufs S') q'"
proof -
  let ?s = "qmem S" and ?B = "qbufs S"
  note pcs = rel_pcs [OF rel] and q = msq_relD(1) [OF rel] and ok = msq_relD(2) [OF rel, of i]
  show ?thesis
  proof (cases "\<exists>sp. a = Go sp")
    case True
    then obtain sp s' b' where a: "a = Go sp" and g: "msq_tso_go sp i (?s, ?B i) = Some (s', b')"
      and S': "S' = S\<lparr>qmem := s', qbufs := ?B(i := b')\<rparr>"
      using st by (auto split: option.splits)
    have "b' = ?B i \<and> (\<exists>q'. msq_step False (i, Go sp) q = Some q' \<and> msq_rel s' ?B q')"
    proof (cases "loads (pcs ?s i)")
      case True
      then show ?thesis using msq_load_sim [OF rel inv _ g] by blast
    next
      case False
      then have d: "msq_go sp i (pcs ?s i) ?s = Some s'" "b' = ?B i" and l: "locked (pcs ?s i) \<Longrightarrow> ?B i = []"
        using g by (auto simp: msq_tso_go_def split: if_splits)
      have "?B i = []" using d(1) l False ok by (cases "pcs ?s i") (auto simp: delayed_ok_def)
      then show ?thesis using msq_locked_sim [OF rel inv _ d(1)] d(2) by blast
    qed
    moreover from this have "msq_rel (qmem S') (qbufs S') q' = msq_rel s' ?B q'" for q' using S' by simp
    ultimately show ?thesis by blast
  next
    case no: False
    have na: "\<And>n. a \<noteq> Malloc (Some n)" using st by auto
    have "msq_tso_step False (i, QAct a) S = map_option (\<lambda>s. S\<lparr>qmem := s\<rparr>) (msq_step False (i, a) ?s)"
    proof (cases a)
      case (Malloc x)
      then show ?thesis using na by (cases x) auto
    qed (use no in auto)
    then obtain s' where s': "msq_step False (i, a) ?s = Some s'" "S' = S\<lparr>qmem := s'\<rparr>" using st by (cases "msq_step False (i, a) ?s") auto
    note pc = msq_call_frame [OF s'(1) no na]
    have B: "?B i = []" using ok pc(1) by (auto simp: delayed_ok_def)
    have "msq_rel s' ?B (s'\<lparr>heap := heap q\<rparr>)"
      by (rule msq_rel_frame [OF rel refl pc(2,3)]) (use B in simp)
    then show ?thesis using pc(4) [of "heap q"] q s'(2) by auto
  qed
qed

lemma msq_node_sim:
  assumes rel: "msq_rel (qmem S) (qbufs S) q" and inv: "msq_inv q L h t" and st: "msq_tso_step False (i, QNode n junk) S = Some S'"
  shows "\<exists>q'. (q' = q \<or> (\<exists>a. msq_step False (i, a) q = Some q')) \<and> msq_rel (qmem S') (qbufs S') q'"
proof -
  let ?s = "qmem S" and ?B = "qbufs S"
  note pcs = rel_pcs [OF rel] and q = msq_relD(1) [OF rel] and ok = msq_relD(2) [OF rel, of i]
  then obtain v where p: "pcs ?s i = EqNew v" and m: "may_alloc False ?s n"
    and S': "S' = S\<lparr>qmem := goto i (EqTail v n) (?s\<lparr>heap := (heap ?s)(n \<mapsto> junk), freed := freed ?s - {n}\<rparr>),
       qbufs := ?B(i := ?B i @ [StValue n v, StNext n null_tag])\<rparr>"
    using st by (auto simp: Let_def split: pc.splits if_splits)
  have B: "?B i = []" using ok p by (simp add: delayed_ok_def)
  have hn: "heap ?s n = None" using m by (simp add: may_alloc_def)
  have no: "owned (pcs ?s u) \<noteq> Some n" if "?B u \<noteq> []" for u
    using delayed_node [OF msq_relD(2) [OF rel] that] hn new_node_owned by fastforce
  then have hq: "heap q n = None" using msq_relD(3) [OF rel] hn by simp
  let ?q = "goto i (EqTail v n) (q\<lparr>heap := (heap q)(n \<mapsto> node_new v), freed := freed q - {n}\<rparr>)"
  have sq: "msq_step False (i, Malloc (Some n)) q = Some ?q" using p pcs hq by (simp add: may_alloc_def)
  have "msq_rel (qmem S') (qbufs S') ?q"
    unfolding msq_rel_def
  proof (intro conjI allI impI)
    obtain H where "q = ?s\<lparr>heap := H\<rparr>" using q by blast
    then show "?q = (qmem S')\<lparr>heap := heap ?q\<rparr>" by (simp add: S' goto_def)
    show "delayed_ok (qmem S') (heap ?q) (pcs (qmem S') u) (qbufs S' u)" for u
    proof (cases "u = i")
      case True
      then show ?thesis using B by (simp add: S' goto_def delayed_ok_def)
    next
      case False
      have "m \<noteq> n" if "?B u \<noteq> []" "new_node (pcs ?s u) = Some (x, m)" for x m
        using no [OF that(1)] new_node_owned [OF that(2)] by auto
      then have "delayed_ok (qmem S') (heap ?q) (pcs ?s u) (?B u)"
        by (intro delayed_cong [OF msq_relD(2) [OF rel, of u]]) (simp add: S' goto_def)
      then show ?thesis using False by (simp add: S' goto_def)
    qed
    show "heap ?q a = heap (qmem S') a" if "\<forall>u. qbufs S' u \<noteq> [] \<longrightarrow> owned (pcs (qmem S') u) \<noteq> Some a" for a
    proof -
      have "a \<noteq> n" using that [rule_format, of i] by (simp add: S' goto_def)
      moreover have "owned (pcs ?s u) \<noteq> Some a" if "?B u \<noteq> []" for u
        using \<open>\<forall>u. qbufs S' u \<noteq> [] \<longrightarrow> owned (pcs (qmem S') u) \<noteq> Some a\<close> [rule_format, of u] that B by (cases "u = i") (auto simp: S' goto_def)
      ultimately show ?thesis using msq_relD(3) [OF rel] by (simp add: S' goto_def)
    qed
  qed
  then show ?thesis using sq by blast
qed

lemma msq_commit_sim:
  assumes rel: "msq_rel (qmem S) (qbufs S) q" and inv: "msq_inv q L h t" and st: "msq_tso_step False (i, QCommit) S = Some S'"
  shows "\<exists>q'. (q' = q \<or> (\<exists>a. msq_step False (i, a) q = Some q')) \<and> msq_rel (qmem S') (qbufs S') q'"
proof -
  let ?s = "qmem S" and ?B = "qbufs S"
  note pcs = rel_pcs [OF rel] and q = msq_relD(1) [OF rel] and ok = msq_relD(2) [OF rel, of i]
  then obtain w b where w: "?B i = w # b" and S': "S' = S\<lparr>qmem := ?s\<lparr>heap := node_effect w (heap ?s)\<rparr>, qbufs := ?B(i := b)\<rparr>"
    using st by (auto split: list.splits)
  obtain v n nd where n: "new_node (pcs ?s i) = Some (v, n)" "heap ?s n = Some nd" "heap q n = Some (node_new v)"
    "w = StValue n v \<and> b = [StNext n null_tag] \<or> nvalue nd = v \<and> w = StNext n null_tag \<and> b = []"
    using ok w by (auto simp: delayed_ok_def)
  have own: "owned (pcs ?s i) = Some n" using new_node_owned [OF n(1)] .
  have "separate (\<lambda>u. owned (pcs ?s u))" using inv pcs by (simp add: msq_inv_def threads_ok_def)
  then have sole: "owned (pcs ?s u) \<noteq> Some n" if "u \<noteq> i" for u using owned_other [of "\<lambda>u. owned (pcs ?s u)" i n u] own that by simp
  obtain nd' where e: "node_effect w (heap ?s) = (heap ?s)(n \<mapsto> nd')" "nvalue nd' = v" "b = [] \<Longrightarrow> nd' = node_new v"
  proof (cases "b = []")
    case True
    then have "nvalue nd = v" "w = StNext n null_tag" using n(4) by auto
    moreover have "nd\<lparr>nxt := null_tag\<rparr> = node_new (nvalue nd)" by (cases nd) (simp add: node_new_def)
    ultimately have "node_effect w (heap ?s) = (heap ?s)(n \<mapsto> node_new v)" using n(2) by (simp add: write_node_def)
    then show ?thesis using that [of "node_new v"] by (simp add: node_new_def)
  next
    case False
    then show ?thesis using n that [of "nd\<lparr>nvalue := v\<rparr>"] by (auto simp: write_node_def)
  qed
  have "msq_rel (qmem S') (qbufs S') q"
    unfolding msq_rel_def
  proof (intro conjI allI impI)
    show "q = (qmem S')\<lparr>heap := heap q\<rparr>" using q by (simp add: S')
    show "delayed_ok (qmem S') (heap q) (pcs (qmem S') u) (qbufs S' u)" for u
    proof (cases "u = i")
      case True
      then show ?thesis using n e by (auto simp: S' delayed_ok_def)
    next
      case False
      have "m \<noteq> n" if "new_node (pcs ?s u) = Some (x, m)" for x m using sole [OF False] new_node_owned [OF that] by auto
      then have "delayed_ok (qmem S') (heap q) (pcs ?s u) (?B u)"
        by (intro delayed_cong [OF msq_relD(2) [OF rel, of u]]) (simp add: S' e(1))
      then show ?thesis using False by (simp add: S')
    qed
    show "heap q a = heap (qmem S') a" if "\<forall>u. qbufs S' u \<noteq> [] \<longrightarrow> owned (pcs (qmem S') u) \<noteq> Some a" for a
    proof (cases "a = n")
      case True
      then have "b = []" using that [rule_format, of i] own by (auto simp: S')
      then show ?thesis using True e n(3) by (simp add: S')
    next
      case False
      have "owned (pcs ?s u) \<noteq> Some a" if "?B u \<noteq> []" for u
        using \<open>\<forall>u. qbufs S' u \<noteq> [] \<longrightarrow> owned (pcs (qmem S') u) \<noteq> Some a\<close> [rule_format, of u] that False own by (cases "u = i") (auto simp: S')
      then show ?thesis using msq_relD(3) [OF rel] False e(1) by (simp add: S')
    qed
  qed
  then show ?thesis by blast
qed

lemma msq_tso_sim:
  assumes "msq_rel (qmem S) (qbufs S) q" and "msq_inv q L h t" and "msq_tso_step False (i, c) S = Some S'"
  shows "\<exists>q'. (q' = q \<or> (\<exists>a. msq_step False (i, a) q = Some q')) \<and> msq_rel (qmem S') (qbufs S') q'"
proof (cases c)
  case (QAct a)
  then show ?thesis using msq_act_sim [OF assms(1,2)] assms(3) by blast
next
  case (QNode n junk)
  then show ?thesis using msq_node_sim [OF assms(1,2)] assms(3) by blast
next
  case QCommit
  then show ?thesis using msq_commit_sim [OF assms(1,2)] assms(3) by blast
qed

interpretation ms_tso: forward_simulation msq_tso_init "step_of (msq_tso_step False)" msq_init "step_of (msq_step False)"
  "\<lambda>S. msq_rel (qmem S) (qbufs S)"
proof
  show "\<exists>q. msq_init q \<and> msq_rel (qmem S) (qbufs S) q" if "msq_tso_init S" for S
    using that by (intro exI [of _ "qmem S"]) (simp add: msq_tso_init_def msq_rel_def delayed_ok_def)
next
  fix S q S'
  assume rel: "msq_rel (qmem S) (qbufs S) q" and reach: "msq_reach False q" and st: "step_of (msq_tso_step False) S S'"
  obtain L h t where inv: "msq_inv q L h t" using ms.reach_inv [OF reach] by blast
  obtain i c where "msq_tso_step False (i, c) S = Some S'" using st by (auto simp: step_of_def)
  from msq_tso_sim [OF rel inv this] show "\<exists>q'. (step_of (msq_step False) q q' \<or> q' = q) \<and> msq_rel (qmem S') (qbufs S') q'"
    unfolding step_of_def by blast
qed

abbreviation msq_tso_reach :: "tmsq \<Rightarrow> bool" where
  "msq_tso_reach \<equiv> reach msq_tso_init (step_of (msq_tso_step False))"

section \<open>The list in memory\<close>

lemma chain_cong: "(\<And>a. a \<in> set ns \<Longrightarrow> hp' a = hp a) \<Longrightarrow> is_chain hp p ns = is_chain hp' p ns"
  by (induction ns arbitrary: p) auto

lemma queue_of_same:
  assumes rel: "msq_rel s B q" and inv: "msq_inv q L h t" and vs: "queue_of q vs"
  shows "queue_of s vs"
proof -
  note sh = inv_parts(1) [OF inv]
  then have h: "h < length L" "ptr (qhead q) = Some (L ! h)" by (simp_all add: shared_ok_def at_ix_def)
  obtain d ns where c: "is_chain (heap q) (ptr (qhead q)) (d # ns)" "vs = map (nval (heap q)) ns"
    using vs by (auto simp: queue_of_def)
  have "d # ns = drop h L" by (rule is_chain_unique [OF c(1)]) (use chain_drop [OF sh h(1)] h(2) in simp)
  then have sub: "a \<in> set (d # ns) \<Longrightarrow> a \<in> set L" for a by (metis in_set_dropD)
  then have eq: "heap q a = heap s a" if "a \<in> set (d # ns)" for a using listed_same(1) [OF rel inv] that by blast
  have "qhead q = qhead s" using arg_cong [OF msq_relD(1) [OF rel], of qhead] by simp
  moreover have "is_chain (heap s) p (d # ns) = is_chain (heap q) p (d # ns)" for p by (rule chain_cong) (rule eq)
  ultimately have "is_chain (heap s) (ptr (qhead s)) (d # ns)" using c(1) by (simp only:)
  moreover have "vs = map (nval (heap s)) ns" using c(2) eq by (simp add: nval_def)
  ultimately show ?thesis unfolding queue_of_def by blast
qed

section \<open>The property\<close>

text \<open>C13: The lock-free queue on a machine with store buffers. Although a new node is linked by a
  thread whose stores to it may have been delayed, every history of calls and returns is one of the abstract queue, the list
  in memory holds exactly its elements, and no thread ever follows NULL or frees a node twice
  (when \<open>malloc\<close> does not hand out the address of a freed node).\<close>

theorem msq_tso_refines_fifo:
  assumes "msq_tso_reach S"
  shows "\<exists>A. reach fifo_init fifo_step A \<and> ahist A = hist (qmem S) \<and> queue_of (qmem S) (items A) \<and>
    \<not> wild (qmem S) \<and> \<not> dfree (qmem S)"
proof -
  obtain q where q: "msq_reach False q" "msq_rel (qmem S) (qbufs S) q" using ms_tso.reach_related [OF assms] by blast
  obtain L h t where inv: "msq_inv q L h t" using ms.reach_inv [OF q(1)] by blast
  have "queue_of q (items (msq_abs q))" using inv_queue_of [OF inv] by (simp add: msq_abs_eq [OF inv] abs_of_def)
  then have "queue_of (qmem S) (items (msq_abs q))" by (rule queue_of_same [OF q(2) inv])
  moreover have "hist q = hist (qmem S)" "wild q = wild (qmem S)" "dfree q = dfree (qmem S)"
    using arg_cong [OF msq_relD(1) [OF q(2)], of hist] arg_cong [OF msq_relD(1) [OF q(2)], of wild]
      arg_cong [OF msq_relD(1) [OF q(2)], of dfree] by simp_all
  moreover have "ahist (msq_abs q) = hist q" by (simp add: msq_abs_def)
  ultimately show ?thesis using ms.reach_abs [OF q(1)] inv_parts(6,7) [OF inv] by metis
qed

text \<open>The run of the witness: the node is linked after its two stores have reached memory.\<close>

definition tso_run :: "(tid \<times> tq_act) list" where
  "tso_run = [(1, QAct (Enqueue 7)), (1, QNode 1 \<lparr>nvalue = 3, nxt = \<lparr>ptr = Some 9, cnt = 5\<rparr>\<rparr>)] @ replicate 3 (1, QAct (Go False)) @
     replicate 2 (1, QCommit) @ replicate 2 (1, QAct (Go False)) @ [(1, QAct Return), (2, QAct Dequeue)] @
     replicate 7 (2, QAct (Go False)) @ [(2, QAct Return)]"

lemma tso_run_result:
  "map_option (\<lambda>S. hist (qmem S)) (exec (msq_tso_step False) \<lparr>qmem = msq_start, qbufs = (\<lambda>_. [])\<rparr> tso_run) =
     Some [CallEnq 1 7, RetEnq 1 True, CallDeq 2, RetDeq 2 (Some 7)]"
  by code_simp

theorem msq_tso_refines_fifo_witness:
  "\<exists>S A. msq_tso_reach S \<and> reach fifo_init fifo_step A \<and>
     ahist A = [CallEnq 1 7, RetEnq 1 True, CallDeq 2, RetDeq 2 (Some 7)] \<and> queue_of (qmem S) (items A)"
proof -
  obtain S where S: "exec (msq_tso_step False) \<lparr>qmem = msq_start, qbufs = (\<lambda>_. [])\<rparr> tso_run = Some S"
    "hist (qmem S) = [CallEnq 1 7, RetEnq 1 True, CallDeq 2, RetDeq 2 (Some 7)]"
    using tso_run_result by auto
  have "msq_tso_reach S" by (rule exec_from_init [OF _ S(1)]) (simp add: msq_tso_init_def msq_init_start)
  from msq_tso_refines_fifo [OF this] this S(2) show ?thesis by auto
qed

end
