(* ===== verification/Handshake.thy ===== *)
theory Handshake
  imports Prelude
begin

text \<open>
  The model checker of \<open>week4/model/handshake.c\<close>: one reader and one writer of the RCU protocol, explored
  over every interleaving on three memory models (sequential, x86-64 TSO, arm64), with the memory
  ordering of each access read from \<open>src/orders.h\<close>. The C program recurses and counts in globals; here the
  counters are passed along, and the recursion carries fuel, of which 17 is proved to be enough.
\<close>

section \<open>Orderings\<close>

datatype ord = RELAXED | ACQUIRE | RELEASE | SEQCST

text \<open>The numbering of the C enumeration gives the orderings a linear order.\<close>

fun ord_num :: "ord \<Rightarrow> nat" where
  "ord_num RELAXED = 0" | "ord_num ACQUIRE = 1" | "ord_num RELEASE = 2" | "ord_num SEQCST = 3"

lemma ord_num_inj: "ord_num a = ord_num b \<Longrightarrow> a = b"
  by (cases a; cases b) auto

instantiation ord :: linorder
begin

definition less_eq_ord :: "ord \<Rightarrow> ord \<Rightarrow> bool" where
  "less_eq_ord a b \<longleftrightarrow> ord_num a \<le> ord_num b"

definition less_ord :: "ord \<Rightarrow> ord \<Rightarrow> bool" where
  "less_ord a b \<longleftrightarrow> ord_num a < ord_num b"

instance
  by standard (auto simp: less_eq_ord_def less_ord_def dest: ord_num_inj)

end

text \<open>The sites that take an ordering; three are stores.\<close>

datatype site = S_ANNOUNCE | S_DEREF | S_EXIT | S_PUBLISH | S_SCAN

abbreviation all_sites :: "site list" where
  "all_sites \<equiv> [S_ANNOUNCE, S_DEREF, S_EXIT, S_PUBLISH, S_SCAN]"

fun site_is_store :: "site \<Rightarrow> bool" where
  "site_is_store S_DEREF = False"
| "site_is_store S_SCAN = False"
| "site_is_store _ = True"

record orders =
  announce :: ord
  deref_ord :: ord
  exit_ord :: ord
  publish :: ord
  scan :: ord

fun order_at :: "orders \<Rightarrow> site \<Rightarrow> ord" where
  "order_at os S_ANNOUNCE = announce os"
| "order_at os S_DEREF = deref_ord os"
| "order_at os S_EXIT = exit_ord os"
| "order_at os S_PUBLISH = publish os"
| "order_at os S_SCAN = scan os"

fun set_order :: "site \<Rightarrow> ord \<Rightarrow> orders \<Rightarrow> orders" where
  "set_order S_ANNOUNCE v os = os\<lparr>announce := v\<rparr>"
| "set_order S_DEREF v os = os\<lparr>deref_ord := v\<rparr>"
| "set_order S_EXIT v os = os\<lparr>exit_ord := v\<rparr>"
| "set_order S_PUBLISH v os = os\<lparr>publish := v\<rparr>"
| "set_order S_SCAN v os = os\<lparr>scan := v\<rparr>"

text \<open>C's \<open>memory_order\<close>, and \<open>from_c\<close>; \<open>orders.h\<close> as it stands.\<close>

datatype memory_order = mo_relaxed | mo_consume | mo_acquire | mo_release | mo_acq_rel | mo_seq_cst

definition from_c :: "memory_order \<Rightarrow> ord" where
  "from_c m = (if m = mo_seq_cst then SEQCST else if m = mo_release then RELEASE
     else if m = mo_acquire then ACQUIRE else RELAXED)"

definition orders_h :: orders where
  "orders_h = \<lparr>announce = from_c mo_seq_cst, deref_ord = from_c mo_seq_cst, exit_ord = from_c mo_release,
     publish = from_c mo_seq_cst, scan = from_c mo_seq_cst\<rparr>"

section \<open>The machine\<close>

datatype model = M_SC | M_TSO | M_ARM

abbreviation HEAD :: nat where "HEAD \<equiv> 0"
abbreviation SEQ :: nat where "SEQ \<equiv> 1"
abbreviation OLD :: int where "OLD \<equiv> 1"
abbreviation NEW :: int where "NEW \<equiv> 2"
abbreviation R :: nat where "R \<equiv> 0"
abbreviation W :: nat where "W \<equiv> 1"
abbreviation MAXBUF :: nat where "MAXBUF \<equiv> 4"
abbreviation MAXTRACE :: nat where "MAXTRACE \<equiv> 24"

record entry =
  e_var :: nat
  e_val :: int
  e_stlr :: bool

text \<open>The lines of the trace.\<close>

datatype trace_line =
    NStore nat site nat int bool
  | NDeref int
  | NUse bool int
  | NScan int
  | NWait int
  | NFree
  | NCommit nat nat int

record hstate =
  mem :: "int list"
  buf :: "entry list list"
  hpc :: "nat list"
  p_seen :: int
  snap :: int
  h_freed :: bool
  h_uaf :: bool
  trace :: "trace_line list"

definition hs_start :: hstate where
  "hs_start = \<lparr>mem = [OLD, 0], buf = [[], []], hpc = [0, 0], p_seen = 0, snap = 0, h_freed = False,
     h_uaf = False, trace = []\<rparr>"

definition add_note :: "trace_line \<Rightarrow> hstate \<Rightarrow> hstate" where
  "add_note n s = (if length (trace s) \<ge> MAXTRACE then s else s\<lparr>trace := trace s @ [n]\<rparr>)"

text \<open>The newest entry of a buffer for a variable.\<close>

fun newest :: "nat \<Rightarrow> entry list \<Rightarrow> int option" where
  "newest v [] = None"
| "newest v (e # es) = (case newest v es of Some x \<Rightarrow> Some x
     | None \<Rightarrow> if e_var e = v then Some (e_val e) else None)"

definition read_var :: "model \<Rightarrow> hstate \<Rightarrow> nat \<Rightarrow> nat \<Rightarrow> int" where
  "read_var m s t v = (case (if m \<noteq> M_SC then newest v (buf s ! t) else None) of
     Some x \<Rightarrow> x | None \<Rightarrow> mem s ! v)"

definition load_enabled :: "model \<Rightarrow> orders \<Rightarrow> hstate \<Rightarrow> nat \<Rightarrow> site \<Rightarrow> bool" where
  "load_enabled m os s t site =
     (if m = M_ARM \<and> order_at os site = SEQCST then list_all (\<lambda>e. \<not> e_stlr e) (buf s ! t) else True)"

definition store_enabled :: "model \<Rightarrow> orders \<Rightarrow> hstate \<Rightarrow> nat \<Rightarrow> site \<Rightarrow> bool" where
  "store_enabled m os s t site =
     (if m = M_TSO \<and> order_at os site = SEQCST then buf s ! t = [] else True)"

definition goes_direct :: "model \<Rightarrow> orders \<Rightarrow> site \<Rightarrow> bool" where
  "goes_direct m os site \<longleftrightarrow> m = M_SC \<or> m = M_TSO \<and> order_at os site = SEQCST"

definition do_store :: "model \<Rightarrow> orders \<Rightarrow> nat \<Rightarrow> site \<Rightarrow> nat \<Rightarrow> int \<Rightarrow> hstate \<Rightarrow> hstate" where
  "do_store m os t site v x s =
     (if goes_direct m os site then s\<lparr>mem := (mem s)[v := x]\<rparr>
      else s\<lparr>buf := (buf s)[t := buf s ! t @
        [\<lparr>e_var = v, e_val = x, e_stlr = (m = M_ARM \<and> order_at os site \<noteq> RELAXED)\<rparr>]]\<rparr>)"

definition flush_enabled :: "model \<Rightarrow> hstate \<Rightarrow> nat \<Rightarrow> nat \<Rightarrow> bool" where
  "flush_enabled m s t i =
     (if m = M_TSO then i = 0
      else list_all (\<lambda>e. e_var e \<noteq> e_var (buf s ! t ! i) \<and> \<not> e_stlr (buf s ! t ! i)) (take i (buf s ! t)))"

definition set_pc :: "nat \<Rightarrow> nat \<Rightarrow> hstate \<Rightarrow> hstate" where
  "set_pc t k s = s\<lparr>hpc := (hpc s)[t := k]\<rparr>"

section \<open>The moves, in the order in which they are explored\<close>

definition step_store :: "model \<Rightarrow> orders \<Rightarrow> hstate \<Rightarrow> nat \<Rightarrow> site \<Rightarrow> nat \<Rightarrow> int \<Rightarrow> nat \<Rightarrow> hstate list" where
  "step_store m os s t site v x next_pc =
     (if store_enabled m os s t site
      then [set_pc t next_pc (add_note (NStore t site v x (goes_direct m os site)) (do_store m os t site v x s))]
      else [])"

definition reader_moves :: "model \<Rightarrow> orders \<Rightarrow> hstate \<Rightarrow> hstate list" where
  "reader_moves m os s =
     (let pc = hpc s ! R in
      if pc = 0 then step_store m os s R S_ANNOUNCE SEQ 1 1
      else if pc = 1 then
        (if load_enabled m os s R S_DEREF
         then let x = read_var m s R HEAD in [set_pc R 2 (add_note (NDeref x) (s\<lparr>p_seen := x\<rparr>))] else [])
      else if pc = 2 then
        (if p_seen s = OLD \<and> h_freed s
         then [set_pc R 3 (add_note (NUse True (p_seen s)) (s\<lparr>h_uaf := True\<rparr>))]
         else [set_pc R 3 (add_note (NUse False (p_seen s)) s)])
      else if pc = 3 then step_store m os s R S_EXIT SEQ 2 4
      else [])"

definition writer_moves :: "model \<Rightarrow> orders \<Rightarrow> hstate \<Rightarrow> hstate list" where
  "writer_moves m os s =
     (let pc = hpc s ! W in
      if pc = 0 then step_store m os s W S_PUBLISH HEAD NEW 1
      else if pc = 1 then
        (if load_enabled m os s W S_SCAN
         then let x = read_var m s W SEQ in
              [set_pc W (if x mod 2 \<noteq> 0 then 2 else 3) (add_note (NScan x) (s\<lparr>snap := x\<rparr>))] else [])
      else if pc = 2 then
        (if load_enabled m os s W S_SCAN \<and> read_var m s W SEQ \<noteq> snap s
         then [set_pc W 3 (add_note (NWait (read_var m s W SEQ)) s)] else [])
      else if pc = 3 then [set_pc W 4 (add_note NFree (s\<lparr>h_freed := True\<rparr>))]
      else [])"

definition commit :: "nat \<Rightarrow> nat \<Rightarrow> hstate \<Rightarrow> hstate" where
  "commit t i s =
     (let e = buf s ! t ! i in
      add_note (NCommit t (e_var e) (e_val e))
        (s\<lparr>mem := (mem s)[e_var e := e_val e],
           buf := (buf s)[t := take i (buf s ! t) @ drop (Suc i) (buf s ! t)]\<rparr>))"

definition flush_moves :: "model \<Rightarrow> hstate \<Rightarrow> nat \<Rightarrow> hstate list" where
  "flush_moves m s t =
     map (\<lambda>i. commit t i s) (filter (flush_enabled m s t) [0..<length (buf s ! t)])"

definition successors :: "model \<Rightarrow> orders \<Rightarrow> hstate \<Rightarrow> hstate list" where
  "successors m os s = reader_moves m os s @ writer_moves m os s @ flush_moves m s R @ flush_moves m s W"

section \<open>The exploration\<close>

record counters =
  n_exec :: nat
  n_uaf :: nat
  n_stuck :: nat
  first_uaf :: "hstate option"

definition counters_start :: counters where
  "counters_start = \<lparr>n_exec = 0, n_uaf = 0, n_stuck = 0, first_uaf = None\<rparr>"

definition complete :: "hstate \<Rightarrow> bool" where
  "complete s \<longleftrightarrow> hpc s ! R = 4 \<and> hpc s ! W = 4 \<and> buf s ! R = [] \<and> buf s ! W = []"

definition ended :: "hstate \<Rightarrow> counters \<Rightarrow> counters" where
  "ended s g =
     (if complete s then
        (let g = g\<lparr>n_exec := n_exec g + 1\<rparr> in
         if h_uaf s then
           (let first = (n_uaf g = 0); g = g\<lparr>n_uaf := n_uaf g + 1\<rparr> in
            if first then g\<lparr>first_uaf := Some s\<rparr> else g)
         else g)
      else g\<lparr>n_stuck := n_stuck g + 1\<rparr>)"

fun explore :: "nat \<Rightarrow> model \<Rightarrow> orders \<Rightarrow> hstate \<Rightarrow> counters \<Rightarrow> counters option"
  and explore_all :: "nat \<Rightarrow> model \<Rightarrow> orders \<Rightarrow> hstate list \<Rightarrow> counters \<Rightarrow> counters option" where
  "explore 0 m os s g = None"
| "explore (Suc fuel) m os s g =
     (case explore_all fuel m os (successors m os s) g of
        None \<Rightarrow> None
      | Some g' \<Rightarrow> Some (if n_exec g' + n_stuck g' \<noteq> n_exec g + n_stuck g then g' else ended s g'))"
| "explore_all fuel m os [] g = Some g"
| "explore_all fuel m os (s # ss) g =
     (case explore fuel m os s g of None \<Rightarrow> None | Some g' \<Rightarrow> explore_all fuel m os ss g')"

definition check_model :: "model \<Rightarrow> orders \<Rightarrow> counters option" where
  "check_model m os = explore 17 m os hs_start counters_start"

section \<open>The command line\<close>

definition parse_order :: "string \<Rightarrow> ord option" where
  "parse_order s = (if s = ''relaxed'' then Some RELAXED else if s = ''acquire'' then Some ACQUIRE
     else if s = ''release'' then Some RELEASE else if s = ''seq_cst'' then Some SEQCST else None)"

fun site_name :: "site \<Rightarrow> string" where
  "site_name S_ANNOUNCE = ''announce''"
| "site_name S_DEREF = ''deref''"
| "site_name S_EXIT = ''exit''"
| "site_name S_PUBLISH = ''publish''"
| "site_name S_SCAN = ''scan''"

definition parse_site :: "string \<Rightarrow> site option" where
  "parse_site a = find (\<lambda>k. a = ''--'' @ site_name k) all_sites"

text \<open>The loop over the arguments; \<open>None\<close> is the usage message and exit status 2.\<close>

fun parse_args :: "string list \<Rightarrow> bool \<Rightarrow> orders \<Rightarrow> (bool \<times> orders) option" where
  "parse_args [] tr os = Some (tr, os)"
| "parse_args (a # as) tr os =
     (if a = ''--trace'' then parse_args as True os
      else case as of
        [] \<Rightarrow> None
      | v # rest \<Rightarrow> (case (parse_site a, parse_order v) of
          (Some k, Some x) \<Rightarrow> parse_args rest tr (set_order k x os)
        | _ \<Rightarrow> None))"

definition valid_orders :: "orders \<Rightarrow> bool" where
  "valid_orders os \<longleftrightarrow> list_all (\<lambda>k.
     \<not> (site_is_store k \<and> order_at os k = ACQUIRE) \<and> \<not> (\<not> site_is_store k \<and> order_at os k = RELEASE)) all_sites"

text \<open>
  The program: the exit status and, when it is 0, the counters of the three models, in order, with
  \<open>trace\<close> and whether any model is unsafe.
\<close>

definition handshake_main :: "string list \<Rightarrow> int \<times> (bool \<times> bool \<times> counters list) option" where
  "handshake_main args =
     (case parse_args args False orders_h of
        None \<Rightarrow> (2, None)
      | Some (tr, os) \<Rightarrow>
          if \<not> valid_orders os then (2, None)
          else (case (check_model M_SC os, check_model M_TSO os, check_model M_ARM os) of
              (Some a, Some b, Some c) \<Rightarrow> (0, Some (tr, list_ex (\<lambda>g. n_uaf g > 0) [a, b, c], [a, b, c]))
            | _ \<Rightarrow> (0, None)))"

end
