(* ===== verification/Handshake_Explore.thy ===== *)
theory Handshake_Explore
  imports Handshake
begin

text \<open>
  The recursion of the model checker against the step relation it explores: the fuel suffices, the
  buffers and the trace never overflow, no execution gets stuck, and the counters count exactly the
  complete executions and those that use the freed version.
\<close>

definition hs_step :: "model \<Rightarrow> orders \<Rightarrow> hstate \<Rightarrow> hstate \<Rightarrow> bool" where
  "hs_step m os s t \<longleftrightarrow> t \<in> set (successors m os s)"

abbreviation hs_reach :: "model \<Rightarrow> orders \<Rightarrow> hstate \<Rightarrow> bool" where
  "hs_reach m os \<equiv> reach (\<lambda>s. s = hs_start) (hs_step m os)"

section \<open>The shape of the states\<close>

text \<open>
  The reader stores 1 and then 2 to \<open>seq\<close>; what is not in memory yet is in its buffer, in order. The
  writer's buffer holds at most its one store to \<open>head\<close>.
\<close>

definition nstores :: "nat \<Rightarrow> nat" where
  "nstores pc = (if pc = 0 then 0 else if pc < 4 then 1 else 2)"

abbreviation key :: "entry \<Rightarrow> nat \<times> int" where
  "key e \<equiv> (e_var e, e_val e)"

definition seq_shape :: "nat \<Rightarrow> entry list \<Rightarrow> int \<Rightarrow> bool" where
  "seq_shape pc es x \<longleftrightarrow> (\<exists>k\<le>nstores pc. x = int k \<and>
     map key es = map (\<lambda>i. (SEQ, int i)) [Suc k ..< Suc (nstores pc)])"

definition head_shape :: "nat \<Rightarrow> entry list \<Rightarrow> bool" where
  "head_shape pc es \<longleftrightarrow> es = [] \<or> 0 < pc \<and> map key es = [(HEAD, NEW)]"

definition hs_inv :: "model \<Rightarrow> hstate \<Rightarrow> bool" where
  "hs_inv m s \<longleftrightarrow> (\<exists>h q b0 b1 r w. mem s = [h, q] \<and> buf s = [b0, b1] \<and> hpc s = [r, w] \<and> r \<le> 4 \<and> w \<le> 4 \<and>
     seq_shape r b0 q \<and> head_shape w b1 \<and> (w = 2 \<longrightarrow> odd (snap s)) \<and> (m = M_SC \<longrightarrow> b0 = [] \<and> b1 = []))"

text \<open>How far a state is from the end; every move comes closer, and notes at most one line.\<close>

definition hs_left :: "hstate \<Rightarrow> nat" where
  "hs_left s = 2 * (4 - hpc s ! R) + length (buf s ! R) + (2 * (4 - hpc s ! W) + length (buf s ! W))"

definition advances :: "model \<Rightarrow> hstate \<Rightarrow> hstate \<Rightarrow> bool" where
  "advances m s t \<longleftrightarrow> hs_inv m t \<and> hs_left t < hs_left s \<and> length (trace t) \<le> Suc (length (trace s))"

lemma seq_shape_store:
  assumes "seq_shape pc es x" and "nstores pc' = Suc (nstores pc)"
  shows "key e = (SEQ, int (nstores pc')) \<Longrightarrow> seq_shape pc' (es @ [e]) x"
    and "seq_shape pc' [] (int (nstores pc'))"
proof -
  obtain k where k: "k \<le> nstores pc" "x = int k" "map key es = map (\<lambda>i. (SEQ, int i)) [Suc k ..< Suc (nstores pc)]"
    using assms(1) by (auto simp: seq_shape_def)
  then have "[Suc k ..< Suc (nstores pc')] = [Suc k ..< Suc (nstores pc)] @ [nstores pc']" using assms(2) by simp
  then show "key e = (SEQ, int (nstores pc')) \<Longrightarrow> seq_shape pc' (es @ [e]) x"
    using k assms(2) unfolding seq_shape_def by (intro exI [of _ k]) simp
  show "seq_shape pc' [] (int (nstores pc'))"
    unfolding seq_shape_def by (intro exI [of _ "nstores pc'"]) simp
qed

lemma seq_shape_pc: "seq_shape pc es x \<Longrightarrow> nstores pc' = nstores pc \<Longrightarrow> seq_shape pc' es x"
  by (simp add: seq_shape_def)

lemma seq_shape_flush:
  assumes "seq_shape pc (e # es) x"
  shows "e_var e = SEQ" and "seq_shape pc es (e_val e)"
proof -
  obtain k where k: "k \<le> nstores pc" "key e # map key es = map (\<lambda>i. (SEQ, int i)) [Suc k ..< Suc (nstores pc)]"
    using assms by (auto simp: seq_shape_def)
  then have "[Suc k ..< Suc (nstores pc)] \<noteq> []" by (metis list.discI list.map_disc_iff)
  then have l: "Suc k < Suc (nstores pc)" by (simp split: if_splits)
  then have "[Suc k ..< Suc (nstores pc)] = Suc k # [Suc (Suc k) ..< Suc (nstores pc)]" by (rule upt_conv_Cons)
  then have e: "key e = (SEQ, int (Suc k))"
    and es: "map key es = map (\<lambda>i. (SEQ, int i)) [Suc (Suc k) ..< Suc (nstores pc)]"
    using k(2) by simp_all
  show "e_var e = SEQ" using e by simp
  have "Suc k \<le> nstores pc" using l by simp
  moreover have "e_val e = int (Suc k)" using e by simp
  ultimately show "seq_shape pc es (e_val e)" unfolding seq_shape_def using es by (intro exI conjI)
qed

lemma seq_shape_vars: "seq_shape pc es x \<Longrightarrow> e \<in> set es \<Longrightarrow> e_var e = SEQ"
proof -
  assume s: "seq_shape pc es x" and e: "e \<in> set es"
  obtain k where k: "map key es = map (\<lambda>i. (SEQ, int i)) [Suc k ..< Suc (nstores pc)]"
    using s unfolding seq_shape_def by blast
  have "key e \<in> set (map key es)" unfolding set_map using e by (rule imageI)
  then have "key e \<in> (\<lambda>i. (SEQ, int i)) ` set [Suc k ..< Suc (nstores pc)]" unfolding k set_map .
  then show "e_var e = SEQ" by auto
qed

lemma add_note_simps [simp]:
  "mem (add_note n s) = mem s" "buf (add_note n s) = buf s" "hpc (add_note n s) = hpc s"
  "p_seen (add_note n s) = p_seen s" "snap (add_note n s) = snap s" "h_freed (add_note n s) = h_freed s"
  "h_uaf (add_note n s) = h_uaf s"
  by (simp_all add: add_note_def)

lemma set_pc_simps [simp]:
  "mem (set_pc t k s) = mem s" "buf (set_pc t k s) = buf s" "hpc (set_pc t k s) = (hpc s)[t := k]"
  "p_seen (set_pc t k s) = p_seen s" "snap (set_pc t k s) = snap s" "h_freed (set_pc t k s) = h_freed s"
  "h_uaf (set_pc t k s) = h_uaf s" "trace (set_pc t k s) = trace s"
  by (simp_all add: set_pc_def)

lemma length_trace_note: "length (trace (add_note n s)) \<le> Suc (length (trace s))"
  by (simp add: add_note_def)

lemma do_store_simps [simp]:
  "hpc (do_store m os t site v x s) = hpc s" "snap (do_store m os t site v x s) = snap s"
  "trace (do_store m os t site v x s) = trace s" "h_uaf (do_store m os t site v x s) = h_uaf s"
  "p_seen (do_store m os t site v x s) = p_seen s" "h_freed (do_store m os t site v x s) = h_freed s"
  by (simp_all add: do_store_def)

lemma numeral_cases: "(n::nat) \<le> 4 \<Longrightarrow> n = 0 \<or> n = 1 \<or> n = 2 \<or> n = 3 \<or> n = 4"
  by auto

section \<open>Every move\<close>

lemma reader_advances:
  assumes inv: "hs_inv m s" and t: "t \<in> set (reader_moves m os s)"
  shows "advances m s t"
proof -
  obtain h q b0 b1 r w where s: "mem s = [h, q]" "buf s = [b0, b1]" "hpc s = [r, w]" "r \<le> 4" "w \<le> 4"
    and sh: "seq_shape r b0 q" and hd: "head_shape w b1" "w = 2 \<longrightarrow> odd (snap s)" "m = M_SC \<longrightarrow> b0 = [] \<and> b1 = []"
    using inv by (auto simp: hs_inv_def)
  have tr: "length (trace t) \<le> Suc (length (trace s))"
    using t length_trace_note [where s = s]
    by (auto simp: reader_moves_def step_store_def add_note_def Let_def split: if_splits)
  consider "r = 0" | "r = 1" | "r = 2" | "r = 3" using t s numeral_cases [of r] by (auto simp: reader_moves_def)
  then show ?thesis
  proof cases
    case 1
    then show ?thesis
      using t s tr hd seq_shape_store [OF sh, of 1]
      by (auto simp: reader_moves_def step_store_def advances_def hs_inv_def hs_left_def do_store_def
          goes_direct_def store_enabled_def nstores_def split: if_splits)
  next
    case 2
    then show ?thesis
      using t s tr hd seq_shape_pc [OF sh, of 2]
      by (auto simp: reader_moves_def advances_def hs_inv_def hs_left_def nstores_def Let_def split: if_splits)
  next
    case 3
    then show ?thesis
      using t s tr hd seq_shape_pc [OF sh, of 3]
      by (auto simp: reader_moves_def advances_def hs_inv_def hs_left_def nstores_def Let_def split: if_splits)
  next
    case 4
    then show ?thesis
      using t s tr hd seq_shape_store [OF sh, of 4]
      by (auto simp: reader_moves_def step_store_def advances_def hs_inv_def hs_left_def do_store_def
          goes_direct_def store_enabled_def nstores_def split: if_splits)
  qed
qed

lemma writer_advances:
  assumes inv: "hs_inv m s" and t: "t \<in> set (writer_moves m os s)"
  shows "advances m s t"
proof -
  obtain h q b0 b1 r w where s: "mem s = [h, q]" "buf s = [b0, b1]" "hpc s = [r, w]" "r \<le> 4" "w \<le> 4"
    and sh: "seq_shape r b0 q" and hd: "head_shape w b1" "w = 2 \<longrightarrow> odd (snap s)" "m = M_SC \<longrightarrow> b0 = [] \<and> b1 = []"
    using inv by (auto simp: hs_inv_def)
  have tr: "length (trace t) \<le> Suc (length (trace s))"
    using t length_trace_note [where s = s]
    by (auto simp: writer_moves_def step_store_def add_note_def Let_def split: if_splits)
  consider "w = 0" | "w = 1" | "w = 2" | "w = 3" using t s numeral_cases [of w] by (auto simp: writer_moves_def)
  then show ?thesis
  proof cases
    case 1
    then show ?thesis
      using t s tr hd sh
      by (auto simp: writer_moves_def step_store_def advances_def hs_inv_def hs_left_def do_store_def
          goes_direct_def store_enabled_def head_shape_def split: if_splits)
  next
    case 2
    then show ?thesis
      using t s tr hd sh
      by (auto simp: writer_moves_def advances_def hs_inv_def hs_left_def head_shape_def Let_def odd_iff_mod_2_eq_one
          split: if_splits)
  next
    case 3
    then show ?thesis
      using t s tr hd sh
      by (auto simp: writer_moves_def advances_def hs_inv_def hs_left_def head_shape_def Let_def split: if_splits)
  next
    case 4
    then show ?thesis
      using t s tr hd sh
      by (auto simp: writer_moves_def advances_def hs_inv_def hs_left_def head_shape_def Let_def split: if_splits)
  qed
qed

lemma trace_commit: "length (trace (commit t i s)) \<le> Suc (length (trace s))"
  by (simp add: commit_def Let_def add_note_def)

lemma flush_R_advances:
  assumes inv: "hs_inv m s" and t: "t \<in> set (flush_moves m s R)"
  shows "advances m s t"
proof -
  obtain h q b0 b1 r w where s: "mem s = [h, q]" "buf s = [b0, b1]" "hpc s = [r, w]" "r \<le> 4" "w \<le> 4"
    and sh: "seq_shape r b0 q" and hd: "head_shape w b1" "w = 2 \<longrightarrow> odd (snap s)" "m = M_SC \<longrightarrow> b0 = [] \<and> b1 = []"
    using inv by (auto simp: hs_inv_def)
  obtain i where i: "i < length b0" "flush_enabled m s R i" "t = commit R i s"
    using t s by (auto simp: flush_moves_def)
  then obtain e es where b0: "b0 = e # es" by (cases b0) auto
  have "i = 0"
  proof (rule ccontr)
    assume "i \<noteq> 0"
    then have "e \<in> set (take i b0)" using b0 by (cases i) auto
    moreover have "e_var (b0 ! i) = e_var e"
      using seq_shape_vars [OF sh] b0 i(1) nth_mem [OF i(1)] by simp
    ultimately show False using i(2) s \<open>i \<noteq> 0\<close> by (auto simp: flush_enabled_def list_all_iff split: if_splits)
  qed
  then have "mem t = [h, e_val e]" "buf t = [es, b1]" "hpc t = [r, w]" "snap t = snap s"
    using i(3) s b0 seq_shape_flush(1) [of r e es q] sh by (simp_all add: commit_def)
  then show ?thesis
    using s hd b0 seq_shape_flush(2) [of r e es q] sh trace_commit [of R i s] i(3)
    by (auto simp: advances_def hs_inv_def hs_left_def)
qed

lemma flush_W_advances:
  assumes inv: "hs_inv m s" and t: "t \<in> set (flush_moves m s W)"
  shows "advances m s t"
proof -
  obtain h q b0 b1 r w where s: "mem s = [h, q]" "buf s = [b0, b1]" "hpc s = [r, w]" "r \<le> 4" "w \<le> 4"
    and sh: "seq_shape r b0 q" and hd: "head_shape w b1" "w = 2 \<longrightarrow> odd (snap s)" "m = M_SC \<longrightarrow> b0 = [] \<and> b1 = []"
    using inv by (auto simp: hs_inv_def)
  obtain i where i: "i < length b1" "t = commit W i s"
    using t s by (auto simp: flush_moves_def)
  then obtain e where b1: "b1 = [e]" "e_var e = HEAD" "i = 0" using hd(1) by (auto simp: head_shape_def)
  then have "mem t = [e_val e, q]" "buf t = [b0, []]" "hpc t = [r, w]" "snap t = snap s"
    using i(2) s by (simp_all add: commit_def)
  then show ?thesis
    using s hd b1 sh trace_commit [of W i s] i(2)
    by (auto simp: advances_def hs_inv_def hs_left_def head_shape_def)
qed

lemma step_advances: "hs_inv m s \<Longrightarrow> hs_step m os s t \<Longrightarrow> advances m s t"
  using reader_advances writer_advances flush_R_advances flush_W_advances
  unfolding hs_step_def successors_def by fastforce

lemma hs_inv_start: "hs_inv m hs_start"
  by (simp add: hs_inv_def hs_start_def seq_shape_def head_shape_def nstores_def)

definition hs_good :: "model \<Rightarrow> hstate \<Rightarrow> bool" where
  "hs_good m s \<longleftrightarrow> hs_inv m s \<and> length (trace s) + hs_left s \<le> 16"

interpretation hs: inductive_invariant "\<lambda>s. s = hs_start" "hs_step m os" "hs_good m" for m os
proof
  show "hs_good m s" if "s = hs_start" for s
    using that hs_inv_start by (simp add: hs_good_def) (simp add: hs_start_def hs_left_def)
  show "hs_good m t" if "hs_step m os s t" "hs_good m s" for s t
    using step_advances [of m s os t] that by (auto simp: hs_good_def advances_def)
qed

section \<open>No execution gets stuck\<close>

lemma flush_first:
  assumes "length (buf s) = 2" and "t < 2" and "buf s ! t \<noteq> []"
  shows "flush_moves m s t \<noteq> []"
proof -
  have "flush_enabled m s t 0" by (simp add: flush_enabled_def)
  then have "0 \<in> set (filter (flush_enabled m s t) [0..<length (buf s ! t)])" using assms(3) by auto
  then show ?thesis unfolding flush_moves_def by (metis empty_iff list.set(1) map_is_Nil_conv)
qed

lemma not_stuck:
  assumes inv: "hs_inv m s" and none: "successors m os s = []"
  shows "complete s"
proof -
  obtain h q b0 b1 r w where s: "mem s = [h, q]" "buf s = [b0, b1]" "hpc s = [r, w]" "r \<le> 4" "w \<le> 4"
    and sh: "seq_shape r b0 q" and w: "w = 2 \<longrightarrow> odd (snap s)"
    using inv by (auto simp: hs_inv_def)
  have "b0 = []" "b1 = []"
    using none flush_first [of s R m] flush_first [of s W m] s by (auto simp: successors_def)
  note s = s(1,3) s(2) [unfolded this]
  have r: "r = 4"
    using none s numeral_cases [OF \<open>r \<le> 4\<close>]
    by (auto simp: successors_def reader_moves_def step_store_def store_enabled_def load_enabled_def Let_def
        split: if_splits)
  then have "q = 2" using sh \<open>b0 = []\<close> by (auto simp: seq_shape_def nstores_def split: if_splits)
  then have "read_var m s W SEQ = 2" using s by (simp add: read_var_def)
  then have "w = 4"
    using none s numeral_cases [OF \<open>w \<le> 4\<close>] w
    by (auto simp: successors_def writer_moves_def step_store_def store_enabled_def load_enabled_def Let_def
        split: if_splits)
  then show ?thesis using r s by (simp add: complete_def)
qed

section \<open>The recursion\<close>

text \<open>The ends of the executions from a state, in the order in which \<open>explore\<close> reaches them.\<close>

fun leaves :: "nat \<Rightarrow> model \<Rightarrow> orders \<Rightarrow> hstate \<Rightarrow> hstate list" where
  "leaves 0 m os s = []"
| "leaves (Suc fuel) m os s =
     (if successors m os s = [] then [s] else concat (map (leaves fuel m os) (successors m os s)))"

lemma ended_count: "n_exec (ended s g) + n_stuck (ended s g) = Suc (n_exec g + n_stuck g)"
  by (simp add: ended_def Let_def)

lemma fold_ended_count:
  "n_exec (fold ended ls g) + n_stuck (fold ended ls g) = length ls + (n_exec g + n_stuck g)"
  by (induction ls arbitrary: g) (auto simp: ended_count)

lemma explore_all_eq:
  assumes "\<And>s g. s \<in> set ss \<Longrightarrow> explore fuel m os s g = Some (fold ended (leaves fuel m os s) g)"
  shows "explore_all fuel m os ss g = Some (fold ended (concat (map (leaves fuel m os) ss)) g)"
  using assms by (induction ss arbitrary: g) auto

lemma explore_eq:
  "hs_inv m s \<Longrightarrow> hs_left s < fuel \<Longrightarrow>
     leaves fuel m os s \<noteq> [] \<and> explore fuel m os s g = Some (fold ended (leaves fuel m os s) g)"
proof (induction fuel arbitrary: s g)
  case (Suc fuel)
  let ?ss = "successors m os s"
  have sub: "leaves fuel m os t \<noteq> [] \<and> explore fuel m os t g = Some (fold ended (leaves fuel m os t) g)"
    if "t \<in> set ?ss" for t g
    using Suc step_advances [OF Suc.prems(1), of os t] that by (auto simp: hs_step_def advances_def)
  have all: "explore_all fuel m os ?ss g = Some (fold ended (concat (map (leaves fuel m os) ?ss)) g)"
    by (rule explore_all_eq) (use sub in blast)
  show ?case
  proof (cases "?ss = []")
    case True
    then show ?thesis by simp
  next
    case False
    let ?ls = "concat (map (leaves fuel m os) ?ss)"
    obtain t where "t \<in> set ?ss" using False by (cases ?ss) auto
    then have "?ls \<noteq> []" using sub by auto
    moreover from this have "n_exec (fold ended ?ls g) + n_stuck (fold ended ?ls g) \<noteq> n_exec g + n_stuck g"
      by (simp add: fold_ended_count)
    ultimately show ?thesis using all False by simp
  qed
qed simp

lemma leaves_sound: "t \<in> set (leaves fuel m os s) \<Longrightarrow> (hs_step m os)\<^sup>*\<^sup>* s t \<and> successors m os t = []"
proof (induction fuel arbitrary: s)
  case (Suc fuel)
  show ?case
  proof (cases "successors m os s = []")
    case True
    then show ?thesis using Suc.prems by simp
  next
    case False
    then obtain u where "u \<in> set (successors m os s)" "t \<in> set (leaves fuel m os u)" using Suc.prems by auto
    then show ?thesis using Suc.IH by (auto simp: hs_step_def intro: converse_rtranclp_into_rtranclp)
  qed
qed simp

lemma leaves_complete:
  assumes "(hs_step m os)\<^sup>*\<^sup>* s t" and "successors m os t = []"
  shows "hs_inv m s \<Longrightarrow> hs_left s < fuel \<Longrightarrow> t \<in> set (leaves fuel m os s)"
  using assms
proof (induction arbitrary: fuel rule: converse_rtranclp_induct)
  case base
  then obtain f where "fuel = Suc f" by (cases fuel) auto
  then show ?case using base by simp
next
  case (step s u)
  obtain f where f: "fuel = Suc f" using step.prems(2) by (cases fuel) auto
  have a: "advances m s u" by (rule step_advances [OF step.prems(1) step.hyps(1)])
  then have "t \<in> set (leaves f m os u)" using step f by (auto simp: advances_def)
  moreover have "u \<in> set (successors m os s)" using step.hyps(1) by (simp add: hs_step_def)
  ultimately show ?case using f by auto
qed

lemma reaches_end:
  "hs_inv m s \<Longrightarrow> \<exists>t. (hs_step m os)\<^sup>*\<^sup>* s t \<and> successors m os t = []"
proof (induction "hs_left s" arbitrary: s rule: less_induct)
  case less
  show ?case
  proof (cases "successors m os s")
    case Nil
    then show ?thesis by blast
  next
    case (Cons u us)
    then have st: "hs_step m os s u" by (simp add: hs_step_def)
    then show ?thesis using less step_advances [OF less.prems st]
      unfolding advances_def by (meson converse_rtranclp_into_rtranclp)
  qed
qed

text \<open>A use after the free is not forgotten.\<close>

lemma uaf_step: "hs_step m os s t \<Longrightarrow> h_uaf s \<Longrightarrow> h_uaf t"
  by (auto simp: hs_step_def successors_def reader_moves_def writer_moves_def step_store_def flush_moves_def
      commit_def Let_def split: if_splits)

lemma uaf_steps: "(hs_step m os)\<^sup>*\<^sup>* s t \<Longrightarrow> h_uaf s \<Longrightarrow> h_uaf t"
  by (induction rule: rtranclp_induct) (auto intro: uaf_step)

lemma hs_reach_steps: "hs_reach m os s \<longleftrightarrow> (hs_step m os)\<^sup>*\<^sup>* hs_start s"
proof
  show "(hs_step m os)\<^sup>*\<^sup>* hs_start s" if "hs_reach m os s"
    using that by (induction rule: reach.induct) auto
  show "hs_reach m os s" if "(hs_step m os)\<^sup>*\<^sup>* hs_start s"
    using that by (induction rule: rtranclp_induct) (auto intro: reach.intros)
qed

definition executions :: "model \<Rightarrow> orders \<Rightarrow> hstate list" where
  "executions m os = leaves 17 m os hs_start"

lemma hs_left_start: "hs_left hs_start < 17"
  by (simp add: hs_left_def hs_start_def)

lemma in_executions: "t \<in> set (executions m os) \<longleftrightarrow> hs_reach m os t \<and> successors m os t = []"
  unfolding executions_def hs_reach_steps
  using leaves_sound leaves_complete [OF _ _ hs_inv_start hs_left_start] by blast

lemma executions_complete: "t \<in> set (executions m os) \<Longrightarrow> complete t"
  using not_stuck hs.reach_inv unfolding in_executions hs_good_def by blast

lemma uaf_reachable: "(\<exists>t\<in>set (executions m os). h_uaf t) \<longleftrightarrow> (\<exists>s. hs_reach m os s \<and> h_uaf s)"
proof
  assume "\<exists>s. hs_reach m os s \<and> h_uaf s"
  then obtain s where s: "hs_reach m os s" "h_uaf s" by blast
  then have "hs_inv m s" using hs.reach_inv by (auto simp: hs_good_def)
  then obtain t where t: "(hs_step m os)\<^sup>*\<^sup>* s t" "successors m os t = []" using reaches_end by blast
  then have "hs_reach m os t" using s(1) unfolding hs_reach_steps by simp
  then show "\<exists>t\<in>set (executions m os). h_uaf t" using t s(2) uaf_steps in_executions by blast
qed (use in_executions in blast)

lemma fold_ended:
  assumes "\<forall>s\<in>set ls. complete s"
  shows "n_exec (fold ended ls g) = n_exec g + length ls \<and> n_stuck (fold ended ls g) = n_stuck g \<and>
    n_uaf (fold ended ls g) = n_uaf g + length (filter h_uaf ls) \<and>
    first_uaf (fold ended ls g) = (if n_uaf g = 0 \<and> filter h_uaf ls \<noteq> [] then Some (hd (filter h_uaf ls)) else first_uaf g)"
  using assms by (induction ls arbitrary: g) (auto simp: ended_def Let_def)

lemma check_model_eq: "check_model m os = Some (fold ended (executions m os) counters_start)"
  unfolding check_model_def executions_def using explore_eq [OF hs_inv_start hs_left_start] by blast

end
