(* ===== verification/Handshake_Thms.thy ===== *)
theory Handshake_Thms
  imports Handshake_Explore
begin

text \<open>
  What the model checker's answers mean: its verdict is exact on each memory model, weakening an ordering
  never removes an execution, and therefore the orderings that are safe on all three models can be
  characterised completely.
\<close>

section \<open>Weaker orderings allow more\<close>

definition weaker :: "orders \<Rightarrow> orders \<Rightarrow> bool" where
  "weaker os os' \<longleftrightarrow> (\<forall>k. order_at os k \<le> order_at os' k)"

lemma ord_max: "SEQCST \<le> x \<longleftrightarrow> x = SEQCST" and ord_min: "x \<le> RELAXED \<longleftrightarrow> x = RELAXED"
  by (cases x; simp add: less_eq_ord_def)+

lemma weaker_seqcst: "weaker os os' \<Longrightarrow> order_at os k = SEQCST \<Longrightarrow> order_at os' k = SEQCST"
  unfolding weaker_def by (metis ord_max)

lemma weaker_relaxed: "weaker os os' \<Longrightarrow> order_at os k \<noteq> RELAXED \<Longrightarrow> order_at os' k \<noteq> RELAXED"
  unfolding weaker_def by (metis ord_min)

text \<open>
  The two runs side by side: the same state up to the traces, the buffered stores of the weaker one being
  release stores at most where those of the stronger one are.
\<close>

definition weaker_entry :: "entry \<Rightarrow> entry \<Rightarrow> bool" where
  "weaker_entry e e' \<longleftrightarrow> key e = key e' \<and> (e_stlr e \<longrightarrow> e_stlr e')"

definition hs_sim :: "hstate \<Rightarrow> hstate \<Rightarrow> bool" where
  "hs_sim s s' \<longleftrightarrow> mem s = mem s' \<and> hpc s = hpc s' \<and> p_seen s = p_seen s' \<and> snap s = snap s' \<and>
     h_freed s = h_freed s' \<and> h_uaf s = h_uaf s' \<and> list_all2 (list_all2 weaker_entry) (buf s) (buf s')"

lemma sim_newest: "list_all2 weaker_entry es es' \<Longrightarrow> newest v es = newest v es'"
  by (induction rule: list_all2_induct) (auto simp: weaker_entry_def split: option.splits)

lemma sim_buf: "hs_sim s s' \<Longrightarrow> t < length (buf s) \<Longrightarrow> list_all2 weaker_entry (buf s ! t) (buf s' ! t)"
  by (simp add: hs_sim_def list_all2_nthD)

lemma sim_read: "hs_sim s s' \<Longrightarrow> t < length (buf s) \<Longrightarrow> read_var m s t v = read_var m s' t v"
  using sim_newest [OF sim_buf, of s s' t v] by (auto simp: read_var_def hs_sim_def split: option.splits)

lemma sim_stlr: "list_all2 weaker_entry es es' \<Longrightarrow> list_all (\<lambda>e. \<not> e_stlr e) es' \<Longrightarrow> list_all (\<lambda>e. \<not> e_stlr e) es"
  by (induction rule: list_all2_induct) (auto simp: weaker_entry_def)

lemma sim_load:
  "hs_sim s s' \<Longrightarrow> weaker os os' \<Longrightarrow> t < length (buf s) \<Longrightarrow> load_enabled m os' s' t site \<Longrightarrow> load_enabled m os s t site"
  using sim_stlr [OF sim_buf] weaker_seqcst unfolding load_enabled_def by (metis (no_types, lifting))

lemma sim_flush:
  assumes sim: "hs_sim s s'" and t: "t < length (buf s)" and i: "i < length (buf s ! t)"
    and en: "flush_enabled m s' t i"
  shows "flush_enabled m s t i" and "hs_sim (commit t i s) (commit t i s')"
proof -
  note b = sim_buf [OF sim t]
  have nth: "weaker_entry (buf s ! t ! j) (buf s' ! t ! j)" if "j \<le> i" for j
    using b i that by (auto intro: list_all2_nthD)
  have len: "length (buf s ! t) = length (buf s' ! t)" using b by (rule list_all2_lengthD)
  show "flush_enabled m s t i"
  proof (cases "m = M_TSO")
    case False
    have "\<forall>j<i. e_var (buf s' ! t ! j) \<noteq> e_var (buf s' ! t ! i) \<and> \<not> e_stlr (buf s' ! t ! i)"
      using en False i len by (auto simp: flush_enabled_def list_all_length)
    then have "\<forall>j<i. e_var (buf s ! t ! j) \<noteq> e_var (buf s ! t ! i) \<and> \<not> e_stlr (buf s ! t ! i)"
      using nth unfolding weaker_entry_def by (metis less_imp_le order_refl prod.inject)
    then show ?thesis using False i by (auto simp: flush_enabled_def list_all_length)
  qed (use en in \<open>simp add: flush_enabled_def\<close>)
  have "list_all2 weaker_entry (take i (buf s ! t) @ drop (Suc i) (buf s ! t))
      (take i (buf s' ! t) @ drop (Suc i) (buf s' ! t))"
    using b by (intro list_all2_appendI list_all2_takeI list_all2_dropI)
  then show "hs_sim (commit t i s) (commit t i s')"
    using sim nth [of i] by (auto simp: hs_sim_def commit_def Let_def weaker_entry_def intro: list_all2_update_cong)
qed

lemma sim_note [simp]: "hs_sim (add_note n s) s' = hs_sim s s'" "hs_sim s (add_note n s') = hs_sim s s'"
  by (simp_all add: hs_sim_def)

lemma sim_set_pc: "hs_sim s s' \<Longrightarrow> hs_sim (set_pc t k s) (set_pc t k s')"
  by (simp add: hs_sim_def)

text \<open>
  A store: in one step, or, where the stronger ordering writes through and the weaker one does not, in two
  (store, then commit).
\<close>

lemma sim_store:
  assumes sim: "hs_sim s s'" and weak: "weaker os os'" and t: "t < length (buf s)"
    and x': "x' \<in> set (step_store m os' s' t site v x k)"
  shows "\<exists>y \<in> set (step_store m os s t site v x k). hs_sim y x' \<or> (\<exists>z \<in> set (flush_moves m y t). hs_sim z x')"
proof -
  note b = sim_buf [OF sim t]
  have lenb: "length (buf s') = length (buf s)" using sim by (auto simp: hs_sim_def dest: list_all2_lengthD)
  have en': "store_enabled m os' s' t site"
    and xx: "x' = set_pc t k (add_note (NStore t site v x (goes_direct m os' site)) (do_store m os' t site v x s'))"
    using x' by (auto simp: step_store_def split: if_splits)
  have en: "store_enabled m os s t site"
  proof (cases "m = M_TSO \<and> order_at os site = SEQCST")
    case True
    then have "buf s' ! t = []" using en' weaker_seqcst [OF weak] by (simp add: store_enabled_def)
    then show ?thesis using b by (simp add: store_enabled_def)
  qed (auto simp: store_enabled_def)
  let ?y = "set_pc t k (add_note (NStore t site v x (goes_direct m os site)) (do_store m os t site v x s))"
  have y: "?y \<in> set (step_store m os s t site v x k)" using en by (simp add: step_store_def)
  consider "goes_direct m os site" "goes_direct m os' site" | "\<not> goes_direct m os site" "\<not> goes_direct m os' site"
    | "m = M_TSO" "\<not> goes_direct m os site" "order_at os' site = SEQCST"
    using weaker_seqcst [OF weak] by (auto simp: goes_direct_def)
  then show ?thesis
  proof cases
    case 1
    then have "hs_sim ?y x'" unfolding xx using sim by (intro sim_set_pc) (simp add: do_store_def hs_sim_def)
    then show ?thesis using y by blast
  next
    case 2
    have "weaker_entry \<lparr>e_var = v, e_val = x, e_stlr = (m = M_ARM \<and> order_at os site \<noteq> RELAXED)\<rparr>
        \<lparr>e_var = v, e_val = x, e_stlr = (m = M_ARM \<and> order_at os' site \<noteq> RELAXED)\<rparr>"
      using weaker_relaxed [OF weak] by (auto simp: weaker_entry_def)
    then have "hs_sim (do_store m os t site v x s) (do_store m os' t site v x s')"
      using 2 sim b by (auto simp: do_store_def hs_sim_def intro!: list_all2_update_cong list_all2_appendI)
    then have "hs_sim ?y x'" unfolding xx by (intro sim_set_pc) simp
    then show ?thesis using y by blast
  next
    case 3
    then have e: "buf s' ! t = []" "buf s ! t = []" using en' b by (auto simp: store_enabled_def)
    let ?e = "\<lparr>e_var = v, e_val = x, e_stlr = False\<rparr>"
    have bufy: "buf ?y = (buf s)[t := [?e]]" "mem ?y = mem s" using 3 e by (simp_all add: do_store_def)
    then have "0 \<in> set (filter (flush_enabled m ?y t) [0..<length (buf ?y ! t)])"
      using t by (simp add: flush_enabled_def)
    then have z: "commit t 0 ?y \<in> set (flush_moves m ?y t)" unfolding flush_moves_def set_map by (rule imageI)
    have "buf (commit t 0 ?y) = (buf s)[t := []]" "mem (commit t 0 ?y) = (mem s)[v := x]"
      using bufy t by (simp_all add: commit_def Let_def)
    moreover have "(buf s)[t := []] = buf s" using e(2) by (metis list_update_id)
    ultimately have "hs_sim (commit t 0 ?y) x'"
      unfolding xx using sim 3 by (auto simp: hs_sim_def do_store_def goes_direct_def commit_def Let_def)
    then show ?thesis using y z by blast
  qed
qed


lemma step_store_steps:
  assumes sim: "hs_sim s s'" and weak: "weaker os os'" and t: "t < 2" "length (buf s) = 2"
    and x': "x' \<in> set (step_store m os' s' t site v x k)"
    and sub: "\<And>y. y \<in> set (step_store m os s t site v x k) \<Longrightarrow> hs_step m os s y"
  shows "\<exists>y. (hs_step m os)\<^sup>*\<^sup>* s y \<and> hs_sim y x'"
proof -
  have tb: "t < length (buf s)" using t by simp
  obtain y where y: "y \<in> set (step_store m os s t site v x k)"
    and or: "hs_sim y x' \<or> (\<exists>z \<in> set (flush_moves m y t). hs_sim z x')"
    using sim_store [OF sim weak tb x'] by blast
  have flush: "hs_step m os y z" if "z \<in> set (flush_moves m y t)" for z
    using that t(1) by (cases t) (auto simp: hs_step_def successors_def)
  have sy: "hs_step m os s y" by (rule sub [OF y])
  show ?thesis
    using or
  proof
    assume "hs_sim y x'"
    then show ?thesis using sy by blast
  next
    assume "\<exists>z \<in> set (flush_moves m y t). hs_sim z x'"
    then obtain z where "z \<in> set (flush_moves m y t)" "hs_sim z x'" by blast
    then show ?thesis using sy flush [of z] by (meson r_into_rtranclp rtranclp.rtrancl_into_rtrancl)
  qed
qed

lemma sim_one:
  assumes "hs_step m os s y" and "hs_sim y x'"
  shows "\<exists>y. (hs_step m os)\<^sup>*\<^sup>* s y \<and> hs_sim y x'"
  using assms by blast

lemma reader_step_sim:
  assumes sim: "hs_sim s s'" and weak: "weaker os os'" and len: "length (buf s) = 2"
    and x': "x' \<in> set (reader_moves m os' s')"
  shows "\<exists>y. (hs_step m os)\<^sup>*\<^sup>* s y \<and> hs_sim y x'"
proof -
  have sub: "hs_step m os s y" if "y \<in> set (reader_moves m os s)" for y
    using that by (simp add: hs_step_def successors_def)
  have pc: "hpc s ! R = hpc s' ! R" using sim by (simp add: hs_sim_def)
  consider "hpc s ! R = 0" | "hpc s ! R = 1" | "hpc s ! R = 2" | "hpc s ! R = 3"
    using x' pc by (fastforce simp: reader_moves_def Let_def split: if_splits)
  then show ?thesis
  proof cases
    case 1
    have st: "x' \<in> set (step_store m os' s' R S_ANNOUNCE SEQ 1 1)" using x' pc 1 by (simp add: reader_moves_def)
    show ?thesis
      by (rule step_store_steps [OF sim weak _ len st]) (use 1 in \<open>auto intro: sub simp: reader_moves_def\<close>)
  next
    case 2
    let ?x = "read_var m s R HEAD"
    have en: "load_enabled m os' s' R S_DEREF"
      and xx: "x' = set_pc R 2 (add_note (NDeref (read_var m s' R HEAD)) (s'\<lparr>p_seen := read_var m s' R HEAD\<rparr>))"
      using x' pc 2 by (auto simp: reader_moves_def Let_def split: if_splits)
    have "load_enabled m os s R S_DEREF" using sim_load [OF sim weak _ en] len by simp
    then have "set_pc R 2 (add_note (NDeref ?x) (s\<lparr>p_seen := ?x\<rparr>)) \<in> set (reader_moves m os s)"
      using 2 by (simp add: reader_moves_def Let_def)
    moreover have "hs_sim (set_pc R 2 (add_note (NDeref ?x) (s\<lparr>p_seen := ?x\<rparr>))) x'"
      unfolding xx using sim sim_read [OF sim, of R m HEAD] len by (intro sim_set_pc) (simp add: hs_sim_def)
    ultimately show ?thesis by (intro sim_one sub)
  next
    case 3
    let ?b = "p_seen s = OLD \<and> h_freed s"
    let ?y = "if ?b then set_pc R 3 (add_note (NUse True (p_seen s)) (s\<lparr>h_uaf := True\<rparr>))
      else set_pc R 3 (add_note (NUse False (p_seen s)) s)"
    have "?y \<in> set (reader_moves m os s)" using 3 by (simp add: reader_moves_def)
    moreover have "hs_sim ?y x'"
      using x' pc 3 sim by (auto simp: reader_moves_def hs_sim_def split: if_splits)
    ultimately show ?thesis by (intro sim_one sub)
  next
    case 4
    have st: "x' \<in> set (step_store m os' s' R S_EXIT SEQ 2 4)" using x' pc 4 by (simp add: reader_moves_def)
    show ?thesis
      by (rule step_store_steps [OF sim weak _ len st]) (use 4 in \<open>auto intro: sub simp: reader_moves_def\<close>)
  qed
qed

lemma writer_step_sim:
  assumes sim: "hs_sim s s'" and weak: "weaker os os'" and len: "length (buf s) = 2"
    and x': "x' \<in> set (writer_moves m os' s')"
  shows "\<exists>y. (hs_step m os)\<^sup>*\<^sup>* s y \<and> hs_sim y x'"
proof -
  have sub: "hs_step m os s y" if "y \<in> set (writer_moves m os s)" for y
    using that by (simp add: hs_step_def successors_def)
  have pc: "hpc s ! W = hpc s' ! W" using sim by (simp add: hs_sim_def)
  have rd: "read_var m s W SEQ = read_var m s' W SEQ" using sim_read [OF sim] len by simp
  have ld: "load_enabled m os' s' W S_SCAN \<Longrightarrow> load_enabled m os s W S_SCAN" using sim_load [OF sim weak] len by simp
  consider "hpc s ! W = 0" | "hpc s ! W = 1" | "hpc s ! W = 2" | "hpc s ! W = 3"
    using x' pc by (fastforce simp: writer_moves_def Let_def split: if_splits)
  then show ?thesis
  proof cases
    case 1
    have st: "x' \<in> set (step_store m os' s' W S_PUBLISH HEAD NEW 1)" using x' pc 1 by (simp add: writer_moves_def)
    show ?thesis
      by (rule step_store_steps [OF sim weak _ len st]) (use 1 in \<open>auto intro: sub simp: writer_moves_def\<close>)
  next
    case 2
    let ?x = "read_var m s W SEQ"
    let ?y = "set_pc W (if ?x mod 2 \<noteq> 0 then 2 else 3) (add_note (NScan ?x) (s\<lparr>snap := ?x\<rparr>))"
    have "?y \<in> set (writer_moves m os s)"
      using x' pc 2 ld by (auto simp: writer_moves_def Let_def split: if_splits)
    moreover have "hs_sim ?y x'"
      using x' pc 2 sim rd by (auto simp: writer_moves_def Let_def hs_sim_def split: if_splits)
    ultimately show ?thesis by (intro sim_one sub)
  next
    case 3
    let ?y = "set_pc W 3 (add_note (NWait (read_var m s W SEQ)) s)"
    have sn: "snap s = snap s'" using sim by (simp add: hs_sim_def)
    have "?y \<in> set (writer_moves m os s)"
      using x' pc 3 ld rd sn by (auto simp: writer_moves_def split: if_splits)
    moreover have "hs_sim ?y x'"
      using x' pc 3 sim by (auto simp: writer_moves_def hs_sim_def split: if_splits)
    ultimately show ?thesis by (intro sim_one sub)
  next
    case 4
    let ?y = "set_pc W 4 (add_note NFree (s\<lparr>h_freed := True\<rparr>))"
    have "?y \<in> set (writer_moves m os s)" using 4 by (simp add: writer_moves_def)
    moreover have "hs_sim ?y x'" using x' pc 4 sim by (auto simp: writer_moves_def hs_sim_def)
    ultimately show ?thesis by (intro sim_one sub)
  qed
qed

lemma flush_step_sim:
  assumes sim: "hs_sim s s'" and len: "length (buf s) = 2" and t: "t < 2"
    and x': "x' \<in> set (flush_moves m s' t)"
  shows "\<exists>y. (hs_step m os)\<^sup>*\<^sup>* s y \<and> hs_sim y x'"
proof -
  obtain i where i: "i < length (buf s' ! t)" "flush_enabled m s' t i" "x' = commit t i s'"
    using x' by (auto simp: flush_moves_def)
  have tb: "t < length (buf s)" using len t by simp
  have ib: "i < length (buf s ! t)" using i(1) list_all2_lengthD [OF sim_buf [OF sim tb]] by simp
  have "commit t i s \<in> set (flush_moves m s t)"
    using sim_flush(1) [OF sim tb ib i(2)] ib by (auto simp: flush_moves_def)
  then have "hs_step m os s (commit t i s)" using t by (cases t) (auto simp: hs_step_def successors_def)
  then show ?thesis using sim_flush(2) [OF sim tb ib i(2)] i(3) by (intro sim_one) simp_all
qed

lemma sim_step:
  assumes "hs_sim s s'" and "weaker os os'" and "hs_inv m s" and "hs_step m os' s' x'"
  shows "\<exists>y. (hs_step m os)\<^sup>*\<^sup>* s y \<and> hs_sim y x'"
proof -
  have len: "length (buf s) = 2" using assms(3) by (auto simp: hs_inv_def)
  consider "x' \<in> set (reader_moves m os' s')" | "x' \<in> set (writer_moves m os' s')"
    | "x' \<in> set (flush_moves m s' R)" | "x' \<in> set (flush_moves m s' W)"
    using assms(4) by (auto simp: hs_step_def successors_def)
  then show ?thesis
    using reader_step_sim [OF assms(1,2) len] writer_step_sim [OF assms(1,2) len]
      flush_step_sim [OF assms(1) len, of R] flush_step_sim [OF assms(1) len, of W]
    by cases simp_all
qed

lemma sim_reach:
  assumes "weaker os os'" and "hs_reach m os' s'"
  shows "\<exists>s. hs_reach m os s \<and> hs_sim s s'"
  using assms(2)
proof (induction rule: reach.induct)
  case (reach_init s)
  have "hs_sim hs_start hs_start" by (simp add: hs_sim_def hs_start_def)
  then show ?case using reach_init by (intro exI [of _ hs_start]) (auto intro: reach.intros)
next
  case (reach_step s t)
  then obtain r where r: "hs_reach m os r" "hs_sim r s" by blast
  have "hs_inv m r" using hs.reach_inv [OF r(1)] by (simp add: hs_good_def)
  then obtain y where "(hs_step m os)\<^sup>*\<^sup>* r y" "hs_sim y t"
    using sim_step [OF r(2) assms(1)] reach_step.hyps by blast
  then show ?case using r(1) unfolding hs_reach_steps by (meson rtranclp_trans)
qed

definition uaf_free :: "model \<Rightarrow> orders \<Rightarrow> bool" where
  "uaf_free m os \<longleftrightarrow> \<not> (\<exists>s. hs_reach m os s \<and> h_uaf s)"

lemma weaker_safe: "weaker os os' \<Longrightarrow> uaf_free m os \<Longrightarrow> uaf_free m os'"
  unfolding uaf_free_def using sim_reach unfolding hs_sim_def by meson

end
