(* ===== verification/Handshake_Orders.thy ===== *)
theory Handshake_Orders
  imports Handshake_Thms
begin

text \<open>
  The verdicts of the model checker: exact for every choice of orderings, and evaluated on the choices
  that decide which orderings are safe.
\<close>

section \<open>The verdict\<close>

lemma check_model_verdict: "(\<exists>g. check_model m os = Some g \<and> n_stuck g = 0 \<and>
    n_exec g = length (executions m os) \<and> (n_uaf g = 0 \<longleftrightarrow> uaf_free m os))"
proof -
  have c: "\<forall>s\<in>set (executions m os). complete s" using executions_complete by blast
  have "filter h_uaf (executions m os) = [] \<longleftrightarrow> uaf_free m os"
    unfolding uaf_free_def uaf_reachable [symmetric] by (simp add: filter_empty_conv)
  then show ?thesis
    unfolding check_model_eq using fold_ended [OF c, of counters_start] by (simp add: counters_start_def)
qed

text \<open>A verdict from the counters the program computes.\<close>

definition verdict :: "model \<Rightarrow> orders \<Rightarrow> (nat \<times> nat \<times> nat) option" where
  "verdict m os = (case check_model m os of None \<Rightarrow> None | Some g \<Rightarrow> Some (n_exec g, n_uaf g, n_stuck g))"

lemma verdict_safe: "verdict m os = Some (n, u, k) \<Longrightarrow> uaf_free m os \<longleftrightarrow> u = 0"
  using check_model_verdict [of m os] by (auto simp: verdict_def)

abbreviation strongest :: orders where
  "strongest \<equiv> \<lparr>announce = SEQCST, deref_ord = SEQCST, exit_ord = SEQCST, publish = SEQCST, scan = SEQCST\<rparr>"

lemma relaxed_exit_verdicts:
  "verdict M_SC (strongest\<lparr>exit_ord := RELAXED\<rparr>) = Some (19, 0, 0)"
  "verdict M_TSO (strongest\<lparr>exit_ord := RELAXED\<rparr>) = Some (26, 0, 0)"
  "verdict M_ARM (strongest\<lparr>exit_ord := RELAXED\<rparr>) = Some (105, 0, 0)"
  by code_simp+

text \<open>One interleaving, given by which of the successors is taken at each step.\<close>

fun run_choices :: "model \<Rightarrow> orders \<Rightarrow> nat list \<Rightarrow> hstate \<Rightarrow> hstate option" where
  "run_choices m os [] s = Some s"
| "run_choices m os (i # cs) s =
     (if i < length (successors m os s) then run_choices m os cs (successors m os s ! i) else None)"

lemma run_choices_steps: "run_choices m os cs s = Some t \<Longrightarrow> (hs_step m os)\<^sup>*\<^sup>* s t"
proof (induction cs arbitrary: s)
  case (Cons i cs)
  then have i: "i < length (successors m os s)" "run_choices m os cs (successors m os s ! i) = Some t"
    by (auto split: if_splits)
  have "hs_step m os s (successors m os s ! i)" using i(1) by (simp add: hs_step_def)
  then show ?case using Cons.IH [OF i(2)] by (rule converse_rtranclp_into_rtranclp)
qed simp

lemma run_choices_uaf:
  assumes "map_option h_uaf (run_choices m os cs hs_start) = Some True"
  shows "\<not> uaf_free m os"
  using assms run_choices_steps unfolding uaf_free_def hs_reach_steps by blast

text \<open>Each of the four orderings, when it is the next weaker one, and an interleaving on which that fails.\<close>

lemma announce_release_unsafe: "\<not> uaf_free M_TSO (strongest\<lparr>announce := RELEASE\<rparr>)"
  by (rule run_choices_uaf [where cs = "[0, 0, 1, 1, 1, 0]"]) code_simp

lemma deref_acquire_unsafe: "\<not> uaf_free M_ARM (strongest\<lparr>deref_ord := ACQUIRE\<rparr>)"
  by (rule run_choices_uaf [where cs = "[0, 0, 1, 2, 1, 1, 0]"]) code_simp

lemma publish_release_unsafe: "\<not> uaf_free M_TSO (strongest\<lparr>publish := RELEASE\<rparr>)"
  by (rule run_choices_uaf [where cs = "[1, 1, 0, 0, 1, 0]"]) code_simp

lemma scan_acquire_unsafe: "\<not> uaf_free M_ARM (strongest\<lparr>scan := ACQUIRE\<rparr>)"
  by (rule run_choices_uaf [where cs = "[0, 0, 0, 0, 0, 0, 0]"]) code_simp

lemma relaxed_exit_safe: "uaf_free m (strongest\<lparr>exit_ord := RELAXED\<rparr>)"
  by (cases m) (simp_all only: relaxed_exit_verdicts [THEN verdict_safe])

lemma weaker_iff:
  "weaker os os' \<longleftrightarrow> announce os \<le> announce os' \<and> deref_ord os \<le> deref_ord os' \<and> exit_ord os \<le> exit_ord os' \<and>
     publish os \<le> publish os' \<and> scan os \<le> scan os'"
proof -
  have "(\<forall>k. P k) \<longleftrightarrow> P S_ANNOUNCE \<and> P S_DEREF \<and> P S_EXIT \<and> P S_PUBLISH \<and> P S_SCAN" for P
    by (metis site.exhaust)
  then show ?thesis unfolding weaker_def by simp
qed

lemma le_seqcst: "(x::ord) \<le> SEQCST" and relaxed_le: "RELAXED \<le> (x::ord)"
  and le_acquire: "x \<noteq> SEQCST \<Longrightarrow> x \<noteq> RELEASE \<Longrightarrow> x \<le> ACQUIRE" and le_release: "x \<noteq> SEQCST \<Longrightarrow> x \<le> RELEASE"
  by (cases x; simp add: less_eq_ord_def)+

lemma safe_needs_seqcst:
  assumes v: "valid_orders os" and safe: "\<forall>m. uaf_free m os"
  shows "announce os = SEQCST \<and> deref_ord os = SEQCST \<and> publish os = SEQCST \<and> scan os = SEQCST"
proof -
  have up: "uaf_free m os'" if "weaker os os'" for m os'
    using weaker_safe [OF that, of m] safe by blast
  have d: "deref_ord os \<noteq> RELEASE" "scan os \<noteq> RELEASE" using v by (simp_all add: valid_orders_def)
  have "announce os = SEQCST"
    using up [of "strongest\<lparr>announce := RELEASE\<rparr>" M_TSO] announce_release_unsafe le_release
    by (auto simp: weaker_iff le_seqcst)
  moreover have "deref_ord os = SEQCST"
    using up [of "strongest\<lparr>deref_ord := ACQUIRE\<rparr>" M_ARM] deref_acquire_unsafe le_acquire d
    by (auto simp: weaker_iff le_seqcst)
  moreover have "publish os = SEQCST"
    using up [of "strongest\<lparr>publish := RELEASE\<rparr>" M_TSO] publish_release_unsafe le_release
    by (auto simp: weaker_iff le_seqcst)
  moreover have "scan os = SEQCST"
    using up [of "strongest\<lparr>scan := ACQUIRE\<rparr>" M_ARM] scan_acquire_unsafe le_acquire d
    by (auto simp: weaker_iff le_seqcst)
  ultimately show ?thesis by blast
qed

lemma safe_iff_seqcst:
  assumes "valid_orders os"
  shows "(\<forall>m. uaf_free m os) \<longleftrightarrow>
    announce os = SEQCST \<and> deref_ord os = SEQCST \<and> publish os = SEQCST \<and> scan os = SEQCST"
proof
  assume o: "announce os = SEQCST \<and> deref_ord os = SEQCST \<and> publish os = SEQCST \<and> scan os = SEQCST"
  show "\<forall>m. uaf_free m os"
    using weaker_safe [OF _ relaxed_exit_safe] o by (simp add: weaker_iff relaxed_le)
qed (rule safe_needs_seqcst [OF assms])

section \<open>The properties\<close>

text \<open>C6: The model checker is exact. On each memory model and for every choice of orderings the
  recursion returns (the fuel never runs out), reports no stuck interleaving, counts as many executions as
  there are complete interleavings, and reports no use after free exactly when no reachable state of the
  machine has one.\<close>

theorem check_model_exact:
  "\<exists>g. check_model m os = Some g \<and> n_stuck g = 0 \<and> n_exec g = length (executions m os) \<and>
     (n_uaf g = 0 \<longleftrightarrow> \<not> (\<exists>s. hs_reach m os s \<and> h_uaf s))"
  using check_model_verdict [of m os] unfolding uaf_free_def .

text \<open>C29: Weakening any of the five orderings never makes an unsafe choice safe: a use after free that is
  reachable under the stronger orderings is reachable, on the same memory model, under the weaker ones.\<close>

theorem weakening_keeps_uaf:
  assumes "\<forall>k. order_at os k \<le> order_at os' k" and "\<exists>s. hs_reach m os' s \<and> h_uaf s"
  shows "\<exists>s. hs_reach m os s \<and> h_uaf s"
  using weaker_safe [of os os' m] assms unfolding weaker_def uaf_free_def by blast

theorem weakening_keeps_uaf_witness:
  "\<exists>s. hs_reach M_TSO (strongest\<lparr>announce := RELAXED, publish := RELAXED\<rparr>) s \<and> h_uaf s"
proof (rule weakening_keeps_uaf [where os' = "strongest\<lparr>announce := RELEASE\<rparr>"])
  show "\<exists>s. hs_reach M_TSO (strongest\<lparr>announce := RELEASE\<rparr>) s \<and> h_uaf s"
    using announce_release_unsafe unfolding uaf_free_def by simp
qed (simp add: weaker_iff [unfolded weaker_def] relaxed_le le_seqcst)

text \<open>C11: Which orderings are safe. Among the choices the program accepts, those without a use after free
  on all three memory models are exactly the ones in which the announcement, the dereference, the
  publication and the scan are sequentially consistent; the ordering of the exit does not matter.\<close>

theorem safe_orders:
  assumes "valid_orders os"
  shows "(\<forall>m. \<not> (\<exists>s. hs_reach m os s \<and> h_uaf s)) \<longleftrightarrow>
    announce os = SEQCST \<and> deref_ord os = SEQCST \<and> publish os = SEQCST \<and> scan os = SEQCST"
  using safe_iff_seqcst [OF assms] unfolding uaf_free_def .

theorem safe_orders_witness:
  "\<not> (\<exists>s. hs_reach M_ARM orders_h s \<and> h_uaf s)"
  using safe_orders [of orders_h] by (simp add: valid_orders_def orders_h_def from_c_def)

text \<open>C33: The program's answer: for any command line that parses to a choice of orderings the program
  accepts, it exits with 0, reports the number of complete interleavings of each model, and says that some
  model is unsafe exactly when the announcement, the dereference, the publication or the scan is weaker
  than sequentially consistent.\<close>

theorem handshake_main_answer:
  assumes "parse_args args False orders_h = Some (tr, os)" and "valid_orders os"
  shows "\<exists>gs. handshake_main args = (0, Some (tr,
      \<not> (announce os = SEQCST \<and> deref_ord os = SEQCST \<and> publish os = SEQCST \<and> scan os = SEQCST), gs)) \<and>
    map n_exec gs = map (\<lambda>m. length (executions m os)) [M_SC, M_TSO, M_ARM]"
proof -
  obtain a where a: "check_model M_SC os = Some a" "n_exec a = length (executions M_SC os)"
    "n_uaf a = 0 \<longleftrightarrow> uaf_free M_SC os"
    using check_model_verdict [of M_SC os] by (elim exE conjE)
  obtain b where b: "check_model M_TSO os = Some b" "n_exec b = length (executions M_TSO os)"
    "n_uaf b = 0 \<longleftrightarrow> uaf_free M_TSO os"
    using check_model_verdict [of M_TSO os] by (elim exE conjE)
  obtain c where c: "check_model M_ARM os = Some c" "n_exec c = length (executions M_ARM os)"
    "n_uaf c = 0 \<longleftrightarrow> uaf_free M_ARM os"
    using check_model_verdict [of M_ARM os] by (elim exE conjE)
  have "(\<forall>m. uaf_free m os) \<longleftrightarrow> uaf_free M_SC os \<and> uaf_free M_TSO os \<and> uaf_free M_ARM os"
    by (metis model.exhaust)
  then have "list_ex (\<lambda>g. n_uaf g > 0) [a, b, c] \<longleftrightarrow>
      \<not> (announce os = SEQCST \<and> deref_ord os = SEQCST \<and> publish os = SEQCST \<and> scan os = SEQCST)"
    using safe_iff_seqcst [OF assms(2)] a(3) b(3) c(3) by auto
  then show ?thesis
    using assms a b c by (intro exI [of _ "[a, b, c]"]) (simp add: handshake_main_def)
qed

theorem handshake_main_answer_witness:
  "\<exists>gs. handshake_main [''--scan'', ''relaxed'', ''--trace''] = (0, Some (True, True, gs)) \<and>
    map n_exec gs = map (\<lambda>m. length (executions m (orders_h\<lparr>scan := RELAXED\<rparr>))) [M_SC, M_TSO, M_ARM]"
proof -
  have p: "parse_args [''--scan'', ''relaxed'', ''--trace''] False orders_h = Some (True, orders_h\<lparr>scan := RELAXED\<rparr>)"
    by code_simp
  have v: "valid_orders (orders_h\<lparr>scan := RELAXED\<rparr>)" by code_simp
  show ?thesis using handshake_main_answer [OF p v] by simp
qed

text \<open>The program on the repository's own \<open>orders.h\<close>: it exits with 0, finds no use after free, and
  explores 19, 26 and 105 executions on the three models.\<close>

lemma handshake_on_orders_h:
  "handshake_main [] = (0, Some (False, False,
     map (\<lambda>n. \<lparr>n_exec = n, n_uaf = 0, n_stuck = 0, first_uaf = None\<rparr>) [19, 26, 105]))"
  by code_simp

text \<open>The buffers and the trace never overflow: in every reachable state a store buffer holds at most
  two entries (there is room for four) and the trace at most sixteen lines (there is room for
  twenty-four), so no line of a trace is ever dropped.\<close>

lemma handshake_bounds:
  assumes "hs_reach m os s" and "t < 2"
  shows "length (buf s ! t) \<le> 2 \<and> length (trace s) \<le> 16"
proof -
  have g: "hs_inv m s" "length (trace s) + hs_left s \<le> 16"
    using hs.reach_inv [OF assms(1)] by (simp_all add: hs_good_def)
  obtain h q b0 b1 r w where s: "buf s = [b0, b1]" "seq_shape r b0 q" "head_shape w b1"
    using g(1) by (auto simp: hs_inv_def)
  have "length b1 \<le> 1" using s(3) by (auto simp: head_shape_def)
  moreover have "length b0 \<le> 2"
    using s(2) by (auto simp: seq_shape_def nstores_def dest!: arg_cong [where f = length] split: if_splits)
  ultimately have "length (buf s ! t) \<le> 2" using s(1) assms(2) by (cases t) auto
  then show ?thesis using g(2) by simp
qed

end
