(* ===== verification/Rcu.thy ===== *)
theory Rcu
  imports Prelude
begin

text \<open>
  The user-space RCU of \<open>week4/src/rcu.c\<close>: the registry of reader slots, the read-side sections and
  \<open>synchronize_rcu\<close>, one step per access to shared memory, interleaved sequentially consistently (what the
  orderings of \<open>orders.h\<close> add is the subject of \<open>Handshake\<close> and \<open>Rcu_Tso\<close>). Fields that only the holder of the registry
  lock or the owner of the slot touches (\<open>in_use\<close>, \<open>local_seq\<close>) are accessed together with the neighbouring
  shared access. A thread holds at most one reader, the result of its own \<open>rcu_register\<close>.
\<close>

section \<open>Data\<close>

abbreviation RCU_MAX_READERS :: nat where "RCU_MAX_READERS \<equiv> 64"

record rcu_reader =
  seq :: ulong \<comment> \<open>odd while inside a section\<close>
  reads :: ulong
  local_seq :: ulong
  in_use :: bool

text \<open>The entries of \<open>waiting\<close> in \<open>synchronize_rcu\<close>: the slot and the counter seen in it.\<close>

type_synonym waiting = "(nat \<times> ulong) list"

text \<open>Where a thread is: outside (\<open>Out\<close>), inside a section (\<open>Inside\<close>), or in one of the five calls.\<close>

datatype rpc =
    Out
  | RegLock | RegScan nat | RegSeq nat | RegReads nat | RegUnlock "nat option"
  | UnregLock | UnregClear | UnregUnlock
  | Inside
  | Leave \<comment> \<open>\<open>seq\<close> is even again, \<open>reads\<close> not yet counted\<close>
  | SyLock | SyScan nat waiting | SyUnlock waiting | SyCount waiting | SySpin nat ulong waiting | SyDone

text \<open>
  \<open>handle\<close> is the reader a thread got from \<open>rcu_register\<close>. Two ghost fields serve the statements only:
  \<open>sections\<close> counts the sections a thread has entered, and \<open>must_wait t\<close> holds the sections that were open
  when \<open>t\<close> called \<open>synchronize_rcu\<close>: for each thread that was inside one, the number of that section.
\<close>

record rcu =
  readers :: "nat \<Rightarrow> rcu_reader"
  registry :: "tid option"
  sync_waits :: ulong
  rpcs :: "tid \<Rightarrow> rpc"
  handle :: "tid \<Rightarrow> nat option"
  sections :: "tid \<Rightarrow> nat"
  must_wait :: "tid \<Rightarrow> tid \<Rightarrow> nat option"

definition rcu_start :: rcu where
  "rcu_start = \<lparr>readers = (\<lambda>_. \<lparr>seq = 0, reads = 0, local_seq = 0, in_use = False\<rparr>), registry = None,
     sync_waits = 0, rpcs = (\<lambda>_. Out), handle = (\<lambda>_. None), sections = (\<lambda>_. 0), must_wait = (\<lambda>_ _. None)\<rparr>"

section \<open>Steps\<close>

definition rgoto :: "tid \<Rightarrow> rpc \<Rightarrow> rcu \<Rightarrow> rcu" where
  "rgoto t p s = s\<lparr>rpcs := (rpcs s)(t := p)\<rparr>"

definition set_reader :: "nat \<Rightarrow> rcu_reader \<Rightarrow> rcu \<Rightarrow> rcu" where
  "set_reader i r s = s\<lparr>readers := (readers s)(i := r)\<rparr>"

text \<open>\<open>pthread_mutex_lock(&registry)\<close>: enabled when the lock is free.\<close>

definition lock_registry :: "tid \<Rightarrow> rpc \<Rightarrow> rcu \<Rightarrow> rcu option" where
  "lock_registry t p s = (if registry s = None then Some (rgoto t p (s\<lparr>registry := Some t\<rparr>)) else None)"

definition unlock_registry :: "tid \<Rightarrow> rpc \<Rightarrow> rcu \<Rightarrow> rcu" where
  "unlock_registry t p s = rgoto t p (s\<lparr>registry := None\<rparr>)"

definition inside :: "rcu \<Rightarrow> tid \<Rightarrow> bool" where
  "inside s t \<longleftrightarrow> rpcs s t = Inside"

definition open_sections :: "rcu \<Rightarrow> tid \<Rightarrow> nat option" where
  "open_sections s u = (if inside s u then Some (sections s u) else None)"

fun register_go :: "tid \<Rightarrow> rpc \<Rightarrow> rcu \<Rightarrow> rcu option" where
  "register_go t RegLock s = lock_registry t (RegScan 0) s"
| "register_go t (RegScan i) s = Some (
     if i = RCU_MAX_READERS then rgoto t (RegUnlock None) s
     else if in_use (readers s i) then rgoto t (RegScan (Suc i)) s
     else rgoto t (RegSeq i) (set_reader i ((readers s i)\<lparr>in_use := True, local_seq := 0\<rparr>) s))"
| "register_go t (RegSeq i) s = Some (rgoto t (RegReads i) (set_reader i ((readers s i)\<lparr>seq := 0\<rparr>) s))"
| "register_go t (RegReads i) s = Some (rgoto t (RegUnlock (Some i)) (set_reader i ((readers s i)\<lparr>reads := 0\<rparr>) s))"
| "register_go t (RegUnlock h) s = Some (unlock_registry t Out (s\<lparr>handle := (handle s)(t := h)\<rparr>))"
| "register_go t p s = None"

fun unregister_go :: "tid \<Rightarrow> rpc \<Rightarrow> rcu \<Rightarrow> rcu option" where
  "unregister_go t UnregLock s = lock_registry t UnregClear s"
| "unregister_go t UnregClear s = (case handle s t of None \<Rightarrow> None
     | Some i \<Rightarrow> Some (rgoto t UnregUnlock
         (set_reader i ((readers s i)\<lparr>in_use := False\<rparr>) (s\<lparr>handle := (handle s)(t := None)\<rparr>))))"
| "unregister_go t UnregUnlock s = Some (unlock_registry t Out s)"
| "unregister_go t p s = None"

definition read_lock :: "tid \<Rightarrow> nat \<Rightarrow> rcu \<Rightarrow> rcu" where
  "read_lock t i s =
     (let r = readers s i; nxt = local_seq r + 1 in
      rgoto t Inside (set_reader i (r\<lparr>local_seq := nxt, seq := nxt\<rparr>)
        (s\<lparr>sections := (sections s)(t := Suc (sections s t))\<rparr>)))"

definition read_unlock :: "tid \<Rightarrow> nat \<Rightarrow> rcu \<Rightarrow> rcu" where
  "read_unlock t i s =
     (let r = readers s i; nxt = local_seq r + 1 in
      rgoto t Leave (set_reader i (r\<lparr>local_seq := nxt, seq := nxt\<rparr>) s))"

definition count_read :: "tid \<Rightarrow> nat \<Rightarrow> rcu \<Rightarrow> rcu" where
  "count_read t i s = rgoto t Out (set_reader i ((readers s i)\<lparr>reads := reads (readers s i) + 1\<rparr>) s)"

fun sync_go :: "tid \<Rightarrow> rpc \<Rightarrow> rcu \<Rightarrow> rcu option" where
  "sync_go t SyLock s = lock_registry t (SyScan 0 []) s"
| "sync_go t (SyScan i w) s = Some (
     if i = RCU_MAX_READERS then rgoto t (SyUnlock w) s
     else if \<not> in_use (readers s i) then rgoto t (SyScan (Suc i) w) s
     else let q = seq (readers s i) in rgoto t (SyScan (Suc i) (if q mod 2 = 1 then w @ [(i, q)] else w)) s)"
| "sync_go t (SyUnlock w) s = Some (unlock_registry t (SyCount w) s)"
| "sync_go t (SyCount w) s = Some (case w of
       [] \<Rightarrow> rgoto t SyDone s
     | (i, q) # w' \<Rightarrow>
         if q mod 2 = 0 then rgoto t (SyCount w') s
         else rgoto t (SySpin i q w') (s\<lparr>sync_waits := sync_waits s + 1\<rparr>))"
| "sync_go t (SySpin i q w) s = Some (if seq (readers s i) = q then s else rgoto t (SyCount w) s)"
| "sync_go t SyDone s = Some (rgoto t Out s)"
| "sync_go t p s = None"

text \<open>
  What a thread can do: call one of the operations where \<open>rcu.h\<close> allows it (sections do not nest,
  \<open>synchronize_rcu\<close> and \<open>rcu_unregister\<close> are called from outside a section), or go on inside a call.
\<close>

datatype ract = Register | Unregister | ReadLock | ReadUnlock | Synchronize | RGo

fun rcu_step :: "tid \<times> ract \<Rightarrow> rcu \<Rightarrow> rcu option" where
  "rcu_step (t, Register) s =
     (if rpcs s t = Out \<and> handle s t = None then Some (rgoto t RegLock s) else None)"
| "rcu_step (t, Unregister) s =
     (if rpcs s t = Out \<and> handle s t \<noteq> None then Some (rgoto t UnregLock s) else None)"
| "rcu_step (t, ReadLock) s =
     (case (rpcs s t, handle s t) of (Out, Some i) \<Rightarrow> Some (read_lock t i s) | _ \<Rightarrow> None)"
| "rcu_step (t, ReadUnlock) s =
     (case (rpcs s t, handle s t) of (Inside, Some i) \<Rightarrow> Some (read_unlock t i s) | _ \<Rightarrow> None)"
| "rcu_step (t, Synchronize) s =
     (if rpcs s t = Out
      then Some (rgoto t SyLock (s\<lparr>must_wait := (must_wait s)(t := open_sections s)\<rparr>)) else None)"
| "rcu_step (t, RGo) s =
     (case (rpcs s t, handle s t) of
        (Leave, Some i) \<Rightarrow> Some (count_read t i s)
      | (p, _) \<Rightarrow> (case register_go t p s of Some s' \<Rightarrow> Some s'
          | None \<Rightarrow> (case unregister_go t p s of Some s' \<Rightarrow> Some s' | None \<Rightarrow> sync_go t p s)))"

definition rcu_sync_waits :: "rcu \<Rightarrow> ulong" where
  "rcu_sync_waits s = sync_waits s"

end
