(* ===== verification/Rcu_Inv.thy ===== *)
theory Rcu_Inv
  imports Rcu
begin

text \<open>
  The invariant of the RCU registry: who owns a slot, what its counter says about the owner, who holds the
  lock, and which sections a running \<open>synchronize_rcu\<close> still has to wait for.
\<close>

section \<open>The invariant\<close>

text \<open>The slot a thread owns: its handle, or the slot \<open>rcu_register\<close> has taken for it.\<close>

fun owned :: "rpc \<Rightarrow> nat option \<Rightarrow> nat option" where
  "owned (RegSeq i) h = Some i"
| "owned (RegReads i) h = Some i"
| "owned (RegUnlock r) h = r"
| "owned p h = h"

abbreviation owns :: "rcu \<Rightarrow> tid \<Rightarrow> nat option" where
  "owns s t \<equiv> owned (rpcs s t) (handle s t)"

fun holds_lock :: "rpc \<Rightarrow> bool" where
  "holds_lock (RegScan i) = True" | "holds_lock (RegSeq i) = True" | "holds_lock (RegReads i) = True"
| "holds_lock (RegUnlock h) = True" | "holds_lock UnregClear = True" | "holds_lock UnregUnlock = True"
| "holds_lock (SyScan i w) = True" | "holds_lock (SyUnlock w) = True" | "holds_lock p = False"

definition slot_ok :: "rpc \<Rightarrow> nat \<Rightarrow> rcu_reader \<Rightarrow> bool" where
  "slot_ok p i r \<longleftrightarrow> i < RCU_MAX_READERS \<and> in_use r \<and>
     local_seq r = (if p = RegSeq i then 0 else seq r) \<and> (odd (seq r) \<longleftrightarrow> p = Inside)"

definition all_used :: "(nat \<Rightarrow> rcu_reader) \<Rightarrow> nat \<Rightarrow> bool" where
  "all_used rs n \<longleftrightarrow> n \<le> RCU_MAX_READERS \<and> (\<forall>j<n. in_use (rs j))"

fun pc_ok :: "(nat \<Rightarrow> rcu_reader) \<Rightarrow> nat option \<Rightarrow> rpc \<Rightarrow> bool" where
  "pc_ok rs h Inside \<longleftrightarrow> h \<noteq> None"
| "pc_ok rs h Leave \<longleftrightarrow> h \<noteq> None"
| "pc_ok rs h UnregLock \<longleftrightarrow> h \<noteq> None"
| "pc_ok rs h UnregClear \<longleftrightarrow> h \<noteq> None"
| "pc_ok rs h UnregUnlock \<longleftrightarrow> h = None"
| "pc_ok rs h RegLock \<longleftrightarrow> h = None"
| "pc_ok rs h (RegScan i) \<longleftrightarrow> h = None \<and> all_used rs i"
| "pc_ok rs h (RegSeq i) \<longleftrightarrow> h = None"
| "pc_ok rs h (RegReads i) \<longleftrightarrow> h = None"
| "pc_ok rs h (RegUnlock r) \<longleftrightarrow> h = None \<and> (r = None \<longrightarrow> all_used rs RCU_MAX_READERS)"
| "pc_ok rs h (SyScan i w) \<longleftrightarrow> i \<le> RCU_MAX_READERS \<and> (\<forall>(j, q)\<in>set w. odd q)"
| "pc_ok rs h (SyUnlock w) \<longleftrightarrow> (\<forall>(j, q)\<in>set w. odd q)"
| "pc_ok rs h (SyCount w) \<longleftrightarrow> (\<forall>(j, q)\<in>set w. odd q)"
| "pc_ok rs h (SySpin i q w) \<longleftrightarrow> odd q \<and> (\<forall>(j, q)\<in>set w. odd q)"
| "pc_ok rs h p \<longleftrightarrow> True"

text \<open>Whether \<open>synchronize_rcu\<close>, at a program point, is still going to wait for a slot and a counter.\<close>

fun covered :: "rpc \<Rightarrow> nat \<Rightarrow> ulong \<Rightarrow> bool" where
  "covered (SyScan i w) j q \<longleftrightarrow> i \<le> j \<or> (j, q) \<in> set w"
| "covered (SyUnlock w) j q \<longleftrightarrow> (j, q) \<in> set w"
| "covered (SyCount w) j q \<longleftrightarrow> (j, q) \<in> set w"
| "covered (SySpin i p w) j q \<longleftrightarrow> (j, q) = (i, p) \<or> (j, q) \<in> set w"
| "covered SyDone j q \<longleftrightarrow> False"
| "covered p j q \<longleftrightarrow> True"

definition must_ok :: "rcu \<Rightarrow> tid \<Rightarrow> bool" where
  "must_ok s t \<longleftrightarrow> (\<forall>u n. must_wait s t u = Some n \<longrightarrow> n \<le> sections s u \<and>
     (inside s u \<longrightarrow> sections s u = n \<longrightarrow> (\<forall>j. handle s u = Some j \<longrightarrow> covered (rpcs s t) j (seq (readers s j)))))"

definition slots_ok :: "rcu \<Rightarrow> bool" where
  "slots_ok s \<longleftrightarrow> separate (owns s) \<and> (\<forall>t i. owns s t = Some i \<longrightarrow> slot_ok (rpcs s t) i (readers s i)) \<and>
     (\<forall>i. odd (seq (readers s i)) \<longrightarrow> (\<exists>t. inside s t \<and> handle s t = Some i))"

definition lock_ok :: "rcu \<Rightarrow> bool" where
  "lock_ok s \<longleftrightarrow> (\<forall>t. registry s = Some t \<longleftrightarrow> holds_lock (rpcs s t))"

definition rcu_inv :: "rcu \<Rightarrow> bool" where
  "rcu_inv s \<longleftrightarrow> slots_ok s \<and> lock_ok s \<and> (\<forall>t. pc_ok (readers s) (handle s t) (rpcs s t)) \<and> (\<forall>t. must_ok s t)"

lemmas rcu_updates = rgoto_def set_reader_def lock_registry_def unlock_registry_def read_lock_def read_unlock_def
  count_read_def Let_def

lemma rcu_inv_start: "rcu_inv rcu_start"
  by (simp add: rcu_inv_def slots_ok_def lock_ok_def must_ok_def rcu_start_def separate_def)

section \<open>The moves\<close>

text \<open>The steps once more, one rule per branch of the code: what a proof about all steps has to look at.\<close>

inductive rcu_move :: "tid \<Rightarrow> rcu \<Rightarrow> rcu \<Rightarrow> bool" for t s where
  reg: "rpcs s t = Out \<Longrightarrow> handle s t = None \<Longrightarrow> rcu_move t s (rgoto t RegLock s)"
| unreg: "rpcs s t = Out \<Longrightarrow> handle s t = Some i \<Longrightarrow> rcu_move t s (rgoto t UnregLock s)"
| lock: "rpcs s t = Out \<Longrightarrow> handle s t = Some i \<Longrightarrow> rcu_move t s (read_lock t i s)"
| unlock: "rpcs s t = Inside \<Longrightarrow> handle s t = Some i \<Longrightarrow> rcu_move t s (read_unlock t i s)"
| sync: "rpcs s t = Out \<Longrightarrow>
    rcu_move t s (rgoto t SyLock (s\<lparr>must_wait := (must_wait s)(t := open_sections s)\<rparr>))"
| leave: "rpcs s t = Leave \<Longrightarrow> handle s t = Some i \<Longrightarrow> rcu_move t s (count_read t i s)"
| reg_lock: "rpcs s t = RegLock \<Longrightarrow> registry s = None \<Longrightarrow> rcu_move t s (rgoto t (RegScan 0) (s\<lparr>registry := Some t\<rparr>))"
| reg_full: "rpcs s t = RegScan RCU_MAX_READERS \<Longrightarrow> rcu_move t s (rgoto t (RegUnlock None) s)"
| reg_next: "rpcs s t = RegScan i \<Longrightarrow> i \<noteq> RCU_MAX_READERS \<Longrightarrow> in_use (readers s i) \<Longrightarrow>
    rcu_move t s (rgoto t (RegScan (Suc i)) s)"
| reg_take: "rpcs s t = RegScan i \<Longrightarrow> i \<noteq> RCU_MAX_READERS \<Longrightarrow> \<not> in_use (readers s i) \<Longrightarrow>
    rcu_move t s (rgoto t (RegSeq i) (set_reader i ((readers s i)\<lparr>in_use := True, local_seq := 0\<rparr>) s))"
| reg_seq: "rpcs s t = RegSeq i \<Longrightarrow>
    rcu_move t s (rgoto t (RegReads i) (set_reader i ((readers s i)\<lparr>seq := 0\<rparr>) s))"
| reg_reads: "rpcs s t = RegReads i \<Longrightarrow>
    rcu_move t s (rgoto t (RegUnlock (Some i)) (set_reader i ((readers s i)\<lparr>reads := 0\<rparr>) s))"
| reg_unlock: "rpcs s t = RegUnlock h \<Longrightarrow>
    rcu_move t s (unlock_registry t Out (s\<lparr>handle := (handle s)(t := h)\<rparr>))"
| unreg_lock: "rpcs s t = UnregLock \<Longrightarrow> registry s = None \<Longrightarrow>
    rcu_move t s (rgoto t UnregClear (s\<lparr>registry := Some t\<rparr>))"
| unreg_clear: "rpcs s t = UnregClear \<Longrightarrow> handle s t = Some i \<Longrightarrow> rcu_move t s (rgoto t UnregUnlock
    (set_reader i ((readers s i)\<lparr>in_use := False\<rparr>) (s\<lparr>handle := (handle s)(t := None)\<rparr>)))"
| unreg_unlock: "rpcs s t = UnregUnlock \<Longrightarrow> rcu_move t s (unlock_registry t Out s)"
| sy_lock: "rpcs s t = SyLock \<Longrightarrow> registry s = None \<Longrightarrow>
    rcu_move t s (rgoto t (SyScan 0 []) (s\<lparr>registry := Some t\<rparr>))"
| sy_end: "rpcs s t = SyScan RCU_MAX_READERS w \<Longrightarrow> rcu_move t s (rgoto t (SyUnlock w) s)"
| sy_skip: "rpcs s t = SyScan i w \<Longrightarrow> i \<noteq> RCU_MAX_READERS \<Longrightarrow> \<not> in_use (readers s i) \<or> even (seq (readers s i)) \<Longrightarrow>
    rcu_move t s (rgoto t (SyScan (Suc i) w) s)"
| sy_odd: "rpcs s t = SyScan i w \<Longrightarrow> i \<noteq> RCU_MAX_READERS \<Longrightarrow> in_use (readers s i) \<Longrightarrow> odd (seq (readers s i)) \<Longrightarrow>
    rcu_move t s (rgoto t (SyScan (Suc i) (w @ [(i, seq (readers s i))])) s)"
| sy_unlock: "rpcs s t = SyUnlock w \<Longrightarrow> rcu_move t s (unlock_registry t (SyCount w) s)"
| sy_done: "rpcs s t = SyCount [] \<Longrightarrow> rcu_move t s (rgoto t SyDone s)"
| sy_even: "rpcs s t = SyCount ((i, q) # w) \<Longrightarrow> even q \<Longrightarrow> rcu_move t s (rgoto t (SyCount w) s)"
| sy_count: "rpcs s t = SyCount ((i, q) # w) \<Longrightarrow> odd q \<Longrightarrow>
    rcu_move t s (rgoto t (SySpin i q w) (s\<lparr>sync_waits := sync_waits s + 1\<rparr>))"
| sy_stay: "rpcs s t = SySpin i q w \<Longrightarrow> seq (readers s i) = q \<Longrightarrow> rcu_move t s s"
| sy_next: "rpcs s t = SySpin i q w \<Longrightarrow> seq (readers s i) \<noteq> q \<Longrightarrow> rcu_move t s (rgoto t (SyCount w) s)"
| sy_return: "rpcs s t = SyDone \<Longrightarrow> rcu_move t s (rgoto t Out s)"

lemma register_move:
  assumes "register_go t (rpcs s t) s = Some s'"
  shows "rcu_move t s s'"
proof (cases "rpcs s t")
  case RegLock
  then show ?thesis using assms reg_lock by (auto simp: lock_registry_def split: if_splits)
next
  case (RegScan i)
  then show ?thesis using assms reg_full reg_next reg_take by (auto split: if_splits)
qed (use assms in \<open>auto intro: rcu_move.intros\<close>)

lemma unregister_move:
  assumes "unregister_go t (rpcs s t) s = Some s'"
  shows "rcu_move t s s'"
proof (cases "rpcs s t")
  case UnregLock
  then show ?thesis using assms unreg_lock by (auto simp: lock_registry_def split: if_splits)
next
  case UnregClear
  then show ?thesis using assms unreg_clear by (auto split: option.splits)
qed (use assms in \<open>auto intro: rcu_move.intros\<close>)

lemma sync_move:
  assumes "sync_go t (rpcs s t) s = Some s'"
  shows "rcu_move t s s'"
proof (cases "rpcs s t")
  case SyLock
  then show ?thesis using assms sy_lock by (auto simp: lock_registry_def split: if_splits)
next
  case (SyScan i w)
  then show ?thesis
    using assms sy_end sy_skip [OF SyScan] sy_odd [OF SyScan]
    by (auto simp: Let_def odd_iff_mod_2_eq_one split: if_splits)
next
  case (SyCount w)
  show ?thesis
  proof (cases w)
    case Nil
    then show ?thesis using assms SyCount sy_done by auto
  next
    case (Cons x w')
    obtain i q where x: "x = (i, q)" by (cases x)
    show ?thesis
      using assms SyCount Cons x sy_even [of s t i q w'] sy_count [of s t i q w']
      by (auto simp: even_iff_mod_2_eq_zero split: if_splits)
  qed
next
  case (SySpin i q w)
  then show ?thesis using assms sy_stay sy_next by (auto split: if_splits)
qed (use assms in \<open>auto intro: rcu_move.intros\<close>)

lemma rcu_step_move:
  assumes "rcu_step (t, a) s = Some s'"
  shows "rcu_move t s s'"
proof (cases a)
  case RGo
  show ?thesis
  proof (cases "rpcs s t = Leave \<and> handle s t \<noteq> None")
    case True
    then show ?thesis using assms RGo leave by auto
  next
    case False
    then have "register_go t (rpcs s t) s = Some s' \<or> unregister_go t (rpcs s t) s = Some s' \<or>
        sync_go t (rpcs s t) s = Some s'"
      using assms RGo by (cases "rpcs s t") (auto split: option.splits)
    then show ?thesis using register_move unregister_move sync_move by blast
  qed
qed (use assms in \<open>auto split: if_splits option.splits rpc.splits intro: rcu_move.intros\<close>)

section \<open>Every move keeps the invariant\<close>

text \<open>The lock excludes: no other thread is between lock and unlock.\<close>

lemma lock_excl: "lock_ok s \<Longrightarrow> holds_lock (rpcs s t) \<Longrightarrow> u \<noteq> t \<Longrightarrow> \<not> holds_lock (rpcs s u)"
  unfolding lock_ok_def by (metis option.inject)

lemma lock_ok_move: "rcu_move t s s' \<Longrightarrow> lock_ok s \<Longrightarrow> lock_ok s'"
proof (induction rule: rcu_move.induct)
  case (reg_unlock h)
  then show ?case using lock_excl [of s t] by (auto simp: rcu_updates lock_ok_def)
next
  case unreg_unlock
  then show ?case using lock_excl [of s t] by (auto simp: rcu_updates lock_ok_def)
next
  case (sy_unlock w)
  then show ?case using lock_excl [of s t] by (auto simp: rcu_updates lock_ok_def)
qed (auto simp: rcu_updates lock_ok_def)

text \<open>
  A move of \<open>t\<close> that gives it program point \<open>p\<close>, handle \<open>h\<close> and, at most, a new content \<open>r\<close> of one slot
  \<open>i\<close>, its own or a free one: what has to be shown of \<open>t\<close> alone.
\<close>

lemma slots_ok_upd:
  assumes ok: "slots_ok s"
    and eqs: "rpcs s' = (rpcs s)(t := p)" "handle s' = (handle s)(t := h)" "readers s' = (readers s)(i := r)"
    and own: "owned p h = owns s t \<or> owned p h = None \<or> owned p h = Some i \<and> \<not> in_use (readers s i)"
    and slot: "\<And>j. owned p h = Some j \<Longrightarrow> slot_ok p j (if j = i then r else readers s j)"
    and mine: "r = readers s i \<or> owns s t = Some i \<or> \<not> in_use (readers s i)"
    and odd: "odd (seq r) \<Longrightarrow> p = Inside \<and> h = Some i \<or> r = readers s i \<and> rpcs s t \<noteq> Inside"
    and out: "rpcs s t = Inside \<Longrightarrow> handle s t = Some i"
  shows "slots_ok s'"
proof -
  have sep: "separate (owns s)" and so: "\<And>u j. owns s u = Some j \<Longrightarrow> slot_ok (rpcs s u) j (readers s j)"
    and od: "\<And>j. odd (seq (readers s j)) \<Longrightarrow> \<exists>u. inside s u \<and> handle s u = Some j"
    using ok by (auto simp: slots_ok_def)
  have owns': "owns s' = (owns s)(t := owned p h)" using eqs by auto
  have other: "j \<noteq> i" if "owns s u = Some j" "u \<noteq> t" "\<not> in_use (readers s i) \<or> owns s t = Some i" for u j
    using so [OF that(1)] owned_other [OF sep, of t i u] that by (auto simp: slot_ok_def)
  have "separate (owns s')"
  proof (cases "owned p h = owns s t \<or> owned p h = None")
    case True
    then show ?thesis unfolding owns' by (intro separate_sub [OF sep]) auto
  next
    case False
    then have i: "owned p h = Some i" "\<not> in_use (readers s i)" using own by auto
    then have "owns s u \<noteq> Some i" for u using so [of u i] by (auto simp: slot_ok_def)
    then show ?thesis unfolding owns' i(1) by (intro separate_new [OF sep])
  qed
  moreover have "slot_ok (rpcs s' u) j (readers s' j)" if u: "owns s' u = Some j" for u j
  proof (cases "u = t")
    case True
    then show ?thesis using slot [of j] u eqs by auto
  next
    case False
    then have "owns s u = Some j" using u fun_cong [OF owns', of u] by simp
    moreover from this False have "j = i \<longrightarrow> r = readers s i" using other mine by blast
    ultimately show ?thesis using so [of u j] False eqs by auto
  qed
  moreover have "\<exists>u. inside s' u \<and> handle s' u = Some j" if j: "odd (seq (readers s' j))" for j
  proof (cases "j = i \<and> p = Inside \<and> h = Some i")
    case True
    then show ?thesis using eqs by (intro exI [of _ t]) (simp add: inside_def)
  next
    case False
    then have j': "odd (seq (readers s j))" "rpcs s t \<noteq> Inside \<or> j \<noteq> i"
      using j odd eqs by (auto split: if_splits)
    then obtain u where u: "inside s u" "handle s u = Some j" using od by blast
    then have "u \<noteq> t" using j'(2) out by (auto simp: inside_def)
    then show ?thesis using u eqs by (intro exI [of _ u]) (simp add: inside_def)
  qed
  ultimately show ?thesis unfolding slots_ok_def by blast
qed

text \<open>Most moves change the program point only, between points at which the slot means the same.\<close>

fun slot_point :: "rpc \<Rightarrow> bool" where
  "slot_point Inside = True" | "slot_point (RegSeq i) = True" | "slot_point p = False"

lemma slot_ok_point:
  "slot_ok q j r \<Longrightarrow> \<not> slot_point p \<Longrightarrow> \<not> slot_point q \<Longrightarrow> slot_ok p j r"
  by (cases p; cases q) (auto simp: slot_ok_def)

lemma slots_ok_pc:
  assumes ok: "slots_ok s"
    and eqs: "rpcs s' = (rpcs s)(t := p)" "handle s' = (handle s)(t := h)" "readers s' = readers s"
    and own: "owned p h = owns s t \<or> owned p h = None"
    and points: "\<not> slot_point p" "\<not> slot_point (rpcs s t)"
  shows "slots_ok s'"
proof (rule slots_ok_upd [OF ok eqs(1,2), where i = 0 and r = "readers s 0"])
  show "slot_ok p j (if j = 0 then readers s 0 else readers s j)" if "owned p h = Some j" for j
  proof -
    have "slot_ok (rpcs s t) j (readers s j)" using ok own that by (auto simp: slots_ok_def)
    then show ?thesis using slot_ok_point points by auto
  qed
qed (use own eqs(3) points in auto)

lemma slots_okD: "slots_ok s \<Longrightarrow> owns s t = Some i \<Longrightarrow> slot_ok (rpcs s t) i (readers s i)"
  by (simp add: slots_ok_def)

lemma slots_ok_move:
  assumes move: "rcu_move t s s'" and ok: "slots_ok s" and pc: "pc_ok (readers s) (handle s t) (rpcs s t)"
  shows "slots_ok s'"
  using move
proof cases
  case (lock i)
  then have "slot_ok Out i (readers s i)" using slots_okD [OF ok, of t i] by simp
  then show ?thesis
    by (intro slots_ok_upd [OF ok, of s' t Inside "Some i" i "readers s' i"]) (use lock in \<open>auto simp: rcu_updates slot_ok_def\<close>)
next
  case (unlock i)
  then have "slot_ok Inside i (readers s i)" using slots_okD [OF ok, of t i] by simp
  then show ?thesis
    by (intro slots_ok_upd [OF ok, of s' t Leave "Some i" i "readers s' i"]) (use unlock in \<open>auto simp: rcu_updates slot_ok_def\<close>)
next
  case (leave i)
  then have "slot_ok Leave i (readers s i)" using slots_okD [OF ok, of t i] by simp
  then show ?thesis
    by (intro slots_ok_upd [OF ok, of s' t Out "Some i" i "readers s' i"]) (use leave in \<open>auto simp: rcu_updates slot_ok_def\<close>)
next
  case (reg_take i)
  have ev: "even (seq (readers s i))"
  proof (rule ccontr)
    assume "\<not> even (seq (readers s i))"
    then obtain u where "inside s u" "handle s u = Some i" using ok by (auto simp: slots_ok_def)
    then show False using slots_okD [OF ok, of u i] reg_take by (simp add: inside_def slot_ok_def)
  qed
  have "i < RCU_MAX_READERS" using pc reg_take by (simp add: all_used_def)
  then show ?thesis
    by (intro slots_ok_upd [OF ok, of s' t "RegSeq i" "handle s t" i "readers s' i"])
      (use reg_take ev in \<open>auto simp: rcu_updates slot_ok_def\<close>)
next
  case (reg_seq i)
  then have "slot_ok (RegSeq i) i (readers s i)" using slots_okD [OF ok, of t i] by simp
  then show ?thesis
    by (intro slots_ok_upd [OF ok, of s' t "RegReads i" "handle s t" i "readers s' i"])
      (use reg_seq in \<open>auto simp: rcu_updates slot_ok_def\<close>)
next
  case (reg_reads i)
  then have "slot_ok (RegReads i) i (readers s i)" using slots_okD [OF ok, of t i] by simp
  then show ?thesis
    by (intro slots_ok_upd [OF ok, of s' t "RegUnlock (Some i)" "handle s t" i "readers s' i"])
      (use reg_reads in \<open>auto simp: rcu_updates slot_ok_def\<close>)
next
  case (unreg_clear i)
  then have "slot_ok UnregClear i (readers s i)" using slots_okD [OF ok, of t i] by simp
  then show ?thesis
    by (intro slots_ok_upd [OF ok, of s' t UnregUnlock None i "readers s' i"])
      (use unreg_clear in \<open>auto simp: rcu_updates slot_ok_def\<close>)
next
  case (reg_unlock h)
  then show ?thesis by (intro slots_ok_pc [OF ok, of s' t Out h]) (auto simp: rcu_updates)
next
  case sy_stay
  then show ?thesis using ok by simp
qed (rule slots_ok_pc [OF ok, where t = t and h = "handle s t"], use pc in \<open>auto simp: rcu_updates\<close>)+

lemma all_used_upd: "all_used rs n \<Longrightarrow> in_use r \<or> n \<le> i \<Longrightarrow> all_used (rs(i := r)) n"
  by (auto simp: all_used_def)

lemma pc_ok_mono: "pc_ok rs h p \<Longrightarrow> (\<And>n. all_used rs n \<Longrightarrow> all_used rs' n) \<Longrightarrow> pc_ok rs' h p"
  by (cases p) auto

lemma pc_ok_nolock: "pc_ok rs h p \<Longrightarrow> \<not> holds_lock p \<Longrightarrow> pc_ok rs' h p"
  by (cases p) auto

text \<open>Only the holder of the registry lock takes or releases a slot.\<close>

lemma in_use_move:
  assumes "rcu_move t s s'" and "\<not> holds_lock (rpcs s t)"
  shows "in_use (readers s' i) = in_use (readers s i)"
  using assms by cases (auto simp: rcu_updates)

lemma pc_ok_mine:
  assumes "rcu_move t s s'" and "pc_ok (readers s) (handle s t) (rpcs s t)"
  shows "pc_ok (readers s') (handle s' t) (rpcs s' t)"
  using assms
  by cases (auto simp: rcu_updates all_used_def less_Suc_eq)

lemma move_other: "rcu_move t s s' \<Longrightarrow> u \<noteq> t \<Longrightarrow> rpcs s' u = rpcs s u \<and> handle s' u = handle s u \<and>
    sections s' u = sections s u \<and> must_wait s' u = must_wait s u"
  by (induction rule: rcu_move.induct) (auto simp: rcu_updates)

lemma pc_ok_move:
  assumes move: "rcu_move t s s'" and lk: "lock_ok s" and pc: "\<And>u. pc_ok (readers s) (handle s u) (rpcs s u)"
  shows "pc_ok (readers s') (handle s' u) (rpcs s' u)"
proof (cases "u = t")
  case True
  then show ?thesis using pc_ok_mine [OF move pc] by simp
next
  case False
  then have u: "rpcs s' u = rpcs s u" "handle s' u = handle s u" using move_other [OF move] by auto
  show ?thesis
  proof (cases "holds_lock (rpcs s t)")
    case True
    then have "\<not> holds_lock (rpcs s u)" using lock_excl [OF lk] False by blast
    then show ?thesis using pc_ok_nolock [OF pc] u by simp
  next
    case nolock: False
    have "all_used (readers s') n" if "all_used (readers s) n" for n
      using that in_use_move [OF move nolock] by (simp add: all_used_def)
    then show ?thesis using pc_ok_mono [OF pc [of u]] u by simp
  qed
qed

section \<open>The sections to wait for\<close>

lemma inside_owns: "inside s u \<Longrightarrow> handle s u = Some j \<Longrightarrow> owns s u = Some j"
  by (simp add: inside_def)

text \<open>A counter is stored by the owner of the slot only, so a reader inside keeps its counter.\<close>

lemma seq_move:
  assumes move: "rcu_move t s s'" and ok: "slots_ok s" and u: "inside s u" "handle s u = Some j" "u \<noteq> t"
  shows "seq (readers s' j) = seq (readers s j)"
proof -
  have sep: "separate (owns s)" using ok by (simp add: slots_ok_def)
  have ne: "owns s t \<noteq> Some j" by (rule owned_other [OF sep inside_owns [OF u(1,2)]]) (use u(3) in simp)
  show ?thesis using move
  proof cases
    case (lock i) then show ?thesis using ne by (auto simp: rcu_updates)
  next
    case (unlock i) then show ?thesis using ne by (auto simp: rcu_updates)
  next
    case (reg_seq i) then show ?thesis using ne by (auto simp: rcu_updates)
  qed (auto simp: rcu_updates)
qed

lemma slots_covered_move:
  assumes move: "rcu_move t s s'" and ok: "slots_ok s" and u: "inside s u" "handle s u = Some j" "u \<noteq> t"
    and cov: "covered (rpcs s t) j (seq (readers s j))"
  shows "covered (rpcs s' t) j (seq (readers s' j))"
proof -
  have j: "j < RCU_MAX_READERS" "in_use (readers s j)" "odd (seq (readers s j))"
    using slots_okD [OF ok inside_owns [OF u(1,2)]] u(1) by (auto simp: slot_ok_def inside_def)
  have le: "i \<le> j \<Longrightarrow> i \<noteq> j \<Longrightarrow> Suc i \<le> j" for i by simp
  show ?thesis
    using move cov j unfolding seq_move [OF move ok u]
    by cases (auto simp: rcu_updates intro: le)
qed

lemma becomes_inside:
  assumes "rcu_move t s s'" and "inside s' t"
  shows "sections s' t = Suc (sections s t) \<or> s' = s"
  using assms by cases (auto simp: rcu_updates inside_def)

lemma sections_move: "rcu_move t s s' \<Longrightarrow> sections s u \<le> sections s' u"
  by (induction rule: rcu_move.induct) (auto simp: rcu_updates)

lemma must_wait_move:
  assumes "rcu_move t s s'" and "must_wait s' v u = Some n"
  shows "must_wait s v u = Some n \<or> (v = t \<and> n = sections s u \<and> rpcs s' t = SyLock)"
  using assms by cases (auto simp: rcu_updates open_sections_def split: if_splits)

lemma must_ok_move:
  assumes move: "rcu_move t s s'" and ok: "slots_ok s" and must: "\<And>v. must_ok s v"
  shows "must_ok s' v"
  unfolding must_ok_def
proof (intro allI impI conjI)
  fix u n
  assume un: "must_wait s' v u = Some n"
  have old: "n \<le> sections s u"
    using must_wait_move [OF move un] must [of v] by (auto simp: must_ok_def)
  then show "n \<le> sections s' u" using sections_move [OF move, of u] by simp
  fix j
  assume u: "inside s' u" "sections s' u = n" "handle s' u = Some j"
  show "covered (rpcs s' v) j (seq (readers s' j))"
  proof (cases "s' = s")
    case True
    then show ?thesis using must [of v] un u by (auto simp: must_ok_def)
  next
    case False
    have ut: "u \<noteq> t" using becomes_inside [OF move] u old False by auto
    then have us: "inside s u" "sections s u = n" "handle s u = Some j"
      using move_other [OF move ut] u by (auto simp: inside_def)
    show ?thesis
    proof (cases "must_wait s v u = Some n")
      case True
      then have cov: "covered (rpcs s v) j (seq (readers s j))" using must [of v] us by (auto simp: must_ok_def)
      show ?thesis
      proof (cases "v = t")
        case True
        then show ?thesis using slots_covered_move [OF move ok us(1,3) ut] cov by simp
      next
        case False
        then show ?thesis using move_other [OF move False] seq_move [OF move ok us(1,3) ut] cov by simp
      qed
    next
      case False
      then show ?thesis using must_wait_move [OF move un] by auto
    qed
  qed
qed

lemma rcu_inv_move: "rcu_move t s s' \<Longrightarrow> rcu_inv s \<Longrightarrow> rcu_inv s'"
  unfolding rcu_inv_def using slots_ok_move lock_ok_move pc_ok_move must_ok_move by blast

definition rcu_init :: "rcu \<Rightarrow> bool" where
  "rcu_init s \<longleftrightarrow> s = rcu_start"

lemma rcu_inv_step: "rcu_step l s = Some s' \<Longrightarrow> rcu_inv s \<Longrightarrow> rcu_inv s'"
  using rcu_step_move rcu_inv_move by (cases l) blast

interpretation rcu: inductive_invariant rcu_init "step_of rcu_step" rcu_inv
  by standard (auto simp: rcu_init_def rcu_inv_start rcu_inv_step)

end
