(* ===== verification/Rcu_Thms.thy ===== *)
theory Rcu_Thms
  imports Rcu_Inv
begin

text \<open>
  What \<open>rcu.h\<close> promises: registered readers have slots of their own whose counters say who is inside,
  \<open>synchronize_rcu\<close> returns only after a grace period, no thread is stuck for good, and a grace period that
  meets no reader ends. And what it does not promise: a slot that is given out again can prolong the wait.
\<close>

section \<open>Runs\<close>

abbreviation rcu_reach :: "rcu \<Rightarrow> bool" where
  "rcu_reach \<equiv> reach rcu_init (step_of rcu_step)"

abbreviation go :: "nat \<Rightarrow> tid \<Rightarrow> (tid \<times> ract) list" where
  "go n t \<equiv> replicate n (t, RGo)"

text \<open>\<open>rcu_register\<close> by the first thread that asks, and a reader that enters while another thread waits for it.\<close>

definition run_register :: "tid \<Rightarrow> (tid \<times> ract) list" where
  "run_register t = (t, Register) # go 5 t"

definition run_wait :: "(tid \<times> ract) list" where
  "run_wait = run_register 0 @ [(0, ReadLock), (1, Synchronize)] @ go 68 1"

definition run_grace :: "(tid \<times> ract) list" where
  "run_grace = run_wait @ [(0, ReadUnlock)] @ go 2 1"

definition run_reuse :: "(tid \<times> ract) list" where
  "run_reuse = run_wait @ [(0, ReadUnlock), (0, RGo), (0, Unregister)] @ go 3 0 @ run_register 2 @ [(2, ReadLock)]"

text \<open>A thread moves on: its next step takes it to another program point.\<close>

definition moves :: "tid \<Rightarrow> rcu \<Rightarrow> bool" where
  "moves t s \<longleftrightarrow> (\<exists>s'. rcu_step (t, RGo) s = Some s' \<and> rpcs s' t \<noteq> rpcs s t)"

fun at_lock :: "rpc \<Rightarrow> bool" where
  "at_lock RegLock = True" | "at_lock UnregLock = True" | "at_lock SyLock = True" | "at_lock p = False"

lemma list_neq_cons: "w \<noteq> x # w" "x # w \<noteq> w"
  by (metis length_Cons n_not_Suc_n)+

lemma moves_unless_waiting:
  assumes pc: "pc_ok (readers s) (handle s t) (rpcs s t)" and call: "rpcs s t \<noteq> Out" "rpcs s t \<noteq> Inside"
    and free: "at_lock (rpcs s t) \<Longrightarrow> registry s = None"
    and spin: "\<And>i q w. rpcs s t = SySpin i q w \<Longrightarrow> seq (readers s i) \<noteq> q"
  shows "moves t s"
proof (cases "rpcs s t")
  case (SyCount w)
  then show ?thesis by (cases w) (auto simp: moves_def rcu_updates list_neq_cons split: if_splits)
qed (use assms in \<open>auto simp: moves_def rcu_updates\<close>)

lemma holder_moves:
  assumes "rcu_inv s" and "registry s = Some u"
  shows "moves u s"
proof -
  have h: "holds_lock (rpcs s u)" using assms unfolding rcu_inv_def lock_ok_def by blast
  have pc: "pc_ok (readers s) (handle s u) (rpcs s u)" using assms by (simp add: rcu_inv_def)
  show ?thesis by (rule moves_unless_waiting [OF pc]) (use h in \<open>cases "rpcs s u"; simp\<close>)+
qed

lemma spinner_freed:
  assumes inv: "rcu_inv s" and spin: "rpcs s t = SySpin i q w" and eq: "seq (readers s i) = q"
  shows "\<exists>u s'. inside s u \<and> handle s u = Some i \<and> rcu_step (u, ReadUnlock) s = Some s' \<and> moves t s'"
proof -
  have pc: "pc_ok (readers s) (handle s t) (rpcs s t)" and ok: "slots_ok s" using inv by (simp_all add: rcu_inv_def)
  have "odd (seq (readers s i))" using pc spin eq by simp
  then obtain u where u: "inside s u" "handle s u = Some i" using ok by (auto simp: slots_ok_def)
  have ls: "local_seq (readers s i) = q"
    using slots_okD [OF ok inside_owns [OF u]] u(1) eq by (simp add: slot_ok_def inside_def)
  have ut: "u \<noteq> t" using u(1) spin by (auto simp: inside_def)
  let ?s' = "read_unlock u i s"
  have st: "rcu_step (u, ReadUnlock) s = Some ?s'" using u by (simp add: inside_def)
  have t': "rpcs ?s' t = SySpin i q w" "handle ?s' t = handle s t" "seq (readers ?s' i) \<noteq> q"
    using spin ut ls by (simp_all add: rcu_updates)
  have "moves t ?s'" by (rule moves_unless_waiting) (use t' pc spin in auto)
  then show ?thesis using u st by blast
qed

text \<open>The contract of \<open>synchronize_rcu\<close>, in a state that satisfies the invariant.\<close>

lemma grace_inv:
  assumes inv: "rcu_inv s" and "rpcs s t = SyDone" and "must_wait s t u = Some n"
  shows "\<not> (inside s u \<and> sections s u = n)"
proof
  assume u: "inside s u \<and> sections s u = n"
  have "pc_ok (readers s) (handle s u) (rpcs s u)" using inv by (simp add: rcu_inv_def)
  then obtain j where j: "handle s u = Some j" using u by (auto simp: inside_def)
  have "must_ok s t" using inv by (simp add: rcu_inv_def)
  then have "covered (rpcs s t) j (seq (readers s j))" using assms(3) u j unfolding must_ok_def by blast
  then show False using assms(2) by simp
qed

section \<open>A grace period without readers\<close>

fun sync_left :: "rpc \<Rightarrow> nat" where
  "sync_left SyLock = 68"
| "sync_left (SyScan i w) = (64 - i) + 2 * length w + 3"
| "sync_left (SyUnlock w) = 2 * length w + 2"
| "sync_left (SyCount w) = 2 * length w + 1"
| "sync_left (SySpin i q w) = 2 * length w + 2"
| "sync_left p = 0"

fun in_sync :: "rpc \<Rightarrow> bool" where
  "in_sync SyLock = True" | "in_sync (SyScan i w) = True" | "in_sync (SyUnlock w) = True"
| "in_sync (SyCount w) = True" | "in_sync (SySpin i q w) = True" | "in_sync SyDone = True" | "in_sync p = False"

lemma sync_step_alone:
  assumes inv: "rcu_inv s" and p: "in_sync (rpcs s t)" "rpcs s t \<noteq> SyDone" and out: "\<forall>u. \<not> inside s u"
    and free: "registry s = None \<or> registry s = Some t"
  shows "\<exists>s'. rcu_step (t, RGo) s = Some s' \<and> in_sync (rpcs s' t) \<and>
    sync_left (rpcs s t) = Suc (sync_left (rpcs s' t)) \<and> (\<forall>u. \<not> inside s' u) \<and>
    (registry s' = None \<or> registry s' = Some t)"
proof -
  have ev: "seq (readers s i) mod 2 = 0" for i
    using inv out unfolding rcu_inv_def slots_ok_def even_iff_mod_2_eq_zero [symmetric] by blast
  have pc: "pc_ok (readers s) (handle s t) (rpcs s t)" and lk: "lock_ok s" using inv by (simp_all add: rcu_inv_def)
  have q: "q mod 2 = 1" if "odd q" for q :: ulong using that by (simp add: odd_iff_mod_2_eq_one)
  have oth: "rpcs s u \<noteq> Inside" for u using out by (simp add: inside_def)
  show ?thesis
  proof (cases "rpcs s t")
    case SyLock
    then have "registry s = None" using free lk by (auto simp: lock_ok_def)
    then show ?thesis using SyLock oth by (simp add: rcu_updates inside_def)
  next
    case (SyScan i w)
    then show ?thesis using pc ev [of i] oth free by (auto simp: rcu_updates inside_def)
  next
    case (SyUnlock w)
    then show ?thesis using oth by (simp add: rcu_updates inside_def)
  next
    case (SyCount w)
    then show ?thesis using pc oth free q by (cases w) (auto simp: rcu_updates inside_def split: if_splits)
  next
    case (SySpin i q w)
    then have "seq (readers s i) \<noteq> q" using pc ev [of i] q by force
    then show ?thesis using SySpin oth free by (simp add: rcu_updates inside_def)
  qed (use p in auto)
qed

lemma sync_alone:
  assumes "rcu_inv s" and "in_sync (rpcs s t)" and "\<forall>u. \<not> inside s u" and "registry s = None \<or> registry s = Some t"
  shows "\<exists>s'. exec rcu_step s (go (sync_left (rpcs s t)) t) = Some s' \<and> rpcs s' t = SyDone"
  using assms
proof (induction "sync_left (rpcs s t)" arbitrary: s)
  case 0
  then show ?case by (cases "rpcs s t") auto
next
  case (Suc n)
  then have "rpcs s t \<noteq> SyDone" by auto
  then obtain s' where s': "rcu_step (t, RGo) s = Some s'" "in_sync (rpcs s' t)"
    "sync_left (rpcs s t) = Suc (sync_left (rpcs s' t))" "\<forall>u. \<not> inside s' u"
    "registry s' = None \<or> registry s' = Some t"
    using sync_step_alone [OF Suc.prems(1,2) _ Suc.prems(3,4)] by blast
  have "rcu_inv s'" using rcu_inv_step [OF s'(1) Suc.prems(1)] .
  then obtain s'' where "exec rcu_step s' (go (sync_left (rpcs s' t)) t) = Some s''" "rpcs s'' t = SyDone"
    using Suc.hyps(1) [of s'] s' Suc.hyps(2) by auto
  then show ?case unfolding s'(3) using s'(1) by (intro exI [of _ s'']) simp
qed

section \<open>Concrete runs\<close>

definition observe :: "rcu \<Rightarrow> (rpc \<times> rpc \<times> rpc) \<times> nat option \<times> nat option \<times> nat option \<times> nat option \<times> ulong" where
  "observe s = ((rpcs s 0, rpcs s 1, rpcs s 2), handle s 0, handle s 2, must_wait s 1 0, must_wait s 1 2,
     seq (readers s 0))"

lemma observe_reach:
  assumes "map_option observe (exec rcu_step rcu_start ls) = Some x"
  shows "\<exists>s. rcu_reach s \<and> observe s = x"
  using assms exec_from_init [of rcu_init rcu_start rcu_step ls] by (auto simp: rcu_init_def)

lemma observe_grace:
  "map_option observe (exec rcu_step rcu_start run_grace) =
     Some ((Leave, SyDone, Out), Some 0, None, Some 1, None, 2)"
  by code_simp

lemma observe_wait:
  "map_option observe (exec rcu_step rcu_start run_wait) =
     Some ((Inside, SySpin 0 1 [], Out), Some 0, None, Some 1, None, 1)"
  by code_simp

lemma observe_reuse:
  "map_option observe (exec rcu_step rcu_start run_reuse) =
     Some ((Out, SySpin 0 1 [], Inside), None, Some 0, Some 1, None, 1)"
  by code_simp

section \<open>The properties\<close>

text \<open>C5: The grace period. When a call of \<open>synchronize_rcu\<close> is about to return, every section that was
  open when it was called has ended: no reader is still inside the section it was inside of at the call, in
  any interleaving with any number of readers that register, enter, leave and unregister meanwhile.\<close>

theorem grace_period:
  assumes "rcu_reach s" and "rpcs s t = SyDone" and "must_wait s t u = Some n"
  shows "\<not> (inside s u \<and> sections s u = n)"
  by (rule grace_inv [OF rcu.reach_inv [OF assms(1)] assms(2,3)])

theorem grace_period_witness:
  "\<exists>s. rcu_reach s \<and> rpcs s 1 = SyDone \<and> must_wait s 1 0 = Some 1 \<and> \<not> (inside s 0 \<and> sections s 0 = 1)"
  using observe_reach [OF observe_grace] grace_period [of _ 1 0 1] by (auto simp: observe_def)

text \<open>C32: The registry. A registered reader's slot is one of the 64 and is its own; its counter and the
  owner's private copy agree, and the counter is odd exactly while the owner is inside a section. And
  \<open>rcu_register\<close> returns NULL only when all 64 slots are taken.\<close>

theorem reader_slots:
  assumes "rcu_reach s"
  shows "(\<forall>i. handle s t = Some i \<longrightarrow> i < RCU_MAX_READERS \<and> in_use (readers s i) \<and>
      local_seq (readers s i) = seq (readers s i) \<and> (odd (seq (readers s i)) \<longleftrightarrow> inside s t) \<and>
      (\<forall>u. u \<noteq> t \<longrightarrow> handle s u \<noteq> Some i)) \<and>
    (rpcs s t = RegUnlock None \<longrightarrow> (\<forall>i<RCU_MAX_READERS. in_use (readers s i)))"
proof (intro conjI allI impI)
  have inv: "slots_ok s" "\<And>u. pc_ok (readers s) (handle s u) (rpcs s u)"
    using rcu.reach_inv [OF assms] by (auto simp: rcu_inv_def)
  have own: "owns s u = Some i \<and> rpcs s u \<noteq> RegSeq i" if "handle s u = Some i" for u i
    using inv(2) [of u] that by (cases "rpcs s u") auto
  fix i
  assume h: "handle s t = Some i"
  have ok: "slot_ok (rpcs s t) i (readers s i)" using slots_okD [OF inv(1)] own [OF h] by blast
  then show "i < RCU_MAX_READERS" "in_use (readers s i)" "local_seq (readers s i) = seq (readers s i)"
    "odd (seq (readers s i)) \<longleftrightarrow> inside s t"
    using own [OF h] by (auto simp: slot_ok_def inside_def)
  fix u
  assume "u \<noteq> t"
  have "separate (owns s)" using inv(1) by (simp add: slots_ok_def)
  then have "owns s u \<noteq> Some i" using owned_other [of "owns s" t i u] own [OF h] \<open>u \<noteq> t\<close> by blast
  then show "handle s u \<noteq> Some i" using own by blast
next
  have inv: "\<And>u. pc_ok (readers s) (handle s u) (rpcs s u)"
    using rcu.reach_inv [OF assms] by (auto simp: rcu_inv_def)
  fix i :: nat
  assume "rpcs s t = RegUnlock None" "i < RCU_MAX_READERS"
  then show "in_use (readers s i)" using inv [of t] by (simp add: all_used_def)
qed

theorem reader_slots_witness:
  "\<exists>s. rcu_reach s \<and> handle s 0 = Some 0 \<and> inside s 0 \<and> odd (seq (readers s 0))"
proof -
  obtain s where s: "rcu_reach s" "observe s = ((Inside, SySpin 0 1 [], Out), Some 0, None, Some 1, None, 1)"
    using observe_reach [OF observe_wait] by blast
  then show ?thesis using reader_slots [OF s(1), of 0] by (auto simp: observe_def inside_def)
qed

text \<open>C23: No thread is stuck for good. A thread inside a call can take its next step; or it waits for the
  registry lock and the holder can take its next step; or it waits in \<open>synchronize_rcu\<close> for a counter, some
  reader is inside with that slot, and as soon as that reader leaves, the waiting thread moves on.\<close>

theorem rcu_never_stuck:
  assumes "rcu_reach s" and "rpcs s t \<noteq> Out" and "rpcs s t \<noteq> Inside"
  shows "moves t s \<or> (at_lock (rpcs s t) \<and> (\<exists>u. registry s = Some u \<and> moves u s)) \<or>
    (\<exists>i q w u s'. rpcs s t = SySpin i q w \<and> inside s u \<and> handle s u = Some i \<and>
       rcu_step (u, ReadUnlock) s = Some s' \<and> moves t s')"
proof -
  have inv: "rcu_inv s" using rcu.reach_inv [OF assms(1)] .
  then have pc: "pc_ok (readers s) (handle s t) (rpcs s t)" by (simp add: rcu_inv_def)
  show ?thesis
  proof (cases "at_lock (rpcs s t) \<and> registry s \<noteq> None")
    case True
    then show ?thesis using holder_moves [OF inv] by blast
  next
    case unlocked: False
    show ?thesis
    proof (cases "\<exists>i q w. rpcs s t = SySpin i q w \<and> seq (readers s i) = q")
      case True
      then show ?thesis using spinner_freed [OF inv] by blast
    next
      case False
      have "moves t s" by (rule moves_unless_waiting [OF pc assms(2,3)]) (use unlocked False in auto)
      then show ?thesis by blast
    qed
  qed
qed

theorem rcu_never_stuck_witness:
  "\<exists>s u s'. rcu_reach s \<and> rpcs s 1 = SySpin 0 1 [] \<and> inside s u \<and> rcu_step (u, ReadUnlock) s = Some s' \<and> moves 1 s'"
proof -
  obtain s where s: "rcu_reach s" "observe s = ((Inside, SySpin 0 1 [], Out), Some 0, None, Some 1, None, 1)"
    using observe_reach [OF observe_wait] by blast
  then have spin: "rpcs s 1 = SySpin 0 1 []" "seq (readers s 0) = 1" by (simp_all add: observe_def)
  then have "\<not> moves 1 s" "\<not> at_lock (rpcs s 1)" by (auto simp: moves_def)
  then show ?thesis using rcu_never_stuck [OF s(1), of 1] spin(1) s(1) by auto
qed

text \<open>A grace period ends. A thread that is inside \<open>synchronize_rcu\<close> while no reader is inside a section
  and no other thread holds the lock is at its return after exactly \<open>sync_left\<close> of its own steps, which is
  68 from the beginning of the call.\<close>

lemma synchronize_rcu_returns:
  assumes "rcu_reach s" and "in_sync (rpcs s t)" and "\<forall>u. \<not> inside s u"
    and "registry s = None \<or> registry s = Some t"
  shows "\<exists>s'. exec rcu_step s (go (sync_left (rpcs s t)) t) = Some s' \<and> rpcs s' t = SyDone"
  by (rule sync_alone [OF rcu.reach_inv [OF assms(1)] assms(2-4)])

text \<open>C40: What a slot that is given out again does. \<open>rcu_register\<close> resets the counter of a slot to 0, so a
  later reader's section can have the counter value that a waiting thread has seen: an execution in which
  the only section \<open>synchronize_rcu\<close> was called in has ended, its reader is unregistered, and the call still
  waits, for a section that began after the call, of another thread.\<close>

theorem synchronize_waits_for_later_section:
  "\<exists>s. rcu_reach s \<and> must_wait s 1 0 = Some 1 \<and> rpcs s 0 = Out \<and> handle s 0 = None \<and>
     must_wait s 1 2 = None \<and> inside s 2 \<and> handle s 2 = Some 0 \<and>
     rpcs s 1 = SySpin 0 1 [] \<and> rcu_step (1, RGo) s = Some s"
  using observe_reach [OF observe_reuse] by (auto simp: observe_def inside_def)

end
