(* ===== verification/RcuTable.thy ===== *)
theory RcuTable
  imports Rcu_Thms
begin

text \<open>
  The read-mostly table of \<open>week4/src/table.c\<close> on top of the RCU: lookups inside read-side sections, and
  updates that copy the current version, change the copy, publish it, wait for a grace period and free the
  old version. Every access to the published pointer and to a version is a step of its own; freed memory
  may be allocated again at once, with any content, and an access to memory that is not allocated, or a
  \<open>free\<close> of such memory, sets \<open>t_crash\<close>. The \<open>long\<close> arithmetic of the values is taken modulo \<open>2^64\<close>; C leaves
  its overflow, after \<open>2^57\<close> updates, undefined.
\<close>

section \<open>Data\<close>

abbreviation TABLE_KEYS :: nat where "TABLE_KEYS \<equiv> 64"

record version =
  gen :: clong
  val :: "clong list" \<comment> \<open>\<open>TABLE_KEYS\<close> entries\<close>

text \<open>\<open>consistent\<close>, and \<open>fill\<close> one assignment at a time.\<close>

definition value_of :: "clong \<Rightarrow> nat \<Rightarrow> clong" where
  "value_of g k = g * of_nat TABLE_KEYS + of_nat k"

definition consistent :: "version \<Rightarrow> nat \<Rightarrow> clong \<Rightarrow> bool" where
  "consistent v key x \<longleftrightarrow> x = value_of (gen v) key"

definition fill_val :: "version \<Rightarrow> clong \<Rightarrow> nat \<Rightarrow> version" where
  "fill_val v g k = v\<lparr>val := (val v)[k := value_of g k]\<rparr>"

definition fill :: "version \<Rightarrow> clong \<Rightarrow> version" where
  "fill v g = fold (\<lambda>k v. fill_val v g k) [0..<TABLE_KEYS] (v\<lparr>gen := g\<rparr>)"

text \<open>
  Where a thread is inside \<open>rt_lookup\<close> (with the key, and the number of publications when it was called) or
  \<open>rt_update\<close> (with \<open>nv\<close> and \<open>old\<close>). \<open>TIdle\<close> covers a thread that only uses \<open>rcu.h\<close>.
\<close>

datatype tpc =
    TIdle
  | LkLock nat nat | LkDeref nat nat | LkVal nat nat addr | LkGen nat nat addr clong
  | LkUnlock nat nat clong bool | LkReads nat nat clong bool
  | UpMalloc | UpLock addr | UpOld addr | UpCopy addr addr | UpGen addr addr | UpFill addr addr clong nat
  | UpPublish addr addr | UpLatest addr addr | UpSync addr | UpWait addr | UpFree addr | UpCount | UpUnlock
  | TCrashed

text \<open>A finished lookup: key, value, what it returned, and the publications at its call and return.\<close>

record lookup =
  l_key :: nat
  l_value :: clong
  l_ok :: bool
  l_from :: nat
  l_to :: nat

record rtab =
  t_rcu :: rcu
  theap :: "addr \<Rightarrow> version option"
  cur :: addr
  latest :: addr
  update_lock :: "tid option"
  freed_count :: clong \<comment> \<open>\<open>freed\<close>\<close>
  tpcs :: "tid \<Rightarrow> tpc"
  published :: nat \<comment> \<open>ghost: how often \<open>rcu_assign_pointer\<close> has been called\<close>
  answers :: "lookup list" \<comment> \<open>ghost: the finished lookups\<close>
  t_crash :: bool

section \<open>Operations\<close>

text \<open>\<open>rt_init\<close>, given the address \<open>malloc\<close> returned and what that memory held.\<close>

definition rt_init :: "(addr \<times> version) option \<Rightarrow> rtab option" where
  "rt_init m = (case m of None \<Rightarrow> None
     | Some (a, junk) \<Rightarrow> Some \<lparr>t_rcu = rcu_start, theap = [a \<mapsto> fill junk 0], cur = a, latest = a,
         update_lock = None, freed_count = 0, tpcs = (\<lambda>_. TIdle), published = 0, answers = [], t_crash = False\<rparr>)"

definition tgoto :: "tid \<Rightarrow> tpc \<Rightarrow> rtab \<Rightarrow> rtab" where
  "tgoto t p s = s\<lparr>tpcs := (tpcs s)(t := p)\<rparr>"

definition tcrash :: "tid \<Rightarrow> rtab \<Rightarrow> rtab" where
  "tcrash t s = tgoto t TCrashed (s\<lparr>t_crash := True\<rparr>)"

definition with_version :: "tid \<Rightarrow> addr \<Rightarrow> rtab \<Rightarrow> (version \<Rightarrow> rtab) \<Rightarrow> rtab" where
  "with_version t a s k = (case theap s a of None \<Rightarrow> tcrash t s | Some v \<Rightarrow> k v)"

text \<open>A step of thread \<open>t\<close> inside the RCU, after which it is at \<open>p\<close>.\<close>

definition rcu_call :: "tid \<Rightarrow> ract \<Rightarrow> tpc \<Rightarrow> rtab \<Rightarrow> rtab option" where
  "rcu_call t a p s = (case rcu_step (t, a) (t_rcu s) of None \<Rightarrow> None
     | Some r \<Rightarrow> Some (tgoto t p (s\<lparr>t_rcu := r\<rparr>)))"

fun lookup_go :: "tid \<Rightarrow> tpc \<Rightarrow> rtab \<Rightarrow> rtab option" where
  "lookup_go t (LkLock key f) s = rcu_call t ReadLock (LkDeref key f) s"
| "lookup_go t (LkDeref key f) s = Some (tgoto t (LkVal key f (cur s)) s)"
| "lookup_go t (LkVal key f a) s = Some (with_version t a s (\<lambda>v. tgoto t (LkGen key f a (val v ! key)) s))"
| "lookup_go t (LkGen key f a x) s =
     Some (with_version t a s (\<lambda>v. tgoto t (LkUnlock key f x (consistent v key x)) s))"
| "lookup_go t (LkUnlock key f x ok) s = rcu_call t ReadUnlock (LkReads key f x ok) s"
| "lookup_go t (LkReads key f x ok) s = rcu_call t RGo TIdle
     (s\<lparr>answers := answers s @ [\<lparr>l_key = key, l_value = x, l_ok = ok, l_from = f, l_to = published s\<rparr>]\<rparr>)"
| "lookup_go t p s = None"

fun update_go :: "tid \<Rightarrow> tpc \<Rightarrow> rtab \<Rightarrow> rtab option" where
  "update_go t (UpLock nv) s =
     (if update_lock s = None then Some (tgoto t (UpOld nv) (s\<lparr>update_lock := Some t\<rparr>)) else None)"
| "update_go t (UpOld nv) s = Some (tgoto t (UpCopy nv (latest s)) s)"
| "update_go t (UpCopy nv old) s = Some (with_version t old s (\<lambda>v. with_version t nv s (\<lambda>_.
     tgoto t (UpGen nv old) (s\<lparr>theap := (theap s)(nv \<mapsto> v)\<rparr>))))"
| "update_go t (UpGen nv old) s = Some (with_version t old s (\<lambda>v. with_version t nv s (\<lambda>n.
     tgoto t (UpFill nv old (gen v + 1) 0) (s\<lparr>theap := (theap s)(nv \<mapsto> n\<lparr>gen := gen v + 1\<rparr>)\<rparr>))))"
| "update_go t (UpFill nv old g k) s =
     (if k < TABLE_KEYS
      then Some (with_version t nv s (\<lambda>n. tgoto t (UpFill nv old g (Suc k)) (s\<lparr>theap := (theap s)(nv \<mapsto> fill_val n g k)\<rparr>)))
      else Some (tgoto t (UpPublish nv old) s))"
| "update_go t (UpPublish nv old) s =
     Some (tgoto t (UpLatest nv old) (s\<lparr>cur := nv, published := Suc (published s)\<rparr>))"
| "update_go t (UpLatest nv old) s = Some (tgoto t (UpSync old) (s\<lparr>latest := nv\<rparr>))"
| "update_go t (UpSync old) s = rcu_call t Synchronize (UpWait old) s"
| "update_go t (UpWait old) s =
     (if rpcs (t_rcu s) t = SyDone then rcu_call t RGo (UpFree old) s else rcu_call t RGo (UpWait old) s)"
| "update_go t (UpFree old) s =
     Some (with_version t old s (\<lambda>_. tgoto t UpCount (s\<lparr>theap := (theap s)(old := None)\<rparr>)))"
| "update_go t UpCount s = Some (tgoto t UpUnlock (s\<lparr>freed_count := freed_count s + 1\<rparr>))"
| "update_go t UpUnlock s = Some (tgoto t TIdle (s\<lparr>update_lock := None\<rparr>))"
| "update_go t p s = None"

text \<open>
  What a thread can do: use the RCU directly, call \<open>rt_lookup\<close> (a registered reader, with a key of the table),
  call \<open>rt_update\<close>, be answered by \<open>malloc\<close> (an address that is not in use, with any content), or go on.
\<close>

datatype tact = TRcu ract | TLookup nat | TUpdate | TMalloc "(addr \<times> version) option" | TGo

fun rt_step :: "tid \<times> tact \<Rightarrow> rtab \<Rightarrow> rtab option" where
  "rt_step (t, TRcu a) s = (if tpcs s t = TIdle then rcu_call t a TIdle s else None)"
| "rt_step (t, TLookup key) s =
     (if tpcs s t = TIdle \<and> rpcs (t_rcu s) t = Out \<and> handle (t_rcu s) t \<noteq> None \<and> key < TABLE_KEYS
      then Some (tgoto t (LkLock key (published s)) s) else None)"
| "rt_step (t, TUpdate) s =
     (if tpcs s t = TIdle \<and> rpcs (t_rcu s) t = Out then Some (tgoto t UpMalloc s) else None)"
| "rt_step (t, TMalloc m) s =
     (if tpcs s t = UpMalloc then (case m of
          None \<Rightarrow> Some (tgoto t TIdle s)
        | Some (a, junk) \<Rightarrow> if theap s a = None \<and> length (val junk) = TABLE_KEYS
            then Some (tgoto t (UpLock a) (s\<lparr>theap := (theap s)(a \<mapsto> junk)\<rparr>)) else None)
      else None)"
| "rt_step (t, TGo) s = (case lookup_go t (tpcs s t) s of Some s' \<Rightarrow> Some s' | None \<Rightarrow> update_go t (tpcs s t) s)"

definition rt_start :: "rtab \<Rightarrow> bool" where
  "rt_start s \<longleftrightarrow> (\<exists>a junk. length (val junk) = TABLE_KEYS \<and> rt_init (Some (a, junk)) = Some s)"

definition rt_freed :: "rtab \<Rightarrow> clong" where
  "rt_freed s = freed_count s"

text \<open>\<open>rt_destroy\<close>: \<open>None\<close> when what it frees is not allocated.\<close>

definition rt_destroy :: "rtab \<Rightarrow> (addr \<Rightarrow> version option) option" where
  "rt_destroy s = (if theap s (latest s) = None then None else Some ((theap s)(latest s := None)))"

end
