(* ===== verification/RcuTable_Inv.thy ===== *)
theory RcuTable_Inv
  imports RcuTable
begin

text \<open>
  The invariant of the RCU table: which versions are allocated and to whom they are visible, what they
  contain, and why a version that a reader holds is not freed.
\<close>

section \<open>The invariant\<close>

definition filled :: "nat \<Rightarrow> version \<Rightarrow> bool" where
  "filled g v \<longleftrightarrow> gen v = of_nat g \<and> length (val v) = TABLE_KEYS \<and>
     (\<forall>k<TABLE_KEYS. val v ! k = value_of (of_nat g) k)"

text \<open>The version an updater has allocated and not published; the one it has replaced and not freed.\<close>

fun fresh :: "tpc \<Rightarrow> addr option" where
  "fresh (UpLock nv) = Some nv" | "fresh (UpOld nv) = Some nv" | "fresh (UpCopy nv old) = Some nv"
| "fresh (UpGen nv old) = Some nv" | "fresh (UpFill nv old g k) = Some nv" | "fresh (UpPublish nv old) = Some nv"
| "fresh p = None"

fun retired :: "tpc \<Rightarrow> addr option" where
  "retired (UpLatest nv old) = Some old" | "retired (UpSync old) = Some old" | "retired (UpWait old) = Some old"
| "retired (UpFree old) = Some old" | "retired p = None"

text \<open>A replaced version that a reader may still hold, and the version a reader holds.\<close>

fun at_risk :: "tpc \<Rightarrow> addr option" where
  "at_risk (UpLatest nv old) = Some old" | "at_risk (UpSync old) = Some old" | "at_risk (UpWait old) = Some old"
| "at_risk p = None"

fun holding :: "tpc \<Rightarrow> addr option" where
  "holding (LkVal key f a) = Some a" | "holding (LkGen key f a x) = Some a" | "holding p = None"

fun updating :: "tpc \<Rightarrow> bool" where
  "updating (UpOld nv) = True" | "updating (UpCopy nv old) = True" | "updating (UpGen nv old) = True"
| "updating (UpFill nv old g k) = True" | "updating (UpPublish nv old) = True" | "updating (UpLatest nv old) = True"
| "updating (UpSync old) = True" | "updating (UpWait old) = True" | "updating (UpFree old) = True"
| "updating UpCount = True" | "updating UpUnlock = True" | "updating p = False"

text \<open>Where a thread is inside the RCU when it is at a point of the table's code.\<close>

fun rcu_at :: "tpc \<Rightarrow> rpc \<Rightarrow> bool" where
  "rcu_at TIdle q = True" | "rcu_at TCrashed q = False"
| "rcu_at (LkDeref key f) q = (q = Inside)" | "rcu_at (LkVal key f a) q = (q = Inside)"
| "rcu_at (LkGen key f a x) q = (q = Inside)" | "rcu_at (LkUnlock key f x ok) q = (q = Inside)"
| "rcu_at (LkReads key f x ok) q = (q = Leave)" | "rcu_at (UpWait old) q = in_sync q" | "rcu_at p q = (q = Out)"

definition ctrl_ok :: "rtab \<Rightarrow> bool" where
  "ctrl_ok s \<longleftrightarrow> rcu_inv (t_rcu s) \<and> (\<forall>t. rcu_at (tpcs s t) (rpcs (t_rcu s) t)) \<and>
     (\<forall>t. update_lock s = Some t \<longleftrightarrow> updating (tpcs s t))"

fun up_ok :: "rtab \<Rightarrow> tpc \<Rightarrow> bool" where
  "up_ok s (UpOld nv) \<longleftrightarrow> latest s = cur s"
| "up_ok s (UpCopy nv old) \<longleftrightarrow> old = cur s \<and> latest s = cur s"
| "up_ok s (UpGen nv old) \<longleftrightarrow> old = cur s \<and> latest s = cur s \<and> theap s nv = theap s (cur s)"
| "up_ok s (UpFill nv old g k) \<longleftrightarrow> old = cur s \<and> latest s = cur s \<and> k \<le> TABLE_KEYS \<and> g = of_nat (Suc (published s)) \<and>
     (\<exists>n. theap s nv = Some n \<and> gen n = g \<and> length (val n) = TABLE_KEYS \<and> (\<forall>j<k. val n ! j = value_of g j))"
| "up_ok s (UpPublish nv old) \<longleftrightarrow> old = cur s \<and> latest s = cur s \<and>
     (\<exists>n. theap s nv = Some n \<and> filled (Suc (published s)) n)"
| "up_ok s (UpLatest nv old) \<longleftrightarrow> nv = cur s"
| "up_ok s p \<longleftrightarrow> (updating p \<longrightarrow> latest s = cur s)"

definition mem_ok :: "rtab \<Rightarrow> bool" where
  "mem_ok s \<longleftrightarrow> separate (\<lambda>t. fresh (tpcs s t)) \<and>
     (\<forall>t a. fresh (tpcs s t) = Some a \<longrightarrow> theap s a \<noteq> None \<and> a \<noteq> cur s \<and> (\<forall>u. retired (tpcs s u) \<noteq> Some a)) \<and>
     (\<forall>t a. retired (tpcs s t) = Some a \<longrightarrow> theap s a \<noteq> None \<and> a \<noteq> cur s) \<and>
     (\<exists>v. theap s (cur s) = Some v \<and> filled (published s) v) \<and>
     (\<forall>t. up_ok s (tpcs s t)) \<and>
     (\<forall>a. theap s a \<noteq> None \<longrightarrow> a = cur s \<or> (\<exists>t. fresh (tpcs s t) = Some a \<or> retired (tpcs s t) = Some a)) \<and>
     (update_lock s = None \<longrightarrow> latest s = cur s)"

definition protected :: "rtab \<Rightarrow> tid \<Rightarrow> addr \<Rightarrow> bool" where
  "protected s u a \<longleftrightarrow> a = cur s \<or> (\<exists>t. at_risk (tpcs s t) = Some a \<and>
     (tpcs s t = UpWait a \<longrightarrow> must_wait (t_rcu s) t u = Some (sections (t_rcu s) u)))"

fun lk_ok :: "rtab \<Rightarrow> tpc \<Rightarrow> bool" where
  "lk_ok s (LkLock key f) \<longleftrightarrow> key < TABLE_KEYS \<and> f \<le> published s"
| "lk_ok s (LkDeref key f) \<longleftrightarrow> key < TABLE_KEYS \<and> f \<le> published s"
| "lk_ok s (LkVal key f a) \<longleftrightarrow> key < TABLE_KEYS \<and>
     (\<exists>g v. f \<le> g \<and> g \<le> published s \<and> theap s a = Some v \<and> filled g v)"
| "lk_ok s (LkGen key f a x) \<longleftrightarrow>
     (\<exists>g v. f \<le> g \<and> g \<le> published s \<and> theap s a = Some v \<and> filled g v \<and> x = value_of (of_nat g) key)"
| "lk_ok s (LkUnlock key f x ok) \<longleftrightarrow> ok \<and> (\<exists>g. f \<le> g \<and> g \<le> published s \<and> x = value_of (of_nat g) key)"
| "lk_ok s (LkReads key f x ok) \<longleftrightarrow> ok \<and> (\<exists>g. f \<le> g \<and> g \<le> published s \<and> x = value_of (of_nat g) key)"
| "lk_ok s p \<longleftrightarrow> True"

definition answer_ok :: "lookup \<Rightarrow> bool" where
  "answer_ok l \<longleftrightarrow> l_ok l \<and> (\<exists>g. l_from l \<le> g \<and> g \<le> l_to l \<and> l_value l = value_of (of_nat g) (l_key l))"

definition readers_ok :: "rtab \<Rightarrow> bool" where
  "readers_ok s \<longleftrightarrow> (\<forall>u. lk_ok s (tpcs s u)) \<and> (\<forall>u a. holding (tpcs s u) = Some a \<longrightarrow> protected s u a) \<and>
     list_all answer_ok (answers s)"

fun unfreed :: "tpc \<Rightarrow> bool" where
  "unfreed (UpLatest nv old) = True" | "unfreed (UpSync old) = True" | "unfreed (UpWait old) = True"
| "unfreed (UpFree old) = True" | "unfreed UpCount = True" | "unfreed p = False"

definition count_ok :: "rtab \<Rightarrow> bool" where
  "count_ok s \<longleftrightarrow> of_nat (published s) =
     freed_count s + (case update_lock s of None \<Rightarrow> 0 | Some t \<Rightarrow> if unfreed (tpcs s t) then 1 else 0)"

definition tab_inv :: "rtab \<Rightarrow> bool" where
  "tab_inv s \<longleftrightarrow> ctrl_ok s \<and> mem_ok s \<and> readers_ok s \<and> count_ok s \<and> \<not> t_crash s"

section \<open>Filling a version\<close>

lemma fill_val_simps [simp]:
  "gen (fill_val v g k) = gen v" "length (val (fill_val v g k)) = length (val v)"
  "val (fill_val v g k) = (val v)[k := value_of g k]"
  by (simp_all add: fill_val_def)

lemma fold_fill:
  "n \<le> length (val v) \<Longrightarrow> let w = fold (\<lambda>k v. fill_val v g k) [0..<n] v in
     gen w = gen v \<and> length (val w) = length (val v) \<and> (\<forall>k<n. val w ! k = value_of g k)"
  by (induction n) (auto simp: Let_def less_Suc_eq nth_list_update)

lemma filled_fill: "length (val v) = TABLE_KEYS \<Longrightarrow> filled g (fill v (of_nat g))"
  using fold_fill [of TABLE_KEYS "v\<lparr>gen := of_nat g\<rparr>" "of_nat g"] by (simp add: filled_def fill_def Let_def)

lemma tab_inv_start: "rt_start s \<Longrightarrow> tab_inv s"
  using rcu_inv_start filled_fill [of _ 0]
  by (auto simp: rt_start_def rt_init_def tab_inv_def ctrl_ok_def mem_ok_def readers_ok_def count_ok_def separate_def
      rcu_start_def)

section \<open>The moves\<close>

inductive tab_move :: "tid \<Rightarrow> rtab \<Rightarrow> rtab \<Rightarrow> bool" for t s where
  m_rcu: "tpcs s t = TIdle \<Longrightarrow> rcu_step (t, a) (t_rcu s) = Some r \<Longrightarrow> tab_move t s (tgoto t TIdle (s\<lparr>t_rcu := r\<rparr>))"
| m_lookup: "tpcs s t = TIdle \<Longrightarrow> rpcs (t_rcu s) t = Out \<Longrightarrow> key < TABLE_KEYS \<Longrightarrow>
    tab_move t s (tgoto t (LkLock key (published s)) s)"
| m_lock: "tpcs s t = LkLock key f \<Longrightarrow> rcu_step (t, ReadLock) (t_rcu s) = Some r \<Longrightarrow>
    tab_move t s (tgoto t (LkDeref key f) (s\<lparr>t_rcu := r\<rparr>))"
| m_deref: "tpcs s t = LkDeref key f \<Longrightarrow> tab_move t s (tgoto t (LkVal key f (cur s)) s)"
| m_val: "tpcs s t = LkVal key f a \<Longrightarrow> theap s a = Some v \<Longrightarrow> tab_move t s (tgoto t (LkGen key f a (val v ! key)) s)"
| m_gen: "tpcs s t = LkGen key f a x \<Longrightarrow> theap s a = Some v \<Longrightarrow>
    tab_move t s (tgoto t (LkUnlock key f x (consistent v key x)) s)"
| m_unlock: "tpcs s t = LkUnlock key f x ok \<Longrightarrow> rcu_step (t, ReadUnlock) (t_rcu s) = Some r \<Longrightarrow>
    tab_move t s (tgoto t (LkReads key f x ok) (s\<lparr>t_rcu := r\<rparr>))"
| m_reads: "tpcs s t = LkReads key f x ok \<Longrightarrow> rcu_step (t, RGo) (t_rcu s) = Some r \<Longrightarrow>
    tab_move t s (tgoto t TIdle (s\<lparr>answers := answers s @
      [\<lparr>l_key = key, l_value = x, l_ok = ok, l_from = f, l_to = published s\<rparr>], t_rcu := r\<rparr>))"
| m_update: "tpcs s t = TIdle \<Longrightarrow> rpcs (t_rcu s) t = Out \<Longrightarrow> tab_move t s (tgoto t UpMalloc s)"
| m_nomem: "tpcs s t = UpMalloc \<Longrightarrow> tab_move t s (tgoto t TIdle s)"
| m_malloc: "tpcs s t = UpMalloc \<Longrightarrow> theap s a = None \<Longrightarrow> length (val junk) = TABLE_KEYS \<Longrightarrow>
    tab_move t s (tgoto t (UpLock a) (s\<lparr>theap := (theap s)(a \<mapsto> junk)\<rparr>))"
| m_ulock: "tpcs s t = UpLock nv \<Longrightarrow> update_lock s = None \<Longrightarrow> tab_move t s (tgoto t (UpOld nv) (s\<lparr>update_lock := Some t\<rparr>))"
| m_old: "tpcs s t = UpOld nv \<Longrightarrow> tab_move t s (tgoto t (UpCopy nv (latest s)) s)"
| m_copy: "tpcs s t = UpCopy nv old \<Longrightarrow> theap s old = Some v \<Longrightarrow>
    tab_move t s (tgoto t (UpGen nv old) (s\<lparr>theap := (theap s)(nv \<mapsto> v)\<rparr>))"
| m_fgen: "tpcs s t = UpGen nv old \<Longrightarrow> theap s old = Some v \<Longrightarrow> theap s nv = Some n \<Longrightarrow>
    tab_move t s (tgoto t (UpFill nv old (gen v + 1) 0) (s\<lparr>theap := (theap s)(nv \<mapsto> n\<lparr>gen := gen v + 1\<rparr>)\<rparr>))"
| m_fval: "tpcs s t = UpFill nv old g k \<Longrightarrow> k < TABLE_KEYS \<Longrightarrow> theap s nv = Some n \<Longrightarrow>
    tab_move t s (tgoto t (UpFill nv old g (Suc k)) (s\<lparr>theap := (theap s)(nv \<mapsto> fill_val n g k)\<rparr>))"
| m_fend: "tpcs s t = UpFill nv old g k \<Longrightarrow> \<not> k < TABLE_KEYS \<Longrightarrow> tab_move t s (tgoto t (UpPublish nv old) s)"
| m_publish: "tpcs s t = UpPublish nv old \<Longrightarrow>
    tab_move t s (tgoto t (UpLatest nv old) (s\<lparr>cur := nv, published := Suc (published s)\<rparr>))"
| m_latest: "tpcs s t = UpLatest nv old \<Longrightarrow> tab_move t s (tgoto t (UpSync old) (s\<lparr>latest := nv\<rparr>))"
| m_sync: "tpcs s t = UpSync old \<Longrightarrow> rcu_step (t, Synchronize) (t_rcu s) = Some r \<Longrightarrow>
    tab_move t s (tgoto t (UpWait old) (s\<lparr>t_rcu := r\<rparr>))"
| m_wait: "tpcs s t = UpWait old \<Longrightarrow> rpcs (t_rcu s) t \<noteq> SyDone \<Longrightarrow> rcu_step (t, RGo) (t_rcu s) = Some r \<Longrightarrow>
    tab_move t s (tgoto t (UpWait old) (s\<lparr>t_rcu := r\<rparr>))"
| m_synced: "tpcs s t = UpWait old \<Longrightarrow> rpcs (t_rcu s) t = SyDone \<Longrightarrow> rcu_step (t, RGo) (t_rcu s) = Some r \<Longrightarrow>
    tab_move t s (tgoto t (UpFree old) (s\<lparr>t_rcu := r\<rparr>))"
| m_free: "tpcs s t = UpFree old \<Longrightarrow> tab_move t s (tgoto t UpCount (s\<lparr>theap := (theap s)(old := None)\<rparr>))"
| m_count: "tpcs s t = UpCount \<Longrightarrow> tab_move t s (tgoto t UpUnlock (s\<lparr>freed_count := freed_count s + 1\<rparr>))"
| m_uunlock: "tpcs s t = UpUnlock \<Longrightarrow> tab_move t s (tgoto t TIdle (s\<lparr>update_lock := None\<rparr>))"

end
