(* ===== verification/RcuTable_Steps.thy ===== *)
theory RcuTable_Steps
  imports RcuTable_Inv
begin

text \<open>Every step of the table program keeps its invariant.\<close>

declare rcu_step.simps [simp del]

section \<open>No step crashes\<close>

lemma mem_okD:
  assumes "mem_ok s"
  shows "\<exists>v. theap s (cur s) = Some v \<and> filled (published s) v" and "up_ok s (tpcs s t)"
    and "fresh (tpcs s t) = Some a \<Longrightarrow> theap s a \<noteq> None \<and> a \<noteq> cur s \<and> (\<forall>u. retired (tpcs s u) \<noteq> Some a)"
    and "retired (tpcs s t) = Some a \<Longrightarrow> theap s a \<noteq> None \<and> a \<noteq> cur s"
  using assms by (auto simp: mem_ok_def)

lemma mem_ok_heap:
  "mem_ok s \<Longrightarrow> theap s a \<noteq> None \<Longrightarrow> a = cur s \<or> (\<exists>t. fresh (tpcs s t) = Some a \<or> retired (tpcs s t) = Some a)"
  unfolding mem_ok_def by blast

lemma rcu_call_move:
  assumes "rcu_call t a p s = Some s'" and "\<And>r. rcu_step (t, a) (t_rcu s) = Some r \<Longrightarrow> P (tgoto t p (s\<lparr>t_rcu := r\<rparr>))"
  shows "P s'"
  using assms by (auto simp: rcu_call_def split: option.splits)

lemma lookup_move:
  assumes inv: "tab_inv s" and st: "lookup_go t (tpcs s t) s = Some s'"
  shows "tab_move t s s'"
proof -
  have lk: "lk_ok s (tpcs s t)" using inv by (simp add: tab_inv_def readers_ok_def)
  show ?thesis
  proof (cases "tpcs s t")
    case (LkLock key f)
    then show ?thesis using st m_lock by (auto simp: rcu_call_def split: option.splits)
  next
    case (LkVal key f a)
    then show ?thesis using st lk m_val by (auto simp: with_version_def)
  next
    case (LkGen key f a x)
    then show ?thesis using st lk m_gen by (auto simp: with_version_def)
  next
    case (LkUnlock key f x ok)
    then show ?thesis using st m_unlock by (auto simp: rcu_call_def split: option.splits)
  next
    case (LkReads key f x ok)
    then show ?thesis using st m_reads [OF LkReads] by (auto simp: rcu_call_def tgoto_def split: option.splits)
  qed (use st m_deref in auto)
qed

lemma update_move:
  assumes inv: "tab_inv s" and st: "update_go t (tpcs s t) s = Some s'"
  shows "tab_move t s s'"
proof -
  have mem: "mem_ok s" using inv by (simp add: tab_inv_def)
  note up = mem_okD(2) [OF mem, of t] and cur = mem_okD(1) [OF mem] and fr = mem_okD(3) [OF mem, of t]
    and re = mem_okD(4) [OF mem, of t]
  show ?thesis
  proof (cases "tpcs s t")
    case (UpLock nv)
    then show ?thesis using st m_ulock by (auto split: if_splits)
  next
    case (UpCopy nv old)
    then show ?thesis using st up cur fr m_copy [OF UpCopy] by (auto simp: with_version_def)
  next
    case (UpGen nv old)
    then show ?thesis using st up cur fr m_fgen [OF UpGen] by (auto simp: with_version_def)
  next
    case (UpFill nv old g k)
    then show ?thesis using st up m_fval [OF UpFill] m_fend [OF UpFill] by (auto simp: with_version_def split: if_splits)
  next
    case (UpSync old)
    then show ?thesis using st m_sync by (auto simp: rcu_call_def split: option.splits)
  next
    case (UpWait old)
    then show ?thesis
      using st m_wait [OF UpWait] m_synced [OF UpWait] by (auto simp: rcu_call_def split: option.splits if_splits)
  next
    case (UpFree old)
    then show ?thesis using st re m_free [OF UpFree] by (auto simp: with_version_def)
  qed (use st in \<open>auto intro: tab_move.intros\<close>)
qed

lemma rt_step_move:
  assumes inv: "tab_inv s" and st: "rt_step (t, a) s = Some s'"
  shows "tab_move t s s'"
proof (cases a)
  case (TRcu b)
  then show ?thesis using st m_rcu by (auto simp: rcu_call_def split: option.splits if_splits)
next
  case (TMalloc m)
  then show ?thesis using st by (auto split: option.splits if_splits intro: m_nomem m_malloc)
next
  case TGo
  then have "lookup_go t (tpcs s t) s = Some s' \<or> update_go t (tpcs s t) s = Some s'"
    using st by (auto split: option.splits)
  then show ?thesis using lookup_move [OF inv] update_move [OF inv] by blast
qed (use st in \<open>auto split: if_splits intro: m_lookup m_update\<close>)

section \<open>Control\<close>

lemma tgoto_simps [simp]:
  "tpcs (tgoto t p s) = (tpcs s)(t := p)" "t_rcu (tgoto t p s) = t_rcu s" "theap (tgoto t p s) = theap s"
  "cur (tgoto t p s) = cur s" "latest (tgoto t p s) = latest s" "update_lock (tgoto t p s) = update_lock s"
  "freed_count (tgoto t p s) = freed_count s" "published (tgoto t p s) = published s"
  "answers (tgoto t p s) = answers s" "t_crash (tgoto t p s) = t_crash s"
  by (simp_all add: tgoto_def)

text \<open>Where the RCU calls of the table take a thread.\<close>

lemma rcu_call_ends:
  "rcu_step (t, ReadLock) r = Some r' \<Longrightarrow> rpcs r' t = Inside"
  "rcu_step (t, ReadUnlock) r = Some r' \<Longrightarrow> rpcs r' t = Leave"
  "rcu_step (t, Synchronize) r = Some r' \<Longrightarrow> rpcs r' t = SyLock"
  by (auto simp: rcu_step.simps rcu_updates split: rpc.splits option.splits if_splits)

lemma rcu_go_ends:
  assumes "rcu_step (t, RGo) r = Some r'"
  shows "rpcs r t = Leave \<Longrightarrow> rpcs r' t = Out" and "rpcs r t = SyDone \<Longrightarrow> rpcs r' t = Out"
    and "in_sync (rpcs r t) \<Longrightarrow> rpcs r t \<noteq> SyDone \<Longrightarrow> in_sync (rpcs r' t)"
proof -
  have mv: "rcu_move t r r'" by (rule rcu_step_move [OF assms])
  show "rpcs r t = SyDone \<Longrightarrow> rpcs r' t = Out" using mv by cases (auto simp: rcu_updates)
  show "in_sync (rpcs r t) \<Longrightarrow> rpcs r t \<noteq> SyDone \<Longrightarrow> in_sync (rpcs r' t)"
    using mv by cases (auto simp: rcu_updates)
  show "rpcs r t = Leave \<Longrightarrow> rpcs r' t = Out" using mv by cases (auto simp: rcu_updates)
qed

text \<open>A thread whose next program point needs its RCU point unchanged, or moves it by a call.\<close>

lemma rcu_at_upd:
  assumes "\<forall>u. rcu_at (tpcs s u) (rpcs (t_rcu s) u)" and "rcu_step (t, a) (t_rcu s) = Some r" and "rcu_at p (rpcs r t)"
  shows "rcu_at (((tpcs s)(t := p)) u) (rpcs r u)"
  using assms move_other [OF rcu_step_move [OF assms(2)]] by (cases "u = t") auto

lemma ctrl_ok_call:
  assumes ok: "ctrl_ok s" and st: "rcu_step (t, a) (t_rcu s) = Some r" and p: "rcu_at p (rpcs r t)"
    and upd: "updating p = updating (tpcs s t)"
    and s': "tpcs s' = (tpcs s)(t := p)" "t_rcu s' = r" "update_lock s' = update_lock s"
  shows "ctrl_ok s'"
proof -
  have c: "rcu_inv (t_rcu s)" "\<forall>u. rcu_at (tpcs s u) (rpcs (t_rcu s) u)"
    "\<And>u. update_lock s = Some u \<longleftrightarrow> updating (tpcs s u)"
    using ok by (auto simp: ctrl_ok_def)
  have "rcu_inv r" by (rule rcu_inv_step [OF st c(1)])
  moreover have "\<And>u. rcu_at (tpcs s' u) (rpcs r u)" unfolding s' by (rule rcu_at_upd [OF c(2) st p])
  moreover have "\<And>u. update_lock s' = Some u \<longleftrightarrow> updating (tpcs s' u)" using c(3) upd s' by auto
  ultimately show ?thesis using s'(2) by (simp add: ctrl_ok_def)
qed

lemma ctrl_ok_local:
  assumes ok: "ctrl_ok s"
    and s': "tpcs s' = (tpcs s)(t := p)" "t_rcu s' = t_rcu s" "update_lock s' = l"
    and p: "rcu_at p (rpcs (t_rcu s) t)"
    and upd: "updating p = updating (tpcs s t) \<and> l = update_lock s \<or> update_lock s = None \<and> updating p \<and> l = Some t
      \<or> updating (tpcs s t) \<and> \<not> updating p \<and> l = None"
  shows "ctrl_ok s'"
proof -
  have c: "\<And>u. update_lock s = Some u \<longleftrightarrow> updating (tpcs s u)" using ok by (auto simp: ctrl_ok_def)
  have "update_lock s' = Some u \<longleftrightarrow> updating (tpcs s' u)" for u
    using c [of u] c [of t] upd s' by (cases "u = t") auto
  then show ?thesis using ok p s' by (auto simp: ctrl_ok_def)
qed

lemma ctrl_ok_move:
  assumes mv: "tab_move t s s'" and ok: "ctrl_ok s"
  shows "ctrl_ok s'"
proof -
  have at: "rcu_at (tpcs s t) (rpcs (t_rcu s) t)" using ok by (simp add: ctrl_ok_def)
  show ?thesis using mv
  proof cases
    case (m_rcu a r)
    then show ?thesis by (intro ctrl_ok_call [OF ok, of t a r TIdle]) auto
  next
    case (m_lock key f r)
    then show ?thesis using rcu_call_ends(1) by (intro ctrl_ok_call [OF ok m_lock(3)]) auto
  next
    case (m_unlock key f x ok' r)
    then show ?thesis using rcu_call_ends(2) by (intro ctrl_ok_call [OF ok m_unlock(3)]) auto
  next
    case (m_reads key f x ok' r)
    then show ?thesis using rcu_go_ends(1) at by (intro ctrl_ok_call [OF ok m_reads(3)]) auto
  next
    case (m_sync old r)
    then show ?thesis using rcu_call_ends(3) by (intro ctrl_ok_call [OF ok m_sync(3)]) auto
  next
    case (m_wait old r)
    then show ?thesis using rcu_go_ends(3) at by (intro ctrl_ok_call [OF ok m_wait(4)]) auto
  next
    case (m_synced old r)
    then show ?thesis using rcu_go_ends(2) at by (intro ctrl_ok_call [OF ok m_synced(4)]) auto
  qed (rule ctrl_ok_local [OF ok, where t = t and p = "tpcs s' t" and l = "update_lock s'"]; use at in simp)+
qed

section \<open>Memory\<close>

lemma one_updater: "ctrl_ok s \<Longrightarrow> updating (tpcs s t) \<Longrightarrow> u \<noteq> t \<Longrightarrow> \<not> updating (tpcs s u)"
  unfolding ctrl_ok_def by (metis option.inject)

lemma retired_updating: "retired p = Some a \<Longrightarrow> updating p"
  by (cases p) auto

lemma not_updating: "\<not> updating p \<Longrightarrow> up_ok s p" "\<not> updating p \<Longrightarrow> retired p = None"
  by (cases p; simp)+

text \<open>The fields that \<open>mem_ok\<close> depends on.\<close>

lemma up_ok_cong:
  "up_ok s p \<Longrightarrow> theap s' = theap s \<Longrightarrow> cur s' = cur s \<Longrightarrow> latest s' = latest s \<Longrightarrow> published s' = published s \<Longrightarrow>
     up_ok s' p"
  by (cases p) auto

lemma mem_ok_pc:
  assumes ok: "mem_ok s" and tp: "tpcs s' = (tpcs s)(t := p)"
    and same: "theap s' = theap s" "cur s' = cur s" "latest s' = latest s" "published s' = published s"
    and p: "fresh p = fresh (tpcs s t)" "retired p = retired (tpcs s t)" "up_ok s p"
    and lk: "update_lock s' = None \<Longrightarrow> latest s = cur s"
  shows "mem_ok s'"
proof -
  have f: "fresh (tpcs s' u) = fresh (tpcs s u)" "retired (tpcs s' u) = retired (tpcs s u)" for u
    using tp p by auto
  have "up_ok s' (tpcs s' u)" for u
    using up_ok_cong [OF _ same] mem_okD(2) [OF ok, of u] p(3) tp by (cases "u = t") auto
  then show ?thesis using ok lk unfolding mem_ok_def f same by blast
qed

text \<open>Two moves change what is allocated, and writing to a fresh version changes only its contents.\<close>

lemma mem_ok_write:
  assumes ctrl: "ctrl_ok s" and ok: "mem_ok s" and t: "updating (tpcs s t)" "fresh (tpcs s t) = Some nv"
    and tp: "tpcs s' = (tpcs s)(t := p)" and heap: "theap s' = (theap s)(nv \<mapsto> n)"
    and same: "cur s' = cur s" "latest s' = latest s" "published s' = published s" "update_lock s' = update_lock s"
    and p: "fresh p = Some nv" "retired p = retired (tpcs s t)" "up_ok s' p"
  shows "mem_ok s'"
proof -
  have f: "fresh (tpcs s' u) = fresh (tpcs s u)" "retired (tpcs s' u) = retired (tpcs s u)" for u
    using tp p t by auto
  have nv: "theap s nv \<noteq> None" "nv \<noteq> cur s" using mem_okD(3) [OF ok t(2)] by auto
  have a: "theap s' a \<noteq> None \<longleftrightarrow> theap s a \<noteq> None" for a using heap nv by auto
  have c: "theap s' (cur s) = theap s (cur s)" using heap nv by simp
  have "up_ok s' (tpcs s' u)" for u
    using not_updating(1) [OF one_updater [OF ctrl t(1)]] p(3) tp by (cases "u = t") auto
  then show ?thesis using ok unfolding mem_ok_def f same a c by blast
qed

lemma mem_ok_malloc:
  assumes ok: "mem_ok s" and t: "tpcs s t = UpMalloc" and new: "theap s a = None"
    and s': "s' = tgoto t (UpLock a) (s\<lparr>theap := (theap s)(a \<mapsto> junk)\<rparr>)"
  shows "mem_ok s'"
proof -
  have na: "a \<noteq> cur s" "fresh (tpcs s u) \<noteq> Some a" "retired (tpcs s u) \<noteq> Some a" for u
    using mem_okD(1) [OF ok] mem_okD(3,4) [OF ok, of u a] new by auto
  have f: "(\<lambda>u. fresh (tpcs s' u)) = (\<lambda>u. fresh (tpcs s u))(t := Some a)" using s' by auto
  have r: "retired (tpcs s' u) = retired (tpcs s u)" for u using s' t by simp
  have other: "theap s' b = (if b = a then Some junk else theap s b)" for b using s' by simp
  have "up_ok s' (tpcs s' u)" for u
  proof (cases "u = t")
    case True
    then show ?thesis using s' by simp
  next
    case False
    have "theap s' b = theap s b" if "fresh (tpcs s u) = Some b" for b using other na(2) that by auto
    moreover have "theap s' (cur s) = theap s (cur s)" using other na(1) by auto
    ultimately show ?thesis using mem_okD(2) [OF ok, of u] False s' by (cases "tpcs s u") auto
  qed
  moreover have "separate (\<lambda>u. fresh (tpcs s' u))"
    unfolding f using ok na(2) by (intro separate_new) (auto simp: mem_ok_def)
  moreover have "theap s' b \<noteq> None \<and> b \<noteq> cur s' \<and> (\<forall>v. retired (tpcs s' v) \<noteq> Some b)"
    if "fresh (tpcs s' u) = Some b" for u b
    using that fun_cong [OF f, of u] mem_okD(3) [OF ok, of u b] other na s' r by (auto split: if_splits)
  moreover have "theap s' b \<noteq> None \<and> b \<noteq> cur s'" if "retired (tpcs s' u) = Some b" for u b
    using that mem_okD(4) [OF ok, of u b] other s' r by auto
  moreover have "\<exists>v. theap s' (cur s') = Some v \<and> filled (published s') v"
    using mem_okD(1) [OF ok] other na(1) s' by auto
  moreover have "b = cur s' \<or> (\<exists>u. fresh (tpcs s' u) = Some b \<or> retired (tpcs s' u) = Some b)"
    if "theap s' b \<noteq> None" for b
  proof (cases "b = a")
    case True
    then have "fresh (tpcs s' t) = Some b" using s' by simp
    then show ?thesis by blast
  next
    case False
    then have "theap s b \<noteq> None" using that other by simp
    then have "b = cur s \<or> (\<exists>u. fresh (tpcs s u) = Some b \<or> retired (tpcs s u) = Some b)"
      using ok by (auto simp: mem_ok_def)
    moreover have "fresh (tpcs s u) = Some b \<Longrightarrow> fresh (tpcs s' u) = Some b" for u
      using t s' by (cases "u = t") auto
    moreover have "cur s' = cur s" using s' by simp
    ultimately show ?thesis using r by metis
  qed
  moreover have "update_lock s' = None \<longrightarrow> latest s' = cur s'" using ok s' by (simp add: mem_ok_def)
  ultimately show ?thesis unfolding mem_ok_def by blast
qed

lemma mem_ok_publish:
  assumes ctrl: "ctrl_ok s" and ok: "mem_ok s" and t: "tpcs s t = UpPublish nv old"
    and s': "s' = tgoto t (UpLatest nv old) (s\<lparr>cur := nv, published := Suc (published s)\<rparr>)"
  shows "mem_ok s'"
proof -
  have up: "old = cur s" "\<exists>n. theap s nv = Some n \<and> filled (Suc (published s)) n"
    using mem_okD(2) [OF ok, of t] t by auto
  have nv: "nv \<noteq> cur s" using mem_okD(3) [OF ok, of t nv] t by simp
  have lk: "update_lock s = Some t" using ctrl t by (simp add: ctrl_ok_def)
  note others = one_updater [OF ctrl, of t, unfolded t, simplified]
  have f: "(\<lambda>u. fresh (tpcs s' u)) = (\<lambda>u. fresh (tpcs s u))(t := None)" using s' by auto
  have r: "retired (tpcs s' u) = (if u = t then Some old else None)" for u
    using s' not_updating(2) [OF others] by simp
  have fu: "a \<noteq> nv \<and> theap s a \<noteq> None \<and> a \<noteq> cur s \<and> u \<noteq> t" if "fresh (tpcs s' u) = Some a" for u a
  proof -
    have u: "u \<noteq> t" "fresh (tpcs s u) = Some a" using that fun_cong [OF f, of u] by (auto split: if_splits)
    have "separate (\<lambda>u. fresh (tpcs s u))" using ok by (simp add: mem_ok_def)
    then have "fresh (tpcs s u) \<noteq> Some nv" using u(1) t by (intro owned_other [of _ t]) auto
    then show ?thesis using mem_okD(3) [OF ok u(2)] u by auto
  qed
  have sep: "separate (\<lambda>u. fresh (tpcs s u))" using ok by (simp add: mem_ok_def)
  have "separate (\<lambda>u. fresh (tpcs s' u))" unfolding f by (rule separate_sub [OF sep]) simp
  moreover have "theap s' a \<noteq> None \<and> a \<noteq> cur s' \<and> (\<forall>v. retired (tpcs s' v) \<noteq> Some a)"
    if "fresh (tpcs s' u) = Some a" for u a
    using fu [OF that] r up(1) s' by auto
  moreover have "theap s' a \<noteq> None \<and> a \<noteq> cur s'" if "retired (tpcs s' u) = Some a" for u a
    using that r [of u] up(1) nv mem_okD(1) [OF ok] s' by (auto split: if_splits)
  moreover have "\<exists>v. theap s' (cur s') = Some v \<and> filled (published s') v" using up(2) s' by simp
  moreover have "up_ok s' (tpcs s' u)" for u
    using not_updating(1) [OF others] s' by (cases "u = t") auto
  moreover have "a = cur s' \<or> (\<exists>u. fresh (tpcs s' u) = Some a \<or> retired (tpcs s' u) = Some a)"
    if "theap s' a \<noteq> None" for a
  proof -
    have "theap s a \<noteq> None" using that s' by simp
    then consider "a = cur s" | u where "fresh (tpcs s u) = Some a" | u where "retired (tpcs s u) = Some a"
      using mem_ok_heap [OF ok] by blast
    then show ?thesis
    proof cases
      case 1
      then have "retired (tpcs s' t) = Some a" using r up(1) by simp
      then show ?thesis by blast
    next
      case (2 u)
      then show ?thesis using t s' by (cases "u = t") auto
    next
      case (3 u)
      then show ?thesis using t not_updating(2) [OF others, of u] by (cases "u = t") auto
    qed
  qed
  moreover have "update_lock s' \<noteq> None" using lk s' by simp
  ultimately show ?thesis unfolding mem_ok_def by blast
qed

lemma mem_ok_latest:
  assumes ctrl: "ctrl_ok s" and ok: "mem_ok s" and t: "tpcs s t = UpLatest nv old"
    and s': "s' = tgoto t (UpSync old) (s\<lparr>latest := nv\<rparr>)"
  shows "mem_ok s'"
proof -
  have nv: "nv = cur s" using mem_okD(2) [OF ok, of t] t by simp
  note others = one_updater [OF ctrl, of t, unfolded t, simplified]
  have f: "fresh (tpcs s' u) = fresh (tpcs s u)" "retired (tpcs s' u) = retired (tpcs s u)" for u
    using t s' by auto
  have same: "theap s' = theap s" "cur s' = cur s" "published s' = published s" "latest s' = cur s'"
    using s' nv by auto
  have "up_ok s' (tpcs s' u)" for u
    using not_updating(1) [OF others] s' nv by (cases "u = t") auto
  then show ?thesis using ok unfolding mem_ok_def f same by (simp add: same)
qed

lemma mem_ok_free:
  assumes ctrl: "ctrl_ok s" and ok: "mem_ok s" and t: "tpcs s t = UpFree old"
    and s': "s' = tgoto t UpCount (s\<lparr>theap := (theap s)(old := None)\<rparr>)"
  shows "mem_ok s'"
proof -
  have old: "old \<noteq> cur s" using mem_okD(4) [OF ok, of t old] t by simp
  have up: "latest s = cur s" using mem_okD(2) [OF ok, of t] t by simp
  note others = one_updater [OF ctrl, of t, unfolded t, simplified]
  have f: "fresh (tpcs s' u) = fresh (tpcs s u)" for u using t s' by auto
  have r: "retired (tpcs s' u) = None" for u using s' not_updating(2) [OF others, of u] by (cases "u = t") auto
  have ne: "a \<noteq> old" if "fresh (tpcs s u) = Some a" for u a
    using mem_okD(3) [OF ok that] t by (metis retired.simps(4))
  have "separate (\<lambda>u. fresh (tpcs s' u))" using ok unfolding f mem_ok_def by blast
  moreover have "theap s' a \<noteq> None \<and> a \<noteq> cur s' \<and> (\<forall>v. retired (tpcs s' v) \<noteq> Some a)"
    if "fresh (tpcs s' u) = Some a" for u a
    using that mem_okD(3) [OF ok, of u a] ne [of u a] r s' unfolding f by auto
  moreover have "\<exists>v. theap s' (cur s') = Some v \<and> filled (published s') v"
    using mem_okD(1) [OF ok] old s' by simp
  moreover have "up_ok s' (tpcs s' u)" for u
    using not_updating(1) [OF others] s' up by (cases "u = t") auto
  moreover have "a = cur s' \<or> (\<exists>u. fresh (tpcs s' u) = Some a \<or> retired (tpcs s' u) = Some a)"
    if "theap s' a \<noteq> None" for a
  proof -
    have a: "theap s a \<noteq> None" "a \<noteq> old" using that s' by (auto split: if_splits)
    then consider "a = cur s" | u where "fresh (tpcs s u) = Some a" | u where "retired (tpcs s u) = Some a"
      using mem_ok_heap [OF ok] by blast
    then show ?thesis
    proof cases
      case 1
      then show ?thesis using s' by simp
    next
      case (2 u)
      then have "fresh (tpcs s' u) = Some a" using f by simp
      then show ?thesis by blast
    next
      case (3 u)
      then show ?thesis using t a(2) not_updating(2) [OF others, of u] by (cases "u = t") auto
    qed
  qed
  ultimately show ?thesis using up r s' unfolding mem_ok_def by simp
qed

lemma mem_ok_move:
  assumes mv: "tab_move t s s'" and ctrl: "ctrl_ok s" and ok: "mem_ok s"
  shows "mem_ok s'"
proof -
  note up = mem_okD(2) [OF ok, of t] and cur = mem_okD(1) [OF ok]
  have lk: "update_lock s = None \<longrightarrow> latest s = cur s" using ok by (simp add: mem_ok_def)
  have idle: "update_lock s = None \<Longrightarrow> latest s = cur s" using lk by simp
  show ?thesis using mv
  proof cases
    case (m_malloc a junk)
    then show ?thesis by (intro mem_ok_malloc [OF ok]) auto
  next
    case (m_copy nv old v)
    then show ?thesis using up by (intro mem_ok_write [OF ctrl ok, of t nv s' "UpGen nv old" v]) auto
  next
    case (m_fgen nv old v n)
    then show ?thesis
      using up cur by (intro mem_ok_write [OF ctrl ok, of t nv s' _ "n\<lparr>gen := gen v + 1\<rparr>"]) (auto simp: filled_def)
  next
    case (m_fval nv old g k n)
    then show ?thesis
      using up by (intro mem_ok_write [OF ctrl ok, of t nv s' _ "fill_val n g k"])
        (auto simp: less_Suc_eq nth_list_update)
  next
    case (m_fend nv old g k)
    then have "up_ok s (UpPublish nv old)" using up by (auto simp: filled_def)
    then show ?thesis using m_fend idle by (intro mem_ok_pc [OF ok, of s' t "UpPublish nv old"]) auto
  next
    case (m_publish nv old)
    then show ?thesis by (intro mem_ok_publish [OF ctrl ok]) auto
  next
    case (m_latest nv old)
    then show ?thesis by (intro mem_ok_latest [OF ctrl ok]) auto
  next
    case (m_free old)
    then show ?thesis by (intro mem_ok_free [OF ctrl ok]) auto
  qed (rule mem_ok_pc [OF ok, where t = t and p = "tpcs s' t"]; use up idle in auto)+
qed

end
