(* ===== verification/RcuTable_Readers.thy ===== *)
theory RcuTable_Readers
  imports RcuTable_Steps
begin

text \<open>The readers' part of the table's invariant, and the invariant as a whole.\<close>

section \<open>What a reader holds stays\<close>

lemma at_risk_retired: "at_risk p = Some a \<Longrightarrow> retired p = Some a"
  by (cases p) auto

lemma protected_kept:
  assumes ctrl: "ctrl_ok s" and ok: "mem_ok s" and p: "protected s u a"
  shows "theap s a \<noteq> None" and "fresh (tpcs s t) \<noteq> Some a" and "tpcs s t \<noteq> UpFree a"
proof -
  consider "a = cur s" | v where "at_risk (tpcs s v) = Some a" using p by (auto simp: protected_def)
  then show "theap s a \<noteq> None"
    using mem_okD(1) [OF ok] mem_okD(4) [OF ok at_risk_retired] by cases auto
  show "fresh (tpcs s t) \<noteq> Some a"
  proof
    assume fr: "fresh (tpcs s t) = Some a"
    note f = mem_okD(3) [OF ok fr]
    from p consider "a = cur s" | v where "at_risk (tpcs s v) = Some a" by (auto simp: protected_def)
    then show False using f at_risk_retired by cases auto
  qed
  show "tpcs s t \<noteq> UpFree a"
  proof
    assume t: "tpcs s t = UpFree a"
    then have "a \<noteq> cur s" using mem_okD(4) [OF ok, of t a] by simp
    then obtain v where v: "at_risk (tpcs s v) = Some a" using p by (auto simp: protected_def)
    then have "updating (tpcs s v)" by (cases "tpcs s v") auto
    then have "v = t" using one_updater [OF ctrl, of t v] t by auto
    then show False using v t by simp
  qed
qed

lemma held_move:
  assumes mv: "tab_move t s s'" and ctrl: "ctrl_ok s" and ok: "mem_ok s" and p: "protected s u a"
  shows "theap s' a = theap s a"
  using mv protected_kept(1) [OF ctrl ok p] protected_kept(2,3) [OF ctrl ok p, of t] by cases auto

lemma published_move: "tab_move t s s' \<Longrightarrow> published s \<le> published s'"
  by (induction rule: tab_move.induct) auto

lemma lk_ok_mono:
  assumes "lk_ok s p" and "\<And>a. holding p = Some a \<Longrightarrow> theap s' a = theap s a" and "published s \<le> published s'"
  shows "lk_ok s' p"
proof -
  have le: "g \<le> published s'" if "g \<le> published s" for g using that assms(3) by simp
  show ?thesis
  proof (cases p)
    case (LkVal key f a)
    then obtain g v where "f \<le> g" "g \<le> published s" "theap s a = Some v" "filled g v" using assms(1) by auto
    then show ?thesis using LkVal assms(1,2) le by auto
  next
    case (LkGen key f a x)
    then obtain g v where "f \<le> g" "g \<le> published s" "theap s a = Some v" "filled g v" "x = value_of (of_nat g) key"
      using assms(1) by auto
    then show ?thesis using LkGen assms(2) le by auto
  qed (use assms(1) le in auto)
qed

lemma tab_move_other: "tab_move t s s' \<Longrightarrow> u \<noteq> t \<Longrightarrow> tpcs s' u = tpcs s u"
  by (induction rule: tab_move.induct) auto

lemma tab_move_rcu: "tab_move t s s' \<Longrightarrow> t_rcu s' = t_rcu s \<or> (\<exists>a. rcu_step (t, a) (t_rcu s) = Some (t_rcu s'))"
  by (induction rule: tab_move.induct) auto

lemma rcu_move_other:
  assumes "tab_move t s s'" and "u \<noteq> t"
  shows "must_wait (t_rcu s') u = must_wait (t_rcu s) u" and "sections (t_rcu s') u = sections (t_rcu s) u"
  using tab_move_rcu [OF assms(1)] move_other [OF rcu_step_move _] assms(2) by metis+

lemma sync_must_wait:
  "rcu_step (t, Synchronize) r = Some r' \<Longrightarrow> must_wait r' t = open_sections r"
  by (auto simp: rcu_step.simps rcu_updates split: if_splits)

lemma go_must_wait:
  assumes "rcu_step (t, RGo) r = Some r'" and "in_sync (rpcs r t)"
  shows "must_wait r' t = must_wait r t"
proof -
  have "rcu_move t r r'" by (rule rcu_step_move [OF assms(1)])
  then show ?thesis using assms(2) by cases (auto simp: rcu_updates)
qed

section \<open>Readers\<close>

lemma protected_move:
  assumes mv: "tab_move t s s'" and ctrl: "ctrl_ok s" and ok: "mem_ok s" and ut: "u \<noteq> t"
    and in_u: "inside (t_rcu s) u" and p: "protected s u a"
  shows "protected s' u a"
proof -
  note su = rcu_move_other(2) [OF mv ut]
  text \<open>A replaced version of another updater stays at risk.\<close>
  have other: ?thesis if "at_risk (tpcs s v) = Some a" "v \<noteq> t"
      "tpcs s v = UpWait a \<longrightarrow> must_wait (t_rcu s) v u = Some (sections (t_rcu s) u)" for v
    unfolding protected_def
    by (rule disjI2, rule exI [of _ v]) (use that tab_move_other [OF mv that(2)] rcu_move_other(1) [OF mv that(2)] su in simp)
  consider "a = cur s" | v where "at_risk (tpcs s v) = Some a" "v \<noteq> t"
      "tpcs s v = UpWait a \<longrightarrow> must_wait (t_rcu s) v u = Some (sections (t_rcu s) u)"
    | "at_risk (tpcs s t) = Some a" "tpcs s t = UpWait a \<longrightarrow> must_wait (t_rcu s) t u = Some (sections (t_rcu s) u)"
    using p unfolding protected_def by blast
  then show ?thesis
  proof cases
    case 1
    show ?thesis
    proof (cases "cur s' = cur s")
      case True
      then show ?thesis using 1 by (simp add: protected_def)
    next
      case False
      have "\<exists>nv old. tpcs s' t = UpLatest nv old \<and> tpcs s t = UpPublish nv old" using mv False by cases auto
      then have "\<exists>nv. tpcs s' t = UpLatest nv a" using mem_okD(2) [OF ok, of t] 1 by auto
      then show ?thesis unfolding protected_def by (intro disjI2 exI [of _ t]) auto
    qed
  next
    case (2 v)
    then show ?thesis by (rule other)
  next
    case 3
    have at: "rcu_inv (t_rcu s)" "rcu_at (tpcs s t) (rpcs (t_rcu s) t)" using ctrl by (simp_all add: ctrl_ok_def)
    have mine: ?thesis if "at_risk (tpcs s' t) = Some a"
      "tpcs s' t = UpWait a \<Longrightarrow> must_wait (t_rcu s') t u = Some (sections (t_rcu s) u)"
      unfolding protected_def by (rule disjI2, rule exI [of _ t]) (use that su in simp)
    show ?thesis using mv
    proof cases
      case (m_latest nv old)
      then show ?thesis using 3 by (intro mine) auto
    next
      case (m_sync old r)
      then show ?thesis using 3 in_u sync_must_wait [OF m_sync(3)] by (intro mine) (auto simp: open_sections_def)
    next
      case (m_wait old r)
      then show ?thesis using 3 at(2) go_must_wait [OF m_wait(4)] by (intro mine) auto
    next
      case (m_synced old r)
      then have "must_wait (t_rcu s) t u = Some (sections (t_rcu s) u)" using 3 by auto
      then show ?thesis using grace_inv [OF at(1) m_synced(3)] in_u by blast
    qed (use 3 in auto)
  qed
qed

lemma holding_inside:
  assumes "ctrl_ok s" and "holding (tpcs s u) = Some a"
  shows "inside (t_rcu s) u"
proof -
  have "rcu_at (tpcs s u) (rpcs (t_rcu s) u)" using assms(1) by (simp add: ctrl_ok_def)
  then show ?thesis using assms(2) by (cases "tpcs s u") (auto simp: inside_def)
qed

lemma lk_ok_move:
  assumes mv: "tab_move t s s'" and ctrl: "ctrl_ok s" and ok: "mem_ok s" and rd: "readers_ok s"
  shows "lk_ok s' (tpcs s' u)"
proof -
  have lk: "lk_ok s (tpcs s u)" for u using rd by (simp add: readers_ok_def)
  have held: "theap s' a = theap s a" if "holding (tpcs s u) = Some a" for a u
    using held_move [OF mv ctrl ok] rd that unfolding readers_ok_def by blast
  have keep: "lk_ok s' (tpcs s v)" for v
    by (rule lk_ok_mono [OF lk _ published_move [OF mv]]) (rule held)
  show ?thesis
  proof (cases "u = t")
    case False
    then show ?thesis using keep [of u] tab_move_other [OF mv False] by simp
  next
    case True
    show ?thesis using mv
    proof cases
      case (m_deref key f)
      obtain v where "theap s (cur s) = Some v" "filled (published s) v" using mem_okD(1) [OF ok] by blast
      then show ?thesis using m_deref lk [of t] True by auto
    next
      case (m_val key f a v)
      then show ?thesis using lk [of t] True by (auto simp: filled_def)
    next
      case (m_gen key f a x v)
      then show ?thesis using lk [of t] True by (auto simp: filled_def consistent_def)
    qed (use lk [of t] True in auto)
  qed
qed

lemma readers_ok_move:
  assumes mv: "tab_move t s s'" and ctrl: "ctrl_ok s" and ok: "mem_ok s" and rd: "readers_ok s"
  shows "readers_ok s'"
proof -
  have pr: "protected s u a" if "holding (tpcs s u) = Some a" for u a using rd that by (simp add: readers_ok_def)
  have "protected s' u a" if h: "holding (tpcs s' u) = Some a" for u a
  proof (cases "u = t")
    case False
    then have h': "holding (tpcs s u) = Some a" using h tab_move_other [OF mv] by simp
    show ?thesis by (rule protected_move [OF mv ctrl ok False holding_inside [OF ctrl h'] pr [OF h']])
  next
    case True
    show ?thesis using mv
    proof cases
      case (m_deref key f)
      then show ?thesis using h True by (simp add: protected_def)
    next
      case (m_val key f b v)
      then have "protected s u a" using h True pr [of t b] by simp
      moreover have "at_risk (tpcs s' v) = at_risk (tpcs s v)" "tpcs s' v = UpWait a \<longleftrightarrow> tpcs s v = UpWait a" for v
        using m_val by auto
      moreover have "cur s' = cur s" "t_rcu s' = t_rcu s" using m_val by auto
      ultimately show ?thesis by (simp add: protected_def)
    qed (use h True in auto)
  qed
  moreover have "list_all answer_ok (answers s')"
  proof -
    have old: "list_all answer_ok (answers s)" and lk: "lk_ok s (tpcs s t)" using rd by (simp_all add: readers_ok_def)
    show ?thesis using mv by cases (use old lk in \<open>auto simp: answer_ok_def\<close>)
  qed
  ultimately show ?thesis using lk_ok_move [OF mv ctrl ok rd] by (simp add: readers_ok_def)
qed

lemma count_ok_move:
  assumes mv: "tab_move t s s'" and ctrl: "ctrl_ok s" and ok: "count_ok s"
  shows "count_ok s'"
proof -
  have lk: "updating (tpcs s t) \<Longrightarrow> update_lock s = Some t" "update_lock s = Some t \<Longrightarrow> updating (tpcs s t)"
    using ctrl unfolding ctrl_ok_def by blast+
  show ?thesis using mv
    by cases (use ok lk in \<open>auto simp: count_ok_def split: option.splits if_splits\<close>)
qed

lemma tab_inv_move:
  assumes "tab_move t s s'" and "tab_inv s"
  shows "tab_inv s'"
proof -
  have "t_crash s' = t_crash s" using assms(1) by cases auto
  then show ?thesis
    using assms ctrl_ok_move mem_ok_move readers_ok_move count_ok_move unfolding tab_inv_def by blast
qed

lemma tab_inv_step: "rt_step l s = Some s' \<Longrightarrow> tab_inv s \<Longrightarrow> tab_inv s'"
  using rt_step_move tab_inv_move by (cases l) blast

interpretation rt: inductive_invariant rt_start "step_of rt_step" tab_inv
  by standard (auto simp: tab_inv_start tab_inv_step)

end
