(* ===== verification/RcuTable_Thms.thy ===== *)
theory RcuTable_Thms
  imports RcuTable_Readers
begin

text \<open>
  What \<open>table.h\<close> promises of the RCU table, for any number of readers and updaters in any interleaving:
  no access to freed memory and nothing freed twice, lookups that answer from one published generation,
  every replaced version freed exactly once, and updates that finish.
\<close>

abbreviation rt_reach :: "rtab \<Rightarrow> bool" where
  "rt_reach \<equiv> reach rt_start (step_of rt_step)"

abbreviation tgo :: "nat \<Rightarrow> tid \<Rightarrow> (tid \<times> tact) list" where
  "tgo n t \<equiv> replicate n (t, TGo)"

section \<open>An update that runs alone\<close>

lemma exec_snoc: "exec f s ls = Some u \<Longrightarrow> f l u = Some v \<Longrightarrow> exec f s (ls @ [l]) = Some v"
  by (simp add: exec_append)

lemma exec_trans: "exec f s xs = Some u \<Longrightarrow> exec f u ys = Some v \<Longrightarrow> exec f s (xs @ ys) = Some v"
  by (simp add: exec_append)

lemma tgo_add: "tgo (m + n) t = tgo m t @ tgo n t"
  by (rule replicate_add)

text \<open>Filling the copy: one step per key and one to leave the loop.\<close>

lemma fill_alone:
  assumes "tpcs s t = UpFill nv old g k" and "k \<le> TABLE_KEYS" and "theap s nv \<noteq> None"
  shows "\<exists>n. exec rt_step s (tgo (65 - k) t) = Some (tgoto t (UpPublish nv old) (s\<lparr>theap := (theap s)(nv \<mapsto> n)\<rparr>))"
  using assms
proof (induction "TABLE_KEYS - k" arbitrary: s k)
  case 0
  then have k: "k = TABLE_KEYS" by simp
  obtain n where "theap s nv = Some n" using 0 by auto
  then have same: "s\<lparr>theap := (theap s)(nv \<mapsto> n)\<rparr> = s" by (simp add: fun_upd_idem)
  have "tgo (65 - k) t = [(t, TGo)]" using k by simp
  then have "exec rt_step s (tgo (65 - k) t) = Some (tgoto t (UpPublish nv old) s)" using 0 k by simp
  then show ?case by (intro exI [of _ n]) (simp only: same)
next
  case (Suc d)
  obtain n where n: "theap s nv = Some n" using Suc.prems by auto
  let ?s = "tgoto t (UpFill nv old g (Suc k)) (s\<lparr>theap := (theap s)(nv \<mapsto> fill_val n g k)\<rparr>)"
  have k: "k < TABLE_KEYS" and d: "d = TABLE_KEYS - Suc k" using Suc.hyps(2) by simp_all
  have st: "rt_step (t, TGo) s = Some ?s" using Suc.prems(1) k n by (simp add: with_version_def)
  obtain m where "exec rt_step ?s (tgo (65 - Suc k) t) =
      Some (tgoto t (UpPublish nv old) (?s\<lparr>theap := (theap ?s)(nv \<mapsto> m)\<rparr>))"
    using Suc.hyps(1) [of "Suc k" ?s, OF d] k by auto
  then have "exec rt_step s (tgo (Suc (65 - Suc k)) t) =
      Some (tgoto t (UpPublish nv old) (s\<lparr>theap := (theap s)(nv \<mapsto> m)\<rparr>))"
    using st by (simp add: tgoto_def)
  moreover have e: "65 - k = Suc (65 - Suc k)" using k by simp
  ultimately show ?case unfolding e by (intro exI)
qed

text \<open>Waiting for a grace period that meets no reader.\<close>

lemma wait_alone:
  assumes "tpcs s t = UpWait old" and "rcu_inv (t_rcu s)" and "in_sync (rpcs (t_rcu s) t)"
    and "\<forall>u. \<not> inside (t_rcu s) u" and "registry (t_rcu s) = None \<or> registry (t_rcu s) = Some t"
  shows "\<exists>r. exec rt_step s (tgo (Suc (sync_left (rpcs (t_rcu s) t))) t) = Some (tgoto t (UpFree old) (s\<lparr>t_rcu := r\<rparr>))"
  using assms
proof (induction "sync_left (rpcs (t_rcu s) t)" arbitrary: s)
  case 0
  then have d: "rpcs (t_rcu s) t = SyDone" by (cases "rpcs (t_rcu s) t") auto
  then have "rcu_step (t, RGo) (t_rcu s) = Some (rgoto t Out (t_rcu s))" by (simp add: rcu_step.simps)
  then show ?case using 0 d by (intro exI [of _ "rgoto t Out (t_rcu s)"]) (simp add: rcu_call_def)
next
  case (Suc k)
  then have nd: "rpcs (t_rcu s) t \<noteq> SyDone" by auto
  obtain r where r: "rcu_step (t, RGo) (t_rcu s) = Some r" "in_sync (rpcs r t)"
    "sync_left (rpcs (t_rcu s) t) = Suc (sync_left (rpcs r t))" "\<forall>u. \<not> inside r u"
    "registry r = None \<or> registry r = Some t"
    using sync_step_alone [OF Suc.prems(2,3) nd Suc.prems(4,5)] by blast
  let ?s = "tgoto t (UpWait old) (s\<lparr>t_rcu := r\<rparr>)"
  have st: "rt_step (t, TGo) s = Some ?s" using Suc.prems(1) nd r(1) by (simp add: rcu_call_def)
  have "rcu_inv r" by (rule rcu_inv_step [OF r(1) Suc.prems(2)])
  then obtain r' where "exec rt_step ?s (tgo (Suc (sync_left (rpcs r t))) t) =
      Some (tgoto t (UpFree old) (?s\<lparr>t_rcu := r'\<rparr>))"
    using Suc.hyps(1) [of ?s] Suc.hyps(2) r by auto
  then show ?case unfolding r(3) using st by (intro exI [of _ r']) (simp add: tgoto_def)
qed

lemma tgo_numerals: "tgo 4 t = [(t, TGo), (t, TGo), (t, TGo), (t, TGo)]" "tgo 3 t = [(t, TGo), (t, TGo), (t, TGo)]"
  by (simp_all add: numeral_eq_Suc)

lemma copy_alone:
  assumes mem: "mem_ok s" and t: "tpcs s t = UpLock nv" and free: "update_lock s = None"
  shows "\<exists>m g. exec rt_step s (tgo 4 t) =
    Some (tgoto t (UpFill nv (cur s) g 0) (s\<lparr>update_lock := Some t, theap := (theap s)(nv \<mapsto> m)\<rparr>))"
proof -
  have lat: "latest s = cur s" using mem free by (simp add: mem_ok_def)
  obtain v where v: "theap s (cur s) = Some v" using mem_okD(1) [OF mem] by blast
  obtain n where n: "theap s nv = Some n" "nv \<noteq> cur s" using mem_okD(3) [OF mem, of t nv] t by auto
  show ?thesis
    unfolding tgo_numerals
    by (intro exI [of _ "v\<lparr>gen := gen v + 1\<rparr>"] exI [of _ "gen v + 1"])
      (use t free lat v n in \<open>simp add: with_version_def tgoto_def\<close>)
qed

lemma publish_alone:
  assumes t: "tpcs s t = UpPublish nv old" and out: "rpcs (t_rcu s) t = Out"
  shows "exec rt_step s (tgo 3 t) = Some (tgoto t (UpWait old) (s\<lparr>cur := nv, published := Suc (published s), latest := nv,
    t_rcu := rgoto t SyLock ((t_rcu s)\<lparr>must_wait := (must_wait (t_rcu s))(t := open_sections (t_rcu s))\<rparr>)\<rparr>))"
  unfolding tgo_numerals using t out by (simp add: rcu_call_def rcu_step.simps tgoto_def)

lemma free_alone:
  assumes t: "tpcs s t = UpFree old" and old: "theap s old \<noteq> None"
  shows "exec rt_step s (tgo 3 t) = Some (tgoto t TIdle (s\<lparr>theap := (theap s)(old := None),
    freed_count := freed_count s + 1, update_lock := None\<rparr>))"
  unfolding tgo_numerals using t old by (auto simp: with_version_def tgoto_def)

text \<open>The updater's 144 steps after \<open>malloc\<close>: 4 to copy, 65 to fill, 3 to publish and call, 69 to wait, 3 to free.\<close>

lemma update_alone:
  assumes inv: "tab_inv s" and t: "tpcs s t = UpLock nv" and free: "update_lock s = None"
    and out: "\<forall>u. \<not> inside (t_rcu s) u" and reg: "registry (t_rcu s) = None"
  shows "\<exists>s'. exec rt_step s (tgo 144 t) = Some s' \<and> tpcs s' t = TIdle \<and> cur s' = nv \<and> latest s' = nv \<and>
    published s' = Suc (published s) \<and> freed_count s' = freed_count s + 1 \<and> theap s' (cur s) = None \<and> update_lock s' = None"
proof -
  have mem: "mem_ok s" and rinv: "rcu_inv (t_rcu s)" using inv by (simp_all add: tab_inv_def ctrl_ok_def)
  have "rcu_at (tpcs s t) (rpcs (t_rcu s) t)" using inv by (simp add: tab_inv_def ctrl_ok_def)
  then have tout: "rpcs (t_rcu s) t = Out" using t by simp
  have ne: "nv \<noteq> cur s" "theap s (cur s) \<noteq> None" using mem_okD(3) [OF mem, of t nv] mem_okD(1) [OF mem] t by auto
  obtain m g where c: "exec rt_step s (tgo 4 t) =
      Some (tgoto t (UpFill nv (cur s) g 0) (s\<lparr>update_lock := Some t, theap := (theap s)(nv \<mapsto> m)\<rparr>))" (is "_ = Some ?s1")
    using copy_alone [OF mem t free] by blast
  obtain n where f: "exec rt_step ?s1 (tgo 65 t) =
      Some (tgoto t (UpPublish nv (cur s)) (?s1\<lparr>theap := (theap ?s1)(nv \<mapsto> n)\<rparr>))" (is "_ = Some ?s2")
    using fill_alone [of ?s1 t nv "cur s" g 0] by auto
  let ?r = "rgoto t SyLock ((t_rcu s)\<lparr>must_wait := (must_wait (t_rcu s))(t := open_sections (t_rcu s))\<rparr>)"
  let ?s3 = "tgoto t (UpWait (cur s)) (?s2\<lparr>cur := nv, published := Suc (published s), latest := nv, t_rcu := ?r\<rparr>)"
  have p: "exec rt_step ?s2 (tgo 3 t) = Some ?s3"
    using publish_alone [of ?s2 t nv "cur s"] tout by simp
  have "rcu_step (t, Synchronize) (t_rcu s) = Some ?r" using tout by (simp add: rcu_step.simps)
  then have "rcu_inv ?r" using rcu_inv_step rinv by blast
  moreover have "t_rcu ?s3 = ?r" "tpcs ?s3 t = UpWait (cur s)" "rpcs ?r t = SyLock" "sync_left SyLock = 68"
    by (simp_all add: rgoto_def)
  moreover have "\<forall>u. \<not> inside ?r u" "registry ?r = None" using out reg by (simp_all add: rgoto_def inside_def)
  ultimately obtain r where w: "exec rt_step ?s3 (tgo 69 t) = Some (tgoto t (UpFree (cur s)) (?s3\<lparr>t_rcu := r\<rparr>))" (is "_ = Some ?s4")
    using wait_alone [of ?s3 t "cur s"] by (metis in_sync.simps(1) Suc_numeral numeral_plus_one semiring_norm(5) add_num_simps(3))
  have "exec rt_step ?s4 (tgo 3 t) = Some (tgoto t TIdle (?s4\<lparr>theap := (theap ?s4)(cur s := None),
      freed_count := freed_count s + 1, update_lock := None\<rparr>))" (is "_ = Some ?s5")
    using free_alone [of ?s4 t "cur s"] ne by simp
  then have "exec rt_step s (tgo 4 t @ tgo 65 t @ tgo 3 t @ tgo 69 t @ tgo 3 t) = Some ?s5"
    using c f p w by (intro exec_trans)
  moreover have "tgo 144 t = tgo 4 t @ tgo 65 t @ tgo 3 t @ tgo 69 t @ tgo 3 t"
    by (simp only: replicate_add [symmetric] add_num_simps numeral_plus_numeral)
  ultimately show ?thesis by (intro exI [of _ ?s5]) simp
qed

section \<open>A concrete run\<close>

definition zero_version :: version where
  "zero_version = fill \<lparr>gen = 7, val = replicate 64 9\<rparr> 0"

lemma zero_version_val: "gen zero_version = 0" "val zero_version ! 5 = 5"
  unfolding zero_version_def by code_simp+

definition rt_zero :: rtab where
  "rt_zero = \<lparr>t_rcu = rcu_start, theap = [1 \<mapsto> zero_version], cur = 1, latest = 1, update_lock = None,
     freed_count = 0, tpcs = (\<lambda>_. TIdle), published = 0, answers = [], t_crash = False\<rparr>"

lemma rt_zero_start: "rt_start rt_zero"
  unfolding rt_start_def rt_init_def rt_zero_def zero_version_def
  by (intro exI [of _ 1] exI [of _ "\<lparr>gen = 7, val = replicate 64 9\<rparr>"]) simp

text \<open>Thread 0 registers and looks up key 5; thread 1 starts an update, up to the answer of \<open>malloc\<close>.\<close>

abbreviation run_register_t :: "(tid \<times> tact) list" where
  "run_register_t \<equiv> (0, TRcu Register) # replicate 5 (0, TRcu RGo) @ [(0, TLookup 5)]"

lemma replicate_5_6: "replicate 5 x = [x, x, x, x, x]" "replicate 6 x = [x, x, x, x, x, x]" "replicate 2 x = [x, x]"
  by (simp_all add: numeral_eq_Suc)

lemmas rt_run = replicate_5_6 rt_zero_def rcu_start_def rcu_call_def rcu_step.simps rcu_updates tgoto_def with_version_def
  zero_version_val consistent_def value_of_def

lemma run_lookup:
  "map_option answers (exec rt_step rt_zero (run_register_t @ replicate 6 (0, TGo))) =
     Some [\<lparr>l_key = 5, l_value = 5, l_ok = True, l_from = 0, l_to = 0\<rparr>]"
  by (simp add: rt_run)

lemma run_holding:
  "map_option (\<lambda>s. holding (tpcs s 0)) (exec rt_step rt_zero (run_register_t @ replicate 2 (0, TGo))) = Some (Some 1)"
  by (simp add: rt_run)

lemma rt_reach_zero: "rt_reach rt_zero"
  by (rule reach_init) (rule rt_zero_start)

lemma exec_rt_reach: "map_option f (exec rt_step rt_zero ls) = Some x \<Longrightarrow> \<exists>s. rt_reach s \<and> f s = x"
  using exec_from_init [of rt_start rt_zero rt_step ls, OF rt_zero_start] by auto

text \<open>What a reader holds is allocated and one complete generation.\<close>

lemma held_complete:
  assumes "tab_inv s" and "holding (tpcs s u) = Some a"
  shows "\<exists>g v. g \<le> published s \<and> theap s a = Some v \<and> filled g v"
proof -
  have "lk_ok s (tpcs s u)" using assms(1) by (simp add: tab_inv_def readers_ok_def)
  then show ?thesis using assms(2) by (cases "tpcs s u") auto
qed

section \<open>The properties\<close>

text \<open>C3: Memory safety. In no interleaving does a lookup or an update touch memory that is not allocated,
  and nothing is freed twice; and whatever version a reader holds is allocated and holds one generation
  completely, although freed addresses are allocated again at once and versions are written field by field.\<close>

theorem rt_memory_safe:
  assumes "rt_reach s"
  shows "\<not> t_crash s \<and> (\<forall>u a. holding (tpcs s u) = Some a \<longrightarrow>
    (\<exists>g v. g \<le> published s \<and> theap s a = Some v \<and> filled g v))"
  using rt.reach_inv [OF assms] held_complete by (auto simp: tab_inv_def)

theorem rt_memory_safe_witness:
  "\<exists>s. rt_reach s \<and> holding (tpcs s 0) = Some 1 \<and> (\<exists>v. theap s 1 = Some v)"
  using exec_rt_reach [OF run_holding] rt_memory_safe by metis

text \<open>C9: Lookups answer consistently. Every finished lookup returned 1, and its value is that of its key
  in one generation, which was the published one at some time between the call and the return.\<close>

theorem rt_lookup_consistent:
  assumes "rt_reach s" and "l \<in> set (answers s)"
  shows "l_ok l \<and> (\<exists>g. l_from l \<le> g \<and> g \<le> l_to l \<and> l_value l = of_nat g * 64 + of_nat (l_key l))"
  using rt.reach_inv [OF assms(1)] assms(2)
  by (auto simp: tab_inv_def readers_ok_def list_all_iff answer_ok_def value_of_def)

theorem rt_lookup_consistent_witness:
  "\<exists>s l. rt_reach s \<and> answers s = [l] \<and> l_ok l \<and> l_key l = 5 \<and> l_value l = 5"
proof -
  obtain s where s: "rt_reach s" "answers s = [\<lparr>l_key = 5, l_value = 5, l_ok = True, l_from = 0, l_to = 0\<rparr>]"
    using exec_rt_reach [OF run_lookup] by blast
  then show ?thesis using rt_lookup_consistent [OF s(1), of "hd (answers s)"] by auto
qed

text \<open>C17: Every replaced version is freed once. When no update is under way, the count of \<open>rt_freed\<close> is the
  number of updates published, and the published version is the only one allocated apart from copies that
  waiting updaters have not published; when there are none of these, \<open>rt_destroy\<close> leaves nothing allocated.\<close>

theorem rt_frees_every_version:
  assumes "rt_reach s" and "update_lock s = None"
  shows "rt_freed s = of_nat (published s) \<and>
    (\<forall>a. theap s a \<noteq> None \<longleftrightarrow> a = cur s \<or> (\<exists>t. tpcs s t = UpLock a)) \<and>
    ((\<forall>t a. tpcs s t \<noteq> UpLock a) \<longrightarrow> rt_destroy s = Some (\<lambda>_. None))"
proof -
  have inv: "tab_inv s" by (rule rt.reach_inv [OF assms(1)])
  then have mem: "mem_ok s" and count: "count_ok s" by (simp_all add: tab_inv_def)
  have idle: "\<not> updating (tpcs s t)" for t using inv assms(2) by (auto simp: tab_inv_def ctrl_ok_def)
  have fr: "fresh (tpcs s t) = Some a \<longleftrightarrow> tpcs s t = UpLock a" "retired (tpcs s t) = None" for t a
    using idle [of t] by (cases "tpcs s t"; simp)+
  have cur: "theap s (cur s) \<noteq> None" "latest s = cur s"
    using mem_okD(1) [OF mem] mem assms(2) by (auto simp: mem_ok_def)
  have heap: "theap s a \<noteq> None \<longleftrightarrow> a = cur s \<or> (\<exists>t. tpcs s t = UpLock a)" for a
    using mem_ok_heap [OF mem, of a] mem_okD(3) [OF mem, of _ a] cur(1) fr by auto
  have "rt_destroy s = Some (\<lambda>_. None)" if "\<forall>t a. tpcs s t \<noteq> UpLock a"
  proof -
    have "theap s a = None" if "a \<noteq> cur s" for a using heap [of a] \<open>\<forall>t a. tpcs s t \<noteq> UpLock a\<close> that by auto
    then show ?thesis using cur unfolding rt_destroy_def by (simp add: fun_eq_iff)
  qed
  then show ?thesis using count heap assms(2) by (simp add: count_ok_def rt_freed_def)
qed

theorem rt_frees_every_version_witness:
  "rt_freed rt_zero = 0 \<and> rt_destroy rt_zero = Some (\<lambda>_. None)"
  using rt_frees_every_version [OF rt_reach_zero] by (simp add: rt_zero_def)

text \<open>C27: An update completes. An updater that runs alone from its allocation on, with no reader inside and
  no lock taken, is done after exactly 144 steps: the next generation is published at the address it
  allocated, the old version is freed and counted, and the lock is released.\<close>

theorem rt_update_completes:
  assumes "rt_reach s" and "tpcs s t = UpLock nv" and "update_lock s = None"
    and "\<forall>u. \<not> inside (t_rcu s) u" and "registry (t_rcu s) = None"
  shows "\<exists>s'. exec rt_step s (tgo 144 t) = Some s' \<and> tpcs s' t = TIdle \<and> cur s' = nv \<and> latest s' = nv \<and>
    published s' = Suc (published s) \<and> rt_freed s' = rt_freed s + 1 \<and> theap s' (cur s) = None \<and> update_lock s' = None"
  unfolding rt_freed_def by (rule update_alone [OF rt.reach_inv [OF assms(1)] assms(2-5)])

theorem rt_update_completes_witness:
  "\<exists>s s'. exec rt_step rt_zero [(1, TUpdate), (1, TMalloc (Some (2, zero_version)))] = Some s \<and>
     exec rt_step s (tgo 144 1) = Some s' \<and> cur s' = 2 \<and> published s' = 1 \<and> theap s' 1 = None"
proof -
  have len: "length (val zero_version) = 64" unfolding zero_version_def by code_simp
  obtain s where s: "exec rt_step rt_zero [(1, TUpdate), (1, TMalloc (Some (2, zero_version)))] = Some s"
    "tpcs s 1 = UpLock 2" "update_lock s = None" "\<forall>u. \<not> inside (t_rcu s) u" "registry (t_rcu s) = None"
    "cur s = 1" "published s = 0"
    using len by (simp add: rt_zero_def rcu_start_def tgoto_def inside_def)
  have "rt_reach s" by (rule exec_from_init [of rt_start rt_zero rt_step, OF rt_zero_start s(1)])
  from rt_update_completes [OF this s(2-5)] show ?thesis using s(1,6,7) by auto
qed

end
