(* ===== verification/RwTable.thy ===== *)
theory RwTable
  imports RcuTable_Inv
begin

text \<open>
  The baseline of \<open>week4/src/table.c\<close>: one version, read and updated in place under a \<open>pthread_rwlock_t\<close>,
  which is modelled by its documented behaviour: readers share it, a writer has it alone.
\<close>

section \<open>State and steps\<close>

datatype wpc =
    WIdle
  | RdLock nat nat | RdVal nat nat | RdGen nat nat clong | RdUnlock nat nat clong bool
  | WrLock | WrGen | WrFill clong nat | WrUnlock

text \<open>\<open>rw_gens\<close> and \<open>rw_answers\<close> are ghosts: the finished updates and the finished lookups.\<close>

record rwt =
  rw_v :: version
  rw_readers :: "tid list"
  rw_writer :: "tid option"
  rw_pcs :: "tid \<Rightarrow> wpc"
  rw_gens :: nat
  rw_answers :: "lookup list"

text \<open>\<open>rw_init\<close>, given what the memory held and the result of \<open>pthread_rwlock_init\<close>.\<close>

definition rw_init :: "version \<Rightarrow> int \<Rightarrow> int \<times> rwt" where
  "rw_init junk rc = (if rc = 0 then 0 else - 1,
     \<lparr>rw_v = fill junk 0, rw_readers = [], rw_writer = None, rw_pcs = (\<lambda>_. WIdle), rw_gens = 0, rw_answers = []\<rparr>)"

definition wgoto :: "tid \<Rightarrow> wpc \<Rightarrow> rwt \<Rightarrow> rwt" where
  "wgoto t p s = s\<lparr>rw_pcs := (rw_pcs s)(t := p)\<rparr>"

fun rw_lookup_go :: "tid \<Rightarrow> wpc \<Rightarrow> rwt \<Rightarrow> rwt option" where
  "rw_lookup_go t (RdLock key f) s =
     (if rw_writer s = None then Some (wgoto t (RdVal key f) (s\<lparr>rw_readers := t # rw_readers s\<rparr>)) else None)"
| "rw_lookup_go t (RdVal key f) s = Some (wgoto t (RdGen key f (val (rw_v s) ! key)) s)"
| "rw_lookup_go t (RdGen key f x) s = Some (wgoto t (RdUnlock key f x (consistent (rw_v s) key x)) s)"
| "rw_lookup_go t (RdUnlock key f x ok) s = Some (wgoto t WIdle (s\<lparr>rw_readers := remove1 t (rw_readers s),
     rw_answers := rw_answers s @ [\<lparr>l_key = key, l_value = x, l_ok = ok, l_from = f, l_to = rw_gens s\<rparr>]\<rparr>))"
| "rw_lookup_go t p s = None"

fun rw_update_go :: "tid \<Rightarrow> wpc \<Rightarrow> rwt \<Rightarrow> rwt option" where
  "rw_update_go t WrLock s =
     (if rw_writer s = None \<and> rw_readers s = [] then Some (wgoto t WrGen (s\<lparr>rw_writer := Some t\<rparr>)) else None)"
| "rw_update_go t WrGen s = (let g = gen (rw_v s) + 1 in Some (wgoto t (WrFill g 0) (s\<lparr>rw_v := (rw_v s)\<lparr>gen := g\<rparr>\<rparr>)))"
| "rw_update_go t (WrFill g k) s = Some (
     if k < TABLE_KEYS then wgoto t (WrFill g (Suc k)) (s\<lparr>rw_v := fill_val (rw_v s) g k\<rparr>)
     else wgoto t WrUnlock (s\<lparr>rw_gens := Suc (rw_gens s)\<rparr>))"
| "rw_update_go t WrUnlock s = Some (wgoto t WIdle (s\<lparr>rw_writer := None\<rparr>))"
| "rw_update_go t p s = None"

datatype wact = WLookup nat | WUpdate | WGo

fun rw_step :: "tid \<times> wact \<Rightarrow> rwt \<Rightarrow> rwt option" where
  "rw_step (t, WLookup key) s =
     (if rw_pcs s t = WIdle \<and> key < TABLE_KEYS then Some (wgoto t (RdLock key (rw_gens s)) s) else None)"
| "rw_step (t, WUpdate) s = (if rw_pcs s t = WIdle then Some (wgoto t WrLock s) else None)"
| "rw_step (t, WGo) s = (case rw_lookup_go t (rw_pcs s t) s of Some s' \<Rightarrow> Some s'
     | None \<Rightarrow> rw_update_go t (rw_pcs s t) s)"

definition rw_start :: "rwt \<Rightarrow> bool" where
  "rw_start s \<longleftrightarrow> (\<exists>junk. length (val junk) = TABLE_KEYS \<and> rw_init junk 0 = (0, s))"

section \<open>The invariant\<close>

fun reading :: "wpc \<Rightarrow> bool" where
  "reading (RdVal key f) = True" | "reading (RdGen key f x) = True" | "reading (RdUnlock key f x ok) = True"
| "reading p = False"

fun writing :: "wpc \<Rightarrow> bool" where
  "writing WrGen = True" | "writing (WrFill g k) = True" | "writing WrUnlock = True" | "writing p = False"

fun w_ok :: "version \<Rightarrow> nat \<Rightarrow> wpc \<Rightarrow> bool" where
  "w_ok v n (RdLock key f) \<longleftrightarrow> key < TABLE_KEYS \<and> f \<le> n"
| "w_ok v n (RdVal key f) \<longleftrightarrow> key < TABLE_KEYS \<and> f \<le> n \<and> filled n v"
| "w_ok v n (RdGen key f x) \<longleftrightarrow> f \<le> n \<and> filled n v \<and> x = value_of (of_nat n) key"
| "w_ok v n (RdUnlock key f x ok) \<longleftrightarrow> ok \<and> f \<le> n \<and> filled n v \<and> x = value_of (of_nat n) key"
| "w_ok v n WrGen \<longleftrightarrow> filled n v"
| "w_ok v n (WrFill g k) \<longleftrightarrow> g = of_nat (Suc n) \<and> k \<le> TABLE_KEYS \<and> gen v = g \<and> length (val v) = TABLE_KEYS \<and>
     (\<forall>j<k. val v ! j = value_of g j)"
| "w_ok v n WrUnlock \<longleftrightarrow> filled n v"
| "w_ok v n WIdle \<longleftrightarrow> True"
| "w_ok v n WrLock \<longleftrightarrow> True"

definition rw_inv :: "rwt \<Rightarrow> bool" where
  "rw_inv s \<longleftrightarrow> distinct (rw_readers s) \<and> (\<forall>t. t \<in> set (rw_readers s) \<longleftrightarrow> reading (rw_pcs s t)) \<and>
     (\<forall>t. rw_writer s = Some t \<longleftrightarrow> writing (rw_pcs s t)) \<and> (rw_writer s \<noteq> None \<longrightarrow> rw_readers s = []) \<and>
     (rw_writer s = None \<longrightarrow> filled (rw_gens s) (rw_v s)) \<and> (\<forall>t. w_ok (rw_v s) (rw_gens s) (rw_pcs s t)) \<and>
     list_all answer_ok (rw_answers s)"

lemma w_ok_idle: "w_ok v n p \<Longrightarrow> \<not> reading p \<Longrightarrow> \<not> writing p \<Longrightarrow> n \<le> n' \<Longrightarrow> w_ok v' n' p"
  by (cases p) auto

text \<open>What holds of the others while one thread writes: they neither read nor write.\<close>

lemma alone:
  assumes "rw_inv s" and "writing (rw_pcs s t)" and "u \<noteq> t"
  shows "\<not> reading (rw_pcs s u)" and "\<not> writing (rw_pcs s u)"
proof -
  have w: "rw_writer s = Some t" using assms by (auto simp: rw_inv_def)
  then show "\<not> reading (rw_pcs s u)" using assms(1) unfolding rw_inv_def by (metis empty_iff list.set(1) option.discI)
  show "\<not> writing (rw_pcs s u)" using assms w unfolding rw_inv_def by (metis option.inject)
qed

lemma writing_not_reading: "writing p \<Longrightarrow> \<not> reading p"
  by (cases p) auto

lemma rw_inv_write:
  assumes inv: "rw_inv s" and t: "writing (rw_pcs s t)" and p: "writing p" "w_ok v n p" and n: "rw_gens s \<le> n"
    and s': "s' = wgoto t p (s\<lparr>rw_v := v, rw_gens := n\<rparr>)"
  shows "rw_inv s'"
proof -
  have w: "rw_writer s = Some t" using inv t by (auto simp: rw_inv_def)
  have "w_ok v n (rw_pcs s u)" if "u \<noteq> t" for u
  proof -
    have "w_ok (rw_v s) (rw_gens s) (rw_pcs s u)" using inv by (simp add: rw_inv_def)
    then show ?thesis by (rule w_ok_idle [OF _ alone [OF inv t that] n])
  qed
  moreover have "\<not> reading (rw_pcs s t)" "\<not> reading p" using t p writing_not_reading by blast+
  ultimately show ?thesis using inv w p s' t by (auto simp: rw_inv_def wgoto_def)
qed

lemma rw_inv_upd:
  assumes inv: "rw_inv s"
    and s': "s' = wgoto t p (s\<lparr>rw_readers := rs, rw_writer := w, rw_answers := as\<rparr>)"
    and rs: "distinct rs" "t \<in> set rs \<longleftrightarrow> reading p" "\<And>u. u \<noteq> t \<Longrightarrow> u \<in> set rs \<longleftrightarrow> u \<in> set (rw_readers s)"
    and w: "w = Some t \<longleftrightarrow> writing p" "\<And>u. u \<noteq> t \<Longrightarrow> w = Some u \<longleftrightarrow> rw_writer s = Some u" "w = None \<or> rs = []"
    and v: "w = None \<Longrightarrow> filled (rw_gens s) (rw_v s)" "w_ok (rw_v s) (rw_gens s) p" "list_all answer_ok as"
  shows "rw_inv s'"
  using assms unfolding rw_inv_def wgoto_def by auto

lemma rw_inv_step:
  assumes st: "rw_step (t, a) s = Some s'" and inv: "rw_inv s"
  shows "rw_inv s'"
proof (cases a)
  case WGo
  have ok: "w_ok (rw_v s) (rw_gens s) (rw_pcs s t)" using inv by (simp add: rw_inv_def)
  have go: "rw_lookup_go t (rw_pcs s t) s = Some s' \<or> rw_update_go t (rw_pcs s t) s = Some s'"
    using st WGo by (auto split: option.splits)
  show ?thesis
  proof (cases "rw_pcs s t")
    case (WrFill g k)
    show ?thesis
    proof (cases "k < TABLE_KEYS")
      case True
      then show ?thesis
        using go WrFill ok
        by (intro rw_inv_write [OF inv, of t "WrFill g (Suc k)" "fill_val (rw_v s) g k" "rw_gens s"])
          (auto simp: less_Suc_eq nth_list_update wgoto_def)
    next
      case False
      then show ?thesis
        using go WrFill ok
        by (intro rw_inv_write [OF inv, of t WrUnlock "rw_v s" "Suc (rw_gens s)"]) (auto simp: filled_def wgoto_def)
    qed
  next
    case WrGen
    then show ?thesis
      using go ok by (intro rw_inv_write [OF inv, of t "WrFill (gen (rw_v s) + 1) 0"
        "(rw_v s)\<lparr>gen := gen (rw_v s) + 1\<rparr>" "rw_gens s"])
        (auto simp: filled_def wgoto_def Let_def)
  next
    case (RdLock key f)
    then have "rw_writer s = None" and s': "s' = wgoto t (RdVal key f) (s\<lparr>rw_readers := t # rw_readers s\<rparr>)"
      using go by (auto split: if_splits)
    then show ?thesis
      using RdLock ok inv
      by (intro rw_inv_upd [OF inv, where s' = s' and t = t and p = "RdVal key f" and rs = "t # rw_readers s" and w = None and as = "rw_answers s"]) (auto simp: rw_inv_def wgoto_def)
  next
    case (RdVal key f)
    then have "rw_writer s = None" using inv unfolding rw_inv_def by (metis list.distinct(1) empty_iff list.set(1) reading.simps(1))
    then show ?thesis
      using RdVal ok inv go
      by (intro rw_inv_upd [OF inv, where s' = s' and t = t and p = "RdGen key f (val (rw_v s) ! key)" and rs = "rw_readers s" and w = None and as = "rw_answers s"])
        (auto simp: rw_inv_def wgoto_def filled_def)
  next
    case (RdGen key f x)
    then have "rw_writer s = None" using inv unfolding rw_inv_def by (metis empty_iff list.set(1) reading.simps(2))
    then show ?thesis
      using RdGen ok inv go
      by (intro rw_inv_upd [OF inv, where s' = s' and t = t and p = "RdUnlock key f x True" and rs = "rw_readers s" and w = None and as = "rw_answers s"])
        (auto simp: rw_inv_def wgoto_def filled_def consistent_def)
  next
    case (RdUnlock key f x b)
    then have "rw_writer s = None" using inv unfolding rw_inv_def by (metis empty_iff list.set(1) reading.simps(3))
    then show ?thesis
      using RdUnlock ok inv go
      by (intro rw_inv_upd [OF inv, where s' = s' and t = t and p = WIdle and rs = "remove1 t (rw_readers s)" and w = None and as = "rw_answers s @ [\<lparr>l_key = key, l_value = x, l_ok = b, l_from = f, l_to = rw_gens s\<rparr>]"])
        (auto simp: rw_inv_def wgoto_def answer_ok_def)
  next
    case WrLock
    then have "rw_writer s = None" "rw_readers s = []" and s': "s' = wgoto t WrGen (s\<lparr>rw_writer := Some t\<rparr>)"
      using go by (auto split: if_splits)
    then show ?thesis
      using WrLock ok inv
      by (intro rw_inv_upd [OF inv, where s' = s' and t = t and p = WrGen and rs = "[]" and w = "Some t" and as = "rw_answers s"]) (auto simp: rw_inv_def wgoto_def)
  next
    case WrUnlock
    then have w: "rw_writer s = Some t" using inv unfolding rw_inv_def by (metis writing.simps(3))
    then have "rw_readers s = []" using inv by (simp add: rw_inv_def)
    then show ?thesis
      using WrUnlock ok inv go w
      by (intro rw_inv_upd [OF inv, where s' = s' and t = t and p = WIdle and rs = "[]" and w = None and as = "rw_answers s"]) (auto simp: rw_inv_def wgoto_def)
  qed (use go in auto)
next
  case (WLookup key)
  then show ?thesis
    using st inv by (intro rw_inv_upd [OF inv, where s' = s' and t = t and p = "RdLock key (rw_gens s)" and rs = "rw_readers s" and w = "rw_writer s" and as = "rw_answers s"])
      (auto simp: rw_inv_def wgoto_def split: if_splits)
next
  case WUpdate
  then show ?thesis
    using st inv by (intro rw_inv_upd [OF inv, where s' = s' and t = t and p = WrLock and rs = "rw_readers s" and w = "rw_writer s" and as = "rw_answers s"])
      (auto simp: rw_inv_def wgoto_def split: if_splits)
qed

interpretation rw: inductive_invariant rw_start "step_of rw_step" rw_inv
proof
  show "rw_inv s" if "rw_start s" for s
    using that filled_fill [of _ 0] by (auto simp: rw_start_def rw_init_def rw_inv_def)
  show "rw_inv s'" if "step_of rw_step s s'" "rw_inv s" for s s'
    using that rw_inv_step by (auto simp: step_of_def)
qed

section \<open>The property\<close>

text \<open>The baseline is consistent too: every finished \<open>rw_lookup\<close> returned 1, with the value of its key in
  a generation that was current between its call and its return, although updates write the one version
  field by field.\<close>

lemma rw_lookup_consistent:
  assumes "reach rw_start (step_of rw_step) s" and "l \<in> set (rw_answers s)"
  shows "l_ok l \<and> (\<exists>g. l_from l \<le> g \<and> g \<le> l_to l \<and> l_value l = of_nat g * 64 + of_nat (l_key l))"
  using rw.reach_inv [OF assms(1)] assms(2) by (auto simp: rw_inv_def list_all_iff answer_ok_def value_of_def)

text \<open>An initial table.\<close>

definition rw_zero :: rwt where
  "rw_zero = snd (rw_init \<lparr>gen = 7, val = replicate 64 9\<rparr> 0)"

lemma rw_zero_start: "rw_start rw_zero"
  unfolding rw_start_def rw_zero_def by (intro exI [of _ "\<lparr>gen = 7, val = replicate 64 9\<rparr>"]) (simp add: rw_init_def)

end
