(* ===== verification/TableBench.thy ===== *)
theory TableBench
  imports RcuTable_Thms RwTable Nullcall
begin

text \<open>
  The read-side benchmark \<open>week4/src/bench.c\<close>: readers that look keys up in order and one writer, on either table, released
  together by a gate. The benchmark drives a table through the calls in \<open>table_api\<close>. The static variables of \<open>rcu.c\<close> and \<open>table.c\<close>
  pass from one run to the next. Shown of both tables: no reader ever counts a torn read, and the updates reported are the generations published.
\<close>

section \<open>The threads\<close>

text \<open>
  The calls of a table; \<open>tb_register\<close> is \<open>None\<close> for the table without RCU, whose readers do not register. \<open>tb_inner\<close> are the steps
  inside a call, \<open>tb_idle\<close> says that a thread is in none.
\<close>

record ('s, 'a) table_api =
  tb_step :: "tid \<times> 'a \<Rightarrow> 's \<Rightarrow> 's option"
  tb_register :: "'a option"
  tb_unregister :: "'a option"
  tb_registered :: "'s \<Rightarrow> tid \<Rightarrow> bool"
  tb_lookup :: "nat \<Rightarrow> 'a"
  tb_update :: 'a
  tb_inner :: "'a \<Rightarrow> bool"
  tb_idle :: "'s \<Rightarrow> tid \<Rightarrow> bool"
  tb_answers :: "'s \<Rightarrow> lookup list"

fun rt_inner :: "tact \<Rightarrow> bool" where
  "rt_inner TGo = True" | "rt_inner (TMalloc m) = True" | "rt_inner (TRcu a) = (a = RGo)" | "rt_inner a = False"

definition rt_api :: "(rtab, tact) table_api" where
  "rt_api = \<lparr>tb_step = rt_step, tb_register = Some (TRcu Register), tb_unregister = Some (TRcu Unregister),
     tb_registered = (\<lambda>s t. handle (t_rcu s) t \<noteq> None), tb_lookup = TLookup, tb_update = TUpdate, tb_inner = rt_inner,
     tb_idle = (\<lambda>s t. tpcs s t = TIdle \<and> rpcs (t_rcu s) t = Out), tb_answers = answers\<rparr>"

definition rw_api :: "(rwt, wact) table_api" where
  "rw_api = \<lparr>tb_step = rw_step, tb_register = None, tb_unregister = None, tb_registered = (\<lambda>s t. False),
     tb_lookup = WLookup, tb_update = WUpdate, tb_inner = (\<lambda>a. a = WGo), tb_idle = (\<lambda>s t. rw_pcs s t = WIdle), tb_answers = rw_answers\<rparr>"

text \<open>Readers are in iteration \<open>j\<close> with \<open>torn\<close> bad answers so far; the writer in iteration \<open>u\<close>, spinning at \<open>s\<close>.\<close>

datatype tbpc =
    BReg | BRegIn | BGate | BTop nat int | BLookup nat int | BUnreg int | BDone int
  | VGate | VTop nat | VUpdate nat | VSpin nat nat | VDone

record 's tbench =
  table :: 's
  gate :: bool
  tbpcs :: "tid \<Rightarrow> tbpc"

abbreviation UPDATE_SPIN :: nat where "UPDATE_SPIN \<equiv> 20000"

definition tbgoto :: "tid \<Rightarrow> tbpc \<Rightarrow> 's tbench \<Rightarrow> 's tbench" where
  "tbgoto t p b = b\<lparr>tbpcs := (tbpcs b)(t := p)\<rparr>"

definition on_table :: "('s, 'a) table_api \<Rightarrow> tid \<Rightarrow> 'a \<Rightarrow> ('s \<Rightarrow> tbpc) \<Rightarrow> 's tbench \<Rightarrow> 's tbench option" where
  "on_table api t a p b = map_option (\<lambda>s. tbgoto t (p s) (b\<lparr>table := s\<rparr>)) (tb_step api (t, a) (table b))"

text \<open>A step of a thread's own code: \<open>reader\<close> and \<open>writer\<close>.\<close>

fun reader_go :: "('s, 'a) table_api \<Rightarrow> nat \<Rightarrow> tid \<Rightarrow> tbpc \<Rightarrow> 's tbench \<Rightarrow> 's tbench option" where
  "reader_go api nreads t BReg b = (case tb_register api of
     None \<Rightarrow> Some (tbgoto t BGate b) | Some a \<Rightarrow> on_table api t a (\<lambda>s. BRegIn) b)"
| "reader_go api nreads t BGate b = (if gate b then Some (tbgoto t (BTop 0 0) b) else None)"
| "reader_go api nreads t (BTop j torn) b =
     (if j < nreads then on_table api t (tb_lookup api (j mod TABLE_KEYS)) (\<lambda>s. BLookup j torn) b
      else if tb_registered api (table b) t then
        (case tb_unregister api of None \<Rightarrow> None | Some a \<Rightarrow> on_table api t a (\<lambda>s. BUnreg torn) b)
      else Some (tbgoto t (BDone torn) b))"
| "reader_go api nreads t p b = None"

fun writer_go :: "('s, 'a) table_api \<Rightarrow> nat \<Rightarrow> tid \<Rightarrow> tbpc \<Rightarrow> 's tbench \<Rightarrow> 's tbench option" where
  "writer_go api updates t VGate b = (if gate b then Some (tbgoto t (VTop 0) b) else None)"
| "writer_go api updates t (VTop u) b =
     (if u < updates then on_table api t (tb_update api) (\<lambda>s. VUpdate u) b else Some (tbgoto t VDone b))"
| "writer_go api updates t (VSpin u s) b =
     (if s < UPDATE_SPIN then Some (tbgoto t (VSpin u (Suc s)) b) else Some (tbgoto t (VTop (Suc u)) b))"
| "writer_go api updates t p b = None"

text \<open>A step inside a call; where the thread is when that call has returned. \<open>ok\<close> is what the lookup returned: the
  answer that its last step has added.\<close>

fun in_table :: "tbpc \<Rightarrow> bool" where
  "in_table BRegIn = True" | "in_table (BLookup j torn) = True" | "in_table (BUnreg torn) = True" | "in_table (VUpdate u) = True"
| "in_table p = False"

fun after_call :: "bool \<Rightarrow> tbpc \<Rightarrow> tbpc" where
  "after_call ok BRegIn = BGate"
| "after_call ok (BLookup j torn) = BTop (Suc j) (torn + c_bool (\<not> ok))"
| "after_call ok (BUnreg torn) = BDone torn"
| "after_call ok (VUpdate u) = VSpin u 0"
| "after_call ok p = p"

definition call_go :: "('s, 'a) table_api \<Rightarrow> tid \<Rightarrow> 'a \<Rightarrow> 's tbench \<Rightarrow> 's tbench option" where
  "call_go api t a b = on_table api t a
     (\<lambda>s. if tb_idle api s t
       then after_call (list_all l_ok (drop (length (tb_answers api (table b))) (tb_answers api s))) (tbpcs b t)
       else tbpcs b t) b"

text \<open>Opening the gate is the step of the main thread.\<close>

datatype 'a tbact = Open_Gate | Own tid | Inner tid 'a

fun tbench_step :: "('s, 'a) table_api \<Rightarrow> nat \<Rightarrow> nat \<Rightarrow> 'a tbact \<Rightarrow> 's tbench \<Rightarrow> 's tbench option" where
  "tbench_step api nreads updates Open_Gate b = Some (b\<lparr>gate := True\<rparr>)"
| "tbench_step api nreads updates (Own t) b = (case reader_go api nreads t (tbpcs b t) b of
     Some b' \<Rightarrow> Some b' | None \<Rightarrow> writer_go api updates t (tbpcs b t) b)"
| "tbench_step api nreads updates (Inner t a) b =
     (if in_table (tbpcs b t) \<and> tb_inner api a then call_go api t a b else None)"

text \<open>Threads 0 to \<open>nreaders - 1\<close> read, thread \<open>nreaders\<close> writes.\<close>

definition tbench_start :: "'s \<Rightarrow> nat \<Rightarrow> 's tbench" where
  "tbench_start s nreaders = \<lparr>table = s, gate = False,
     tbpcs = (\<lambda>t. if t < nreaders then BReg else if t = nreaders then VGate else VDone)\<rparr>"

section \<open>The program\<close>

text \<open>
  What one call of \<open>run_once\<close> leaves to the next: the static variables of \<open>rcu.c\<close> (the slots, their lock and \<open>sync_waits\<close>; the
  threads of the earlier calls are gone) and \<open>freed\<close> of \<open>table.c\<close>.
\<close>

record statics =
  st_rcu :: rcu
  st_freed :: clong

definition statics_start :: statics where
  "statics_start = \<lparr>st_rcu = rcu_start, st_freed = 0\<rparr>"

definition new_threads :: "rcu \<Rightarrow> rcu" where
  "new_threads r = rcu_start\<lparr>readers := readers r, registry := registry r, sync_waits := sync_waits r\<rparr>"

text \<open>\<open>rt_init\<close> in a process that has run before.\<close>

definition rt_init_in :: "statics \<Rightarrow> (addr \<times> version) option \<Rightarrow> rtab option" where
  "rt_init_in g m = map_option (\<lambda>s. s\<lparr>t_rcu := new_threads (st_rcu g), freed_count := st_freed g\<rparr>) (rt_init m)"

text \<open>What happens in one call of \<open>run_once\<close>: how the table is initialised, the interleaving, the clock.\<close>

record ('i, 'a) table_run =
  tr_init :: 'i
  tr_sched :: "'a tbact list"
  tr_clock :: "timespec \<times> timespec"

datatype run_out = Exit1 | Ran double int int \<comment> \<open>seconds, \<open>*torn\<close>, \<open>*freed\<close>\<close>

fun now_sec :: "timespec \<Rightarrow> double" where
  "now_sec (tv_sec, tv_nsec) = dadd (double_of tv_sec) (ddiv (double_of tv_nsec) 1000000000)"

text \<open>\<open>t1 - t0\<close>.\<close>

definition elapsed :: "timespec \<times> timespec \<Rightarrow> double" where
  "elapsed c = dsub (now_sec (snd c)) (now_sec (fst c))"

fun torn_of :: "tbpc \<Rightarrow> int option" where
  "torn_of (BDone torn) = Some torn" | "torn_of p = None"

fun sum_torn :: "(tid \<Rightarrow> tbpc) \<Rightarrow> nat \<Rightarrow> int \<Rightarrow> int option" where
  "sum_torn P 0 torn = Some torn"
| "sum_torn P (Suc n) torn = do { torn \<leftarrow> sum_torn P n torn; k \<leftarrow> torn_of (P n); long (torn + k) }"

text \<open>
  \<open>run_once\<close> for one table: \<open>freed_of\<close> is what \<open>rt_freed\<close> returns (for the other table always 0), \<open>destroy\<close> whether destruction
  touches only what is allocated and \<open>keep\<close> what becomes of the static variables; \<open>None\<close> when the schedule does not bring every thread to
  its end, or a \<open>long\<close> overflows.
\<close>

definition run_table ::
    "('s, 'a) table_api \<Rightarrow> (statics \<Rightarrow> 'i \<Rightarrow> 's option) \<Rightarrow> ('s \<Rightarrow> int) \<Rightarrow> ('s \<Rightarrow> bool) \<Rightarrow> ('s \<Rightarrow> statics \<Rightarrow> statics) \<Rightarrow>
     nat \<Rightarrow> nat \<Rightarrow> nat \<Rightarrow> ('i, 'a) table_run \<Rightarrow> statics \<Rightarrow> int \<Rightarrow> (run_out \<times> statics) option" where
  "run_table api init freed_of destroy keep nreads updates nreaders r g torn =
     (case init g (tr_init r) of None \<Rightarrow> Some (Exit1, g)
      | Some s \<Rightarrow> do {
          b \<leftarrow> exec (tbench_step api nreads updates) (tbench_start s nreaders) (tr_sched r);
          torn \<leftarrow> sum_torn (tbpcs b) nreaders torn;
          fr \<leftarrow> long (freed_of (table b) - freed_of s);
          if tbpcs b nreaders = VDone \<and> destroy (table b) then Some (Ran (elapsed (tr_clock r)) torn fr, keep (table b) g) else None
        })"

definition run_rcu ::
    "nat \<Rightarrow> nat \<Rightarrow> nat \<Rightarrow> ((addr \<times> version) option, tact) table_run \<Rightarrow> statics \<Rightarrow> int \<Rightarrow> (run_out \<times> statics) option" where
  "run_rcu = run_table rt_api rt_init_in (\<lambda>s. sint (rt_freed s)) (\<lambda>s. rt_destroy s \<noteq> None)
     (\<lambda>s g. \<lparr>st_rcu = t_rcu s, st_freed = freed_count s\<rparr>)"

definition run_rw :: "nat \<Rightarrow> nat \<Rightarrow> nat \<Rightarrow> (version \<times> int, wact) table_run \<Rightarrow> statics \<Rightarrow> int \<Rightarrow> (run_out \<times> statics) option" where
  "run_rw = run_table rw_api (\<lambda>g (junk, rc). case rw_init junk rc of (e, s) \<Rightarrow> if e = 0 then Some s else None) (\<lambda>s. 0) (\<lambda>s. True)
     (\<lambda>s g. g)"

text \<open>A row; the throughput is infinite, \<open>None\<close> here, when the median is 0.\<close>

record table_row =
  trow_rcu :: bool
  trow_readers :: nat
  trow_trials :: int
  trow_reads :: int
  trow_total :: int
  trow_updates :: int
  trow_torn :: int
  trow_freed :: int
  trow_median :: double
  trow_spread :: double
  trow_throughput :: "double option"

text \<open>The trials of a row: \<open>None\<close> as above, \<open>Some None\<close> when the program has exited.\<close>

fun trials_go ::
    "(statics \<Rightarrow> int \<Rightarrow> (run_out \<times> statics) option) list \<Rightarrow> statics \<Rightarrow> int \<Rightarrow> int \<Rightarrow> (double list \<times> int \<times> int \<times> statics) option option" where
  "trials_go [] g torn freed_min = Some (Some ([], torn, freed_min, g))"
| "trials_go (run # runs) g torn freed_min = do {
     (out, g) \<leftarrow> run g torn;
     (case out of Exit1 \<Rightarrow> Some None
      | Ran secs torn fr \<Rightarrow> do {
          rest \<leftarrow> trials_go runs g torn (if freed_min < 0 \<or> fr < freed_min then fr else freed_min);
          Some (map_option (\<lambda>(ts, out). (secs # ts, out)) rest)
        })
   }"

definition table_cell ::
    "bool \<Rightarrow> nat \<Rightarrow> int \<Rightarrow> int \<Rightarrow> int \<Rightarrow> (nat \<Rightarrow> statics \<Rightarrow> int \<Rightarrow> (run_out \<times> statics) option) \<Rightarrow> statics \<Rightarrow>
     (table_row \<times> statics) option option" where
  "table_cell rcu n trials nreads updates run g = do {
     (warm, g) \<leftarrow> run 0 g 0;
     (case warm of Exit1 \<Rightarrow> Some None
      | Ran _ warm_torn _ \<Rightarrow> do {
          out \<leftarrow> trials_go (map (\<lambda>i. run (Suc i)) [0..<nat trials]) g warm_torn (-1);
          (case out of None \<Rightarrow> Some None
           | Some (t, torn, freed_min, g) \<Rightarrow> do {
               let t = qsort cmp_double t;
               med \<leftarrow> middle t;
               let spread = dsub (t ! (length t - 1)) (t ! 0);
               tot \<leftarrow> long (int n * nreads);
               Some (Some (\<lparr>trow_rcu = rcu, trow_readers = n, trow_trials = trials, trow_reads = nreads, trow_total = tot,
                 trow_updates = updates, trow_torn = torn, trow_freed = freed_min, trow_median = med, trow_spread = spread,
                 trow_throughput = (if med = 0 then None else Some (ddiv (double_of (nat tot)) med))\<rparr>, g))
             })
        })
   }"

text \<open>The exit status, and the rows printed until then.\<close>

fun rows_go :: "(statics \<Rightarrow> (table_row \<times> statics) option option) list \<Rightarrow> statics \<Rightarrow> (int \<times> table_row list) option" where
  "rows_go [] g = Some (0, [])"
| "rows_go (c # cs) g = do {
     cell \<leftarrow> c g;
     (case cell of None \<Rightarrow> Some (1, [])
      | Some (row, g) \<Rightarrow> map_option (\<lambda>(st, rows). (st, row # rows)) (rows_go cs g))
   }"

definition tbench_args :: "string list \<Rightarrow> (int \<times> int \<times> int) option" where
  "tbench_args args = do {
     trials \<leftarrow> (case args of [] \<Rightarrow> Some 5 | a # _ \<Rightarrow> atoi a);
     updates \<leftarrow> (case args of _ # a # _ \<Rightarrow> atoi a | _ \<Rightarrow> Some 100);
     Some (trials, updates, case args of _ # _ # a # _ \<Rightarrow> atol a | _ \<Rightarrow> 2000000)
   }"

definition tbench_main ::
    "string list \<Rightarrow> (nat \<Rightarrow> nat \<Rightarrow> ((addr \<times> version) option, tact) table_run) \<Rightarrow> (nat \<Rightarrow> nat \<Rightarrow> (version \<times> int, wact) table_run) \<Rightarrow>
     (int \<times> table_row list) option" where
  "tbench_main args rcus rws = do {
     (trials, updates, nreads) \<leftarrow> tbench_args args;
     if trials < 1 \<or> trials > 99 \<or> updates < 0 \<or> nreads < 1 then Some (2, [])
     else rows_go
       (map (\<lambda>n. table_cell True n trials nreads updates (\<lambda>i. run_rcu (nat nreads) (nat updates) n (rcus n i))) [1, 2, 4, 8] @
        map (\<lambda>n. table_cell False n trials nreads updates (\<lambda>i. run_rw (nat nreads) (nat updates) n (rws n i))) [1, 2, 4, 8])
       statics_start
   }"

end
