(* ===== verification/TableBench_Thms.thy ===== *)
theory TableBench_Thms
  imports TableBench
begin

text \<open>
  What the rows of the read-side benchmark of week 4 say: no torn reads, and updates that are all published. The interface
  \<open>bench_table\<close> holds what the argument needs of a table; both tables provide it.
\<close>

section \<open>A table in the benchmark\<close>

text \<open>Where a thread is with respect to an update: in none, or before or after its publication.\<close>

datatype upmode = NoUp | Pre | Post

inductive mode_step :: "bool \<Rightarrow> upmode \<Rightarrow> nat \<Rightarrow> upmode \<Rightarrow> nat \<Rightarrow> bool" where
  mode_stay: "mode_step fails m k m k"
| mode_publish: "mode_step fails Pre k Post (Suc k)"
| mode_finish: "mode_step fails Post k NoUp k"
| mode_fail: "mode_step True Pre k NoUp k"

inductive_cases mode_NoUpE: "mode_step f NoUp k m' k'"
inductive_cases mode_PreE: "mode_step False Pre k m' k'"
inductive_cases mode_PostE: "mode_step f Post k m' k'"

fun torn_count :: "tbpc \<Rightarrow> int" where
  "torn_count (BTop j torn) = torn" | "torn_count (BLookup j torn) = torn" | "torn_count (BUnreg torn) = torn"
| "torn_count (BDone torn) = torn" | "torn_count p = 0"

fun reads_only :: "tbpc \<Rightarrow> bool" where
  "reads_only VGate = False" | "reads_only (VTop u) = False" | "reads_only (VUpdate u) = False" | "reads_only (VSpin u s) = False"
| "reads_only p = True"

text \<open>The updates published when the writer is at a point of its loop.\<close>

fun writer_ok :: "nat \<Rightarrow> tbpc \<Rightarrow> upmode \<Rightarrow> nat \<Rightarrow> bool" where
  "writer_ok updates VGate m k \<longleftrightarrow> m = NoUp \<and> k = 0"
| "writer_ok updates (VTop u) m k \<longleftrightarrow> m = NoUp \<and> k = u \<and> u \<le> updates"
| "writer_ok updates (VUpdate u) m k \<longleftrightarrow> u < updates \<and> (m = Pre \<and> k = u \<or> m = Post \<and> k = Suc u \<or> m = NoUp \<and> k = Suc u)"
| "writer_ok updates (VSpin u s) m k \<longleftrightarrow> m = NoUp \<and> k = Suc u \<and> u < updates"
| "writer_ok updates VDone m k \<longleftrightarrow> m = NoUp \<and> k = updates"
| "writer_ok updates p m k \<longleftrightarrow> False"

locale bench_table =
  fixes init :: "'s \<Rightarrow> bool" and api :: "('s, 'a) table_api" and mode :: "'s \<Rightarrow> tid \<Rightarrow> upmode" and pubs :: "'s \<Rightarrow> nat"
    and fails :: "'a \<Rightarrow> bool"
  assumes answered_ok: "reach init (step_of (tb_step api)) s \<Longrightarrow> l \<in> set (tb_answers api s) \<Longrightarrow> l_ok l"
    and start_mode: "init s \<Longrightarrow> mode s t = NoUp \<and> pubs s = 0"
    and update_mode: "reach init (step_of (tb_step api)) s \<Longrightarrow> tb_step api (t, tb_update api) s = Some s' \<Longrightarrow>
      mode s t = NoUp \<and> (\<forall>u. mode s' u = (if u = t then Pre else mode s u)) \<and> pubs s' = pubs s"
    and call_mode: "reach init (step_of (tb_step api)) s \<Longrightarrow> a \<in> set_option (tb_register api) \<union> set_option (tb_unregister api) \<union> range (tb_lookup api) \<Longrightarrow>
      tb_step api (t, a) s = Some s' \<Longrightarrow> mode s' = mode s \<and> pubs s' = pubs s"
    and inner_mode: "reach init (step_of (tb_step api)) s \<Longrightarrow> tb_inner api a \<Longrightarrow> tb_step api (t, a) s = Some s' \<Longrightarrow>
      (\<forall>u. u \<noteq> t \<longrightarrow> mode s' u = mode s u) \<and> mode_step (fails a) (mode s t) (pubs s) (mode s' t) (pubs s')"
    and idle_mode: "reach init (step_of (tb_step api)) s \<Longrightarrow> tb_idle api s t \<Longrightarrow> mode s t = NoUp"
    and start_idle: "init s \<Longrightarrow> tb_idle api s t"
    and others_idle: "tb_step api (t, a) s = Some s' \<Longrightarrow> u \<noteq> t \<Longrightarrow> tb_idle api s' u = tb_idle api s u"
begin

abbreviation table_reach :: "'s \<Rightarrow> bool" where
  "table_reach \<equiv> reach init (step_of (tb_step api))"

lemma tbench_cases:
  assumes "tbench_step api nreads updates l b = Some b'"
  obtains (gate) "l = Open_Gate" and "b' = b\<lparr>gate := True\<rparr>"
  | (own) t p where "l = Own t" and "b' = tbgoto t p b" and "torn_count p = torn_count (tbpcs b t)"
      and "reads_only (tbpcs b t) \<longrightarrow> reads_only p" and "\<not> in_table (tbpcs b t)" and "tbpcs b t \<noteq> VDone" and "\<And>m k. writer_ok updates (tbpcs b t) m k \<Longrightarrow> writer_ok updates p m k"
  | (call) t p a s' where "l = Own t" and "tb_step api (t, a) (table b) = Some s'" and "b' = tbgoto t p (b\<lparr>table := s'\<rparr>)"
      and "a \<in> set_option (tb_register api) \<union> set_option (tb_unregister api) \<union> range (tb_lookup api)"
      and "torn_count p = torn_count (tbpcs b t)" and "reads_only (tbpcs b t)" and "reads_only p"
      and "tbpcs b t \<noteq> VDone" and "in_table p"
  | (update) t u s' where "l = Own t" and "tb_step api (t, tb_update api) (table b) = Some s'" and "b' = tbgoto t (VUpdate u) (b\<lparr>table := s'\<rparr>)"
      and "tbpcs b t = VTop u" and "u < updates"
  | (inner) t a s' where "l = Inner t a" and "in_table (tbpcs b t)" and "tb_inner api a" and "tb_step api (t, a) (table b) = Some s'"
      and "b' = tbgoto t (if tb_idle api s' t
        then after_call (list_all l_ok (drop (length (tb_answers api (table b))) (tb_answers api s'))) (tbpcs b t)
        else tbpcs b t) (b\<lparr>table := s'\<rparr>)"
proof (cases l)
  case Open_Gate
  then show ?thesis using assms gate by simp
next
  case (Inner t a)
  then obtain s' where "in_table (tbpcs b t)" "tb_inner api a" "tb_step api (t, a) (table b) = Some s'"
    "b' = tbgoto t (if tb_idle api s' t
        then after_call (list_all l_ok (drop (length (tb_answers api (table b))) (tb_answers api s'))) (tbpcs b t)
        else tbpcs b t) (b\<lparr>table := s'\<rparr>)"
    using assms by (auto simp: call_go_def on_table_def split: if_split_asm)
  then show ?thesis using inner [OF Inner] by blast
next
  case (Own t)
  show ?thesis
  proof (cases "tbpcs b t")
    case BReg
    show ?thesis
    proof (cases "tb_register api")
      case None
      then show ?thesis using own [OF Own, of BGate] assms Own BReg by simp
    next
      case (Some a)
      then obtain s' where "tb_step api (t, a) (table b) = Some s'" "b' = tbgoto t BRegIn (b\<lparr>table := s'\<rparr>)"
        using assms Own BReg by (auto simp: on_table_def split: option.splits)
      then show ?thesis using call [OF Own] BReg Some by auto
    qed
  next
    case BGate
    then show ?thesis using own [OF Own, of "BTop 0 0"] assms Own by (simp split: if_splits)
  next
    case (BTop j torn)
    show ?thesis
    proof (cases "j < nreads")
      case True
      then obtain s' where "tb_step api (t, tb_lookup api (j mod TABLE_KEYS)) (table b) = Some s'" "b' = tbgoto t (BLookup j torn) (b\<lparr>table := s'\<rparr>)"
        using assms Own BTop True by (auto simp: on_table_def split: option.splits)
      then show ?thesis using call [OF Own] BTop by auto
    next
      case False
      note ge = this
      show ?thesis
      proof (cases "tb_registered api (table b) t")
        case True
        then obtain a s' where "tb_unregister api = Some a" "tb_step api (t, a) (table b) = Some s'" "b' = tbgoto t (BUnreg torn) (b\<lparr>table := s'\<rparr>)"
          using assms Own BTop ge by (auto simp: on_table_def split: option.splits)
        then show ?thesis using call [OF Own] BTop by auto
      next
        case False
        then show ?thesis using own [OF Own, of "BDone torn"] assms Own BTop ge by simp
      qed
    qed
  next
    case VGate
    then show ?thesis using own [OF Own, of "VTop 0"] assms Own by (simp split: if_splits)
  next
    case (VTop u)
    show ?thesis
    proof (cases "u < updates")
      case True
      then obtain s' where "tb_step api (t, tb_update api) (table b) = Some s'" "b' = tbgoto t (VUpdate u) (b\<lparr>table := s'\<rparr>)"
        using assms Own VTop True by (auto simp: on_table_def split: option.splits)
      then show ?thesis using update [OF Own] VTop True by blast
    next
      case False
      then show ?thesis using own [OF Own, of VDone] assms Own VTop by simp
    qed
  next
    case (VSpin u s)
    then show ?thesis using own [OF Own, of "VSpin u (Suc s)"] own [OF Own, of "VTop (Suc u)"] assms Own by (simp split: if_splits)
  qed (use assms Own in simp_all)
qed

text \<open>No reader ever counts a torn read.\<close>

definition untorn :: "nat \<Rightarrow> 's tbench \<Rightarrow> bool" where
  "untorn n b \<longleftrightarrow> table_reach (table b) \<and> (\<forall>t. torn_count (tbpcs b t) = 0) \<and> (\<forall>t. t \<noteq> n \<longrightarrow> reads_only (tbpcs b t))"

lemma untorn_step:
  assumes st: "tbench_step api nreads updates l b = Some b'" and inv: "untorn n b"
  shows "untorn n b'"
proof -
  have r: "table_reach (table b)" using inv by (simp add: untorn_def)
  have reach: "table_reach s'" if "tb_step api (t, a) (table b) = Some s'" for t a s'
    using r that by (auto intro: reach.reach_step)
  from st show ?thesis
  proof (cases rule: tbench_cases)
    case gate
    then show ?thesis using inv by (simp add: untorn_def)
  next
    case (own t p)
    then show ?thesis using inv by (auto simp: untorn_def tbgoto_def)
  next
    case (call t p a s')
    then show ?thesis using inv reach [OF call(2)] by (auto simp: untorn_def tbgoto_def)
  next
    case (update t u s')
    then have "t = n" using inv by (metis reads_only.simps(2) untorn_def)
    then show ?thesis using inv reach [OF update(2)] update(3) by (auto simp: untorn_def tbgoto_def)
  next
    case (inner t a s')
    have "list_all l_ok (drop (length (tb_answers api (table b))) (tb_answers api s'))"
      using answered_ok [OF reach [OF inner(4)]] by (auto simp: list_all_iff dest: in_set_dropD)
    then have p: "b' = tbgoto t (if tb_idle api s' t then after_call True (tbpcs b t) else tbpcs b t) (b\<lparr>table := s'\<rparr>)" using inner(5) by simp
    have "torn_count (after_call True (tbpcs b t)) = torn_count (tbpcs b t)" "reads_only (after_call True (tbpcs b t)) = reads_only (tbpcs b t)"
      by (cases "tbpcs b t"; simp)+
    then show ?thesis using inv reach [OF inner(4)] p by (auto simp: untorn_def tbgoto_def)
  qed
qed

text \<open>As long as no update fails, the writer's loop counter is the number of publications.\<close>

definition counted :: "nat \<Rightarrow> nat \<Rightarrow> 's tbench \<Rightarrow> bool" where
  "counted updates n b \<longleftrightarrow> (\<forall>t. t \<noteq> n \<longrightarrow> mode (table b) t = NoUp) \<and> writer_ok updates (tbpcs b n) (mode (table b) n) (pubs (table b))"

fun failing :: "'a tbact \<Rightarrow> bool" where
  "failing (Inner t a) = fails a" | "failing l = False"

lemma counted_step:
  assumes st: "tbench_step api nreads updates l b = Some b'" and inv: "untorn n b" "counted updates n b" and nf: "\<not> failing l"
  shows "counted updates n b'"
proof -
  have r: "table_reach (table b)" using inv by (simp add: untorn_def)
  have reach: "table_reach s'" if "tb_step api (t, a) (table b) = Some s'" for t a s'
    using r that by (auto intro: reach.reach_step)
  have w: "writer_ok updates (tbpcs b n) (mode (table b) n) (pubs (table b))" using inv(2) by (simp add: counted_def)
  from st show ?thesis
  proof (cases rule: tbench_cases)
    case gate
    then show ?thesis using inv by (simp add: counted_def)
  next
    case (own t p)
    then show ?thesis using inv by (auto simp: counted_def tbgoto_def)
  next
    case (call t p a s')
    have "t \<noteq> n" using w call(6,8) by (cases "tbpcs b n") auto
    then show ?thesis using inv(2) call_mode [OF r call(4,2)] call(3) by (auto simp: counted_def tbgoto_def)
  next
    case (update t u s')
    then have t: "t = n" using inv by (metis reads_only.simps(2) untorn_def)
    then show ?thesis using inv(2) update_mode [OF r update(2)] update(3-5) by (auto simp: counted_def tbgoto_def)
  next
    case (inner t a s')
    have m: "\<forall>u. u \<noteq> t \<longrightarrow> mode s' u = mode (table b) u" "mode_step False (mode (table b) t) (pubs (table b)) (mode s' t) (pubs s')"
      using inner_mode [OF r inner(3,4)] nf inner(1) by auto
    have idle: "tb_idle api s' t \<Longrightarrow> mode s' t = NoUp" by (rule idle_mode [OF reach [OF inner(4)]])
    show ?thesis
    proof (cases "t = n")
      case True
      then obtain u where u: "tbpcs b n = VUpdate u" using w inner(2) by (cases "tbpcs b n") auto
      have "writer_ok updates (VUpdate u) (mode s' n) (pubs s')"
        using w m(2) u True by (auto elim: mode_NoUpE mode_PreE mode_PostE)
      then have "writer_ok updates (if tb_idle api s' n then VSpin u 0 else VUpdate u) (mode s' n) (pubs s')" using idle True by auto
      then show ?thesis using inv(2) m(1) inner(5) u True by (auto simp: counted_def tbgoto_def)
    next
      case False
      then have "mode (table b) t = NoUp" using inv(2) by (simp add: counted_def)
      then have "mode s' t = NoUp" "pubs s' = pubs (table b)" using m(2) by (auto elim: mode_NoUpE)
      then show ?thesis using inv(2) m(1) inner(5) False by (auto simp: counted_def tbgoto_def)
    qed
  qed
qed

lemma bench_exec:
  assumes "init s" and "exec (tbench_step api nreads updates) (tbench_start s n) ls = Some b"
  shows "untorn n b" and "list_all (\<lambda>l. \<not> failing l) ls \<Longrightarrow> counted updates n b"
proof -
  have "untorn n (tbench_start s n) \<and> counted updates n (tbench_start s n)"
    using assms(1) start_mode [of s] by (auto simp: untorn_def counted_def tbench_start_def reach.reach_init)
  moreover have "untorn n b \<and> (list_all (\<lambda>l. \<not> failing l) ls \<longrightarrow> counted updates n b)"
    if "exec (tbench_step api nreads updates) b0 ls = Some b" "untorn n b0 \<and> counted updates n b0" for b0
    using that
  proof (induction ls arbitrary: b0)
    case (Cons l ls)
    then obtain b1 where b1: "tbench_step api nreads updates l b0 = Some b1" "exec (tbench_step api nreads updates) b1 ls = Some b"
      by (auto split: option.splits)
    note u = untorn_step [OF b1(1) conjunct1 [OF Cons.prems(2)]]
    show ?case
    proof (cases "failing l")
      case True
      have "untorn n b1 \<Longrightarrow> exec (tbench_step api nreads updates) b1 ls = Some b \<Longrightarrow> untorn n b" for b1
        by (induction ls arbitrary: b1) (auto split: option.splits intro: untorn_step)
      then show ?thesis using True u b1(2) by simp
    next
      case False
      then show ?thesis using Cons.IH [OF b1(2)] counted_step [OF b1(1)] Cons.prems(2) u by auto
    qed
  qed simp
  ultimately show "untorn n b" and "list_all (\<lambda>l. \<not> failing l) ls \<Longrightarrow> counted updates n b" using assms(2) by blast+
qed

text \<open>A thread outside the calls is idle in the table; threads that do not exist do nothing.\<close>

definition settled :: "nat \<Rightarrow> 's tbench \<Rightarrow> bool" where
  "settled n b \<longleftrightarrow> (\<forall>t. \<not> in_table (tbpcs b t) \<longrightarrow> tb_idle api (table b) t) \<and> (\<forall>t>n. tbpcs b t = VDone)"

lemma settled_step:
  assumes st: "tbench_step api nreads updates l b = Some b'" and inv: "settled n b"
  shows "settled n b'"
  using st
proof (cases rule: tbench_cases)
  case (call t p a s')
  then show ?thesis using inv others_idle [OF call(2)] by (auto simp: settled_def tbgoto_def)
next
  case (update t u s')
  then show ?thesis using inv others_idle [OF update(2)] by (auto simp: settled_def tbgoto_def)
next
  case (inner t a s')
  then have "tbpcs b t \<noteq> VDone" by auto
  then show ?thesis using inv inner others_idle [OF inner(4)] by (auto simp: settled_def tbgoto_def)
qed (use inv in \<open>auto simp: settled_def tbgoto_def\<close>)

lemma settled_exec: "settled n b \<Longrightarrow> exec (tbench_step api nreads updates) b ls = Some b' \<Longrightarrow> settled n b'"
  by (induction ls arbitrary: b) (auto split: option.splits dest: settled_step)

lemma settled_start: "init s \<Longrightarrow> settled n (tbench_start s n)"
  using start_idle by (simp add: settled_def tbench_start_def)

lemma done_outside: "sum_torn (tbpcs b) k torn = Some x \<Longrightarrow> t < k \<Longrightarrow> \<not> in_table (tbpcs b t)"
proof (induction k arbitrary: x)
  case (Suc k)
  then show ?case by (cases "tbpcs b k") (auto simp: less_Suc_eq split: Option.bind_splits)
qed simp

text \<open>Hence all threads are idle at the end of a run.\<close>

lemma all_idle:
  assumes "init s" and "exec (tbench_step api nreads updates) (tbench_start s n) ls = Some b"
    and "sum_torn (tbpcs b) n torn = Some x" and "tbpcs b n = VDone"
  shows "tb_idle api (table b) t"
proof -
  have s: "settled n b" by (rule settled_exec [OF settled_start [OF assms(1)] assms(2)])
  have "\<not> in_table (tbpcs b t)"
  proof (cases t n rule: linorder_cases)
    case less
    then show ?thesis by (rule done_outside [OF assms(3)])
  next
    case greater
    then show ?thesis using s by (simp add: settled_def)
  qed (use assms(4) in simp)
  then show ?thesis using s by (simp add: settled_def)
qed

lemma sum_torn_0: "untorn n b \<Longrightarrow> sum_torn (tbpcs b) k torn = Some x \<Longrightarrow> x = torn"
proof (induction k arbitrary: x)
  case (Suc k)
  then have "torn_count (tbpcs b k) = 0" by (simp add: untorn_def)
  then have "torn_of (tbpcs b k) = Some y \<Longrightarrow> y = 0" for y by (cases "tbpcs b k") auto
  then show ?case using Suc by (force simp: long_def split: Option.bind_splits if_splits)
qed simp

end

section \<open>The RCU table in a process that has run before\<close>

text \<open>The invariant of the table, with a free count that started at \<open>f\<close>.\<close>

definition tab_from :: "clong \<Rightarrow> rtab \<Rightarrow> bool" where
  "tab_from f s \<longleftrightarrow> tab_inv (s\<lparr>freed_count := freed_count s - f\<rparr>)"

lemma rt_step_shift:
  "rt_step l (s\<lparr>freed_count := freed_count s - f\<rparr>) = map_option (\<lambda>s'. s'\<lparr>freed_count := freed_count s' - f\<rparr>) (rt_step l s)"
proof (cases l)
  case (Pair t a)
  show ?thesis
  proof (cases a)
    case TGo
    then show ?thesis using Pair
      by (cases "tpcs s t") (auto simp: rcu_call_def with_version_def tgoto_def tcrash_def split: option.splits)
  next
    case (TMalloc m)
    then show ?thesis using Pair by (cases m) (auto simp: tgoto_def)
  qed (use Pair in \<open>auto simp: rcu_call_def tgoto_def split: option.splits\<close>)
qed

lemma tab_from_step:
  assumes "rt_step l s = Some s'" and "tab_from f s"
  shows "tab_from f s'"
  unfolding tab_from_def
proof (rule rt.inv_step)
  have "rt_step l (s\<lparr>freed_count := freed_count s - f\<rparr>) = Some (s'\<lparr>freed_count := freed_count s' - f\<rparr>)"
    using assms(1) by (simp add: rt_step_shift)
  then show "step_of rt_step (s\<lparr>freed_count := freed_count s - f\<rparr>) (s'\<lparr>freed_count := freed_count s' - f\<rparr>)"
    unfolding step_of_def by blast
  show "tab_inv (s\<lparr>freed_count := freed_count s - f\<rparr>)" using assms(2) by (simp add: tab_from_def)
qed

definition rt_begin :: "rtab \<Rightarrow> bool" where
  "rt_begin s \<longleftrightarrow> (\<exists>f. tab_from f s) \<and> (\<forall>t. tpcs s t = TIdle \<and> rpcs (t_rcu s) t = Out) \<and> published s = 0"

interpretation rt_from: inductive_invariant rt_begin "step_of rt_step" "\<lambda>s. \<exists>f. tab_from f s"
proof
  show "\<exists>f. tab_from f s" if "rt_begin s" for s using that by (simp add: rt_begin_def)
  show "\<exists>f. tab_from f s'" if "step_of rt_step s s'" "\<exists>f. tab_from f s" for s s'
    using that tab_from_step unfolding step_of_def by blast
qed

text \<open>Static variables between two runs: nobody is inside the RCU.\<close>

definition quiet :: "statics \<Rightarrow> bool" where
  "quiet g \<longleftrightarrow> registry (st_rcu g) = None \<and> (\<forall>i. even (seq (readers (st_rcu g) i)))"

lemma quiet_start: "quiet statics_start"
  by (simp add: quiet_def statics_start_def rcu_start_def)

lemma rcu_inv_quiet: "quiet g \<Longrightarrow> rcu_inv (new_threads (st_rcu g))"
  by (simp add: quiet_def new_threads_def rcu_inv_def slots_ok_def lock_ok_def must_ok_def rcu_start_def separate_def)

lemma rt_init_in_begin:
  assumes "quiet g" and "rt_init_in g (Some (a, junk)) = Some s" and "length (val junk) = TABLE_KEYS"
  shows "rt_begin s" and "tab_from (st_freed g) s" and "freed_count s = st_freed g"
proof -
  have s: "s = \<lparr>t_rcu = new_threads (st_rcu g), theap = [a \<mapsto> fill junk 0], cur = a, latest = a,
         update_lock = None, freed_count = st_freed g, tpcs = (\<lambda>_. TIdle), published = 0, answers = [], t_crash = False\<rparr>"
    using assms(2) by (simp add: rt_init_in_def rt_init_def)
  show *: "tab_from (st_freed g) s" using rcu_inv_quiet [OF assms(1)] filled_fill [OF assms(3), of 0] unfolding tab_from_def s
    by (simp add: tab_inv_def ctrl_ok_def mem_ok_def readers_ok_def count_ok_def separate_def new_threads_def rcu_start_def)
  show "rt_begin s" unfolding rt_begin_def using * by (auto simp: s new_threads_def rcu_start_def)
  show "freed_count s = st_freed g" by (simp add: s)
qed

text \<open>When all threads are idle again, the static variables are as they should be for the next run.\<close>

lemma idle_quiet:
  assumes "tab_from f s" and "\<forall>t. rpcs (t_rcu s) t = Out"
  shows "quiet \<lparr>st_rcu = t_rcu s, st_freed = freed_count s\<rparr>"
proof -
  have inv: "rcu_inv (t_rcu s)" using assms(1) by (simp add: tab_from_def tab_inv_def ctrl_ok_def)
  have "registry (t_rcu s) = None"
    using inv assms(2) by (cases "registry (t_rcu s)") (auto simp: rcu_inv_def lock_ok_def)
  moreover have "even (seq (readers (t_rcu s) i))" for i
    using inv assms(2) by (auto simp: rcu_inv_def slots_ok_def inside_def)
  ultimately show ?thesis by (simp add: quiet_def)
qed

section \<open>Both tables\<close>

lemma rt_api_simps [simp]:
  "tb_step rt_api = rt_step" "tb_register rt_api = Some (TRcu Register)" "tb_unregister rt_api = Some (TRcu Unregister)"
  "tb_lookup rt_api = TLookup" "tb_update rt_api = TUpdate" "tb_inner rt_api = rt_inner" "tb_answers rt_api = answers"
  "tb_idle rt_api s t \<longleftrightarrow> tpcs s t = TIdle \<and> rpcs (t_rcu s) t = Out"
  by (simp_all add: rt_api_def)

lemma rw_api_simps [simp]:
  "tb_step rw_api = rw_step" "tb_register rw_api = None" "tb_unregister rw_api = None" "tb_lookup rw_api = WLookup"
  "tb_update rw_api = WUpdate" "tb_inner rw_api a \<longleftrightarrow> a = WGo" "tb_answers rw_api = rw_answers" "tb_idle rw_api s' t \<longleftrightarrow> rw_pcs s' t = WIdle"
  by (simp_all add: rw_api_def)

fun up_mode :: "tpc \<Rightarrow> upmode" where
  "up_mode UpMalloc = Pre" | "up_mode (UpLock nv) = Pre" | "up_mode (UpOld nv) = Pre" | "up_mode (UpCopy nv old) = Pre"
| "up_mode (UpGen nv old) = Pre" | "up_mode (UpFill nv old g k) = Pre" | "up_mode (UpPublish nv old) = Pre"
| "up_mode (UpLatest nv old) = Post" | "up_mode (UpSync old) = Post" | "up_mode (UpWait old) = Post" | "up_mode (UpFree old) = Post"
| "up_mode UpCount = Post" | "up_mode UpUnlock = Post" | "up_mode p = NoUp"

lemma rcu_call_frame: "rcu_call t a p s = Some s' \<Longrightarrow> tpcs s' = (tpcs s)(t := p) \<and> published s' = published s"
  by (auto simp: rcu_call_def tgoto_def split: option.splits)

lemma lookup_go_mode:
  assumes "lookup_go t (tpcs s t) s = Some s'"
  shows "(\<forall>u. up_mode (tpcs s' u) = up_mode (tpcs s u)) \<and> published s' = published s"
proof (cases "tpcs s t")
  case (LkLock key f)
  then show ?thesis using assms rcu_call_frame by fastforce
next
  case (LkUnlock key f x ok)
  then show ?thesis using assms rcu_call_frame by fastforce
next
  case (LkReads key f x ok)
  then show ?thesis using assms rcu_call_frame [of t RGo TIdle] by fastforce
qed (use assms in \<open>auto simp: tgoto_def tcrash_def with_version_def split: option.splits\<close>)

lemma update_go_mode:
  assumes "update_go t (tpcs s t) s = Some s'" and "\<not> t_crash s'"
  shows "(\<forall>u. u \<noteq> t \<longrightarrow> tpcs s' u = tpcs s u) \<and> mode_step f (up_mode (tpcs s t)) (published s) (up_mode (tpcs s' t)) (published s')"
proof (cases "tpcs s t")
  case (UpSync old)
  then show ?thesis using assms rcu_call_frame [of t Synchronize "UpWait old" s s'] by (simp add: mode_stay)
next
  case (UpWait old)
  then show ?thesis using assms rcu_call_frame [of t RGo _ s s'] by (auto simp: mode_stay split: if_splits)
qed (use assms in \<open>auto simp: tgoto_def tcrash_def with_version_def mode_stay mode_publish mode_finish split: option.splits if_splits\<close>)

lemma rt_inner_mode:
  assumes r: "reach rt_begin (step_of rt_step) s" and a: "rt_inner a" and st: "rt_step (t, a) s = Some s'"
  shows "(\<forall>u. u \<noteq> t \<longrightarrow> up_mode (tpcs s' u) = up_mode (tpcs s u)) \<and>
    mode_step (a = TMalloc None) (up_mode (tpcs s t)) (published s) (up_mode (tpcs s' t)) (published s')"
proof -
  have "reach rt_begin (step_of rt_step) s'" using r st by (auto intro: reach.reach_step)
  from rt_from.reach_inv [OF this] have nc: "\<not> t_crash s'" by (auto simp: tab_from_def tab_inv_def)
  show ?thesis
  proof (cases a)
    case TGo
    show ?thesis
    proof (cases "lookup_go t (tpcs s t) s")
      case None
      then have "update_go t (tpcs s t) s = Some s'" using st TGo by simp
      from update_go_mode [OF this nc] show ?thesis by simp
    next
      case (Some s1)
      then show ?thesis using st TGo lookup_go_mode [OF Some] by (simp add: mode_stay)
    qed
  next
    case (TMalloc m)
    show ?thesis
    proof (cases m)
      case None
      then show ?thesis using st TMalloc by (auto simp: tgoto_def mode_fail split: if_splits)
    next
      case (Some p)
      then show ?thesis using st TMalloc by (auto simp: tgoto_def mode_stay split: if_splits prod.splits)
    qed
  next
    case (TRcu x)
    then have "tpcs s t = TIdle" "rcu_call t x TIdle s = Some s'" using st by (auto split: if_splits)
    then show ?thesis using rcu_call_frame [of t x TIdle s s'] by (auto simp: mode_stay)
  qed (use a in simp_all)
qed

lemma rcu_call_other:
  "rcu_call t a p s = Some s' \<Longrightarrow> u \<noteq> t \<Longrightarrow> tpcs s' u = tpcs s u \<and> rpcs (t_rcu s') u = rpcs (t_rcu s) u"
  using move_other [OF rcu_step_move] by (fastforce simp: rcu_call_def split: option.splits)

lemma with_version_other:
  "(\<And>v. tpcs (k v) u = tpcs s u \<and> t_rcu (k v) = t_rcu s) \<Longrightarrow> u \<noteq> t \<Longrightarrow>
     tpcs (with_version t a s k) u = tpcs s u \<and> t_rcu (with_version t a s k) = t_rcu s"
  by (simp add: with_version_def tcrash_def split: option.split)

lemma rt_others_idle:
  assumes "rt_step (t, a) s = Some s'" and u: "u \<noteq> t"
  shows "tpcs s' u = tpcs s u \<and> rpcs (t_rcu s') u = rpcs (t_rcu s) u"
proof (cases a)
  case TGo
  have "lookup_go t (tpcs s t) s = Some s' \<or> update_go t (tpcs s t) s = Some s'" using assms(1) TGo by (auto split: option.splits)
  then show ?thesis using rcu_call_other [OF _ u] with_version_other [OF _ u] u
    by (cases "tpcs s t") (fastforce split: if_splits)+
qed (use assms rcu_call_other [OF _ u] in \<open>auto split: if_splits option.splits prod.splits\<close>)

interpretation rtb: bench_table rt_begin rt_api "\<lambda>s t. up_mode (tpcs s t)" published "\<lambda>a. a = TMalloc None"
proof (unfold_locales, unfold rt_api_simps, goal_cases)
  case (1 s l)
  then obtain f where "tab_from f s" using rt_from.reach_inv [of s] by blast
  then show ?case using 1 by (auto simp: tab_from_def tab_inv_def readers_ok_def list_all_iff answer_ok_def)
next
  case (2 s t)
  then show ?case by (auto simp: rt_begin_def)
next
  case (3 s t s')
  then show ?case by (auto simp: tgoto_def split: if_splits)
next
  case (4 s a t s')
  then show ?case using rcu_call_frame by (fastforce simp: tgoto_def split: if_splits)
next
  case (5 s a t s')
  then show ?case by (rule rt_inner_mode)
next
  case (6 s t)
  then show ?case by simp
next
  case (7 s t)
  then show ?case by (simp add: rt_begin_def)
next
  case (8 t a s s' u)
  then show ?case using rt_others_idle [of t a s s' u] by simp
qed

lemma table_step_from:
  assumes st: "tbench_step rt_api nreads updates l b = Some b'" and f: "tab_from f (table b)"
  shows "tab_from f (table b')"
proof -
  have step: "tab_from f s'" if "tb_step rt_api l (table b) = Some s'" for l s'
    using that tab_from_step [OF _ f] unfolding rt_api_simps by blast
  from st show ?thesis
  proof (cases rule: rtb.tbench_cases)
    case (call t p a s')
    then show ?thesis using step [OF call(2)] by (simp add: tbgoto_def)
  next
    case (update t u s')
    then show ?thesis using step [OF update(2)] by (simp add: tbgoto_def)
  next
    case (inner t a s')
    then show ?thesis using step [OF inner(4)] by (simp add: tbgoto_def)
  qed (use f in \<open>simp_all add: tbgoto_def\<close>)
qed

lemma table_from:
  "exec (tbench_step rt_api nreads updates) b ls = Some b' \<Longrightarrow> tab_from f (table b) \<Longrightarrow> tab_from f (table b')"
  by (induction ls arbitrary: b) (auto split: option.splits dest: table_step_from)

lemma rw_others_idle: "rw_step (t, a) s = Some s' \<Longrightarrow> u \<noteq> t \<Longrightarrow> rw_pcs s' u = rw_pcs s u"
proof (cases a)
  case WGo
  then show "rw_step (t, a) s = Some s' \<Longrightarrow> u \<noteq> t \<Longrightarrow> ?thesis"
    by (cases "rw_pcs s t") (auto simp: wgoto_def Let_def split: if_splits)
qed (auto simp: wgoto_def split: if_splits)

fun rw_mode :: "wpc \<Rightarrow> upmode" where
  "rw_mode WrLock = Pre" | "rw_mode WrGen = Pre" | "rw_mode (WrFill g k) = Pre" | "rw_mode WrUnlock = Post" | "rw_mode p = NoUp"

lemma rw_inner_mode:
  assumes "rw_step (t, WGo) s = Some s'"
  shows "(\<forall>u. u \<noteq> t \<longrightarrow> rw_mode (rw_pcs s' u) = rw_mode (rw_pcs s u)) \<and>
    mode_step False (rw_mode (rw_pcs s t)) (rw_gens s) (rw_mode (rw_pcs s' t)) (rw_gens s')"
  using assms by (cases "rw_pcs s t") (auto simp: wgoto_def mode_stay mode_publish mode_finish Let_def split: if_splits)

interpretation rwb: bench_table rw_start rw_api "\<lambda>s t. rw_mode (rw_pcs s t)" rw_gens "\<lambda>_. False"
proof (unfold_locales, unfold rw_api_simps, goal_cases)
  case (1 s l)
  then show ?case using rw.reach_inv [of s] by (auto simp: rw_inv_def list_all_iff answer_ok_def)
next
  case (2 s t)
  then show ?case by (auto simp: rw_start_def rw_init_def)
next
  case (3 s t s')
  then show ?case by (auto simp: wgoto_def split: if_splits)
next
  case (4 s a t s')
  then show ?case by (fastforce simp: wgoto_def split: if_splits)
next
  case (5 s a t s')
  then show ?case using rw_inner_mode by simp
next
  case (6 s t)
  then show ?case by simp
next
  case (7 s t)
  then show ?case by (auto simp: rw_start_def rw_init_def)
next
  case (8 t a s s' u)
  then show ?case using rw_others_idle [of t a s s' u] by simp
qed

text \<open>No \<open>malloc\<close> inside an update fails.\<close>

fun malloc_fails :: "tact tbact \<Rightarrow> bool" where
  "malloc_fails (Inner t (TMalloc None)) = True" | "malloc_fails l = False"

lemma failing_malloc: "rtb.failing l \<longleftrightarrow> malloc_fails l"
  by (cases l rule: malloc_fails.cases) auto

end
