(* ===== verification/TableBench_Runs.thy ===== *)
theory TableBench_Runs
  imports TableBench_Thms
begin

text \<open>
  The read-side benchmark of week 4 does run: for either table, every number of readers and whatever the runs before have left, there
  is a complete execution with one update and one lookup per reader, in which the writer goes first.
\<close>

section \<open>Runs\<close>

text \<open>The memory of a version that \<open>malloc\<close> hands out has room for all keys.\<close>

definition junk_ok :: "((addr \<times> version) option, tact) table_run \<Rightarrow> bool" where
  "junk_ok r \<longleftrightarrow> (\<forall>a junk. tr_init r = Some (a, junk) \<longrightarrow> length (val junk) = TABLE_KEYS)"

lemma exec_keeps:
  assumes "\<And>l s s'. f l s = Some s' \<Longrightarrow> P s \<Longrightarrow> P s'"
  shows "exec f s ls = Some t \<Longrightarrow> P s \<Longrightarrow> P t"
  by (induction ls arbitrary: s) (auto split: option.splits intro: assms)

definition runs_to :: "('l \<Rightarrow> 's \<Rightarrow> 's option) \<Rightarrow> ('l \<Rightarrow> bool) \<Rightarrow> 's \<Rightarrow> 's \<Rightarrow> bool" where
  "runs_to f ok s t \<longleftrightarrow> (\<exists>ls. list_all ok ls \<and> exec f s ls = Some t)"

lemma runs_toI: "exec f s ls = Some t \<Longrightarrow> list_all ok ls \<Longrightarrow> runs_to f ok s t"
  unfolding runs_to_def by blast

lemma runs_to_refl: "runs_to f ok s s"
  by (rule runs_toI [of _ _ "[]"]) simp_all

lemma runs_to_trans: "runs_to f ok s t \<Longrightarrow> runs_to f ok t u \<Longrightarrow> runs_to f ok s u"
  unfolding runs_to_def by (metis exec_trans list_all_append)

lemma runs_to_one: "f l s = Some t \<Longrightarrow> ok l \<Longrightarrow> runs_to f ok s t"
  by (rule runs_toI [of _ _ "[l]"]) simp_all

lemma runs_to_stages:
  assumes "\<And>k s. k < n \<Longrightarrow> P k s \<Longrightarrow> \<exists>s'. runs_to f ok s s' \<and> P (Suc k) s'" and "P 0 s"
  shows "\<exists>s'. runs_to f ok s s' \<and> P n s'"
  using assms(1)
proof (induction n)
  case 0
  then show ?case using assms(2) runs_to_refl by (intro exI [of _ s] conjI)
next
  case (Suc n)
  have "\<exists>s'. runs_to f ok s s' \<and> P n s'" by (rule Suc.IH) (rule Suc.prems [OF less_SucI])
  then obtain s' where s': "runs_to f ok s s'" "P n s'" by blast
  obtain s'' where "runs_to f ok s' s''" "P (Suc n) s''" using Suc.prems [of n s'] s'(2) by blast
  then show ?case using runs_to_trans [OF s'(1)] by blast
qed

section \<open>The threads\<close>

lemma spin_runs:
  assumes "s + d = UPDATE_SPIN" and "tbpcs b t = VSpin u s" and "ok (Own t)"
  shows "runs_to (tbench_step api nreads updates) ok b (tbgoto t (VTop (Suc u)) b)"
  using assms(1,2)
proof (induction d arbitrary: b s)
  case 0
  then have "tbench_step api nreads updates (Own t) b = Some (tbgoto t (VTop (Suc u)) b)" by simp
  then show ?case using assms(3) by (rule runs_to_one)
next
  case (Suc d)
  let ?b = "tbgoto t (VSpin u (Suc s)) b"
  have "tbench_step api nreads updates (Own t) b = Some ?b" using Suc.prems by simp
  then have 1: "runs_to (tbench_step api nreads updates) ok b ?b" using assms(3) by (rule runs_to_one)
  have "runs_to (tbench_step api nreads updates) ok ?b (tbgoto t (VTop (Suc u)) ?b)"
    using Suc.prems by (intro Suc.IH [of "Suc s"]) (simp_all add: tbgoto_def)
  moreover have "tbgoto t (VTop (Suc u)) ?b = tbgoto t (VTop (Suc u)) b" by (simp add: tbgoto_def)
  ultimately show ?case using 1 runs_to_trans by metis
qed

text \<open>An update of the table, in the benchmark.\<close>

lemma update_runs:
  assumes stuck: "\<And>x a. tb_idle api x t \<Longrightarrow> tb_inner api a \<Longrightarrow> tb_step api (t, a) x = None"
    and as: "list_all (\<lambda>a. tb_inner api a \<and> ok (Inner t a)) as"
    and ex: "exec (tb_step api) (table b) (map (Pair t) as) = Some s'"
    and at: "tbpcs b t = VUpdate u" and idle: "\<not> tb_idle api (table b) t" "tb_idle api s' t"
  shows "runs_to (tbench_step api nreads updates) ok b (tbgoto t (VSpin u 0) (b\<lparr>table := s'\<rparr>))"
  using as ex at idle(1)
proof (induction as arbitrary: b)
  case Nil
  then show ?case using idle(2) by simp
next
  case (Cons a as)
  obtain s1 where s1: "tb_step api (t, a) (table b) = Some s1" "exec (tb_step api) s1 (map (Pair t) as) = Some s'"
    using Cons.prems(2) by (auto split: option.splits)
  have a: "tb_inner api a" "ok (Inner t a)" using Cons.prems(1) by simp_all
  show ?case
  proof (cases "tb_idle api s1 t")
    case True
    have "as = []"
    proof (cases as)
      case (Cons c cs)
      then show ?thesis using stuck [OF True, of c] s1(2) \<open>list_all _ (a # as)\<close> by simp
    qed simp
    then have "s' = s1" using s1(2) by simp
    then have "tbench_step api nreads updates (Inner t a) b = Some (tbgoto t (VSpin u 0) (b\<lparr>table := s'\<rparr>))"
      using s1(1) a(1) Cons.prems(3) True by (simp add: call_go_def on_table_def)
    then show ?thesis using a(2) by (rule runs_to_one)
  next
    case False
    let ?b = "tbgoto t (VUpdate u) (b\<lparr>table := s1\<rparr>)"
    have "tbench_step api nreads updates (Inner t a) b = Some ?b" using s1(1) a(1) Cons.prems(3) False by (simp add: call_go_def on_table_def)
    moreover have "runs_to (tbench_step api nreads updates) ok ?b (tbgoto t (VSpin u 0) (?b\<lparr>table := s'\<rparr>))"
      using Cons.prems s1(2) False by (intro Cons.IH) (simp_all add: tbgoto_def)
    moreover have "tbgoto t (VSpin u 0) (?b\<lparr>table := s'\<rparr>) = tbgoto t (VSpin u 0) (b\<lparr>table := s'\<rparr>)" by (simp add: tbgoto_def)
    ultimately show ?thesis using a(2) runs_to_trans [OF runs_to_one] by metis
  qed
qed

text \<open>The gate opens and the writer does all its work, before any reader registers.\<close>

definition readers_from :: "nat \<Rightarrow> nat \<Rightarrow> tid \<Rightarrow> tbpc" where
  "readers_from k n = (\<lambda>t. if t < k then BDone 0 else if t < n then BReg else VDone)"

lemma writer_runs:
  assumes stuck: "\<And>x a. tb_idle api x n \<Longrightarrow> tb_inner api a \<Longrightarrow> tb_step api (n, a) x = None"
    and as: "list_all (\<lambda>a. tb_inner api a \<and> ok (Inner n a)) as" and ok: "ok Open_Gate" "ok (Own n)"
    and start: "tb_step api (n, tb_update api) s = Some s1" "\<not> tb_idle api s1 n"
    and ex: "exec (tb_step api) s1 (map (Pair n) as) = Some s2" "tb_idle api s2 n"
  shows "runs_to (tbench_step api 1 1) ok (tbench_start s n) \<lparr>table = s2, gate = True, tbpcs = readers_from 0 n\<rparr>"
proof -
  let ?b = "\<lparr>table = s1, gate = True, tbpcs = (tbpcs (tbench_start s n))(n := VUpdate 0)\<rparr>"
  have "exec (tbench_step api 1 1) (tbench_start s n) [Open_Gate, Own n, Own n] = Some ?b"
    using start(1) by (simp add: tbench_start_def tbgoto_def on_table_def)
  then have 1: "runs_to (tbench_step api 1 1) ok (tbench_start s n) ?b" by (rule runs_toI) (simp add: ok)
  have 2: "runs_to (tbench_step api 1 1) ok ?b (tbgoto n (VSpin 0 0) (?b\<lparr>table := s2\<rparr>))"
    by (rule update_runs [OF stuck as]) (use start ex in simp_all)
  have 3: "runs_to (tbench_step api 1 1) ok (tbgoto n (VSpin 0 0) (?b\<lparr>table := s2\<rparr>))
      (tbgoto n (VTop 1) (tbgoto n (VSpin 0 0) (?b\<lparr>table := s2\<rparr>)))"
    using spin_runs [of 0 UPDATE_SPIN "tbgoto n (VSpin 0 0) (?b\<lparr>table := s2\<rparr>)" n 0 ok api 1 1] ok(2) by (simp add: tbgoto_def)
  have 4: "tbench_step api 1 1 (Own n) (tbgoto n (VTop 1) (tbgoto n (VSpin 0 0) (?b\<lparr>table := s2\<rparr>))) =
      Some \<lparr>table = s2, gate = True, tbpcs = readers_from 0 n\<rparr>"
    by (auto simp: tbgoto_def tbench_start_def readers_from_def fun_eq_iff)
  show ?thesis by (intro runs_to_trans [OF runs_to_trans [OF runs_to_trans [OF 1 2] 3]] runs_to_one [where l = "Own n"] 4 ok(2))
qed

text \<open>Then the readers, one after the other.\<close>

lemma readers_run:
  assumes cyc: "\<And>b t. rest (table b) \<Longrightarrow> gate b \<Longrightarrow> tbpcs b t = BReg \<Longrightarrow>
      \<exists>b'. runs_to (tbench_step api 1 1) ok b b' \<and> rest (table b') \<and> gate b' \<and> tbpcs b' = (tbpcs b)(t := BDone 0)"
    and "runs_to (tbench_step api 1 1) ok b0 \<lparr>table = s, gate = True, tbpcs = readers_from 0 n\<rparr>" and "rest s"
  shows "\<exists>b. runs_to (tbench_step api 1 1) ok b0 b \<and> rest (table b) \<and> tbpcs b = readers_from n n"
proof -
  let ?P = "\<lambda>k b. rest (table b) \<and> gate b \<and> tbpcs b = readers_from k n"
  have step: "\<exists>b'. runs_to (tbench_step api 1 1) ok b b' \<and> ?P (Suc k) b'" if k: "k < n" and b: "?P k b" for k b
  proof -
    have "tbpcs b k = BReg" using b k by (simp add: readers_from_def)
    then obtain b' where "runs_to (tbench_step api 1 1) ok b b'" "rest (table b')" "gate b'" "tbpcs b' = (tbpcs b)(k := BDone 0)"
      using cyc [of b k] b by blast
    then show ?thesis using b k by (intro exI [of _ b']) (auto simp: fun_eq_iff readers_from_def)
  qed
  have "?P 0 \<lparr>table = s, gate = True, tbpcs = readers_from 0 n\<rparr>" using assms(3) by simp
  from runs_to_stages [where P = ?P and n = n, OF step this] obtain b where
    b: "runs_to (tbench_step api 1 1) ok \<lparr>table = s, gate = True, tbpcs = readers_from 0 n\<rparr> b" "?P n b" by blast
  show ?thesis using runs_to_trans [OF assms(2) b(1)] b(2) by blast
qed

lemma sum_torn_done: "k \<le> n \<Longrightarrow> sum_torn (readers_from n n) k 0 = Some 0"
  by (induction k) (simp_all add: long_def readers_from_def)

section \<open>The rwlock table\<close>

lemma rw_fill_alone:
  assumes "k + d = TABLE_KEYS" and "rw_pcs s t = WrFill g k"
  shows "\<exists>v. exec rw_step s (replicate (Suc d) (t, WGo)) = Some (wgoto t WrUnlock (s\<lparr>rw_v := v, rw_gens := Suc (rw_gens s)\<rparr>))"
  using assms
proof (induction d arbitrary: k s)
  case 0
  then show ?case by (intro exI [of _ "rw_v s"]) simp
next
  case (Suc d)
  let ?s = "wgoto t (WrFill g (Suc k)) (s\<lparr>rw_v := fill_val (rw_v s) g k\<rparr>)"
  have "\<exists>v. exec rw_step ?s (replicate (Suc d) (t, WGo)) = Some (wgoto t WrUnlock (?s\<lparr>rw_v := v, rw_gens := Suc (rw_gens ?s)\<rparr>))"
    using Suc.prems by (intro Suc.IH [of "Suc k"]) (simp_all add: wgoto_def)
  then obtain v where v: "exec rw_step ?s (replicate (Suc d) (t, WGo)) = Some (wgoto t WrUnlock (?s\<lparr>rw_v := v, rw_gens := Suc (rw_gens ?s)\<rparr>))" ..
  have "rw_step (t, WGo) s = Some ?s" using Suc.prems by simp
  then show ?case using v by (intro exI [of _ v]) (simp add: wgoto_def)
qed

definition rw_rest :: "rwt \<Rightarrow> bool" where
  "rw_rest s \<longleftrightarrow> rw_writer s = None \<and> rw_readers s = [] \<and> rw_pcs s = (\<lambda>_. WIdle) \<and> val (rw_v s) ! 0 = gen (rw_v s) * 64"

lemma rw_update_alone:
  assumes "rw_inv s" and "rw_pcs s = (\<lambda>_. WIdle)"
  shows "\<exists>s1 s2. rw_step (t, WUpdate) s = Some s1 \<and> rw_pcs s1 t \<noteq> WIdle \<and> exec rw_step s1 (replicate 68 (t, WGo)) = Some s2 \<and> rw_rest s2"
proof -
  have free: "rw_writer s = None" "rw_readers s = []" using assms by (cases "rw_writer s"; cases "rw_readers s"; force simp: rw_inv_def)+
  let ?s1 = "wgoto t WrLock s"
  let ?g = "gen (rw_v s) + 1"
  let ?s2 = "wgoto t (WrFill ?g 0) (s\<lparr>rw_writer := Some t, rw_v := (rw_v s)\<lparr>gen := ?g\<rparr>\<rparr>)"
  have 1: "rw_step (t, WUpdate) s = Some ?s1" using assms(2) by simp
  have 2: "exec rw_step ?s1 (replicate 2 (t, WGo)) = Some ?s2" using free by (simp add: numeral_2_eq_2 wgoto_def Let_def)
  obtain v where v: "exec rw_step ?s2 (replicate (Suc TABLE_KEYS) (t, WGo)) = Some (wgoto t WrUnlock (?s2\<lparr>rw_v := v, rw_gens := Suc (rw_gens ?s2)\<rparr>))"
    using rw_fill_alone [of 0 TABLE_KEYS ?s2 t ?g] by (auto simp: wgoto_def)
  let ?s3 = "wgoto t WIdle ((?s2\<lparr>rw_v := v, rw_gens := Suc (rw_gens ?s2)\<rparr>)\<lparr>rw_writer := None\<rparr>)"
  have 3: "exec rw_step (wgoto t WrUnlock (?s2\<lparr>rw_v := v, rw_gens := Suc (rw_gens ?s2)\<rparr>)) (replicate 1 (t, WGo)) = Some ?s3" by (simp add: wgoto_def)
  have "replicate 68 (t, WGo) = replicate 2 (t, WGo) @ replicate (Suc TABLE_KEYS) (t, WGo) @ replicate 1 (t, WGo)"
    by (simp only: replicate_add [symmetric]) simp
  then have run: "exec rw_step ?s1 (replicate 68 (t, WGo)) = Some ?s3" using exec_trans [OF 2 exec_trans [OF v 3]] by simp
  have step: "rw_step l x = Some y \<Longrightarrow> rw_inv x \<Longrightarrow> rw_inv y" for l x y using rw_inv_step by (cases l) auto
  have "rw_inv ?s3" by (rule exec_keeps [where f = rw_step and P = rw_inv, OF step run step [OF 1 assms(1)]])
  moreover have f: "rw_writer ?s3 = None" "rw_readers ?s3 = []" "rw_pcs ?s3 = (\<lambda>_. WIdle)"
    using free assms(2) by (simp_all add: wgoto_def fun_eq_iff)
  ultimately have "filled (rw_gens ?s3) (rw_v ?s3)" unfolding rw_inv_def by blast
  then have "rw_rest ?s3" using f by (simp add: rw_rest_def filled_def value_of_def)
  then show ?thesis using 1 run by (intro exI [of _ ?s1] exI [of _ ?s3]) (simp add: wgoto_def)
qed

lemma rw_reader_cycle:
  assumes "rw_rest (table b)" and "gate b" and "tbpcs b t = BReg"
  shows "\<exists>b'. runs_to (tbench_step rw_api 1 1) (\<lambda>_. True) b b' \<and> rw_rest (table b') \<and> gate b' \<and> tbpcs b' = (tbpcs b)(t := BDone 0)"
proof -
  let ?ls = "[Own t, Own t, Own t, Inner t WGo, Inner t WGo, Inner t WGo, Inner t WGo, Own t]"
  have "\<exists>b'. exec (tbench_step rw_api 1 1) b ?ls = Some b' \<and> rw_rest (table b') \<and> gate b' \<and> tbpcs b' = (tbpcs b)(t := BDone 0)"
    using assms by (simp add: rw_rest_def on_table_def call_go_def tbgoto_def wgoto_def consistent_def value_of_def fun_upd_def fun_eq_iff rw_api_def)
  then obtain b' where b': "exec (tbench_step rw_api 1 1) b ?ls = Some b'" "rw_rest (table b')" "gate b'" "tbpcs b' = (tbpcs b)(t := BDone 0)"
    by blast
  have "runs_to (tbench_step rw_api 1 1) (\<lambda>_. True) b b'" by (rule runs_toI [OF b'(1)]) (simp add: list_all_iff)
  then show ?thesis using b'(2-4) by blast
qed

lemma zero_to_one: "elapsed ((0, 0), (1, 0)) = 1"
  using double_of_exact [of 0] double_of_exact [of 1] by (simp add: elapsed_def dsub_def dadd_def ddiv_def double_of_def)

lemma run_rw_returns:
  "\<exists>r. length (val (fst (tr_init r))) = TABLE_KEYS \<and> tr_clock r = ((0, 0), (1, 0)) \<and> (\<forall>g. run_rw 1 1 n r g 0 = Some (Ran 1 0 0, g))"
proof -
  have s: "rw_init \<lparr>gen = 7, val = replicate 64 9\<rparr> 0 = (0, rw_zero)" by (simp add: rw_init_def rw_zero_def)
  have "rw_inv rw_zero" by (rule rw.inv_init [OF rw_zero_start])
  moreover have "rw_pcs rw_zero = (\<lambda>_. WIdle)" by (simp add: rw_zero_def rw_init_def)
  ultimately obtain s1 s2 where u: "rw_step (n, WUpdate) rw_zero = Some s1" "rw_pcs s1 n \<noteq> WIdle"
    "exec rw_step s1 (replicate 68 (n, WGo)) = Some s2" "rw_rest s2"
    using rw_update_alone by blast
  have "runs_to (tbench_step rw_api 1 1) (\<lambda>_. True) (tbench_start rw_zero n) \<lparr>table = s2, gate = True, tbpcs = readers_from 0 n\<rparr>"
    by (rule writer_runs [of rw_api n _ "replicate 68 WGo"]) (use u in \<open>simp_all add: list_all_iff rw_rest_def\<close>)
  from readers_run [where rest = rw_rest, OF rw_reader_cycle this u(4)] obtain ls b where
    b: "exec (tbench_step rw_api 1 1) (tbench_start rw_zero n) ls = Some b" "tbpcs b = readers_from n n"
    unfolding runs_to_def by blast
  let ?r = "\<lparr>tr_init = (\<lparr>gen = 7, val = replicate 64 9\<rparr>, 0), tr_sched = ls, tr_clock = ((0, 0), (1, 0))\<rparr>"
  have "run_rw 1 1 n ?r g 0 = Some (Ran 1 0 0, g)" for g
    using s b sum_torn_done [of n n] zero_to_one by (simp add: run_rw_def run_table_def long_def readers_from_def)
  then show ?thesis by (intro exI [of _ ?r]) simp
qed

section \<open>The RCU table\<close>

text \<open>Nobody but \<open>t\<close> does anything, and \<open>t\<close> is in an update, past \<open>malloc\<close>, or has finished it.\<close>

definition lone :: "tid \<Rightarrow> rtab \<Rightarrow> bool" where
  "lone t s \<longleftrightarrow> (\<forall>i. \<not> in_use (readers (t_rcu s) i)) \<and> (\<forall>u. handle (t_rcu s) u = None) \<and>
     (\<forall>u. u \<noteq> t \<longrightarrow> tpcs s u = TIdle \<and> rpcs (t_rcu s) u = Out) \<and> (tpcs s t = TIdle \<longrightarrow> rpcs (t_rcu s) t = Out) \<and>
     (tpcs s t = TIdle \<or> updating (tpcs s t) \<or> (\<exists>nv. tpcs s t = UpLock nv))"

lemma sync_frame:
  assumes "rcu_step (t, RGo) r = Some r'" and "in_sync (rpcs r t)"
  shows "readers r' = readers r \<and> handle r' = handle r"
proof -
  have "rcu_move t r r'" by (rule rcu_step_move [OF assms(1)])
  then show ?thesis using assms(2) by cases (auto simp: rcu_updates)
qed

lemma synchronize_frame: "rcu_step (t, Synchronize) r = Some r' \<Longrightarrow> readers r' = readers r \<and> handle r' = handle r"
  by (auto simp: rcu_step.simps rcu_updates split: if_splits)

lemma lone_step:
  assumes st: "rt_step (t, TGo) s = Some s'" and f: "tab_from f s" and s: "lone t s"
  shows "lone t s'"
proof -
  have nc: "\<not> t_crash s'" using tab_from_step [OF st f] by (simp add: tab_from_def tab_inv_def)
  have at: "rcu_at (tpcs s t) (rpcs (t_rcu s) t)" using f by (simp add: tab_from_def tab_inv_def ctrl_ok_def)
  have others: "tpcs s' u = TIdle \<and> rpcs (t_rcu s') u = Out" if "u \<noteq> t" for u
    using rt_others_idle [OF st that] s that by (simp add: lone_def)
  have go: "update_go t (tpcs s t) s = Some s'" using st s by (cases "tpcs s t") (auto simp: lone_def)
  have "readers (t_rcu s') = readers (t_rcu s) \<and> handle (t_rcu s') = handle (t_rcu s) \<and>
      (tpcs s' t = TIdle \<longrightarrow> rpcs (t_rcu s') t = Out) \<and> (tpcs s' t = TIdle \<or> updating (tpcs s' t))"
  proof (cases "tpcs s t")
    case (UpSync old)
    then obtain r where r: "rcu_step (t, Synchronize) (t_rcu s) = Some r" "s' = tgoto t (UpWait old) (s\<lparr>t_rcu := r\<rparr>)"
      using go by (auto simp: rcu_call_def split: option.splits)
    then show ?thesis using synchronize_frame [OF r(1)] by simp
  next
    case (UpWait old)
    then have sy: "in_sync (rpcs (t_rcu s) t)" using at by simp
    obtain r p where r: "rcu_step (t, RGo) (t_rcu s) = Some r" "s' = tgoto t p (s\<lparr>t_rcu := r\<rparr>)" "p = UpFree old \<or> p = UpWait old"
      using go UpWait by (auto simp: rcu_call_def split: option.splits if_splits)
    then show ?thesis using sync_frame [OF r(1) sy] by auto
  qed (use go nc at in \<open>auto simp: with_version_def tcrash_def split: option.splits if_splits\<close>)
  then show ?thesis using s others unfolding lone_def by simp blast
qed

text \<open>Nobody is in a call; reader \<open>t\<close> alone is registered, in slot 0, when \<open>me\<close>.\<close>

definition rt_rest :: "clong \<Rightarrow> bool \<Rightarrow> tid \<Rightarrow> rtab \<Rightarrow> bool" where
  "rt_rest f me t s \<longleftrightarrow> registry (t_rcu s) = None \<and> (\<forall>i. in_use (readers (t_rcu s) i) \<longleftrightarrow> me \<and> i = 0) \<and> (\<forall>u. rpcs (t_rcu s) u = Out) \<and>
     (\<forall>u. handle (t_rcu s) u = (if me \<and> u = t then Some 0 else None)) \<and> (\<forall>u. tpcs s u = TIdle) \<and> cur s = latest s \<and> freed_count s = f \<and>
     (\<exists>v. theap s (latest s) = Some v \<and> val v ! 0 = gen v * 64)"

lemma exec_shift:
  "exec rt_step (s\<lparr>freed_count := freed_count s - f\<rparr>) ls = map_option (\<lambda>s. s\<lparr>freed_count := freed_count s - f\<rparr>) (exec rt_step s ls)"
  by (induction ls arbitrary: s) (auto simp: rt_step_shift split: option.splits)

lemma lone_rest:
  assumes f: "tab_from f s" and lone: "lone t s" and t: "tpcs s t = TIdle"
  shows "rt_rest (f + of_nat (published s)) False 0 s"
proof -
  have idle: "tpcs s u = TIdle \<and> rpcs (t_rcu s) u = Out" for u using lone t by (cases "u = t") (auto simp: lone_def)
  have inv: "tab_inv (s\<lparr>freed_count := freed_count s - f\<rparr>)" using f by (simp add: tab_from_def)
  have lock: "update_lock s = None" using inv idle by (cases "update_lock s") (auto simp: tab_inv_def ctrl_ok_def)
  have "registry (t_rcu s) = None" using idle_quiet [OF f] idle by (simp add: quiet_def)
  moreover have "cur s = latest s" "\<exists>v. theap s (cur s) = Some v \<and> filled (published s) v"
    using inv lock by (simp_all add: tab_inv_def mem_ok_def)
  moreover have "freed_count s = f + of_nat (published s)" using inv lock by (simp add: tab_inv_def count_ok_def)
  ultimately show ?thesis using idle lone unfolding rt_rest_def by (auto simp: lone_def filled_def value_of_def)
qed

lemma rt_update_runs:
  assumes f: "tab_from f s" and rest: "rt_rest f False 0 s" and p: "published s = 0" and a: "theap s 2 = None"
  shows "\<exists>s1 s2. rt_step (t, TUpdate) s = Some s1 \<and> tpcs s1 t \<noteq> TIdle \<and>
    exec rt_step s1 (map (Pair t) (TMalloc (Some (2, zero_version)) # replicate 144 TGo)) = Some s2 \<and> rt_rest (f + 1) False 0 s2 \<and> tab_from f s2"
proof -
  have len: "length (val zero_version) = TABLE_KEYS" unfolding zero_version_def by code_simp
  let ?s1 = "tgoto t UpMalloc s" and ?s2 = "tgoto t (UpLock 2) (s\<lparr>theap := (theap s)(2 \<mapsto> zero_version)\<rparr>)"
  have 1: "rt_step (t, TUpdate) s = Some ?s1" using rest by (simp add: rt_rest_def)
  have 2: "rt_step (t, TMalloc (Some (2, zero_version))) ?s1 = Some ?s2" using a len by (simp add: tgoto_def)
  have f2: "tab_from f ?s2" by (rule tab_from_step [OF 2 tab_from_step [OF 1 f]])
  have lone: "lone t ?s2" using rest by (simp add: lone_def rt_rest_def)
  let ?sh = "\<lambda>s. s\<lparr>freed_count := freed_count s - f\<rparr>"
  have "update_lock s = None" using f rest by (cases "update_lock s") (auto simp: tab_from_def tab_inv_def ctrl_ok_def rt_rest_def)
  then obtain z where z: "exec rt_step (?sh ?s2) (tgo 144 t) = Some z" "tpcs z t = TIdle" "published z = Suc (published s)"
    using update_alone [of "?sh ?s2" t 2] f2 rest by (auto simp: tab_from_def rt_rest_def inside_def tgoto_def)
  then obtain s2 where s2: "exec rt_step ?s2 (tgo 144 t) = Some s2" "tpcs s2 t = TIdle" "published s2 = 1"
    using p unfolding exec_shift by auto
  have "tab_from f s2 \<and> lone t s2"
  proof (rule exec_keeps [where f = "\<lambda>_. rt_step (t, TGo)" and P = "\<lambda>s. tab_from f s \<and> lone t s"])
    show "exec (\<lambda>_. rt_step (t, TGo)) ?s2 (tgo 144 t) = Some s2"
    proof -
      have "exec (\<lambda>_. rt_step (t, TGo)) x (tgo k t) = exec rt_step x (tgo k t)" for k x
        by (induction k arbitrary: x) (auto split: option.splits)
      then show ?thesis using s2(1) by simp
    qed
  qed (use f2 lone tab_from_step lone_step in blast)+
  then have "rt_rest (f + 1) False 0 s2" "tab_from f s2" using lone_rest [of f s2 t] s2(2,3) by simp_all
  then show ?thesis using 1 2 s2(1) by (intro exI [of _ ?s1] exI [of _ s2]) (simp add: map_replicate del: replicate.simps)
qed

lemmas rt_reader_run = on_table_def call_go_def tbgoto_def tgoto_def rcu_call_def rcu_step.simps rcu_updates with_version_def

abbreviation rt_bench_to :: "rtab tbench \<Rightarrow> rtab tbench \<Rightarrow> bool" where
  "rt_bench_to \<equiv> runs_to (tbench_step rt_api 1 1) (\<lambda>l. \<not> malloc_fails l)"

lemma rt_reader_registers:
  assumes "rt_rest f False t (table b)" and "gate b" and "tbpcs b t = BReg"
  shows "\<exists>b'. exec (tbench_step rt_api 1 1) b (Own t # replicate 5 (Inner t (TRcu RGo)) @ [Own t]) = Some b' \<and>
    rt_rest f True t (table b') \<and> gate b' \<and> tbpcs b' = (tbpcs b)(t := BTop 0 0)"
  using assms unfolding replicate_5_6 by (simp add: rt_rest_def rt_reader_run)

lemma rt_reader_looks_up:
  assumes "rt_rest f True t (table b)" and "tbpcs b t = BTop 0 0"
  shows "\<exists>b'. exec (tbench_step rt_api 1 1) b (Own t # replicate 6 (Inner t TGo)) = Some b' \<and>
    rt_rest f True t (table b') \<and> gate b' = gate b \<and> tbpcs b' = (tbpcs b)(t := BTop 1 0)"
proof -
  obtain v where v: "theap (table b) (latest (table b)) = Some v" "val v ! 0 = gen v * 64" using assms(1) by (auto simp: rt_rest_def)
  then show ?thesis using assms unfolding replicate_5_6
    by (simp add: rt_rest_def rt_reader_run consistent_def value_of_def)
qed

lemma rt_reader_unregisters:
  assumes "rt_rest f True t (table b)" and "tbpcs b t = BTop 1 0"
  shows "\<exists>b'. exec (tbench_step rt_api 1 1) b (Own t # [Inner t (TRcu RGo), Inner t (TRcu RGo), Inner t (TRcu RGo)]) = Some b' \<and>
    rt_rest f False t (table b') \<and> gate b' = gate b \<and> tbpcs b' = (tbpcs b)(t := BDone 0)"
proof -
  have "tb_registered rt_api (table b) t" using assms(1) by (simp add: rt_api_def rt_rest_def)
  then show ?thesis using assms by (simp add: rt_rest_def rt_reader_run)
qed

lemma rt_reader_cycle:
  assumes "rt_rest f False 0 (table b)" and "gate b" and "tbpcs b t = BReg"
  shows "\<exists>b'. rt_bench_to b b' \<and> rt_rest f False 0 (table b') \<and> gate b' \<and> tbpcs b' = (tbpcs b)(t := BDone 0)"
proof -
  have t: "rt_rest f False t s = rt_rest f False 0 s" for s by (simp add: rt_rest_def)
  obtain b1 where 1: "exec (tbench_step rt_api 1 1) b (Own t # replicate 5 (Inner t (TRcu RGo)) @ [Own t]) = Some b1"
    "rt_rest f True t (table b1)" "gate b1" "tbpcs b1 = (tbpcs b)(t := BTop 0 0)"
    using rt_reader_registers [of f t b] assms t by blast
  have "tbpcs b1 t = BTop 0 0" by (simp add: 1(4))
  then obtain b2 where 2: "exec (tbench_step rt_api 1 1) b1 (Own t # replicate 6 (Inner t TGo)) = Some b2"
    "rt_rest f True t (table b2)" "gate b2 = gate b1" "tbpcs b2 = (tbpcs b1)(t := BTop 1 0)"
    using rt_reader_looks_up [OF 1(2)] by blast
  have "tbpcs b2 t = BTop 1 0" by (simp add: 2(4))
  then obtain b3 where 3: "exec (tbench_step rt_api 1 1) b2 (Own t # [Inner t (TRcu RGo), Inner t (TRcu RGo), Inner t (TRcu RGo)]) = Some b3"
    "rt_rest f False t (table b3)" "gate b3 = gate b2" "tbpcs b3 = (tbpcs b2)(t := BDone 0)"
    using rt_reader_unregisters [OF 2(2)] by blast
  have "rt_bench_to b b3"
    by (intro runs_to_trans [OF runs_to_trans [OF runs_toI [OF 1(1)] runs_toI [OF 2(1)]] runs_toI [OF 3(1)]]) (simp_all add: list_all_iff)
  then show ?thesis using 1(3,4) 2(3,4) 3(2-4) t by (intro exI [of _ b3]) simp
qed

text \<open>What \<open>m\<close> runs with one update each leave behind.\<close>

definition clean :: "nat \<Rightarrow> statics \<Rightarrow> bool" where
  "clean m g \<longleftrightarrow> quiet g \<and> (\<forall>i. \<not> in_use (readers (st_rcu g) i)) \<and> st_freed g = of_nat m"

lemma clean_start: "clean 0 statics_start"
  using quiet_start by (simp add: clean_def statics_start_def rcu_start_def)

lemma sint_small: "m < 100 \<Longrightarrow> sint (of_nat m :: clong) = int m"
  by (simp add: signed_of_nat signed_take_bit_int_eq_self)

definition blank_version :: version where
  "blank_version = \<lparr>gen = 7, val = replicate 64 9\<rparr>"

lemma run_rcu_returns:
  assumes g: "clean m g" and m: "m < 50"
  shows "\<exists>r g'. junk_ok r \<and> list_all (\<lambda>l. \<not> malloc_fails l) (tr_sched r) \<and> tr_clock r = ((0, 0), (1, 0)) \<and>
    run_rcu 1 1 n r g 0 = Some (Ran 1 0 1, g') \<and> clean (Suc m) g'"
proof -
  obtain s where s: "rt_init_in g (Some (1, blank_version)) = Some s" by (simp add: rt_init_in_def rt_init_def)
  have len: "length (val blank_version) = TABLE_KEYS" by (simp add: blank_version_def)
  have q: "quiet g" "st_freed g = of_nat m" using g by (simp_all add: clean_def)
  note b = rt_init_in_begin [OF q(1) s len]
  have lone: "lone 0 s" "tpcs s 0 = TIdle" "published s = 0" "theap s 2 = None"
    using s g by (auto simp: rt_init_in_def rt_init_def lone_def new_threads_def rcu_start_def clean_def)
  have rest: "rt_rest (of_nat m) False 0 s" using lone_rest [OF b(2) lone(1,2)] lone(3) q(2) by simp
  have f: "tab_from (of_nat m) s" using b(2) q(2) by simp
  obtain s1 s2 where u: "rt_step (n, TUpdate) s = Some s1" "tpcs s1 n \<noteq> TIdle"
    "exec rt_step s1 (map (Pair n) (TMalloc (Some (2, zero_version)) # replicate 144 TGo)) = Some s2"
    "rt_rest (of_nat m + 1) False 0 s2" "tab_from (of_nat m) s2"
    using rt_update_runs [OF f rest lone(3,4)] by blast
  have stuck: "tb_step rt_api (n, a) x = None" if "tb_idle rt_api x n" "tb_inner rt_api a" for x a
    using that by (cases a rule: rt_inner.cases) (auto simp: rcu_call_def rcu_step.simps)
  have "rt_bench_to (tbench_start s n) \<lparr>table = s2, gate = True, tbpcs = readers_from 0 n\<rparr>"
    by (rule writer_runs [OF stuck _ _ _ _ _ u(3) [folded rt_api_simps(1)]])
      (use u in \<open>simp_all add: list_all_iff rt_rest_def\<close>)
  from readers_run [where rest = "rt_rest (of_nat m + 1) False 0", OF rt_reader_cycle this u(4)] obtain ls c where
    c: "list_all (\<lambda>l. \<not> malloc_fails l) ls" "exec (tbench_step rt_api 1 1) (tbench_start s n) ls = Some c"
      "rt_rest (of_nat m + 1) False 0 (table c)" "tbpcs c = readers_from n n"
    unfolding runs_to_def by blast
  let ?r = "\<lparr>tr_init = Some (1, blank_version), tr_sched = ls, tr_clock = ((0, 0), (1, 0))\<rparr>"
  let ?g = "\<lparr>st_rcu = t_rcu (table c), st_freed = freed_count (table c)\<rparr>"
  have fr: "freed_count (table c) = of_nat (Suc m)" "rt_destroy (table c) \<noteq> None" using c(3) by (auto simp: rt_rest_def rt_destroy_def)
  have "quiet ?g" by (rule idle_quiet [OF table_from [OF c(2)]]) (use f c(3) in \<open>simp_all add: tbench_start_def rt_rest_def\<close>)
  then have "clean (Suc m) ?g" using c(3) fr(1) by (simp add: clean_def rt_rest_def)
  moreover have "run_rcu 1 1 n ?r g 0 = Some (Ran 1 0 1, ?g)"
    using s c(2,4) fr b(3) q(2) m sum_torn_done [of n n] zero_to_one sint_small [of m] sint_small [of "Suc m"]
    by (simp add: run_rcu_def run_table_def long_def readers_from_def rt_freed_def)
  moreover have "junk_ok ?r" using len by (simp add: junk_ok_def)
  ultimately show ?thesis using c(1) by (intro exI [of _ ?r] exI [of _ ?g]) simp
qed

end
