(* ===== verification/TableBench_Rows.thy ===== *)
theory TableBench_Rows
  imports TableBench_Runs
begin

text \<open>The table that the read-side benchmark of week 4 prints, from its arguments to the exit status.\<close>

section \<open>One run\<close>

text \<open>
  What a caller of \<open>run_once\<close> can rely on: it returns the seconds \<open>secs\<close>, adds nothing to \<open>*torn\<close>, and \<open>*freed\<close> is \<open>k\<close>
  when \<open>sure\<close>.
\<close>

definition once_ok :: "bool \<Rightarrow> int \<Rightarrow> double \<Rightarrow> int \<Rightarrow> run_out \<Rightarrow> bool" where
  "once_ok sure k secs torn out \<longleftrightarrow> (case out of Exit1 \<Rightarrow> True | Ran x torn' fr \<Rightarrow> x = secs \<and> torn' = torn \<and> (sure \<longrightarrow> fr = k))"

text \<open>Two readings of a 64-bit counter that do not overflow when subtracted differ by what was added in between.\<close>

lemma long_diff:
  fixes f :: clong
  assumes "long (sint (f + of_nat n) - sint f) = Some d" and "n < 2 ^ 63"
  shows "d = int n"
proof -
  have d: "d = sint (f + of_nat n) - sint f" "- (2 ^ 63) \<le> d" "d < 2 ^ 63" using assms(1) by (auto simp: long_def split: if_splits)
  have "(word_of_int d :: clong) = of_nat n" unfolding d(1) by (simp add: wi_hom_sub [symmetric])
  from arg_cong [OF this, of uint] have "take_bit 64 d = take_bit 64 (int n)"
    by (simp add: uint_word_of_int_eq unsigned_of_nat of_nat_take_bit)
  then have "signed_take_bit 63 d = signed_take_bit 63 (int n)" by (simp add: signed_take_bit_eq_iff_take_bit_eq)
  then show ?thesis using d(2,3) assms(2) by (simp add: signed_take_bit_int_eq_self)
qed

lemma run_rcu_ok:
  assumes run: "run_rcu nreads updates n r g torn = Some (out, g')" and junk: "junk_ok r" and u: "updates < 2 ^ 63" and q: "quiet g"
  shows "once_ok (list_all (\<lambda>l. \<not> malloc_fails l) (tr_sched r)) (int updates) (elapsed (tr_clock r)) torn out \<and> quiet g'"
proof -
  show ?thesis
  proof (cases "rt_init_in g (tr_init r)")
    case None
    then show ?thesis using run q by (simp add: run_rcu_def run_table_def once_ok_def)
  next
    case (Some s)
    obtain a junk where i: "tr_init r = Some (a, junk)" using Some by (auto simp: rt_init_in_def rt_init_def split: option.splits)
    then have len: "length (val junk) = TABLE_KEYS" using junk by (simp add: junk_ok_def)
    note s = rt_init_in_begin [OF q Some [unfolded i] len]
    obtain b torn' fr where b: "exec (tbench_step rt_api nreads updates) (tbench_start s n) (tr_sched r) = Some b"
      "sum_torn (tbpcs b) n torn = Some torn'" "long (sint (rt_freed (table b)) - sint (rt_freed s)) = Some fr" "tbpcs b n = VDone"
      "out = Ran (elapsed (tr_clock r)) torn' fr" "g' = \<lparr>st_rcu = t_rcu (table b), st_freed = freed_count (table b)\<rparr>"
      using run Some by (auto simp: run_rcu_def run_table_def split: Option.bind_splits if_splits)
    note inv = rtb.bench_exec [OF s(1) b(1)]
    have torn': "torn' = torn" by (rule rtb.sum_torn_0 [OF inv(1) b(2)])
    have idle: "tpcs (table b) t = TIdle \<and> rpcs (t_rcu (table b)) t = Out" for t using rtb.all_idle [OF s(1) b(1,2,4)] by simp
    have base: "tab_from (st_freed g) (table b)" using table_from [OF b(1)] s(2) by (simp add: tbench_start_def)
    then have inv': "tab_inv ((table b)\<lparr>freed_count := freed_count (table b) - st_freed g\<rparr>)" by (simp add: tab_from_def)
    have "fr = int updates" if "list_all (\<lambda>l. \<not> malloc_fails l) (tr_sched r)"
    proof -
      have "rtb.counted updates n b" using inv(2) that by (simp add: failing_malloc)
      then have p: "published (table b) = updates" using b(4) by (simp add: rtb.counted_def)
      have "update_lock (table b) = None" using inv' idle by (cases "update_lock (table b)") (auto simp: tab_inv_def ctrl_ok_def)
      then have "freed_count (table b) - st_freed g = of_nat updates" using inv' p by (simp add: tab_inv_def count_ok_def)
      then have "freed_count (table b) = st_freed g + of_nat updates" by (simp add: diff_eq_eq add.commute)
      then show ?thesis using long_diff [of "st_freed g" updates fr] b(3) s(3) u by (simp add: rt_freed_def)
    qed
    then show ?thesis using b(5,6) torn' idle_quiet [OF base] idle by (simp add: once_ok_def)
  qed
qed

lemma run_rw_ok:
  assumes run: "run_rw nreads updates n r g torn = Some (out, g')" and junk: "length (val (fst (tr_init r))) = TABLE_KEYS"
  shows "once_ok True 0 (elapsed (tr_clock r)) torn out \<and> g' = g"
proof -
  obtain j rc where i: "tr_init r = (j, rc)" by (cases "tr_init r")
  show ?thesis
  proof (cases "rc = 0")
    case False
    then show ?thesis using run i by (simp add: run_rw_def run_table_def once_ok_def rw_init_def)
  next
    case True
    obtain s where s: "rw_init j rc = (0, s)" using True by (simp add: rw_init_def)
    then have "rw_start s" using junk i True by (auto simp: rw_start_def)
    moreover obtain b torn' where b: "exec (tbench_step rw_api nreads updates) (tbench_start s n) (tr_sched r) = Some b"
      "sum_torn (tbpcs b) n torn = Some torn'" "out = Ran (elapsed (tr_clock r)) torn' 0" "g' = g"
      using run i s by (auto simp: run_rw_def run_table_def long_def split: Option.bind_splits if_splits)
    ultimately have "torn' = torn" using rwb.bench_exec(1) rwb.sum_torn_0 by metis
    then show ?thesis using b(3,4) by (simp add: once_ok_def)
  qed
qed

section \<open>The rows\<close>

lemma trials_go_ok:
  assumes "\<And>i h tn out h'. quiet h \<Longrightarrow> run i h tn = Some (out, h') \<Longrightarrow> once_ok (sure i) k (secs i) tn out \<and> quiet h'" and "0 \<le> k"
    and "trials_go (map run is) g torn fm = Some (Some (ts, torn', fm', g'))" and "quiet g"
  shows "quiet g' \<and> torn' = torn \<and> ts = map secs is \<and>
    ((\<forall>i\<in>set is. sure i) \<longrightarrow> fm < 0 \<or> fm = k \<longrightarrow> fm' = (if is = [] then fm else k))"
  using assms(3,4)
proof (induction "is" arbitrary: g torn fm ts)
  case (Cons i js)
  obtain out h where out: "run i g torn = Some (out, h)" using Cons.prems(1) by (auto split: Option.bind_splits)
  have ok: "once_ok (sure i) k (secs i) torn out" "quiet h" using assms(1) [OF Cons.prems(2) out] by blast+
  obtain x tn fr ts' where o: "out = Ran x tn fr" "ts = x # ts'"
    "trials_go (map run js) h tn (if fm < 0 \<or> fr < fm then fr else fm) = Some (Some (ts', torn', fm', g'))"
    using Cons.prems(1) out by (auto split: run_out.splits Option.bind_splits)
  have tn: "tn = torn" "x = secs i" "sure i \<longrightarrow> fr = k" using ok(1) o(1) by (simp_all add: once_ok_def)
  from Cons.IH [OF o(3) ok(2)] show ?case using tn o(2) assms(2) by auto
qed simp

text \<open>A row that sums up its trials, which took the times \<open>ts\<close>.\<close>

definition table_row_ok :: "int \<Rightarrow> int \<Rightarrow> int \<Rightarrow> double list \<Rightarrow> table_row \<Rightarrow> bool" where
  "table_row_ok trials nreads updates ts row \<longleftrightarrow> trow_trials row = trials \<and> trow_reads row = nreads \<and>
     trow_updates row = updates \<and> trow_total row = int (trow_readers row) * nreads \<and> trow_torn row = 0 \<and>
     summed_up ts (trow_median row) (trow_spread row) \<and>
     trow_throughput row = (if trow_median row = 0 then None else Some (ddiv (double_of (nat (trow_total row))) (trow_median row)))"

lemma elapsed_double: "is_double (elapsed c)"
  by (simp add: elapsed_def)

lemma table_cell_ok:
  assumes cell: "table_cell rcu n trials nreads updates run g = Some (Some (row, g'))" and "1 \<le> trials" and k: "0 \<le> k" and q: "quiet g"
    and run: "\<And>i h tn out h'. quiet h \<Longrightarrow> run i h tn = Some (out, h') \<Longrightarrow> once_ok (sure i) k (elapsed (clock i)) tn out \<and> quiet h'"
  shows "quiet g' \<and> trow_rcu row = rcu \<and> trow_readers row = n \<and>
    table_row_ok trials nreads updates (map (\<lambda>i. elapsed (clock i)) [1..<Suc (nat trials)]) row \<and>
    ((\<forall>i\<in>{1..nat trials}. sure i) \<longrightarrow> trow_freed row = k)"
proof -
  obtain secs wt fr h where w: "run 0 g 0 = Some (Ran secs wt fr, h)"
    using cell by (auto simp: table_cell_def split: run_out.splits Option.bind_splits)
  then have wt: "wt = 0" "quiet h" using run [OF q w] by (simp_all add: once_ok_def)
  have e: "map (\<lambda>i. run (Suc i)) [0..<nat trials] = map run [1..<Suc (nat trials)]"
    by (simp add: map_Suc_upt [symmetric] del: upt_Suc)
  obtain ts torn fm med tot where t: "trials_go (map run [1..<Suc (nat trials)]) h wt (-1) = Some (Some (ts, torn, fm, g'))"
    "middle (qsort cmp_double ts) = Some med" "long (int n * nreads) = Some tot"
    and row: "row = \<lparr>trow_rcu = rcu, trow_readers = n, trow_trials = trials, trow_reads = nreads, trow_total = tot,
      trow_updates = updates, trow_torn = torn, trow_freed = fm, trow_median = med,
      trow_spread = dsub (qsort cmp_double ts ! (length ts - 1)) (qsort cmp_double ts ! 0),
      trow_throughput = (if med = 0 then None else Some (ddiv (double_of (nat tot)) med))\<rparr>"
    using cell w unfolding table_cell_def e by (auto simp: Let_def dsort.length_srt split: option.splits Option.bind_splits)
  have g: "quiet g' \<and> torn = wt \<and> ts = map (\<lambda>i. elapsed (clock i)) [1..<Suc (nat trials)] \<and>
      ((\<forall>i\<in>set [1..<Suc (nat trials)]. sure i) \<longrightarrow> - 1 < (0 :: int) \<or> - 1 = k \<longrightarrow> fm = (if [1..<Suc (nat trials)] = [] then - 1 else k))"
    by (rule trials_go_ok [OF _ k t(1) wt(2)]) (rule run)
  then have ts: "ts = map (\<lambda>i. elapsed (clock i)) [1..<Suc (nat trials)]" by blast
  have "median ts = Some (med, qsort cmp_double ts)" using t(2) by (simp add: median_def)
  from median_sums_up [OF this] have "summed_up ts med (dsub (qsort cmp_double ts ! (length ts - 1)) (qsort cmp_double ts ! 0))"
    by (simp add: ts elapsed_double del: upt_Suc)
  moreover have "{1..nat trials} = set [1..<Suc (nat trials)]" by auto
  ultimately show ?thesis using g wt t(3) assms(2) row unfolding ts [symmetric]
    by (auto simp: table_row_ok_def long_def split: if_splits)
qed

lemma rows_go_prefix:
  assumes f: "\<And>x h row h'. quiet h \<Longrightarrow> f x h = Some (Some (row, h')) \<Longrightarrow> quiet h' \<and> R x row"
  shows "rows_go (map f specs) g = Some (st, rows) \<Longrightarrow> quiet g \<Longrightarrow>
     length rows \<le> length specs \<and> (\<forall>i<length rows. R (specs ! i) (rows ! i)) \<and>
     (st = 0 \<and> length rows = length specs \<or> st = 1 \<and> length rows < length specs)"
proof (induction specs arbitrary: rows g)
  case (Cons x specs)
  then obtain cell where c: "f x g = Some cell" by (auto split: Option.bind_splits)
  show ?case
  proof (cases cell)
    case None
    then show ?thesis using Cons.prems c by simp
  next
    case (Some p)
    then obtain row h where p: "cell = Some (row, h)" by (cases p) auto
    then obtain rows' where r: "rows_go (map f specs) h = Some (st, rows')" "rows = row # rows'" using Cons.prems c by auto
    have "quiet h" "R x row" using f [OF Cons.prems(2)] c p by blast+
    then show ?thesis using Cons.IH [OF r(1)] r(2) by (auto simp: nth_Cons' less_Suc_eq_0_disj)
  qed
qed simp

section \<open>Properties\<close>

text \<open>
  C16: the read-side benchmark end to end, each run of which takes over the registry and the free count that the runs before it have
  left: bad arguments are refused with status 2 and no output; otherwise the rows come in the order
  RCU then rwlock, 1, 2, 4 and 8 readers, all eight unless a table could not be allocated (status 1). No row reports a torn read, the warm-up
  included; the reads are readers times reads per reader. The median (the middle time, or the average of the two in the middle) and the spread of a row
  are those of the times that its trials took by the clock, the warm-up left out, and its throughput is the reads divided by the median. If
  in none of the trials an allocation inside an update failed, the versions freed are exactly the updates; for the rwlock table they are 0.
  The only thing assumed of the memory of a version, whatever it holds, is that it has room for all keys.
\<close>

theorem tbench_rows:
  assumes main: "tbench_main args rcus rws = Some (st, rows)" and args: "tbench_args args = Some (trials, updates, nreads)"
    and junk: "\<forall>n i. junk_ok (rcus n i) \<and> length (val (fst (tr_init (rws n i)))) = TABLE_KEYS"
  shows "if trials < 1 \<or> trials > 99 \<or> updates < 0 \<or> nreads < 1 then st = 2 \<and> rows = []
    else (st = 0 \<and> length rows = 8 \<or> st = 1 \<and> length rows < 8) \<and>
      map (\<lambda>r. (trow_rcu r, trow_readers r)) rows = take (length rows) (map (Pair True) [1, 2, 4, 8] @ map (Pair False) [1, 2, 4, 8]) \<and>
      (\<forall>r\<in>set rows. let n = trow_readers r; clock = (\<lambda>i. if trow_rcu r then tr_clock (rcus n i) else tr_clock (rws n i)) in
         table_row_ok trials nreads updates (map (\<lambda>i. elapsed (clock i)) [1..<Suc (nat trials)]) r \<and>
         (if trow_rcu r
          then (\<forall>i\<in>{1..nat trials}. list_all (\<lambda>l. \<not> malloc_fails l) (tr_sched (rcus n i))) \<longrightarrow> trow_freed r = updates
          else trow_freed r = 0))"
proof (cases "trials < 1 \<or> trials > 99 \<or> updates < 0 \<or> nreads < 1")
  case True
  then show ?thesis using main args by (auto simp: tbench_main_def)
next
  case False
  define specs where "specs = map (Pair True) [1, 2, 4, 8] @ map (Pair False) [1, 2, 4, 8 :: nat]"
  define f where "f = (\<lambda>(b, n). if b then table_cell True n trials nreads updates (\<lambda>i. run_rcu (nat nreads) (nat updates) n (rcus n i))
    else table_cell False n trials nreads updates (\<lambda>i. run_rw (nat nreads) (nat updates) n (rws n i)))"
  define ok where "ok = (\<lambda>r. let n = trow_readers r; clock = (\<lambda>i. if trow_rcu r then tr_clock (rcus n i) else tr_clock (rws n i)) in
         table_row_ok trials nreads updates (map (\<lambda>i. elapsed (clock i)) [1..<Suc (nat trials)]) r \<and>
         (if trow_rcu r
          then (\<forall>i\<in>{1..nat trials}. list_all (\<lambda>l. \<not> malloc_fails l) (tr_sched (rcus n i))) \<longrightarrow> trow_freed r = updates
          else trow_freed r = 0))"
  have rows: "rows_go (map f specs) statics_start = Some (st, rows)" using main args False by (simp add: tbench_main_def f_def specs_def)
  have u: "updates < 2 ^ 31" using args by (auto simp: tbench_args_def atoi_def Let_def split: Option.bind_splits list.splits if_splits)
  have row: "quiet h' \<and> (trow_rcu r, trow_readers r) = x \<and> ok r" if q: "quiet h" and fx: "f x h = Some (Some (r, h'))" for x h r h'
  proof -
    obtain b n where x: "x = (b, n)" by (cases x)
    show ?thesis
    proof (cases b)
      case True
      have "table_cell True n trials nreads updates (\<lambda>i. run_rcu (nat nreads) (nat updates) n (rcus n i)) h = Some (Some (r, h'))"
        using fx True x by (simp add: f_def)
      then have "quiet h' \<and> trow_rcu r = True \<and> trow_readers r = n \<and>
          table_row_ok trials nreads updates (map (\<lambda>i. elapsed (tr_clock (rcus n i))) [1..<Suc (nat trials)]) r \<and>
          ((\<forall>i\<in>{1..nat trials}. list_all (\<lambda>l. \<not> malloc_fails l) (tr_sched (rcus n i))) \<longrightarrow> trow_freed r = updates)"
      proof (rule table_cell_ok)
        fix i h0 tn out h1 assume "quiet h0" and "run_rcu (nat nreads) (nat updates) n (rcus n i) h0 tn = Some (out, h1)"
        from run_rcu_ok [OF this(2) _ _ this(1)] junk u False
        show "once_ok (list_all (\<lambda>l. \<not> malloc_fails l) (tr_sched (rcus n i))) updates (elapsed (tr_clock (rcus n i))) tn out \<and> quiet h1" by simp
      qed (use False q in simp_all)
      then show ?thesis using True x by (simp add: ok_def)
    next
      case b: False
      have "table_cell False n trials nreads updates (\<lambda>i. run_rw (nat nreads) (nat updates) n (rws n i)) h = Some (Some (r, h'))"
        using fx b x by (simp add: f_def)
      then have "quiet h' \<and> trow_rcu r = False \<and> trow_readers r = n \<and>
          table_row_ok trials nreads updates (map (\<lambda>i. elapsed (tr_clock (rws n i))) [1..<Suc (nat trials)]) r \<and>
          ((\<forall>i\<in>{1..nat trials}. True) \<longrightarrow> trow_freed r = 0)"
      proof (rule table_cell_ok)
        fix i h0 tn out h1 assume "quiet h0" and "run_rw (nat nreads) (nat updates) n (rws n i) h0 tn = Some (out, h1)"
        then show "once_ok True 0 (elapsed (tr_clock (rws n i))) tn out \<and> quiet h1" using run_rw_ok junk by blast
      qed (use False q in simp_all)
      then show ?thesis using b x by (simp add: ok_def)
    qed
  qed
  note pre = rows_go_prefix [of f "\<lambda>x r. (trow_rcu r, trow_readers r) = x \<and> ok r", OF row rows quiet_start]
  have "map (\<lambda>r. (trow_rcu r, trow_readers r)) rows = take (length rows) specs"
    using pre by (intro nth_equalityI) auto
  moreover have "ok r" if "r \<in> set rows" for r using pre that by (auto simp: in_set_conv_nth)
  moreover have "length specs = 8" by (simp add: specs_def)
  ultimately show ?thesis using False pre unfolding specs_def ok_def by auto
qed

section \<open>A whole benchmark\<close>

text \<open>A row of one trial, which follows a warm-up, on the RCU table after \<open>m\<close> runs.\<close>

lemma rcu_cell_runs:
  assumes g: "clean m g" and m: "m < 40" and n: "n \<le> 8"
  shows "\<exists>run row g'. (\<forall>i. junk_ok (run i) \<and> list_all (\<lambda>l. \<not> malloc_fails l) (tr_sched (run i)) \<and> tr_clock (run i) = ((0, 0), (1, 0))) \<and>
    table_cell True n 1 1 1 (\<lambda>i. run_rcu 1 1 n (run i)) g = Some (Some (row, g')) \<and> clean (Suc (Suc m)) g'"
proof -
  obtain r0 g0 where r0: "junk_ok r0" "list_all (\<lambda>l. \<not> malloc_fails l) (tr_sched r0)" "tr_clock r0 = ((0, 0), (1, 0))"
    "run_rcu 1 1 n r0 g 0 = Some (Ran 1 0 1, g0)" "clean (Suc m) g0"
    using run_rcu_returns [OF g, of n] m by auto
  obtain r1 g1 where r1: "junk_ok r1" "list_all (\<lambda>l. \<not> malloc_fails l) (tr_sched r1)" "tr_clock r1 = ((0, 0), (1, 0))"
    "run_rcu 1 1 n r1 g0 0 = Some (Ran 1 0 1, g1)" "clean (Suc (Suc m)) g1"
    using run_rcu_returns [OF r0(5), of n] m by auto
  let ?run = "\<lambda>i :: nat. if i = 0 then r0 else r1"
  have "\<exists>row. table_cell True n 1 1 1 (\<lambda>i. run_rcu 1 1 n (?run i)) g = Some (Some (row, g1))"
    using r0(4) r1(4) n by (simp add: table_cell_def middle_def long_def Let_def)
  then show ?thesis using r0(1-3) r1(1-3,5) by (intro exI [of _ ?run]) auto
qed

lemma rw_cell_runs:
  assumes "\<And>g. run_rw 1 1 n r g 0 = Some (Ran 1 0 0, g)" and "n \<le> 8"
  shows "\<exists>row. table_cell False n 1 1 1 (\<lambda>i. run_rw 1 1 n r) g = Some (Some (row, g))"
  using assms by (simp add: table_cell_def middle_def long_def Let_def)

lemma tbench_rows_witness:
  "\<exists>rcus rws rows. tbench_main [''1'', ''1'', ''1''] rcus rws = Some (0, rows) \<and> length rows = 8 \<and>
     (\<forall>r\<in>set rows. trow_torn r = 0 \<and> trow_updates r = 1 \<and> trow_freed r = (if trow_rcu r then 1 else 0) \<and> trow_median r = 1)"
proof -
  have args: "tbench_args [''1'', ''1'', ''1''] = Some (1, 1, 1)" by code_simp
  let ?good = "\<lambda>run :: nat \<Rightarrow> ((addr \<times> version) option, tact) table_run. \<forall>i. junk_ok (run i) \<and>
    list_all (\<lambda>l. \<not> malloc_fails l) (tr_sched (run i)) \<and> tr_clock (run i) = ((0, 0), (1, 0))"
  obtain r1 x1 g1 where c1: "?good r1" "table_cell True 1 1 1 1 (\<lambda>i. run_rcu 1 1 1 (r1 i)) statics_start = Some (Some (x1, g1))" "clean 2 g1"
    using rcu_cell_runs [OF clean_start, of 1] by (auto simp: numeral_2_eq_2)
  obtain r2 x2 g2 where c2: "?good r2" "table_cell True 2 1 1 1 (\<lambda>i. run_rcu 1 1 2 (r2 i)) g1 = Some (Some (x2, g2))" "clean 4 g2"
    using rcu_cell_runs [OF c1(3), of 2] by auto
  obtain r4 x4 g4 where c4: "?good r4" "table_cell True 4 1 1 1 (\<lambda>i. run_rcu 1 1 4 (r4 i)) g2 = Some (Some (x4, g4))" "clean 6 g4"
    using rcu_cell_runs [OF c2(3), of 4] by auto
  obtain r8 x8 g8 where c8: "?good r8" "table_cell True 8 1 1 1 (\<lambda>i. run_rcu 1 1 8 (r8 i)) g4 = Some (Some (x8, g8))"
    using rcu_cell_runs [OF c4(3), of 8] by auto
  obtain w where w: "\<And>n. length (val (fst (tr_init (w n)))) = TABLE_KEYS" "\<And>n. tr_clock (w n) = ((0, 0), (1, 0))"
    "\<And>n g. run_rw 1 1 n (w n) g 0 = Some (Ran 1 0 0, g)"
    using run_rw_returns by metis
  define rcus where "rcus = (\<lambda>n :: nat. if n = 1 then r1 else if n = 2 then r2 else if n = 4 then r4 else r8)"
  define rws where "rws = (\<lambda>(n :: nat) (i :: nat). w n)"
  have good: "?good (rcus n)" for n using c1(1) c2(1) c4(1) c8(1) by (simp add: rcus_def)
  have "\<exists>row. table_cell False n 1 1 1 (\<lambda>i. run_rw 1 1 n (rws n i)) g = Some (Some (row, g))" if "n \<le> 8" for n g
    unfolding rws_def by (rule rw_cell_runs [OF w(3) that])
  then obtain y where y: "\<And>n g. n \<le> 8 \<Longrightarrow> table_cell False n 1 1 1 (\<lambda>i. run_rw 1 1 n (rws n i)) g = Some (Some (y n g, g))" by metis
  obtain rows where rows: "tbench_main [''1'', ''1'', ''1''] rcus rws = Some (0, rows)"
    using c1(2) c2(2) c4(2) c8(2) y [of 1] y [of 2] y [of 4] y [of 8] by (simp add: tbench_main_def args rcus_def)
  have junk: "\<forall>n i. junk_ok (rcus n i) \<and> length (val (fst (tr_init (rws n i)))) = TABLE_KEYS" using good w(1) by (simp add: rws_def)
  note main = tbench_rows [OF rows args junk]
  have clock: "(if trow_rcu r then tr_clock (rcus n i) else tr_clock (rws n i)) = ((0, 0), (1, 0))" for r n i
    using good w(2) by (simp add: rws_def)
  have "length rows = 8" using main by simp
  moreover have "table_row_ok 1 1 1 [1] r" "trow_freed r = (if trow_rcu r then 1 else 0)" if "r \<in> set rows" for r
    using main that good unfolding clock by (simp_all add: zero_to_one zero_to_one [unfolded One_nat_def] Let_def split: if_splits)
  ultimately have "\<forall>r\<in>set rows. trow_torn r = 0 \<and> trow_updates r = 1 \<and> trow_freed r = (if trow_rcu r then 1 else 0) \<and> trow_median r = 1"
    by (simp add: table_row_ok_def summed_up_def the_median_def)
  then show ?thesis using rows \<open>length rows = 8\<close> by blast
qed

end
