(* ===== verification/Rcu_Tso.thy ===== *)
theory Rcu_Tso
  imports Rcu_Inv Handshake
begin

text \<open>
  The RCU of \<open>week4/src/rcu.c\<close> on a machine with store buffers (x86-TSO), compiled with the orderings of
  \<open>orders.h\<close>. A store is appended to the buffer of its thread and reaches memory later, in order; a sequentially
  consistent store is an exchange, which like every locked instruction waits for its thread's buffer to be empty; a load
  sees the youngest store of its own thread, or else memory. The fetch-and-adds of the statistics and the functions of the mutex
  are locked instructions. \<open>in_use\<close> is only accessed between \<open>pthread_mutex_lock\<close> and \<open>pthread_mutex_unlock\<close>,
  and \<open>local_seq\<close> only by its thread: their stores are not delayed.
\<close>

section \<open>Data\<close>

text \<open>A delayed store: to a reader's counters, or one of the program around the RCU.\<close>

datatype 'a rstore = StSeq nat ulong | StReads nat ulong | StOther 'a

section \<open>Steps\<close>

fun commit_rcu :: "'a rstore \<Rightarrow> rcu \<Rightarrow> rcu" where
  "commit_rcu (StSeq i v) s = set_reader i ((readers s i)\<lparr>seq := v\<rparr>) s"
| "commit_rcu (StReads i v) s = set_reader i ((readers s i)\<lparr>reads := v\<rparr>) s"
| "commit_rcu (StOther x) s = s"

text \<open>What a thread with the buffer \<open>b\<close> sees.\<close>

definition seen_rcu :: "'a rstore list \<Rightarrow> rcu \<Rightarrow> rcu" where
  "seen_rcu b s = fold commit_rcu b s"

text \<open>
  \<open>atomic_store_explicit\<close> with an ordering; \<open>eff\<close> is what the store does to memory. Plain stores are stores with no
  ordering at all, \<open>RELAXED\<close>.
\<close>

definition put :: "('w \<Rightarrow> 's \<Rightarrow> 's) \<Rightarrow> ord \<Rightarrow> 'w \<Rightarrow> 's \<times> 'w list \<Rightarrow> ('s \<times> 'w list) option" where
  "put eff order w sb = (case sb of (s, b) \<Rightarrow>
     if order = SEQCST then (if b = [] then Some (eff w s, []) else None) else Some (s, b @ [w]))"

text \<open>The points whose next instruction is a locked one: the mutex functions and the fetch-and-adds.\<close>

fun fenced :: "rpc \<Rightarrow> bool" where
  "fenced RegLock = True" | "fenced (RegUnlock h) = True" | "fenced UnregLock = True" | "fenced UnregUnlock = True"
| "fenced Leave = True" | "fenced SyLock = True" | "fenced (SyUnlock w) = True"
| "fenced (SyCount ((i, q) # w)) = (q mod 2 = 1)" | "fenced p = False"

definition tso_read_lock :: "orders \<Rightarrow> tid \<Rightarrow> nat \<Rightarrow> rcu \<times> 'a rstore list \<Rightarrow> (rcu \<times> 'a rstore list) option" where
  "tso_read_lock os t i sb = (case sb of (s, b) \<Rightarrow>
     let nxt = local_seq (readers s i) + 1 in
     put commit_rcu (announce os) (StSeq i nxt) (rgoto t Inside (set_reader i ((readers s i)\<lparr>local_seq := nxt\<rparr>)
       (s\<lparr>sections := (sections s)(t := Suc (sections s t))\<rparr>)), b))"

definition tso_read_unlock :: "orders \<Rightarrow> tid \<Rightarrow> nat \<Rightarrow> rcu \<times> 'a rstore list \<Rightarrow> (rcu \<times> 'a rstore list) option" where
  "tso_read_unlock os t i sb = (case sb of (s, b) \<Rightarrow>
     let nxt = local_seq (readers s i) + 1 in
     put commit_rcu (exit_ord os) (StSeq i nxt) (rgoto t Leave (set_reader i ((readers s i)\<lparr>local_seq := nxt\<rparr>) s), b))"

text \<open>Loads of a counter: the step of the thread on what it sees, of which only its program point is kept.\<close>

definition tso_load :: "tid \<Rightarrow> rcu \<times> 'a rstore list \<Rightarrow> (rcu \<times> 'a rstore list) option" where
  "tso_load t sb = (case sb of (s, b) \<Rightarrow>
     map_option (\<lambda>v. (rgoto t (rpcs v t) s, b)) (rcu_step (t, RGo) (seen_rcu b s)))"

definition tso_plain :: "tid \<times> ract \<Rightarrow> rcu \<times> 'a rstore list \<Rightarrow> (rcu \<times> 'a rstore list) option" where
  "tso_plain l sb = (case sb of (s, b) \<Rightarrow> map_option (\<lambda>s'. (s', b)) (rcu_step l s))"

fun rcu_tso :: "orders \<Rightarrow> tid \<times> ract \<Rightarrow> rcu \<times> 'a rstore list \<Rightarrow> (rcu \<times> 'a rstore list) option" where
  "rcu_tso os (t, ReadLock) (s, b) =
     (case (rpcs s t, handle s t) of (Out, Some i) \<Rightarrow> tso_read_lock os t i (s, b) | _ \<Rightarrow> None)"
| "rcu_tso os (t, ReadUnlock) (s, b) =
     (case (rpcs s t, handle s t) of (Inside, Some i) \<Rightarrow> tso_read_unlock os t i (s, b) | _ \<Rightarrow> None)"
| "rcu_tso os (t, RGo) (s, b) =
     (case rpcs s t of
        RegSeq i \<Rightarrow> put commit_rcu (exit_ord os) (StSeq i 0) (rgoto t (RegReads i) s, b)
      | RegReads i \<Rightarrow> put commit_rcu RELAXED (StReads i 0) (rgoto t (RegUnlock (Some i)) s, b)
      | SyScan i w \<Rightarrow> tso_load t (s, b)
      | SySpin i q w \<Rightarrow> tso_load t (s, b)
      | p \<Rightarrow> if fenced p \<and> b \<noteq> [] then None else tso_plain (t, RGo) (s, b))"
| "rcu_tso os (t, a) (s, b) = tso_plain (t, a) (s, b)"

end
