(* ===== verification/Rcu_Tso_Sim.thy ===== *)
theory Rcu_Tso_Sim
  imports Rcu_Tso
begin

text \<open>
  Every step of the RCU with store buffers is a step of the sequentially consistent one, or none: the thread whose
  counter store is delayed is a thread that has not taken that step yet.
\<close>

section \<open>The simulation relation\<close>

text \<open>
  A thread whose buffer holds counter stores stands, for all others, before the oldest of them: its program point in the
  sequentially consistent execution.
\<close>

fun behind :: "rpc \<Rightarrow> 'a rstore list \<Rightarrow> rpc" where
  "behind Leave (StSeq j v # b) = Inside"
| "behind (RegReads i) (StSeq j v # b) = RegSeq i"
| "behind (RegUnlock (Some i)) (StSeq j v # b) = RegSeq i"
| "behind (RegUnlock (Some i)) (StReads j v # b) = RegReads i"
| "behind p b = p"

fun is_other :: "'a rstore \<Rightarrow> bool" where
  "is_other (StOther x) = True" | "is_other w = False"

abbreviation others :: "'a rstore list \<Rightarrow> bool" where
  "others b \<equiv> list_all is_other b"

text \<open>What a buffer can hold at a program point.\<close>

fun buf_ok :: "rcu \<Rightarrow> rpc \<Rightarrow> nat option \<Rightarrow> 'a rstore list \<Rightarrow> bool" where
  "buf_ok s Leave h b \<longleftrightarrow> b = [] \<or> (\<exists>i. h = Some i \<and> b = [StSeq i (local_seq (readers s i))])"
| "buf_ok s (RegReads i) h b \<longleftrightarrow> b = [] \<or> b = [StSeq i 0]"
| "buf_ok s (RegUnlock None) h b \<longleftrightarrow> b = []"
| "buf_ok s (RegUnlock (Some i)) h b \<longleftrightarrow> b = [] \<or> b = [StSeq i 0, StReads i 0] \<or> b = [StReads i 0]"
| "buf_ok s Out h b \<longleftrightarrow> others b" | "buf_ok s SyLock h b \<longleftrightarrow> others b"
| "buf_ok s RegLock h b \<longleftrightarrow> others b" | "buf_ok s UnregLock h b \<longleftrightarrow> others b"
| "buf_ok s p h b \<longleftrightarrow> b = []"

text \<open>A slot whose owner has left its section and not yet told the others.\<close>

definition leaving :: "rcu \<Rightarrow> (tid \<Rightarrow> 'a rstore list) \<Rightarrow> nat \<Rightarrow> bool" where
  "leaving s B i \<longleftrightarrow> (\<exists>u. rpcs s u = Leave \<and> handle s u = Some i \<and> B u \<noteq> [])"

definition rcu_rel :: "rcu \<Rightarrow> (tid \<Rightarrow> 'a rstore list) \<Rightarrow> rcu \<Rightarrow> bool" where
  "rcu_rel s B r \<longleftrightarrow> registry r = registry s \<and> sync_waits r = sync_waits s \<and> handle r = handle s \<and>
     sections r = sections s \<and> (\<forall>t. rpcs r t = behind (rpcs s t) (B t)) \<and>
     (\<forall>i. seq (readers r i) = seq (readers s i) \<and> reads (readers r i) = reads (readers s i) \<and>
        in_use (readers r i) = in_use (readers s i) \<and>
        local_seq (readers s i) = local_seq (readers r i) + (if leaving s B i then 1 else 0)) \<and>
     (\<forall>t. buf_ok s (rpcs s t) (handle s t) (B t)) \<and>
     (\<forall>t u n. must_wait s t u = Some n \<longrightarrow> must_wait r t u = Some n)"


section \<open>Steps that do not delay a store\<close>

lemma behind_Nil [simp]: "behind p [] = p"
  by (cases p) auto

lemma behind_others: "others b \<Longrightarrow> behind p b = p"
  by (cases "(p, b)" rule: behind.cases) auto

lemma buf_ok_Nil [simp]: "buf_ok s p h []"
  by (cases "(s, p, h, [] :: 'a rstore list)" rule: buf_ok.cases) auto

lemma rcu_relD:
  assumes "rcu_rel s B r"
  shows "registry r = registry s" "sync_waits r = sync_waits s" "handle r = handle s" "sections r = sections s"
    "rpcs r t = behind (rpcs s t) (B t)" "seq (readers r i) = seq (readers s i)" "reads (readers r i) = reads (readers s i)"
    "in_use (readers r i) = in_use (readers s i)" "buf_ok s (rpcs s t) (handle s t) (B t)"
    "local_seq (readers s i) = local_seq (readers r i) + (if leaving s B i then 1 else 0)"
    "must_wait s t u = Some n \<Longrightarrow> must_wait r t u = Some n"
  using assms unfolding rcu_rel_def by blast+

lemma leaving_owner:
  assumes rel: "rcu_rel s B r" and u: "rpcs s u = Leave" "handle s u = Some i" "B u \<noteq> []"
  shows "inside r u \<and> owns r u = Some i"
proof -
  obtain v where "B u = [StSeq i v]" using rcu_relD(9) [OF rel, of u] u by auto
  then have "rpcs r u = Inside" using rcu_relD(5) [OF rel, of u] u by simp
  then show ?thesis using rcu_relD(3) [OF rel] u by (simp add: inside_def)
qed

lemma not_leaving:
  assumes rel: "rcu_rel s B r" and inv: "rcu_inv r" and t: "B t = []"
    and i: "owns r t = Some i \<or> \<not> in_use (readers r i)"
  shows "\<not> leaving s B i"
proof
  assume "leaving s B i"
  then obtain u where u: "rpcs s u = Leave" "handle s u = Some i" "B u \<noteq> []" by (auto simp: leaving_def)
  have o: "owns r u = Some i" using leaving_owner [OF rel u] by simp
  have ok: "slots_ok r" using inv by (simp add: rcu_inv_def)
  have "in_use (readers r i)" using slots_okD [OF ok o] by (simp add: slot_ok_def)
  moreover have "separate (owns r)" using ok by (simp add: slots_ok_def)
  then have "owns r t \<noteq> Some i" using owned_other [of "owns r" u i t] o u(3) t by auto
  ultimately show False using i by blast
qed

text \<open>What has to be compared after a step of \<open>t\<close> that leaves it at \<open>p\<close> with the buffer \<open>b\<close>.\<close>

lemma rel_upd:
  assumes rel: "rcu_rel s B r" and b: "buf_ok s' p h b" and pcs: "rpcs s' = (rpcs s)(t := p)" "rpcs r' = (rpcs r)(t := behind p b)"
    and hs: "handle s' = (handle s)(t := h)" "handle r' = (handle r)(t := h)"
    and same: "registry r' = registry s'" "sync_waits r' = sync_waits s'" "sections r' = sections s'"
    and slots: "\<And>i. seq (readers r' i) = seq (readers s' i)" "\<And>i. reads (readers r' i) = reads (readers s' i)"
      "\<And>i. in_use (readers r' i) = in_use (readers s' i)"
    and kept: "\<And>u i. u \<noteq> t \<Longrightarrow> rpcs s u = Leave \<Longrightarrow> handle s u = Some i \<Longrightarrow> B u \<noteq> [] \<Longrightarrow>
      local_seq (readers s' i) = local_seq (readers s i)"
    and ls: "\<And>i. local_seq (readers s' i) = local_seq (readers r' i) + (if leaving s' (B(t := b)) i then 1 else 0)"
    and must: "\<And>u v n. must_wait s' u v = Some n \<Longrightarrow> must_wait r' u v = Some n"
  shows "rcu_rel s' (B(t := b)) r'"
proof -
  have bo: "buf_ok s' (rpcs s u) (handle s u) (B u)" if u: "u \<noteq> t" for u
  proof -
    have old: "buf_ok s (rpcs s u) (handle s u) (B u)" by (rule rcu_relD(9) [OF rel])
    show ?thesis
    proof (cases "rpcs s u = Leave \<and> B u \<noteq> []")
      case True
      then obtain i where i: "handle s u = Some i" "B u = [StSeq i (local_seq (readers s i))]" using old by auto
      then show ?thesis using True kept [OF u, of i] by simp
    next
      case False
      then show ?thesis using old by (cases "B u = []"; cases "(s, rpcs s u, handle s u, B u)" rule: buf_ok.cases) auto
    qed
  qed
  show ?thesis
    unfolding rcu_rel_def using same slots b bo ls must rcu_relD(3,5) [OF rel] hs pcs by simp
qed

text \<open>Both machines take the same step.\<close>

lemma rel_step:
  assumes rel: "rcu_rel s B r" and t: "others (B t)" "buf_ok s' p h (B t)"
    and pcs: "rpcs s' = (rpcs s)(t := p)" "rpcs r' = (rpcs r)(t := p)" and was: "rpcs s t = Leave \<Longrightarrow> B t = []"
    and hs: "handle s' = (handle s)(t := h)" "handle r' = (handle r)(t := h)"
    and same: "registry r' = registry s'" "sync_waits r' = sync_waits s'" "sections r' = sections s'"
    and slots: "\<And>i. seq (readers r' i) = seq (readers s' i)" "\<And>i. reads (readers r' i) = reads (readers s' i)"
      "\<And>i. in_use (readers r' i) = in_use (readers s' i)"
    and kept: "\<And>i. leaving s B i \<Longrightarrow> local_seq (readers s' i) = local_seq (readers s i) \<and> local_seq (readers r' i) = local_seq (readers r i)"
    and free: "\<And>i. \<not> leaving s B i \<Longrightarrow> local_seq (readers r' i) = local_seq (readers s' i)"
    and must: "\<And>u v n. must_wait s' u v = Some n \<Longrightarrow> must_wait r' u v = Some n"
    and pl: "p \<noteq> Leave \<or> B t = []"
  shows "rcu_rel s' B r'"
proof -
  have l: "leaving s' B i \<longleftrightarrow> leaving s B i" for i
    unfolding leaving_def pcs hs using was pl by (metis fun_upd_apply)
  have ls: "local_seq (readers s' i) = local_seq (readers r' i) + (if leaving s' (B(t := B t)) i then 1 else 0)" for i
    unfolding l fun_upd_triv using kept [of i] free [of i] rcu_relD(10) [OF rel, of i] by auto
  have k: "local_seq (readers s' i) = local_seq (readers s i)" if "rpcs s u = Leave" "handle s u = Some i" "B u \<noteq> []" for u i
    using kept that unfolding leaving_def by blast
  have "rcu_rel s' (B(t := B t)) r'"
    by (rule rel_upd [OF rel t(2) pcs(1) _ hs same slots k ls must]) (simp add: behind_others [OF t(1)] pcs(2))
  then show ?thesis by simp
qed

lemma rel_move:
  assumes rel: "rcu_rel s B r" and inv: "rcu_inv r" and t: "B t = []" and pcs: "rpcs r t = rpcs s t"
    and move: "rcu_move t s s'"
  shows "\<exists>r'. rcu_move t r r' \<and> rcu_rel s' B r'"
proof -
  note nl = not_leaving [OF rel inv, of t, OF t]
  note D = rcu_relD(1-4,6-8) [OF rel] rcu_relD(11) [OF rel]
  have L: "\<not> leaving s B i \<Longrightarrow> local_seq (readers r i) = local_seq (readers s i)" for i using rcu_relD(10) [OF rel, of i] by simp
  have O: "open_sections s u = Some n \<Longrightarrow> open_sections r u = Some n" for u n
    using rcu_relD(4,5) [OF rel] by (auto simp: open_sections_def inside_def split: if_splits)
  have go: ?thesis if "rcu_move t r r'" and "rpcs s' = (rpcs s)(t := rpcs s' t)" "rpcs r' = (rpcs r)(t := rpcs s' t)"
    "handle s' = (handle s)(t := handle s' t)" "handle r' = (handle r)(t := handle s' t)" "registry r' = registry s'"
    "sync_waits r' = sync_waits s'" "sections r' = sections s'" "\<And>i. seq (readers r' i) = seq (readers s' i)"
    "\<And>i. reads (readers r' i) = reads (readers s' i)" "\<And>i. in_use (readers r' i) = in_use (readers s' i)"
    "\<And>i. leaving s B i \<Longrightarrow> local_seq (readers s' i) = local_seq (readers s i) \<and> local_seq (readers r' i) = local_seq (readers r i)"
    "\<And>i. \<not> leaving s B i \<Longrightarrow> local_seq (readers r' i) = local_seq (readers s' i)"
    "\<And>u v n. must_wait s' u v = Some n \<Longrightarrow> must_wait r' u v = Some n" for r'
    using that(1) rel_step [OF rel _ _ that(2,3) _ that(4-14)] t by auto
  show ?thesis
    using move
  proof cases
    case reg
    show ?thesis by (rule go [OF rcu_move.reg [of r t]]) (use reg D pcs L in \<open>auto simp: rcu_updates\<close>)
  next
    case (unreg i)
    show ?thesis by (rule go [OF rcu_move.unreg [of r t i]]) (use unreg D pcs L in \<open>auto simp: rcu_updates\<close>)
  next
    case (lock i)
    have n: "\<not> leaving s B i" using lock nl [of i] pcs D by simp
    show ?thesis by (rule go [OF rcu_move.lock [of r t i]]) (use lock D pcs L n in \<open>auto simp: rcu_updates\<close>)
  next
    case (unlock i)
    have n: "\<not> leaving s B i" using unlock nl [of i] pcs D by simp
    show ?thesis by (rule go [OF rcu_move.unlock [of r t i]]) (use unlock D pcs L n in \<open>auto simp: rcu_updates\<close>)
  next
    case sync
    show ?thesis by (rule go [OF rcu_move.sync [of r t]]) (use sync D pcs L O in \<open>auto simp: rcu_updates\<close>)
  next
    case (leave i)
    show ?thesis by (rule go [OF rcu_move.leave [of r t i]]) (use leave D pcs L in \<open>auto simp: rcu_updates\<close>)
  next
    case reg_lock
    show ?thesis by (rule go [OF rcu_move.reg_lock [of r t]]) (use reg_lock D pcs L in \<open>auto simp: rcu_updates\<close>)
  next
    case reg_full
    show ?thesis by (rule go [OF rcu_move.reg_full [of r t]]) (use reg_full D pcs L in \<open>auto simp: rcu_updates\<close>)
  next
    case (reg_next i)
    show ?thesis by (rule go [OF rcu_move.reg_next [of r t i]]) (use reg_next D pcs L in \<open>auto simp: rcu_updates\<close>)
  next
    case (reg_take i)
    have n: "\<not> leaving s B i" using reg_take nl [of i] pcs D by simp
    show ?thesis by (rule go [OF rcu_move.reg_take [of r t i]]) (use reg_take D pcs L n in \<open>auto simp: rcu_updates\<close>)
  next
    case (reg_seq i)
    show ?thesis by (rule go [OF rcu_move.reg_seq [of r t i]]) (use reg_seq D pcs L in \<open>auto simp: rcu_updates\<close>)
  next
    case (reg_reads i)
    show ?thesis by (rule go [OF rcu_move.reg_reads [of r t i]]) (use reg_reads D pcs L in \<open>auto simp: rcu_updates\<close>)
  next
    case (reg_unlock h)
    show ?thesis by (rule go [OF rcu_move.reg_unlock [of r t h]]) (use reg_unlock D pcs L in \<open>auto simp: rcu_updates\<close>)
  next
    case unreg_lock
    show ?thesis by (rule go [OF rcu_move.unreg_lock [of r t]]) (use unreg_lock D pcs L in \<open>auto simp: rcu_updates\<close>)
  next
    case (unreg_clear i)
    show ?thesis by (rule go [OF rcu_move.unreg_clear [of r t i]]) (use unreg_clear D pcs L in \<open>auto simp: rcu_updates\<close>)
  next
    case unreg_unlock
    show ?thesis by (rule go [OF rcu_move.unreg_unlock [of r t]]) (use unreg_unlock D pcs L in \<open>auto simp: rcu_updates\<close>)
  next
    case sy_lock
    show ?thesis by (rule go [OF rcu_move.sy_lock [of r t]]) (use sy_lock D pcs L in \<open>auto simp: rcu_updates\<close>)
  next
    case (sy_end w)
    show ?thesis by (rule go [OF rcu_move.sy_end [of r t w]]) (use sy_end D pcs L in \<open>auto simp: rcu_updates\<close>)
  next
    case (sy_skip i w)
    show ?thesis by (rule go [OF rcu_move.sy_skip [of r t i w]]) (use sy_skip D pcs L in \<open>auto simp: rcu_updates\<close>)
  next
    case (sy_odd i w)
    show ?thesis by (rule go [OF rcu_move.sy_odd [of r t i w]]) (use sy_odd D pcs L in \<open>auto simp: rcu_updates\<close>)
  next
    case (sy_unlock w)
    show ?thesis by (rule go [OF rcu_move.sy_unlock [of r t w]]) (use sy_unlock D pcs L in \<open>auto simp: rcu_updates\<close>)
  next
    case sy_done
    show ?thesis by (rule go [OF rcu_move.sy_done [of r t]]) (use sy_done D pcs L in \<open>auto simp: rcu_updates\<close>)
  next
    case (sy_even i q w)
    show ?thesis by (rule go [OF rcu_move.sy_even [of r t i q w]]) (use sy_even D pcs L in \<open>auto simp: rcu_updates\<close>)
  next
    case (sy_count i q w)
    show ?thesis by (rule go [OF rcu_move.sy_count [of r t i q w]]) (use sy_count D pcs L in \<open>auto simp: rcu_updates\<close>)
  next
    case (sy_stay i q w)
    show ?thesis by (rule go [OF rcu_move.sy_stay [of r t i q w]]) (use sy_stay D pcs L in \<open>auto simp: rcu_updates\<close>)
  next
    case (sy_next i q w)
    show ?thesis by (rule go [OF rcu_move.sy_next [of r t i q w]]) (use sy_next D pcs L in \<open>auto simp: rcu_updates\<close>)
  next
    case sy_return
    show ?thesis by (rule go [OF rcu_move.sy_return [of r t]]) (use sy_return D pcs L in \<open>auto simp: rcu_updates\<close>)
  qed
qed

text \<open>Which action a move is.\<close>

definition act_of :: "rpc \<Rightarrow> rpc \<Rightarrow> ract" where
  "act_of p q = (if p = Inside then ReadUnlock else if p \<noteq> Out then RGo else if q = RegLock then Register
     else if q = UnregLock then Unregister else if q = Inside then ReadLock else Synchronize)"

lemma step_act: "rcu_step (t, a) s = Some s' \<Longrightarrow> a = act_of (rpcs s t) (rpcs s' t)"
  by (cases a) (auto simp: act_of_def rcu_updates split: if_splits rpc.splits option.splits)

lemma move_step: "rcu_move t s s' \<Longrightarrow> rcu_step (t, act_of (rpcs s t) (rpcs s' t)) s = Some s'"
  by (induction rule: rcu_move.induct)
    (auto simp: act_of_def rcu_updates even_iff_mod_2_eq_zero odd_iff_mod_2_eq_one split: option.splits)

lemma rel_direct:
  assumes rel: "rcu_rel s B r" and inv: "rcu_inv r" and t: "B t = []" and st: "rcu_step (t, a) s = Some s'"
  shows "\<exists>r'. rcu_step (t, a) r = Some r' \<and> rcu_rel s' B r'"
proof -
  have pc: "rpcs r t = rpcs s t" using rcu_relD(5) [OF rel, of t] t by simp
  obtain r' where r': "rcu_move t r r'" "rcu_rel s' B r'" using rel_move [OF rel inv t pc rcu_step_move [OF st]] by blast
  have "rpcs r' t = rpcs s' t" using rcu_relD(5) [OF r'(2), of t] t by simp
  then show ?thesis using move_step [OF r'(1)] step_act [OF st] pc r'(2) by auto
qed

text \<open>A call can be made with stores of the surrounding program still in the buffer.\<close>

lemma rel_call:
  assumes rel: "rcu_rel s B r" and t: "others (B t)" and a: "a = Register \<or> a = Unregister \<or> a = Synchronize"
    and st: "rcu_step (t, a) s = Some s'"
  shows "\<exists>r'. rcu_step (t, a) r = Some r' \<and> rcu_rel s' B r'"
proof -
  have pc: "rpcs r t = rpcs s t" using rcu_relD(5) [OF rel, of t] behind_others [OF t] by simp
  note D = rcu_relD(1-4,6-8) [OF rel] rcu_relD(11) [OF rel]
  have L: "\<not> leaving s B i \<Longrightarrow> local_seq (readers r i) = local_seq (readers s i)" for i using rcu_relD(10) [OF rel, of i] by simp
  have O: "open_sections s u = Some n \<Longrightarrow> open_sections r u = Some n" for u n
    using rcu_relD(4,5) [OF rel] by (auto simp: open_sections_def inside_def split: if_splits)
  show ?thesis
    using a
  proof (elim disjE)
    assume "a = Register"
    then show ?thesis using st D L pc t
      by (intro exI [of _ "rgoto t RegLock r"] conjI rel_step [OF rel, of t s' RegLock "handle s t"]) (auto simp: rcu_updates split: if_splits)
  next
    assume "a = Unregister"
    then show ?thesis using st D L pc t
      by (intro exI [of _ "rgoto t UnregLock r"] conjI rel_step [OF rel, of t s' UnregLock "handle s t"]) (auto simp: rcu_updates split: if_splits)
  next
    assume "a = Synchronize"
    then show ?thesis using st D L pc t O
      by (intro exI [of _ "rgoto t SyLock (r\<lparr>must_wait := (must_wait r)(t := open_sections r)\<rparr>)"] conjI
          rel_step [OF rel, of t s' SyLock "handle s t"]) (auto simp: rcu_updates split: if_splits)
  qed
qed

section \<open>Delayed stores\<close>

lemma leaving_idle:
  "\<not> (rpcs s t = Leave \<and> B t \<noteq> []) \<Longrightarrow> p \<noteq> Leave \<or> b = [] \<Longrightarrow> rpcs s' = (rpcs s)(t := p) \<Longrightarrow> handle s' = handle s \<Longrightarrow>
    leaving s' (B(t := b)) i \<longleftrightarrow> leaving s B i"
  unfolding leaving_def by (metis fun_upd_apply)

text \<open>A delayed store of \<open>rcu_read_unlock\<close> or \<open>rcu_register\<close>: nothing has happened yet for the others.\<close>

lemma delay_unlock:
  assumes rel: "rcu_rel s B r" and inv: "rcu_inv r" and pc: "rpcs s t = Inside" and h: "handle s t = Some i"
    and s': "s' = rgoto t Leave (set_reader i ((readers s i)\<lparr>local_seq := local_seq (readers s i) + 1\<rparr>) s)"
  shows "rcu_rel s' (B(t := [StSeq i (local_seq (readers s i) + 1)])) r"
proof -
  have t: "B t = []" using rcu_relD(9) [OF rel, of t] pc by simp
  have rt: "rpcs r t = Inside" using rcu_relD(5) [OF rel, of t] t pc by simp
  have n: "\<not> leaving s B i" using not_leaving [of s B r t i, OF rel inv t] h pc rcu_relD(3) [OF rel] rt by simp
  let ?B = "B(t := [StSeq i (local_seq (readers s i) + 1)])"
  have l: "leaving s' ?B j \<longleftrightarrow> j = i \<or> leaving s B j" for j
    using h pc unfolding s' leaving_def by (auto simp: rcu_updates) (metis rpc.distinct)+
  show ?thesis
    by (rule rel_upd [OF rel, of s' Leave "handle s t"])
      (use h pc rt n rcu_relD(1-4,6-8,10,11) [OF rel] l in \<open>auto simp: s' rcu_updates leaving_def\<close>)
qed

lemma delay_register:
  assumes rel: "rcu_rel s B r" and s': "s' = rgoto t p s"
    and pc: "rpcs s t = RegSeq i \<and> p = RegReads i \<and> w = StSeq i 0 \<or> rpcs s t = RegReads i \<and> p = RegUnlock (Some i) \<and> w = StReads i 0"
  shows "rcu_rel s' (B(t := B t @ [w])) r"
proof -
  have ok: "buf_ok s (rpcs s t) (handle s t) (B t)" by (rule rcu_relD(9) [OF rel])
  have l: "leaving s' (B(t := B t @ [w])) j = leaving s B j" for j
    by (rule leaving_idle [of s t B p _ s']) (use pc in \<open>auto simp: s' rgoto_def\<close>)
  have rt: "rpcs r t = behind p (B t @ [w])" using rcu_relD(5) [OF rel, of t] ok pc by auto
  show ?thesis
    by (rule rel_upd [OF rel, of s' p "handle s t"])
      (use pc ok rt rcu_relD(1-4,6-8,10,11) [OF rel] l in \<open>auto simp: s' rgoto_def\<close>)
qed

section \<open>Stores that reach memory\<close>

text \<open>What the sequentially consistent thread does when the oldest delayed store of a thread reaches memory.\<close>

definition commit_act :: "rpc \<Rightarrow> ract" where
  "commit_act p = (if p = Leave then ReadUnlock else RGo)"

lemma commit_other:
  assumes rel: "rcu_rel s B r" and b: "B t = StOther x # b"
  shows "rcu_rel s (B(t := b)) r"
proof -
  have ok: "buf_ok s (rpcs s t) (handle s t) (B t)" by (rule rcu_relD(9) [OF rel])
  then have o: "others b" "rpcs s t = Out \<or> rpcs s t = SyLock \<or> rpcs s t = RegLock \<or> rpcs s t = UnregLock"
    unfolding b by (cases "(s, rpcs s t, handle s t, StOther x # b)" rule: buf_ok.cases; auto)+
  have l: "leaving s (B(t := b)) i = leaving s B i" for i by (rule leaving_idle [of s t B "rpcs s t"]) (use o in auto)
  have "buf_ok s (rpcs s t) (handle s t) b" using o by auto
  moreover have "rpcs r t = behind (rpcs s t) b" using rcu_relD(5) [OF rel, of t] o b by auto
  ultimately show ?thesis
    by (intro rel_upd [OF rel, of s "rpcs s t" "handle s t"]) (use l rcu_relD(1-4,6-8,10,11) [OF rel] in \<open>auto simp: fun_upd_idem\<close>)
qed

lemma commit_leave:
  assumes rel: "rcu_rel s B r" and inv: "rcu_inv r" and pc: "rpcs s t = Leave" and b: "B t = w # b"
  shows "b = [] \<and> (\<exists>r'. rcu_step (t, ReadUnlock) r = Some r' \<and> rcu_rel (commit_rcu w s) (B(t := b)) r')"
proof -
  obtain i where i: "handle s t = Some i" "w = StSeq i (local_seq (readers s i))" and e: "b = []"
    using rcu_relD(9) [OF rel, of t] pc b by auto
  have lv: "leaving s B i" using pc i b by (auto simp: leaving_def)
  have own: "inside r t" "owns r t = Some i" using leaving_owner [OF rel pc i(1)] b by auto
  have "separate (owns r)" using inv by (simp add: rcu_inv_def slots_ok_def)
  then have sole: "handle s u = Some i \<Longrightarrow> rpcs s u = Leave \<Longrightarrow> B u \<noteq> [] \<Longrightarrow> u = t" for u
    using leaving_owner [OF rel, of u i] owned_other [of "owns r" t i u] own(2) by blast
  let ?s = "commit_rcu w s" and ?r = "read_unlock t i r"
  have "rpcs ?s = rpcs s" "handle ?s = handle s" by (simp_all add: i(2) set_reader_def)
  then have l: "leaving ?s (B(t := [])) j \<longleftrightarrow> j \<noteq> i \<and> leaving s B j" for j
  proof -
    have "(rpcs s u = Leave \<and> handle s u = Some j \<and> (B(t := [])) u \<noteq> []) \<longleftrightarrow>
        j \<noteq> i \<and> rpcs s u = Leave \<and> handle s u = Some j \<and> B u \<noteq> []" for u
      using sole [of u] i(1) by (cases "u = t") auto
    then show ?thesis unfolding leaving_def \<open>rpcs ?s = rpcs s\<close> \<open>handle ?s = handle s\<close> by simp
  qed
  have "rcu_step (t, ReadUnlock) r = Some ?r"
    using own i(1) rcu_relD(3) [OF rel] by (simp add: inside_def rcu_step.simps)
  moreover have "rcu_rel ?s (B(t := [])) ?r"
  proof (rule rel_upd [OF rel, of ?s Leave "handle s t"])
    have "local_seq (readers s i) = local_seq (readers r i) + 1" using rcu_relD(10) [OF rel, of i] lv by simp
    then show "local_seq (readers ?s j) = local_seq (readers ?r j) + (if leaving ?s (B(t := [])) j then 1 else 0)"
      "seq (readers ?r j) = seq (readers ?s j)" for j
      unfolding l using rcu_relD(6,10) [OF rel, of j] by (simp_all add: i(2) rcu_updates)
    show "local_seq (readers ?s j) = local_seq (readers s j)" for j by (simp add: i(2) set_reader_def)
  qed (use pc rcu_relD(1-4,7,8,11) [OF rel] in \<open>simp_all add: i(2) rcu_updates fun_upd_idem\<close>)
  ultimately show ?thesis using e by blast
qed

lemma commit_register:
  assumes rel: "rcu_rel s B r" and pc: "rpcs s t \<noteq> Leave" and b: "B t = w # b" and w: "\<not> is_other w"
  shows "\<exists>r'. rcu_step (t, RGo) r = Some r' \<and> rcu_rel (commit_rcu w s) (B(t := b)) r'"
proof -
  have ok: "buf_ok s (rpcs s t) (handle s t) (w # b)" using rcu_relD(9) [OF rel, of t] b by simp
  then obtain i where i: "rpcs s t = RegReads i \<and> w = StSeq i 0 \<and> b = [] \<or>
      rpcs s t = RegUnlock (Some i) \<and> (w = StSeq i 0 \<and> b = [StReads i 0] \<or> w = StReads i 0 \<and> b = [])"
    using pc w by (cases "(s, rpcs s t, handle s t, w # b)" rule: buf_ok.cases) auto
  have l: "leaving (commit_rcu w s) (B(t := b)) j = leaving s B j" for j
    by (rule leaving_idle [of s t B "rpcs s t"]) (use i in \<open>auto simp: rcu_updates\<close>)
  have rt: "rpcs r t = behind (rpcs s t) (w # b)" using rcu_relD(5) [OF rel, of t] b by simp
  define r' where "r' = rgoto t (behind (rpcs s t) b) (commit_rcu w r)"
  have "rcu_step (t, RGo) r = Some r'"
    using i rt by (auto simp: r'_def rcu_step.simps)
  moreover have "rcu_rel (commit_rcu w s) (B(t := b)) r'"
    by (rule rel_upd [OF rel, of _ "rpcs s t" "handle s t"])
      (use l i ok rcu_relD(1-4,6-8,10,11) [OF rel] in \<open>auto simp: r'_def rcu_updates\<close>)
  ultimately show ?thesis by blast
qed

section \<open>Every step\<close>

text \<open>The stores of the surrounding program in a buffer: no step of the RCU adds or removes any.\<close>

fun other_stores :: "'a rstore list \<Rightarrow> 'a list" where
  "other_stores [] = []"
| "other_stores (StOther x # b) = x # other_stores b"
| "other_stores (w # b) = other_stores b"

lemma other_stores_append [simp]: "other_stores (b @ c) = other_stores b @ other_stores c"
  by (induction b rule: other_stores.induct) auto

lemma put_cases:
  assumes "put eff order w (s, b) = Some (s', b')"
  obtains "order = SEQCST" "b = []" "b' = []" "s' = eff w s" | "order \<noteq> SEQCST" "s' = s" "b' = b @ [w]"
  using assms by (auto simp: put_def split: if_splits)

text \<open>A load with an empty buffer is a load of memory.\<close>

lemma load_direct:
  assumes "tso_load t (s, []) = Some (s', b')" and "(\<exists>i w. rpcs s t = SyScan i w) \<or> (\<exists>i q w. rpcs s t = SySpin i q w)"
  shows "rcu_step (t, RGo) s = Some s' \<and> b' = []"
proof -
  have [simp]: "s\<lparr>rpcs := (rpcs s)(t := p)\<rparr> = s" if "rpcs s t = p" for p using that by (cases s) (simp add: fun_upd_idem)
  show ?thesis using assms by (auto simp: tso_load_def seen_rcu_def rgoto_def Let_def)
qed

definition in_step :: "tid \<Rightarrow> ract \<Rightarrow> rcu \<Rightarrow> 'a rstore list \<Rightarrow> rcu \<Rightarrow> rcu \<Rightarrow> bool" where
  "in_step t a s b r r' \<longleftrightarrow> rcu_step (t, a) r = Some r' \<and> (a = ReadUnlock \<longrightarrow> b = []) \<or>
     r' = r \<and> b \<noteq> [] \<and> (a = ReadUnlock \<or> a = RGo \<and> (\<exists>i. rpcs s t = RegSeq i \<or> rpcs s t = RegReads i))"

lemma go_sim:
  assumes rel: "rcu_rel s B r" and inv: "rcu_inv r" and st: "rcu_tso os (t, RGo) (s, B t) = Some (s', b')"
  shows "\<exists>r'. rcu_rel s' (B(t := b')) r' \<and> in_step t RGo s b' r r' \<and> other_stores b' = other_stores (B t)"
proof -
  have ok: "buf_ok s (rpcs s t) (handle s t) (B t)" by (rule rcu_relD(9) [OF rel])
  have direct: ?thesis if e: "B t = []" "b' = []" and d: "rcu_step (t, RGo) s = Some s'"
    using rel_direct [OF rel inv e(1) d] e by (auto simp: in_step_def fun_upd_idem)
  show ?thesis
  proof (cases "\<exists>i. rpcs s t = RegSeq i \<or> rpcs s t = RegReads i")
    case True
    then obtain i where i: "rpcs s t = RegSeq i \<or> rpcs s t = RegReads i" by blast
    define p where "p = (if rpcs s t = RegSeq i then RegReads i else RegUnlock (Some i))"
    define w :: "'a rstore" where "w = (if rpcs s t = RegSeq i then StSeq i 0 else StReads i 0)"
    define ord where "ord = (if rpcs s t = RegSeq i then exit_ord os else RELAXED)"
    have "put commit_rcu ord w (rgoto t p s, B t) = Some (s', b')" using st i by (auto simp: ord_def w_def p_def)
    then show ?thesis
    proof (cases rule: put_cases)
      case 1
      then show ?thesis using i by (intro direct) (auto simp: ord_def w_def p_def rgoto_def set_reader_def split: if_splits)
    next
      case 2
      have "rcu_rel s' (B(t := b')) r" unfolding 2(3)
        by (rule delay_register [OF rel 2(2), of i]) (use i in \<open>auto simp: p_def w_def\<close>)
      moreover have "in_step t RGo s b' r r" using True 2(3) by (simp add: in_step_def)
      ultimately show ?thesis using 2(3) by (auto simp: w_def)
    qed
  next
    case False
    then have "B t = []"
      using ok st by (cases "rpcs s t"; cases "handle s t") (auto simp: tso_plain_def split: if_splits list.splits option.splits)
    moreover from this have "rcu_step (t, RGo) s = Some s' \<and> b' = []"
      using st False load_direct [of t s s' b'] by (cases "rpcs s t") (auto simp: tso_plain_def split: if_splits)
    ultimately show ?thesis using direct by blast
  qed
qed

lemma rcu_tso_sim:
  assumes rel: "rcu_rel s B r" and inv: "rcu_inv r" and os: "announce os = SEQCST"
    and st: "rcu_tso os (t, a) (s, B t) = Some (s', b')"
  shows "\<exists>r'. rcu_rel s' (B(t := b')) r' \<and> in_step t a s b' r r' \<and> other_stores b' = other_stores (B t)"
proof (cases "a = RGo")
  case True
  then show ?thesis using go_sim [OF rel inv, of os t s' b'] st by simp
next
  case go: False
  have ok: "buf_ok s (rpcs s t) (handle s t) (B t)" by (rule rcu_relD(9) [OF rel])
  have direct: ?thesis if e: "B t = []" "b' = []" and d: "rcu_step (t, a) s = Some s'"
    using rel_direct [OF rel inv e(1) d] e by (auto simp: in_step_def fun_upd_idem)
  consider "a = ReadLock" | "a = ReadUnlock" | "a = Register \<or> a = Unregister \<or> a = Synchronize"
    using go by (cases a) auto
  then show ?thesis
  proof cases
    case 1
    then obtain i where i: "rpcs s t = Out" "handle s t = Some i" "tso_read_lock os t i (s, B t) = Some (s', b')"
      using st by (auto split: rpc.splits option.splits)
    have e: "B t = []" "b' = []" and s': "s' = read_lock t i s"
      using i(3) os by (auto simp: tso_read_lock_def put_def rcu_updates split: if_splits)
    show ?thesis by (rule direct [OF e]) (use 1 i s' in \<open>simp add: rcu_step.simps\<close>)
  next
    case 2
    then obtain i where i: "rpcs s t = Inside" "handle s t = Some i" "tso_read_unlock os t i (s, B t) = Some (s', b')"
      using st by (auto split: rpc.splits option.splits)
    have e: "B t = []" using ok i by simp
    let ?nxt = "local_seq (readers s i) + 1"
    have "put commit_rcu (exit_ord os) (StSeq i ?nxt) (rgoto t Leave (set_reader i ((readers s i)\<lparr>local_seq := ?nxt\<rparr>) s), B t) = Some (s', b')"
      using i(3) by (simp add: tso_read_unlock_def Let_def)
    then show ?thesis
    proof (cases rule: put_cases)
      case 1
      then show ?thesis by (intro direct [OF e]) (use 2 i in \<open>auto simp: rcu_updates rcu_step.simps\<close>)
    next
      case delayed: 2
      have "rcu_rel s' (B(t := b')) r"
        using delay_unlock [OF rel inv i(1,2) delayed(2)] delayed(3) e by simp
      then show ?thesis using 2 delayed(3) e by (auto simp: in_step_def)
    qed
  next
    case 3
    then have d: "rcu_step (t, a) s = Some s'" "b' = B t" using st by (auto simp: tso_plain_def)
    have "rpcs s t = Out" using d 3 by (auto simp: rcu_step.simps split: if_splits)
    then have "others (B t)" using ok by simp
    from rel_call [OF rel this 3 d(1)] show ?thesis using 3 d(2) by (auto simp: in_step_def fun_upd_idem)
  qed
qed

text \<open>A store of the RCU reaches memory.\<close>

lemma commit_sim:
  assumes rel: "rcu_rel s B r" and inv: "rcu_inv r" and b: "B t = w # b" and w: "\<not> is_other w"
  shows "\<exists>r'. rcu_rel (commit_rcu w s) (B(t := b)) r' \<and> rcu_step (t, commit_act (rpcs s t)) r = Some r' \<and>
    other_stores b = other_stores (B t) \<and> (rpcs s t = Leave \<longrightarrow> b = [])"
proof -
  have "other_stores b = other_stores (B t)" using b w by (cases w) auto
  then show ?thesis
    using commit_leave [OF rel inv _ b] commit_register [OF rel _ b w] by (cases "rpcs s t = Leave") (auto simp: commit_act_def)
qed

end
