(* ===== verification/RcuTable_Tso.thy ===== *)
theory RcuTable_Tso
  imports Rcu_Tso RcuTable_Thms
begin

text \<open>
  The table of \<open>week4/src/table.c\<close> on the machine with store buffers, on top of \<open>Rcu_Tso\<close>: each thread has one buffer for
  the stores of \<open>rcu.c\<close> and of \<open>table.c\<close>. What \<open>malloc\<close> and \<open>free\<close> do to the heap is not delayed.
\<close>

section \<open>Data\<close>

text \<open>The stores of an update: \<open>memcpy\<close>, the two assignments of \<open>fill\<close>, the published pointer and \<open>t->latest\<close>.\<close>

datatype tstore = StCopy addr version | StGen addr clong | StVal addr nat clong | StCur addr | StLatest addr

type_synonym tbuf = "tstore rstore list"

record ttab =
  mem :: rtab
  bufs :: "tid \<Rightarrow> tbuf"

section \<open>Stores and loads\<close>

definition write_version :: "addr \<Rightarrow> (version \<Rightarrow> version) \<Rightarrow> (addr \<Rightarrow> version option) \<Rightarrow> addr \<Rightarrow> version option" where
  "write_version a f h = (case h a of None \<Rightarrow> h | Some v \<Rightarrow> h(a \<mapsto> f v))"

fun heap_effect :: "tstore \<Rightarrow> (addr \<Rightarrow> version option) \<Rightarrow> addr \<Rightarrow> version option" where
  "heap_effect (StCopy a v) h = write_version a (\<lambda>_. v) h"
| "heap_effect (StGen a g) h = write_version a (\<lambda>n. n\<lparr>gen := g\<rparr>) h"
| "heap_effect (StVal a k x) h = write_version a (\<lambda>n. n\<lparr>val := (val n)[k := x]\<rparr>) h"
| "heap_effect w h = h"

fun latest_effect :: "tstore \<Rightarrow> addr \<Rightarrow> addr" where
  "latest_effect (StLatest a) l = a" | "latest_effect w l = l"

fun cur_effect :: "tstore \<Rightarrow> addr \<Rightarrow> addr" where
  "cur_effect (StCur a) c = a" | "cur_effect w c = c"

fun commit_tab :: "tstore rstore \<Rightarrow> rtab \<Rightarrow> rtab" where
  "commit_tab (StOther x) s =
     s\<lparr>theap := heap_effect x (theap s), cur := cur_effect x (cur s), latest := latest_effect x (latest s)\<rparr>"
| "commit_tab w s = s\<lparr>t_rcu := commit_rcu w (t_rcu s)\<rparr>"

text \<open>What a thread with the buffer \<open>b\<close> sees.\<close>

definition seen_tab :: "tbuf \<Rightarrow> rtab \<Rightarrow> rtab" where
  "seen_tab b s = fold commit_tab b s"

text \<open>A step that only loads: the step on what the thread sees, of which the program point (and a crash) is kept.\<close>

definition tab_load :: "tid \<Rightarrow> rtab \<times> tbuf \<Rightarrow> (rtab \<times> tbuf) option" where
  "tab_load t sb = (case sb of (s, b) \<Rightarrow>
     map_option (\<lambda>v. (tgoto t (tpcs v t) (s\<lparr>t_crash := t_crash v\<rparr>), b)) (rt_step (t, TGo) (seen_tab b s)))"

text \<open>An access to the version at \<open>a\<close>, and a plain store.\<close>

definition tab_access :: "tid \<Rightarrow> addr \<Rightarrow> rtab \<times> tbuf \<Rightarrow> (version \<Rightarrow> (rtab \<times> tbuf) option) \<Rightarrow> (rtab \<times> tbuf) option" where
  "tab_access t a sb k = (case sb of (s, b) \<Rightarrow>
     (case theap (seen_tab b s) a of None \<Rightarrow> Some (tcrash t s, b) | Some v \<Rightarrow> k v))"

definition tab_plain :: "tstore \<Rightarrow> rtab \<times> tbuf \<Rightarrow> (rtab \<times> tbuf) option" where
  "tab_plain w sb = put commit_tab RELAXED (StOther w) sb"

definition tso_call :: "orders \<Rightarrow> tid \<Rightarrow> ract \<Rightarrow> tpc \<Rightarrow> rtab \<times> tbuf \<Rightarrow> (rtab \<times> tbuf) option" where
  "tso_call os t a p sb = (case sb of (s, b) \<Rightarrow> (case rcu_tso os (t, a) (t_rcu s, b) of None \<Rightarrow> None
     | Some (r, b') \<Rightarrow> Some (tgoto t p (s\<lparr>t_rcu := r\<rparr>), b')))"

text \<open>A locked instruction or a mutex function: only with an empty buffer.\<close>

definition tab_locked :: "tid \<Rightarrow> rtab \<times> tbuf \<Rightarrow> (rtab \<times> tbuf) option" where
  "tab_locked t sb = (case sb of (s, b) \<Rightarrow> if b = [] then map_option (\<lambda>s'. (s', [])) (rt_step (t, TGo) s) else None)"

section \<open>Steps\<close>

fun tab_go :: "orders \<Rightarrow> tid \<Rightarrow> tpc \<Rightarrow> rtab \<times> tbuf \<Rightarrow> (rtab \<times> tbuf) option" where
  "tab_go os t (LkLock key f) sb = tso_call os t ReadLock (LkDeref key f) sb"
| "tab_go os t (LkUnlock key f x ok) sb = tso_call os t ReadUnlock (LkReads key f x ok) sb"
| "tab_go os t (LkReads key f x ok) (s, b) = tso_call os t RGo TIdle
     (s\<lparr>answers := answers s @ [\<lparr>l_key = key, l_value = x, l_ok = ok, l_from = f, l_to = published s\<rparr>]\<rparr>, b)"
| "tab_go os t (UpLock nv) sb = tab_locked t sb"
| "tab_go os t (UpCopy nv old) (s, b) = tab_access t old (s, b) (\<lambda>v. tab_access t nv (s, b) (\<lambda>_.
     tab_plain (StCopy nv v) (tgoto t (UpGen nv old) s, b)))"
| "tab_go os t (UpGen nv old) (s, b) = tab_access t old (s, b) (\<lambda>v. tab_access t nv (s, b) (\<lambda>_.
     tab_plain (StGen nv (gen v + 1)) (tgoto t (UpFill nv old (gen v + 1) 0) s, b)))"
| "tab_go os t (UpFill nv old g k) (s, b) =
     (if k < TABLE_KEYS then tab_access t nv (s, b) (\<lambda>_.
        tab_plain (StVal nv k (value_of g k)) (tgoto t (UpFill nv old g (Suc k)) s, b))
      else Some (tgoto t (UpPublish nv old) s, b))"
| "tab_go os t (UpPublish nv old) (s, b) = put commit_tab (publish os) (StOther (StCur nv))
     (tgoto t (UpLatest nv old) (s\<lparr>published := Suc (published s)\<rparr>), b)"
| "tab_go os t (UpLatest nv old) (s, b) = tab_plain (StLatest nv) (tgoto t (UpSync old) s, b)"
| "tab_go os t (UpSync old) sb = tso_call os t Synchronize (UpWait old) sb"
| "tab_go os t (UpWait old) (s, b) =
     tso_call os t RGo (if rpcs (t_rcu s) t = SyDone then UpFree old else UpWait old) (s, b)"
| "tab_go os t (UpFree old) (s, b) =
     tab_access t old (s, b) (\<lambda>_. Some (tgoto t UpCount (s\<lparr>theap := (theap s)(old := None)\<rparr>), b))"
| "tab_go os t UpCount sb = tab_locked t sb"
| "tab_go os t UpUnlock sb = tab_locked t sb"
| "tab_go os t p sb = tab_load t sb"

text \<open>A thread acts, or the oldest store in its buffer reaches memory.\<close>

datatype tso_act = Act tact | Commit

fun tab_tso :: "orders \<Rightarrow> tid \<times> tact \<Rightarrow> rtab \<times> tbuf \<Rightarrow> (rtab \<times> tbuf) option" where
  "tab_tso os (t, TRcu a) (s, b) = (if tpcs s t = TIdle then tso_call os t a TIdle (s, b) else None)"
| "tab_tso os (t, TGo) (s, b) = tab_go os t (tpcs s t) (s, b)"
| "tab_tso os (t, a) (s, b) = map_option (\<lambda>s'. (s', b)) (rt_step (t, a) s)"

fun rt_tso_step :: "orders \<Rightarrow> tid \<times> tso_act \<Rightarrow> ttab \<Rightarrow> ttab option" where
  "rt_tso_step os (t, Act a) S = (case tab_tso os (t, a) (mem S, bufs S t) of None \<Rightarrow> None
     | Some (s, b) \<Rightarrow> Some \<lparr>mem = s, bufs = (bufs S)(t := b)\<rparr>)"
| "rt_tso_step os (t, Commit) S = (case bufs S t of [] \<Rightarrow> None
     | w # b \<Rightarrow> Some \<lparr>mem = commit_tab w (mem S), bufs = (bufs S)(t := b)\<rparr>)"

definition rt_tso_start :: "ttab \<Rightarrow> bool" where
  "rt_tso_start S \<longleftrightarrow> rt_start (mem S) \<and> bufs S = (\<lambda>_. [])"

end
