(* ===== verification/RcuTable_Tso_Sim.thy ===== *)
theory RcuTable_Tso_Sim
  imports Rcu_Tso_Sim RcuTable_Tso
begin

text \<open>
  Every execution of the table with store buffers is a sequentially consistent one: the counter stores of readers are
  taken to be made when they reach memory, the stores of an update when they are issued.
\<close>

section \<open>The simulation relation\<close>

fun tbehind :: "tpc \<Rightarrow> tbuf \<Rightarrow> tpc" where
  "tbehind (LkReads key f x ok) (w # b) = LkUnlock key f x ok"
| "tbehind p b = p"

text \<open>The stores of an update that have not reached memory: those of the holder of the update lock.\<close>

definition pending :: "rtab \<Rightarrow> (tid \<Rightarrow> tbuf) \<Rightarrow> tstore list" where
  "pending s B = (case update_lock s of None \<Rightarrow> [] | Some u \<Rightarrow> other_stores (B u))"

fun into :: "addr \<Rightarrow> tstore \<Rightarrow> bool" where
  "into a (StCopy b v) = (a = b)" | "into a (StGen b g) = (a = b)" | "into a (StVal b k x) = (a = b)" | "into a w = False"

fun stores_ok :: "tpc \<Rightarrow> tstore list \<Rightarrow> bool" where
  "stores_ok (UpGen nv old) xs = list_all (into nv) xs"
| "stores_ok (UpFill nv old g k) xs = list_all (into nv) xs"
| "stores_ok (UpPublish nv old) xs = list_all (into nv) xs"
| "stores_ok (UpSync old) xs = (xs = [] \<or> (\<exists>a. xs = [StLatest a]))"
| "stores_ok (UpWait old) xs = (xs = [] \<or> (\<exists>a. xs = [StLatest a]))"
| "stores_ok p xs = (xs = [])"

text \<open>The points of a lookup between \<open>rcu_read_lock\<close> and \<open>rcu_read_unlock\<close>: the announcement is in memory.\<close>

fun in_lookup :: "tpc \<Rightarrow> bool" where
  "in_lookup (LkDeref key f) = True" | "in_lookup (LkVal key f a) = True" | "in_lookup (LkGen key f a x) = True"
| "in_lookup (LkUnlock key f x ok) = True" | "in_lookup p = False"

definition tab_rel :: "rtab \<Rightarrow> (tid \<Rightarrow> tbuf) \<Rightarrow> rtab \<Rightarrow> bool" where
  "tab_rel s B q \<longleftrightarrow> rcu_rel (t_rcu s) B (t_rcu q) \<and> (\<forall>t. tpcs q t = tbehind (tpcs s t) (B t)) \<and> cur q = cur s \<and>
     update_lock q = update_lock s \<and> freed_count q = freed_count s \<and> published q = published s \<and> answers q = answers s \<and>
     t_crash q = t_crash s \<and> theap q = fold heap_effect (pending s B) (theap s) \<and>
     latest q = fold latest_effect (pending s B) (latest s) \<and> (\<forall>t. stores_ok (tpcs s t) (other_stores (B t)) \<and> (in_lookup (tpcs s t) \<longrightarrow> B t = []))"

section \<open>Delayed stores and the heap\<close>

lemma seen_tab_simps:
  "theap (seen_tab b s) = fold heap_effect (other_stores b) (theap s)"
  "cur (seen_tab b s) = fold cur_effect (other_stores b) (cur s)"
  "latest (seen_tab b s) = fold latest_effect (other_stores b) (latest s)"
  "tpcs (seen_tab b s) = tpcs s" "t_crash (seen_tab b s) = t_crash s"
  unfolding seen_tab_def by (induction b arbitrary: s rule: other_stores.induct) auto

lemma heap_effect_None: "heap_effect x h a = None \<longleftrightarrow> h a = None"
  by (cases x) (auto simp: write_version_def split: option.splits)

lemma heap_effect_away: "\<not> into a x \<Longrightarrow> heap_effect x h a = h a"
  by (cases x) (auto simp: write_version_def split: option.splits)

lemma heap_effect_upd: "\<not> into a x \<Longrightarrow> heap_effect x (h(a := v)) = (heap_effect x h)(a := v)"
  by (cases x) (auto simp: write_version_def fun_eq_iff split: option.splits)

lemma fold_None: "fold heap_effect xs h a = None \<longleftrightarrow> h a = None"
  by (induction xs arbitrary: h) (auto simp: heap_effect_None)

lemma fold_away: "list_all (\<lambda>x. \<not> into a x) xs \<Longrightarrow> fold heap_effect xs h a = h a"
  by (induction xs arbitrary: h) (auto simp: heap_effect_away)

lemma fold_upd: "list_all (\<lambda>x. \<not> into a x) xs \<Longrightarrow> fold heap_effect xs (h(a := v)) = (fold heap_effect xs h)(a := v)"
  by (induction xs arbitrary: h) (auto simp: heap_effect_upd)

lemma into_inj: "into a x \<Longrightarrow> into b x \<Longrightarrow> a = b"
  by (cases x) auto

lemma stores_ok_Nil [simp]: "stores_ok p []"
  by (cases p) auto

text \<open>Whoever has stores of an update in the buffer is the holder of the lock, and heap stores go to its new version.\<close>

lemma stores_ok_updating: "stores_ok p xs \<Longrightarrow> xs \<noteq> [] \<Longrightarrow> updating p"
  by (cases p) auto

lemma stores_ok_into: "stores_ok p xs \<Longrightarrow> x \<in> set xs \<Longrightarrow> into a x \<Longrightarrow> fresh p = Some a"
  by (cases p) (auto simp: list_all_iff dest: into_inj)

lemma stores_ok_cur: "stores_ok p xs \<Longrightarrow> x \<in> set xs \<Longrightarrow> cur_effect x c = c"
  by (cases p; cases x) (auto simp: list_all_iff)

lemma stores_ok_tl: "stores_ok p (x # xs) \<Longrightarrow> stores_ok p xs"
  by (cases p) auto

section \<open>The relation\<close>

lemma tab_relD:
  assumes "tab_rel s B q"
  shows "rcu_rel (t_rcu s) B (t_rcu q)" "tpcs q t = tbehind (tpcs s t) (B t)" "cur q = cur s" "update_lock q = update_lock s"
    "freed_count q = freed_count s" "published q = published s" "answers q = answers s" "t_crash q = t_crash s"
    "theap q = fold heap_effect (pending s B) (theap s)" "latest q = fold latest_effect (pending s B) (latest s)"
    "stores_ok (tpcs s t) (other_stores (B t))" "in_lookup (tpcs s t) \<Longrightarrow> B t = []"
  using assms unfolding tab_rel_def by blast+

lemma tbehind_points:
  "updating (tbehind p b) = updating p" "fresh (tbehind p b) = fresh p" "retired (tbehind p b) = retired p"
  "holding (tbehind p b) = holding p"
  by (cases "(p, b)" rule: tbehind.cases; simp)+

lemma tbehind_id: "(\<And>key f x ok. p \<noteq> LkReads key f x ok) \<Longrightarrow> tbehind p b = p"
  by (cases "(p, b)" rule: tbehind.cases) auto

lemma tab_rel_updating: "tab_rel s B q \<Longrightarrow> updating (tpcs q t) = updating (tpcs s t)"
  using tbehind_points tab_relD(2) by simp

lemma holder:
  assumes rel: "tab_rel s B q" and inv: "tab_inv q"
  shows "update_lock s = Some t \<longleftrightarrow> updating (tpcs s t)"
  using inv tab_relD(4) [OF rel] tab_rel_updating [OF rel] by (simp add: tab_inv_def ctrl_ok_def)

lemma own_stores:
  assumes rel: "tab_rel s B q" and inv: "tab_inv q"
  shows "updating (tpcs s t) \<Longrightarrow> pending s B = other_stores (B t)" and "\<not> updating (tpcs s t) \<Longrightarrow> other_stores (B t) = []"
proof -
  show "pending s B = other_stores (B t)" if "updating (tpcs s t)"
    using holder [OF rel inv, of t] that by (simp add: pending_def)
  show "other_stores (B t) = []" if "\<not> updating (tpcs s t)"
    using stores_ok_updating [OF tab_relD(11) [OF rel]] that by blast
qed

text \<open>A delayed heap store goes to a version that nobody else can reach.\<close>

lemma pending_into:
  assumes rel: "tab_rel s B q" and x: "x \<in> set (pending s B)" "into a x"
  shows "\<exists>u. fresh (tpcs q u) = Some a"
proof -
  obtain u where u: "x \<in> set (other_stores (B u))" using x(1) by (auto simp: pending_def split: option.splits)
  have "fresh (tpcs s u) = Some a" by (rule stores_ok_into [OF tab_relD(11) [OF rel] u x(2)])
  then show ?thesis using tab_relD(2) [OF rel, of u] tbehind_points(2) by metis
qed

lemma heap_shared:
  assumes rel: "tab_rel s B q" and "\<And>u. fresh (tpcs q u) \<noteq> Some a"
  shows "theap q a = theap s a" and "list_all (\<lambda>x. \<not> into a x) (pending s B)"
proof -
  show away: "list_all (\<lambda>x. \<not> into a x) (pending s B)" using pending_into [OF rel] assms(2) by (auto simp: list_all_iff)
  then show "theap q a = theap s a" using fold_away tab_relD(9) [OF rel] by metis
qed

lemma held_not_fresh:
  assumes inv: "tab_inv q" and "holding (tpcs q t) = Some a"
  shows "fresh (tpcs q u) \<noteq> Some a"
proof
  assume f: "fresh (tpcs q u) = Some a"
  have mem: "mem_ok q" and "readers_ok q" using inv by (simp_all add: tab_inv_def)
  then have "protected q t a" using assms(2) by (simp add: readers_ok_def)
  moreover have "at_risk p = Some a \<Longrightarrow> retired p = Some a" for p by (cases p) auto
  ultimately show False using mem_okD(3) [OF mem f] by (auto simp: protected_def)
qed

text \<open>What a thread sees: the updater sees the versions as they are in the other execution, a reader what it holds.\<close>

lemma seen_updating:
  assumes "tab_rel s B q" and "tab_inv q" and "updating (tpcs s t)"
  shows "theap (seen_tab (B t) s) = theap q" and "latest (seen_tab (B t) s) = latest q"
  using own_stores(1) [OF assms] tab_relD(9,10) [OF assms(1)] by (simp_all add: seen_tab_simps)

lemma seen_reader:
  assumes "tab_rel s B q" and "tab_inv q" and "\<not> updating (tpcs s t)"
  shows "theap (seen_tab (B t) s) = theap s" and "cur (seen_tab (B t) s) = cur q"
  using own_stores(2) [OF assms] tab_relD(3) [OF assms(1)] by (simp_all add: seen_tab_simps)

text \<open>What has to be compared after a step of \<open>t\<close> that leaves it at \<open>p\<close> with the buffer \<open>b\<close>.\<close>

lemma tab_rel_upd:
  assumes rel: "tab_rel s B q" and rcu: "rcu_rel (t_rcu s') (B(t := b)) (t_rcu q')"
    and pcs: "tpcs s' = (tpcs s)(t := p)" "tpcs q' = (tpcs q)(t := tbehind p b)"
    and same: "cur q' = cur s'" "update_lock q' = update_lock s'" "freed_count q' = freed_count s'"
      "published q' = published s'" "answers q' = answers s'" "t_crash q' = t_crash s'"
    and heap: "theap q' = fold heap_effect (pending s' (B(t := b))) (theap s')"
      "latest q' = fold latest_effect (pending s' (B(t := b))) (latest s')"
    and ok: "stores_ok p (other_stores b)" and lk: "in_lookup p \<Longrightarrow> b = []"
  shows "tab_rel s' (B(t := b)) q'"
  unfolding tab_rel_def using rcu same heap ok lk pcs tab_relD(2,11,12) [OF rel] by simp

text \<open>The buffer's stores of the update are the same after the step, and so is the lock.\<close>

lemma pending_same:
  "update_lock s' = update_lock s \<Longrightarrow> other_stores b = other_stores (B t) \<Longrightarrow> pending s' (B(t := b)) = pending s B"
  by (auto simp: pending_def split: option.splits)

section \<open>Calls of the RCU\<close>

lemma answers_idem [simp]: "s\<lparr>answers := answers s\<rparr> = (s :: rtab)"
  by (cases s) simp

lemma call_sim:
  assumes rel: "tab_rel s B q" and inv: "tab_inv q" and os: "announce os = SEQCST"
    and st: "tso_call os t a p (s\<lparr>answers := xs\<rparr>, B t) = Some (s', b')" and ok: "stores_ok p (other_stores (B t))"
    and stay: "\<And>i. a = ReadUnlock \<or> a = RGo \<and> (rpcs (t_rcu s) t = RegSeq i \<or> rpcs (t_rcu s) t = RegReads i) \<Longrightarrow>
      b' \<noteq> [] \<Longrightarrow> tbehind p b' = tpcs q t \<and> xs = answers s"
    and go: "a \<noteq> ReadUnlock \<Longrightarrow> tbehind p b' = p" and lk: "in_lookup p \<Longrightarrow> b' = []"
  shows "\<exists>q'. tab_rel s' (B(t := b')) q' \<and> (q' = q \<or> rcu_call t a p (q\<lparr>answers := xs\<rparr>) = Some q')"
proof -
  have rinv: "rcu_inv (t_rcu q)" using inv by (simp add: tab_inv_def ctrl_ok_def)
  obtain u where u: "rcu_tso os (t, a) (t_rcu s, B t) = Some (u, b')" and s': "s' = tgoto t p (s\<lparr>answers := xs, t_rcu := u\<rparr>)"
    using st by (auto simp: tso_call_def split: option.splits)
  obtain r where r: "rcu_rel u (B(t := b')) r" "in_step t a (t_rcu s) b' (t_rcu q) r" and o: "other_stores b' = other_stores (B t)"
    using rcu_tso_sim [OF tab_relD(1) [OF rel] rinv os u] by blast
  have pend: "pending s' (B(t := b')) = pending s B" by (rule pending_same) (simp_all add: s' o)
  note fields = tab_relD(3-10) [OF rel]
  consider "rcu_step (t, a) (t_rcu q) = Some r" "tbehind p b' = p" | "r = t_rcu q" "tbehind p b' = tpcs q t" "xs = answers s"
    using r(2) go stay by (cases "a = ReadUnlock") (auto simp: in_step_def)
  then show ?thesis
  proof cases
    case 1
    let ?q = "tgoto t p (q\<lparr>answers := xs, t_rcu := r\<rparr>)"
    have "tab_rel s' (B(t := b')) ?q"
      by (rule tab_rel_upd [OF rel, of _ _ _ _ p]) (use r(1) 1 fields pend o ok lk in \<open>simp_all add: s'\<close>)
    moreover have "rcu_call t a p (q\<lparr>answers := xs\<rparr>) = Some ?q" using 1(1) by (simp add: rcu_call_def)
    ultimately show ?thesis by blast
  next
    case 2
    have "tab_rel s' (B(t := b')) q"
      by (rule tab_rel_upd [OF rel, of _ _ _ _ p]) (use r(1) 2 fields pend o ok lk in \<open>simp_all add: s'\<close>)
    then show ?thesis by blast
  qed
qed

text \<open>Where a thread is inside the RCU, at the calls that must not be delayed.\<close>

lemma rcu_point:
  assumes "tab_rel s B q" and "tab_inv q"
  shows "rcu_at (tbehind (tpcs s t) (B t)) (behind (rpcs (t_rcu s) t) (B t))"
  using assms(2) tab_relD(2) [OF assms(1), of t] rcu_relD(5) [OF tab_relD(1) [OF assms(1)], of t]
  by (auto simp: tab_inv_def ctrl_ok_def dest: spec [of _ t])

lemma behind_no_register:
  "behind p b = Inside \<or> behind p b = Leave \<or> in_sync (behind p b) \<Longrightarrow> p \<noteq> RegSeq i \<and> p \<noteq> RegReads i"
  by (cases "(p, b)" rule: behind.cases) auto

lemma behind_sync: "in_sync (behind p b) \<Longrightarrow> behind p b = p"
  by (cases "(p, b)" rule: behind.cases) auto

lemma rt_go: "tpcs q t = p \<Longrightarrow> lookup_go t p q = Some q' \<Longrightarrow> rt_step (t, TGo) q = Some q'"
  "tpcs q t = p \<Longrightarrow> lookup_go t p q = None \<Longrightarrow> update_go t p q = Some q' \<Longrightarrow> rt_step (t, TGo) q = Some q'"
  by simp_all

lemma lookup_call_sim:
  assumes rel: "tab_rel s B q" and inv: "tab_inv q" and os: "announce os = SEQCST"
    and pc: "tpcs s t = LkLock key f \<or> tpcs s t = LkUnlock key f x ok \<or> tpcs s t = LkReads key f x ok"
    and st: "tab_go os t (tpcs s t) (s, B t) = Some (s', b')"
  shows "\<exists>q'. tab_rel s' (B(t := b')) q' \<and> (q' = q \<or> rt_step (t, TGo) q = Some q')"
proof -
  have o: "other_stores (B t) = []" by (rule own_stores(2) [OF rel inv]) (use pc in auto)
  note at = rcu_point [OF rel inv, of t] and tq = tab_relD(2) [OF rel, of t]
  show ?thesis
    using pc
  proof (elim disjE)
    assume p: "tpcs s t = LkLock key f"
    then have "tso_call os t ReadLock (LkDeref key f) (s\<lparr>answers := answers s\<rparr>, B t) = Some (s', b')" using st by simp
    moreover from this have "b' = []" using os
      by (auto simp: tso_call_def tso_read_lock_def put_def Let_def split: option.splits rpc.splits if_splits)
    ultimately show ?thesis using call_sim [OF rel inv os, of t ReadLock "LkDeref key f" "answers s" s' b']
        o p tq tab_relD(7) [OF rel, symmetric] by (auto intro: rt_go)
  next
    assume p: "tpcs s t = LkUnlock key f x ok"
    then have "tso_call os t ReadUnlock (LkReads key f x ok) (s\<lparr>answers := answers s\<rparr>, B t) = Some (s', b')" using st by simp
    moreover have "b' \<noteq> [] \<Longrightarrow> tbehind (LkReads key f x ok) b' = LkUnlock key f x ok" by (cases b') auto
    ultimately show ?thesis using call_sim [OF rel inv os, of t ReadUnlock "LkReads key f x ok" "answers s" s' b']
        o p tq tab_relD(7) [OF rel, symmetric] by (auto intro: rt_go)
  next
    assume p: "tpcs s t = LkReads key f x ok"
    define xs where "xs = answers s @ [\<lparr>l_key = key, l_value = x, l_ok = ok, l_from = f, l_to = published s\<rparr>]"
    have c: "tso_call os t RGo TIdle (s\<lparr>answers := xs\<rparr>, B t) = Some (s', b')" using st p by (simp add: xs_def)
    have "behind (rpcs (t_rcu s) t) (B t) = Inside \<or> behind (rpcs (t_rcu s) t) (B t) = Leave"
      using at p by (cases "B t") auto
    then have no: "rpcs (t_rcu s) t \<noteq> RegSeq i \<and> rpcs (t_rcu s) t \<noteq> RegReads i" for i using behind_no_register by blast
    have bok: "buf_ok (t_rcu s) (rpcs (t_rcu s) t) (handle (t_rcu s) t) (B t)" by (rule rcu_relD(9) [OF tab_relD(1) [OF rel]])
    have "B t = []"
    proof (rule ccontr)
      assume ne: "B t \<noteq> []"
      then have "behind (rpcs (t_rcu s) t) (B t) = Inside" using at p by (cases "B t") auto
      then have "rpcs (t_rcu s) t = Leave" using ne bok by (cases "(rpcs (t_rcu s) t, B t)" rule: behind.cases) auto
      then show False using c ne by (simp add: tso_call_def)
    qed
    then have "tpcs q t = LkReads key f x ok" using tq p by simp
    with call_sim [OF rel inv os c] o no tab_relD(6,7) [OF rel, symmetric] show ?thesis by (auto simp: xs_def intro: rt_go)
  qed
qed

section \<open>Steps that only move a thread, and loads\<close>

lemma move_sim:
  assumes rel: "tab_rel s B q" and ok: "stores_ok p (other_stores (B t))" and p: "tbehind p (B t) = p"
    and lk: "in_lookup p \<Longrightarrow> B t = []"
  shows "tab_rel (tgoto t p s) B (tgoto t p q)"
proof -
  have "pending (tgoto t p s) (B(t := B t)) = pending s B" by (rule pending_same) simp_all
  then have "tab_rel (tgoto t p s) (B(t := B t)) (tgoto t p q)"
    by (intro tab_rel_upd [OF rel, of _ _ _ _ p]) (use tab_relD(1,3-10) [OF rel] ok p lk in simp_all)
  then show ?thesis by simp
qed

lemma crash_idem [simp]: "s\<lparr>t_crash := t_crash s\<rparr> = (s :: rtab)"
  by (cases s) simp

lemma tab_load_pc:
  assumes "rt_step (t, TGo) (seen_tab b s) = Some (tgoto t p (seen_tab b s))"
  shows "tab_load t (s, b) = Some (tgoto t p s, b)"
  using assms by (simp add: tab_load_def seen_tab_simps)

lemma reader_load_sim:
  assumes rel: "tab_rel s B q" and inv: "tab_inv q"
    and pc: "tpcs s t = LkDeref key f \<or> tpcs s t = LkVal key f a \<or> tpcs s t = LkGen key f a x"
    and st: "tab_load t (s, B t) = Some (s', b')"
  shows "\<exists>q'. tab_rel s' (B(t := b')) q' \<and> rt_step (t, TGo) q = Some q'"
proof -
  have nu: "\<not> updating (tpcs s t)" using pc by auto
  note see = seen_reader [OF rel inv nu] and o = own_stores(2) [OF rel inv nu]
  have tq: "tpcs q t = tpcs s t" using tab_relD(2) [OF rel, of t] pc tbehind_id [of "tpcs s t" "B t"] by auto
  have held: "\<exists>v. theap q a = Some v \<and> theap (seen_tab (B t) s) a = Some v" if h: "holding (tpcs s t) = Some a"
  proof -
    have "lk_ok q (tpcs q t)" using inv by (simp add: tab_inv_def readers_ok_def)
    then obtain v where "theap q a = Some v" using h tq by (cases "tpcs s t") auto
    moreover have "theap q a = theap s a"
      using heap_shared(1) [OF rel] held_not_fresh [OF inv, of t a] h tq by auto
    ultimately show ?thesis using see by simp
  qed
  obtain p where p: "rt_step (t, TGo) (seen_tab (B t) s) = Some (tgoto t p (seen_tab (B t) s))"
      "rt_step (t, TGo) q = Some (tgoto t p q)" "tbehind p (B t) = p" "stores_ok p []"
    using pc held tq see by (auto simp: seen_tab_simps with_version_def)
  have "s' = tgoto t p s" "b' = B t" using tab_load_pc [OF p(1)] st by simp_all
  then show ?thesis using move_sim [OF rel, of p t] p o tab_relD(12) [OF rel, of t] pc by (auto simp: fun_upd_idem)
qed

section \<open>An update\<close>

lemma append_other:
  assumes rel: "rcu_rel s B r" and pc: "rpcs s t = Out"
  shows "rcu_rel s (B(t := B t @ [StOther x])) r"
proof -
  have o: "others (B t)" using rcu_relD(9) [OF rel, of t] pc by simp
  have l: "leaving s (B(t := B t @ [StOther x])) i = leaving s B i" for i
    by (rule leaving_idle [of s t B "rpcs s t"]) (use pc in auto)
  show ?thesis
    by (rule rel_upd [OF rel, of s "rpcs s t" "handle s t"])
      (use l o pc rcu_relD(1-8,10,11) [OF rel] behind_others [of "B t @ [StOther x]" Out] in \<open>auto simp: fun_upd_idem behind_others\<close>)
qed

lemma behind_Out: "behind p b = Out \<Longrightarrow> p = Out"
  by (cases "(p, b)" rule: behind.cases) auto

lemma update_point:
  assumes "tab_rel s B q" and "tab_inv q" and "\<And>p'. rcu_at (tpcs s t) p' = (p' = Out)"
  shows "rpcs (t_rcu s) t = Out"
  using rcu_point [OF assms(1,2), of t] assms(3) behind_Out tbehind_id [of "tpcs s t" "B t"] by (cases "tpcs s t") auto

text \<open>A store to the new version: delayed here, made at once there.\<close>

lemma version_store_sim:
  assumes rel: "tab_rel s B q" and inv: "tab_inv q" and up: "updating (tpcs s t)" and pc: "rpcs (t_rcu s) t = Out"
    and x: "into nv x" and nl: "\<not> in_lookup p" and ok: "stores_ok p (other_stores (B t) @ [x])" and p: "tbehind p b' = p"
    and st: "tab_plain x (tgoto t p s, B t) = Some (s', b')"
  shows "tab_rel s' (B(t := b')) (tgoto t p (q\<lparr>theap := heap_effect x (theap q)\<rparr>))"
proof -
  have s': "s' = tgoto t p s" "b' = B t @ [StOther x]" using st by (auto simp: tab_plain_def put_def)
  have lk: "update_lock s = Some t" using holder [OF rel inv] up by blast
  have o: "other_stores (B t) = pending s B" using own_stores(1) [OF rel inv up] by simp
  then have pend: "pending s' (B(t := b')) = pending s B @ [x]" using lk by (simp add: s' pending_def)
  have l: "latest_effect x l = l" for l using x by (cases x) auto
  have "rcu_rel (t_rcu s) (B(t := b')) (t_rcu q)"
    unfolding s'(2) by (rule append_other [OF tab_relD(1) [OF rel] pc])
  then show ?thesis
    by (intro tab_rel_upd [OF rel, of _ _ _ _ p]) (use tab_relD(3-10) [OF rel] ok p nl pend l s' o in simp_all)
qed

lemma fill_version_sim:
  assumes rel: "tab_rel s B q" and inv: "tab_inv q"
    and pc: "tpcs s t = UpCopy nv old \<or> tpcs s t = UpGen nv old \<or> tpcs s t = UpFill nv old g k"
    and st: "tab_go os t (tpcs s t) (s, B t) = Some (s', b')"
  shows "\<exists>q'. tab_rel s' (B(t := b')) q' \<and> rt_step (t, TGo) q = Some q'"
proof -
  have up: "updating (tpcs s t)" and out: "rpcs (t_rcu s) t = Out" using pc by (auto intro: update_point [OF rel inv])
  have tq: "tpcs q t = tpcs s t" using tab_relD(2) [OF rel, of t] pc tbehind_id [of "tpcs s t" "B t"] by auto
  note see = seen_updating(1) [OF rel inv up] and ok = tab_relD(11) [OF rel, of t]
  have mem: "mem_ok q" using inv by (simp add: tab_inv_def)
  obtain v n where old: "tpcs s t = UpCopy nv old \<or> tpcs s t = UpGen nv old \<Longrightarrow> theap q old = Some v" and nv: "theap q nv = Some n"
    using mem_okD(1) [OF mem] mem_okD(2) [OF mem, of t] mem_okD(3) [OF mem, of t nv] pc tq by auto
  have w: "write_version nv f (theap q) = (theap q)(nv \<mapsto> f n)" for f using nv by (simp add: write_version_def)
  note vs = version_store_sim [OF rel inv up out, of nv _ _ b' s']
  show ?thesis
    using pc
  proof (elim disjE)
    assume p: "tpcs s t = UpCopy nv old"
    then have "tab_plain (StCopy nv v) (tgoto t (UpGen nv old) s, B t) = Some (s', b')"
      using st old nv see by (simp add: tab_access_def)
    then show ?thesis using vs [of "StCopy nv v" "UpGen nv old"] p tq old nv w ok by (auto simp: with_version_def)
  next
    assume p: "tpcs s t = UpGen nv old"
    then have "tab_plain (StGen nv (gen v + 1)) (tgoto t (UpFill nv old (gen v + 1) 0) s, B t) = Some (s', b')"
      using st old nv see by (simp add: tab_access_def)
    then show ?thesis using vs [of "StGen nv (gen v + 1)" "UpFill nv old (gen v + 1) 0"] p tq old nv w ok by (auto simp: with_version_def)
  next
    assume p: "tpcs s t = UpFill nv old g k"
    show ?thesis
    proof (cases "k < TABLE_KEYS")
      case True
      then have "tab_plain (StVal nv k (value_of g k)) (tgoto t (UpFill nv old g (Suc k)) s, B t) = Some (s', b')"
        using st p nv see by (simp add: tab_access_def)
      then show ?thesis using vs [of "StVal nv k (value_of g k)" "UpFill nv old g (Suc k)"] p tq nv w ok True
        by (auto simp: with_version_def fill_val_def)
    next
      case False
      then have "s' = tgoto t (UpPublish nv old) s" "b' = B t" using st p by simp_all
      then show ?thesis using move_sim [OF rel, of "UpPublish nv old" t] p tq ok False by (auto simp: fun_upd_idem)
    qed
  qed
qed

lemma publish_sim:
  assumes rel: "tab_rel s B q" and inv: "tab_inv q" and os: "publish os = SEQCST"
    and pc: "tpcs s t = UpPublish nv old \<or> tpcs s t = UpLatest nv old"
    and st: "tab_go os t (tpcs s t) (s, B t) = Some (s', b')"
  shows "\<exists>q'. tab_rel s' (B(t := b')) q' \<and> rt_step (t, TGo) q = Some q'"
proof -
  have up: "updating (tpcs s t)" and out: "rpcs (t_rcu s) t = Out" using pc by (auto intro: update_point [OF rel inv])
  have tq: "tpcs q t = tpcs s t" using tab_relD(2) [OF rel, of t] pc tbehind_id [of "tpcs s t" "B t"] by auto
  have lk: "update_lock s = Some t" using holder [OF rel inv] up by blast
  note ok = tab_relD(11) [OF rel, of t] and own = own_stores(1) [OF rel inv up]
  show ?thesis
    using pc
  proof (elim disjE)
    assume p: "tpcs s t = UpPublish nv old"
    then have e: "B t = []" "b' = []" and s': "s' = commit_tab (StOther (StCur nv)) (tgoto t (UpLatest nv old) (s\<lparr>published := Suc (published s)\<rparr>))"
      using st os by (auto simp: put_def split: if_splits)
    let ?q = "tgoto t (UpLatest nv old) (q\<lparr>cur := nv, published := Suc (published q)\<rparr>)"
    have "pending s' (B(t := [])) = pending s B" by (rule pending_same) (simp_all add: s' e)
    then have "tab_rel s' (B(t := b')) ?q" unfolding e(2)
      by (intro tab_rel_upd [OF rel, of _ _ _ _ "UpLatest nv old"])
        (use tab_relD(1,3-10) [OF rel] e in \<open>auto simp: s' fun_upd_idem\<close>)
    then show ?thesis using p tq by auto
  next
    assume p: "tpcs s t = UpLatest nv old"
    then have s': "s' = tgoto t (UpSync old) s" "b' = B t @ [StOther (StLatest nv)]"
      using st by (auto simp: tab_plain_def put_def)
    have o: "other_stores (B t) = []" using ok p by simp
    have pend: "pending s' (B(t := b')) = [StLatest nv]" "pending s B = []" using lk o own by (simp_all add: s' pending_def)
    have "rcu_rel (t_rcu s) (B(t := b')) (t_rcu q)"
      unfolding s'(2) by (rule append_other [OF tab_relD(1) [OF rel] out])
    then have "tab_rel s' (B(t := b')) (tgoto t (UpSync old) (q\<lparr>latest := nv\<rparr>))"
      by (intro tab_rel_upd [OF rel, of _ _ _ _ "UpSync old"]) (use tab_relD(3-10) [OF rel] pend s' o in simp_all)
    then show ?thesis using p tq by auto
  qed
qed

lemma grace_sim:
  assumes rel: "tab_rel s B q" and inv: "tab_inv q" and os: "announce os = SEQCST"
    and pc: "tpcs s t = UpSync old \<or> tpcs s t = UpWait old"
    and st: "tab_go os t (tpcs s t) (s, B t) = Some (s', b')"
  shows "\<exists>q'. tab_rel s' (B(t := b')) q' \<and> (q' = q \<or> rt_step (t, TGo) q = Some q')"
proof -
  have tq: "tpcs q t = tpcs s t" using tab_relD(2) [OF rel, of t] pc tbehind_id [of "tpcs s t" "B t"] by auto
  note ok = tab_relD(11) [OF rel, of t] and same = tab_relD(7) [OF rel, symmetric]
  show ?thesis
    using pc
  proof (elim disjE)
    assume p: "tpcs s t = UpSync old"
    then have "tso_call os t Synchronize (UpWait old) (s\<lparr>answers := answers s\<rparr>, B t) = Some (s', b')" using st by simp
    from call_sim [OF rel inv os this] ok p tq same show ?thesis by (auto intro: rt_go)
  next
    assume p: "tpcs s t = UpWait old"
    have sy: "in_sync (behind (rpcs (t_rcu s) t) (B t))" using rcu_point [OF rel inv, of t] p by simp
    then have same_pc: "rpcs (t_rcu q) t = rpcs (t_rcu s) t"
      using behind_sync rcu_relD(5) [OF tab_relD(1) [OF rel], of t] by metis
    have no: "rpcs (t_rcu s) t \<noteq> RegSeq i \<and> rpcs (t_rcu s) t \<noteq> RegReads i" for i using behind_no_register sy by blast
    let ?p = "if rpcs (t_rcu s) t = SyDone then UpFree old else UpWait old"
    have c: "tso_call os t RGo ?p (s\<lparr>answers := answers s\<rparr>, B t) = Some (s', b')" using st p by simp
    have "rpcs (t_rcu s) t = SyDone \<Longrightarrow> B t = []"
      using rcu_relD(9) [OF tab_relD(1) [OF rel], of t] by simp
    then have "stores_ok ?p (other_stores (B t))" using ok p by auto
    from call_sim [OF rel inv os c this] no p tq same same_pc show ?thesis by (auto intro: rt_go split: if_splits)
  qed
qed

lemma locked_sim:
  assumes rel: "tab_rel s B q" and inv: "tab_inv q"
    and pc: "tpcs s t = UpLock nv \<or> tpcs s t = UpCount \<or> tpcs s t = UpUnlock"
    and st: "tab_locked t (s, B t) = Some (s', b')"
  shows "\<exists>q'. tab_rel s' (B(t := b')) q' \<and> rt_step (t, TGo) q = Some q'"
proof -
  have e: "B t = []" "b' = []" and d: "rt_step (t, TGo) s = Some s'" using st by (auto simp: tab_locked_def split: if_splits)
  have tq: "tpcs q t = tpcs s t" using tab_relD(2) [OF rel, of t] e by (simp add: tbehind_id)
  have lk: "updating (tpcs s t) \<Longrightarrow> update_lock s = Some t" using holder [OF rel inv] by blast
  define p where "p = (case tpcs s t of UpLock nv \<Rightarrow> UpOld nv | UpCount \<Rightarrow> UpUnlock | _ \<Rightarrow> TIdle)"
  define l where "l = (case tpcs s t of UpLock nv \<Rightarrow> Some t | UpCount \<Rightarrow> update_lock s | _ \<Rightarrow> None)"
  define c where "c = (case tpcs s t of UpCount \<Rightarrow> freed_count s + 1 | _ \<Rightarrow> freed_count s)"
  have s': "s' = tgoto t p (s\<lparr>update_lock := l, freed_count := c\<rparr>)" and free: "tpcs s t = UpLock nv \<Longrightarrow> update_lock s = None"
    using pc d by (auto simp: p_def l_def c_def tgoto_def split: if_splits)
  have q': "rt_step (t, TGo) q = Some (tgoto t p (q\<lparr>update_lock := l, freed_count := c\<rparr>))"
    using pc free tq tab_relD(4,5) [OF rel] by (auto simp: p_def l_def c_def tgoto_def)
  have "pending s B = []" "pending s' (B(t := [])) = []"
    using pc lk free e by (auto simp: pending_def s' l_def)
  then have "tab_rel s' (B(t := b')) (tgoto t p (q\<lparr>update_lock := l, freed_count := c\<rparr>))" unfolding e(2)
    by (intro tab_rel_upd [OF rel, of _ _ _ _ p]) (use tab_relD(1,3-10) [OF rel] e pc in \<open>auto simp: s' fun_upd_idem p_def\<close>)
  then show ?thesis using q' by blast
qed

lemma free_sim:
  assumes rel: "tab_rel s B q" and inv: "tab_inv q" and pc: "tpcs s t = UpFree old"
    and st: "tab_go os t (tpcs s t) (s, B t) = Some (s', b')"
  shows "\<exists>q'. tab_rel s' (B(t := b')) q' \<and> rt_step (t, TGo) q = Some q'"
proof -
  have up: "updating (tpcs s t)" using pc by simp
  have tq: "tpcs q t = UpFree old" using tab_relD(2) [OF rel, of t] pc by (simp add: tbehind_id)
  have o: "other_stores (B t) = []" using tab_relD(11) [OF rel, of t] pc by simp
  then have pn: "pending s B = []" using own_stores(1) [OF rel inv up] by simp
  have "mem_ok q" using inv by (simp add: tab_inv_def)
  then obtain v where v: "theap q old = Some v" using mem_okD(4) [of q t old] tq by auto
  then have s': "s' = tgoto t UpCount (s\<lparr>theap := (theap s)(old := None)\<rparr>)" "b' = B t"
    using st pc seen_updating(1) [OF rel inv up] by (auto simp: tab_access_def)
  have "pending s' (B(t := b')) = pending s B" by (rule pending_same) (simp_all add: s')
  then have "tab_rel s' (B(t := b')) (tgoto t UpCount (q\<lparr>theap := (theap q)(old := None)\<rparr>))"
    by (intro tab_rel_upd [OF rel, of _ _ _ _ UpCount]) (use tab_relD(1,3-10) [OF rel] pn o in \<open>auto simp: s' fun_upd_idem\<close>)
  then show ?thesis using tq v by (auto simp: with_version_def)
qed

section \<open>Every step\<close>

lemma tab_go_sim:
  assumes rel: "tab_rel s B q" and inv: "tab_inv q" and os: "announce os = SEQCST" "publish os = SEQCST"
    and st: "tab_go os t (tpcs s t) (s, B t) = Some (s', b')"
  shows "\<exists>q'. tab_rel s' (B(t := b')) q' \<and> (q' = q \<or> rt_step (t, TGo) q = Some q')"
proof (cases "tpcs s t")
  case (LkLock key f)
  then show ?thesis using lookup_call_sim [OF rel inv os(1) _ st] by blast
next
  case (LkDeref key f)
  then show ?thesis using reader_load_sim [OF rel inv, of t key f] st by fastforce
next
  case (LkVal key f a)
  then show ?thesis using reader_load_sim [OF rel inv, of t key f a] st by fastforce
next
  case (LkGen key f a x)
  then show ?thesis using reader_load_sim [OF rel inv, of t key f a x] st by fastforce
next
  case (LkUnlock key f x ok)
  then show ?thesis using lookup_call_sim [OF rel inv os(1) _ st] by blast
next
  case (LkReads key f x ok)
  then show ?thesis using lookup_call_sim [OF rel inv os(1) _ st] by blast
next
  case (UpLock nv)
  then show ?thesis using locked_sim [OF rel inv, of t nv] st by fastforce
next
  case (UpOld nv)
  have up: "updating (tpcs s t)" using UpOld by simp
  have tq: "tpcs q t = UpOld nv" using tab_relD(2) [OF rel, of t] UpOld by (simp add: tbehind_id)
  have "tab_load t (s, B t) = Some (tgoto t (UpCopy nv (latest q)) s, B t)"
    by (rule tab_load_pc) (use UpOld seen_updating(2) [OF rel inv up] in \<open>simp add: seen_tab_simps(4)\<close>)
  then have s': "s' = tgoto t (UpCopy nv (latest q)) s" "b' = B t" using st UpOld by simp_all
  show ?thesis using move_sim [OF rel, of "UpCopy nv (latest q)" t] tab_relD(11) [OF rel, of t] UpOld tq s'
    by (auto simp: fun_upd_idem)
next
  case (UpCopy nv old)
  then show ?thesis using fill_version_sim [OF rel inv _ st] by blast
next
  case (UpGen nv old)
  then show ?thesis using fill_version_sim [OF rel inv _ st] by blast
next
  case (UpFill nv old g k)
  then show ?thesis using fill_version_sim [OF rel inv _ st] by blast
next
  case (UpPublish nv old)
  then show ?thesis using publish_sim [OF rel inv os(2) _ st] by blast
next
  case (UpLatest nv old)
  then show ?thesis using publish_sim [OF rel inv os(2) _ st] by blast
next
  case (UpSync old)
  then show ?thesis using grace_sim [OF rel inv os(1) _ st] by blast
next
  case (UpWait old)
  then show ?thesis using grace_sim [OF rel inv os(1) _ st] by blast
next
  case (UpFree old)
  then show ?thesis using free_sim [OF rel inv _ st] by blast
next
  case UpCount
  then show ?thesis using locked_sim [OF rel inv, of t] st by fastforce
next
  case UpUnlock
  then show ?thesis using locked_sim [OF rel inv, of t] st by fastforce
qed (use st in \<open>auto simp: tab_load_def seen_tab_simps\<close>)

lemma tab_tso_sim:
  assumes rel: "tab_rel s B q" and inv: "tab_inv q" and os: "announce os = SEQCST" "publish os = SEQCST"
    and st: "tab_tso os (t, a) (s, B t) = Some (s', b')"
  shows "\<exists>q'. tab_rel s' (B(t := b')) q' \<and> (q' = q \<or> rt_step (t, a) q = Some q')"
proof (cases a)
  case (TRcu c)
  then have p: "tpcs s t = TIdle" and call: "tso_call os t c TIdle (s\<lparr>answers := answers s\<rparr>, B t) = Some (s', b')"
    using st by (auto split: if_splits)
  have tq: "tpcs q t = TIdle" using tab_relD(2) [OF rel, of t] p by (simp add: tbehind_id)
  show ?thesis using call_sim [OF rel inv os(1) call] tab_relD(11) [OF rel, of t] tab_relD(7) [OF rel, symmetric] p tq TRcu by auto
next
  case (TLookup key)
  let ?p = "LkLock key (published s)"
  have c: "tpcs s t = TIdle" "rpcs (t_rcu s) t = Out" "handle (t_rcu s) t \<noteq> None" "key < TABLE_KEYS" "s' = tgoto t ?p s" "b' = B t"
    using st TLookup by (auto split: if_splits)
  have "rpcs (t_rcu q) t = Out" using rcu_relD(5) [OF tab_relD(1) [OF rel], of t] rcu_relD(9) [OF tab_relD(1) [OF rel], of t] c(2) behind_others by simp
  then have "rt_step (t, a) q = Some (tgoto t ?p q)"
    using c TLookup tab_relD(2) [OF rel, of t] tab_relD(6) [OF rel] rcu_relD(3) [OF tab_relD(1) [OF rel]] by (simp add: tbehind_id)
  then show ?thesis using move_sim [OF rel, of ?p t] c tab_relD(11) [OF rel, of t] by (auto simp: fun_upd_idem)
next
  case TUpdate
  have c: "tpcs s t = TIdle" "rpcs (t_rcu s) t = Out" "s' = tgoto t UpMalloc s" "b' = B t"
    using st TUpdate by (auto split: if_splits)
  have "rpcs (t_rcu q) t = Out" using rcu_relD(5) [OF tab_relD(1) [OF rel], of t] rcu_relD(9) [OF tab_relD(1) [OF rel], of t] c(2) behind_others by simp
  then have "rt_step (t, a) q = Some (tgoto t UpMalloc q)" using c TUpdate tab_relD(2) [OF rel, of t] by (simp add: tbehind_id)
  then show ?thesis using move_sim [OF rel, of UpMalloc t] c tab_relD(11) [OF rel, of t] by (auto simp: fun_upd_idem)
next
  case (TMalloc m)
  have p: "tpcs s t = UpMalloc" and b: "b' = B t" using st TMalloc by (auto split: if_splits)
  have tq: "tpcs q t = UpMalloc" using tab_relD(2) [OF rel, of t] p by (simp add: tbehind_id)
  have o: "other_stores (B t) = []" using tab_relD(11) [OF rel, of t] p by simp
  show ?thesis
  proof (cases m)
    case None
    then have "s' = tgoto t TIdle s" using st TMalloc p by simp
    then show ?thesis using move_sim [OF rel, of TIdle t] None TMalloc b tq o by (auto simp: fun_upd_idem)
  next
    case (Some c)
    obtain x junk where m: "m = Some (x, junk)" using Some by (cases c) auto
    have h: "theap s x = None" "length (val junk) = TABLE_KEYS" "s' = tgoto t (UpLock x) (s\<lparr>theap := (theap s)(x \<mapsto> junk)\<rparr>)"
      using st TMalloc p m by (auto split: if_splits)
    then have hq: "theap q x = None" using tab_relD(9) [OF rel] by (simp add: fold_None)
    have "mem_ok q" using inv by (simp add: tab_inv_def)
    then have "fresh (tpcs q u) \<noteq> Some x" for u using mem_okD(3) [of q u x] hq by auto
    then have away: "list_all (\<lambda>w. \<not> into x w) (pending s B)" using heap_shared(2) [OF rel] by blast
    have "pending s' (B(t := b')) = pending s B" by (rule pending_same) (simp_all add: h b)
    then have "tab_rel s' (B(t := b')) (tgoto t (UpLock x) (q\<lparr>theap := (theap q)(x \<mapsto> junk)\<rparr>))"
      by (intro tab_rel_upd [OF rel, of _ _ _ _ "UpLock x"])
        (use tab_relD(1,3-10) [OF rel] o b fold_upd [OF away] in \<open>simp_all add: h fun_upd_idem\<close>)
    then show ?thesis using TMalloc m tq hq h(2) by auto
  qed
next
  case TGo
  then show ?thesis using tab_go_sim [OF rel inv os, of t s' b'] st by simp
qed

text \<open>A store reaches memory.\<close>

lemma tab_commit_sim:
  assumes rel: "tab_rel s B q" and inv: "tab_inv q" and b: "B t = w # b"
  shows "\<exists>q'. tab_rel (commit_tab w s) (B(t := b)) q' \<and> (q' = q \<or> (\<exists>a. rt_step (t, a) q = Some q'))"
proof (cases "is_other w")
  case True
  then obtain x where w: "w = StOther x" by (cases w) auto
  have ok: "stores_ok (tpcs s t) (x # other_stores b)" using tab_relD(11) [OF rel, of t] b w by simp
  then have up: "updating (tpcs s t)" using stores_ok_updating by blast
  have lk: "update_lock s = Some t" using holder [OF rel inv] up by blast
  have tb: "tbehind (tpcs s t) c = tpcs s t" for c using up by (cases "tpcs s t") auto
  have pend: "pending s B = x # other_stores b" using own_stores(1) [OF rel inv up] b w by simp
  have c: "cur_effect x (cur s) = cur s" by (rule stores_ok_cur [OF ok]) simp
  have pend': "pending (commit_tab w s) (B(t := b)) = other_stores b" using lk by (simp add: w pending_def)
  have "tab_rel (commit_tab w s) (B(t := b)) q"
  proof (rule tab_rel_upd [OF rel, of _ _ _ _ "tpcs s t"])
    show "rcu_rel (t_rcu (commit_tab w s)) (B(t := b)) (t_rcu q)"
      using commit_other [OF tab_relD(1) [OF rel], of t x b] b w by simp
    show "tpcs q = (tpcs q)(t := tbehind (tpcs s t) b)"
      using tab_relD(2) [OF rel, of t] tb by (simp add: fun_upd_idem)
  qed (use tab_relD(3-10) [OF rel] tab_relD(12) [OF rel, of t] pend pend' c b stores_ok_tl [OF ok] in \<open>simp_all add: w\<close>)
  then show ?thesis by blast
next
  case False
  note rrel = tab_relD(1) [OF rel]
  have rinv: "rcu_inv (t_rcu q)" using inv by (simp add: tab_inv_def ctrl_ok_def)
  obtain r where r: "rcu_rel (commit_rcu w (t_rcu s)) (B(t := b)) r" "rcu_step (t, commit_act (rpcs (t_rcu s) t)) (t_rcu q) = Some r"
      "other_stores b = other_stores (B t)" "rpcs (t_rcu s) t = Leave \<Longrightarrow> b = []"
    using commit_sim [OF rrel rinv b False] by blast
  have s': "commit_tab w s = s\<lparr>t_rcu := commit_rcu w (t_rcu s)\<rparr>" using False by (cases w) auto
  have nl: "\<not> in_lookup (tpcs s t)" using tab_relD(12) [OF rel, of t] b by auto
  have at: "rcu_at (tbehind (tpcs s t) (w # b)) (behind (rpcs (t_rcu s) t) (w # b))" using rcu_point [OF rel inv, of t] b by simp
  have bok: "buf_ok (t_rcu s) (rpcs (t_rcu s) t) (handle (t_rcu s) t) (w # b)" using rcu_relD(9) [OF rrel, of t] b by simp
  obtain a where a: "rt_step (t, a) q = Some (tgoto t (tbehind (tpcs s t) b) (q\<lparr>t_rcu := r\<rparr>))"
  proof (cases "rpcs (t_rcu s) t = Leave")
    case True
    then have "behind (rpcs (t_rcu s) t) (w # b) = Inside" using bok by auto
    then have "tpcs s t = TIdle \<or> (\<exists>key f x ok. tpcs s t = LkReads key f x ok)" using at nl by (cases "tpcs s t") auto
    then show thesis using r(2,4) True tab_relD(2) [OF rel, of t] b that [of "TRcu ReadUnlock"] that [of TGo]
      by (auto simp: commit_act_def rcu_call_def)
  next
    case False
    then have "\<exists>i. behind (rpcs (t_rcu s) t) (w # b) = RegSeq i \<or> behind (rpcs (t_rcu s) t) (w # b) = RegReads i"
      using bok \<open>\<not> is_other w\<close> by (cases "(t_rcu s, rpcs (t_rcu s) t, handle (t_rcu s) t, w # b)" rule: buf_ok.cases) auto
    then have "tpcs s t = TIdle" using at by (cases "tpcs s t") auto
    then show thesis using r(2) False tab_relD(2) [OF rel, of t] b that [of "TRcu RGo"]
      by (auto simp: commit_act_def rcu_call_def)
  qed
  have "pending (commit_tab w s) (B(t := b)) = pending s B" by (rule pending_same) (simp_all add: s' r(3))
  then have "tab_rel (commit_tab w s) (B(t := b)) (tgoto t (tbehind (tpcs s t) b) (q\<lparr>t_rcu := r\<rparr>))"
    by (intro tab_rel_upd [OF rel, of _ _ _ _ "tpcs s t"])
      (use tab_relD(3-11) [OF rel] r(1,3) nl in \<open>simp_all add: s'\<close>)
  then show ?thesis using a by blast
qed

end
