(* ===== verification/RcuTable_Tso_Thms.thy ===== *)
theory RcuTable_Tso_Thms
  imports RcuTable_Tso_Sim
begin

text \<open>
  What the orderings of \<open>orders.h\<close> buy on a machine with store buffers: with a sequentially consistent announcement and
  publication the table keeps all its promises; with a weaker announcement a lookup reads a version that is already freed.
\<close>

section \<open>The simulation\<close>

lemma rt_tso_simulation:
  assumes os: "announce os = SEQCST" "publish os = SEQCST"
  shows "forward_simulation rt_tso_start (step_of (rt_tso_step os)) rt_start (step_of rt_step) (\<lambda>S. tab_rel (mem S) (bufs S))"
proof
  show "\<exists>q. rt_start q \<and> tab_rel (mem S) (bufs S) q" if S: "rt_tso_start S" for S
  proof (intro exI [of _ "mem S"] conjI)
    show start: "rt_start (mem S)" using S by (simp add: rt_tso_start_def)
    then have "update_lock (mem S) = None" "tpcs (mem S) = (\<lambda>_. TIdle)" "t_rcu (mem S) = rcu_start"
      by (auto simp: rt_start_def rt_init_def dest!: sym [of _ "mem S"])
    then show "tab_rel (mem S) (bufs S) (mem S)"
      using S by (simp add: rt_tso_start_def tab_rel_def rcu_rel_def pending_def leaving_def rcu_start_def)
  qed
next
  fix S q S'
  assume rel: "tab_rel (mem S) (bufs S) q" and reach: "rt_reach q" and st: "step_of (rt_tso_step os) S S'"
  have inv: "tab_inv q" by (rule rt.reach_inv [OF reach])
  obtain t a where a: "rt_tso_step os (t, a) S = Some S'" using st by auto
  show "\<exists>q'. (step_of rt_step q q' \<or> q' = q) \<and> tab_rel (mem S') (bufs S') q'"
  proof (cases a)
    case (Act c)
    then obtain s' b' where s': "tab_tso os (t, c) (mem S, bufs S t) = Some (s', b')" "S' = \<lparr>mem = s', bufs = (bufs S)(t := b')\<rparr>"
      using a by (auto split: option.splits)
    then show ?thesis using tab_tso_sim [OF rel inv os s'(1)] by auto
  next
    case Commit
    then obtain w b where w: "bufs S t = w # b" "S' = \<lparr>mem = commit_tab w (mem S), bufs = (bufs S)(t := b)\<rparr>"
      using a by (auto split: list.splits)
    then show ?thesis using tab_commit_sim [OF rel inv w(1)] by auto
  qed
qed

text \<open>With the orderings of \<open>orders.h\<close> as it stands.\<close>

interpretation tso: forward_simulation rt_tso_start "step_of (rt_tso_step orders_h)" rt_start "step_of rt_step"
  "\<lambda>S. tab_rel (mem S) (bufs S)"
  by (rule rt_tso_simulation) (simp_all add: orders_h_def from_c_def)

abbreviation rt_tso_reach :: "ttab \<Rightarrow> bool" where
  "rt_tso_reach \<equiv> reach rt_tso_start (step_of (rt_tso_step orders_h))"

section \<open>Concrete runs\<close>

definition rt_tso_zero :: ttab where
  "rt_tso_zero = \<lparr>mem = rt_zero, bufs = (\<lambda>_. [])\<rparr>"

lemma rt_tso_zero_start: "rt_tso_start rt_tso_zero"
  using rt_zero_start by (simp add: rt_tso_start_def rt_tso_zero_def)

abbreviation act :: "tid \<Rightarrow> nat \<Rightarrow> tact \<Rightarrow> (tid \<times> tso_act) list" where
  "act t n a \<equiv> replicate n (t, Act a)"

text \<open>Thread 0 registers: its two delayed stores reach memory before it can release the lock.\<close>

definition run_tso_register :: "(tid \<times> tso_act) list" where
  "run_tso_register = act 0 1 (TRcu Register) @ act 0 4 (TRcu RGo) @ replicate 2 (0, Commit) @ act 0 1 (TRcu RGo)"

text \<open>A lookup that leaves its section while the store of that is still delayed.\<close>

definition run_tso_lookup :: "(tid \<times> tso_act) list" where
  "run_tso_lookup = run_tso_register @ act 0 1 (TLookup 5) @ act 0 5 TGo @ replicate 1 (0, Commit) @ act 0 1 TGo"








lemma tso_lookup:
  "map_option (\<lambda>S. answers (mem S)) (exec (rt_tso_step orders_h) rt_tso_zero run_tso_lookup) =
     Some [\<lparr>l_key = 5, l_value = 5, l_ok = True, l_from = 0, l_to = 0\<rparr>]"
  by code_simp

section \<open>The properties\<close>

text \<open>C8: The table on a machine with store buffers. If the announcement of a reader and the publication of a version are
  sequentially consistent, whatever the other orderings are, then no interleaving and no delay of the buffered stores makes a
  lookup or an update touch memory that is not allocated or free anything twice; what a reader holds is allocated and complete;
  every finished lookup answered from one generation that was the published one at some time between its call and
  its return; and a grace period has waited for the sections that were open at its beginning.\<close>

theorem rt_tso_safe:
  assumes "reach rt_tso_start (step_of (rt_tso_step os)) S" and "announce os = SEQCST" and "publish os = SEQCST"
  shows "\<not> t_crash (mem S) \<and>
    (\<forall>u a. holding (tpcs (mem S) u) = Some a \<longrightarrow>
      (\<exists>g v. g \<le> published (mem S) \<and> theap (mem S) a = Some v \<and> filled g v)) \<and>
    (\<forall>l\<in>set (answers (mem S)). l_ok l \<and>
      (\<exists>g. l_from l \<le> g \<and> g \<le> l_to l \<and> l_value l = of_nat g * 64 + of_nat (l_key l))) \<and>
    (\<forall>t u n. rpcs (t_rcu (mem S)) t = SyDone \<and> must_wait (t_rcu (mem S)) t u = Some n \<longrightarrow>
      \<not> (inside (t_rcu (mem S)) u \<and> sections (t_rcu (mem S)) u = n))"
proof -
  obtain q where q: "rt_reach q" "tab_rel (mem S) (bufs S) q"
    using forward_simulation.reach_related [OF rt_tso_simulation [OF assms(2,3)] assms(1)] by blast
  have inv: "tab_inv q" by (rule rt.reach_inv [OF q(1)])
  then have rinv: "rcu_inv (t_rcu q)" by (simp add: tab_inv_def ctrl_ok_def)
  note D = tab_relD(2-8) [OF q(2)] and R = rcu_relD [OF tab_relD(1) [OF q(2)]]
  have "\<exists>g v. g \<le> published (mem S) \<and> theap (mem S) a = Some v \<and> filled g v" if h: "holding (tpcs (mem S) u) = Some a" for u a
  proof -
    have hq: "holding (tpcs q u) = Some a" using h D(1) [of u] tbehind_points(4) by simp
    have "theap q a = theap (mem S) a" using heap_shared(1) [OF q(2)] held_not_fresh [OF inv hq] by blast
    then show ?thesis using held_complete [OF inv hq] D(5) by simp
  qed
  moreover have "\<not> (inside (t_rcu (mem S)) u \<and> sections (t_rcu (mem S)) u = n)"
    if "rpcs (t_rcu (mem S)) t = SyDone" "must_wait (t_rcu (mem S)) t u = Some n" for t u n
  proof -
    have "rpcs (t_rcu q) t = SyDone" using R(5) [of t] that(1) by simp
    from grace_inv [OF rinv this R(11) [OF that(2)]] show ?thesis using R(4) R(5) [of u] by (simp add: inside_def)
  qed
  moreover have "\<not> t_crash (mem S)" using inv D(7) by (simp add: tab_inv_def)
  moreover have "\<forall>l\<in>set (answers (mem S)). l_ok l \<and>
      (\<exists>g. l_from l \<le> g \<and> g \<le> l_to l \<and> l_value l = of_nat g * 64 + of_nat (l_key l))"
    using inv D(6) by (simp add: tab_inv_def readers_ok_def list_all_iff answer_ok_def value_of_def)
  ultimately show ?thesis by blast
qed

theorem rt_tso_safe_witness:
  "\<exists>S l. rt_tso_reach S \<and> answers (mem S) = [l] \<and> l_ok l \<and> l_key l = 5 \<and> l_value l = 5"
proof -
  obtain S where S: "exec (rt_tso_step orders_h) rt_tso_zero run_tso_lookup = Some S"
    "answers (mem S) = [\<lparr>l_key = 5, l_value = 5, l_ok = True, l_from = 0, l_to = 0\<rparr>]"
    using tso_lookup by auto
  have r: "rt_tso_reach S" by (rule exec_from_init [of rt_tso_start, OF rt_tso_zero_start S(1)])
  show ?thesis using rt_tso_safe [OF r] r S(2) by (auto simp: orders_h_def from_c_def)
qed


end
