(* ===== verification/Store_Orderings.thy ===== *)
theory Store_Orderings
  imports Rcu_Tso
begin

text \<open>
  The six functions of \<open>week4/tools/orderings.c\<close>, one per ordering of a store or a load of \<open>gp\<close>, as what the instructions that
  \<open>make orderings\<close> prints do on x86-64: a relaxed or release store is a store that may be delayed, a sequentially consistent
  one an exchange, and every load a plain load. The state is \<open>gp\<close> with the buffer of the thread that calls.
\<close>

section \<open>Functions\<close>

text \<open>\<open>gp\<close> in memory, and the delayed stores to it.\<close>

type_synonym gp_view = "addr option \<times> addr option list"

definition gp_store :: "ord \<Rightarrow> addr option \<Rightarrow> gp_view \<Rightarrow> gp_view option" where
  "gp_store order p v = put (\<lambda>w _. w) order p v"

definition gp_load :: "ord \<Rightarrow> gp_view \<Rightarrow> addr option" where
  "gp_load order v = (case v of (gp, b) \<Rightarrow> fold (\<lambda>w _. w) b gp)"

definition store_relaxed :: "addr option \<Rightarrow> gp_view \<Rightarrow> gp_view option" where
  "store_relaxed = gp_store RELAXED"

definition store_release :: "addr option \<Rightarrow> gp_view \<Rightarrow> gp_view option" where
  "store_release = gp_store RELEASE"

definition store_seqcst :: "addr option \<Rightarrow> gp_view \<Rightarrow> gp_view option" where
  "store_seqcst = gp_store SEQCST"

definition load_relaxed :: "gp_view \<Rightarrow> addr option" where
  "load_relaxed = gp_load RELAXED"

definition load_acquire :: "gp_view \<Rightarrow> addr option" where
  "load_acquire = gp_load ACQUIRE"

definition load_seqcst :: "gp_view \<Rightarrow> addr option" where
  "load_seqcst = gp_load SEQCST"

section \<open>Lemmas\<close>

lemmas gp_defs = store_relaxed_def store_release_def store_seqcst_def gp_store_def put_def
  load_relaxed_def load_acquire_def load_seqcst_def gp_load_def

text \<open>Release costs nothing over relaxed here, nor does any ordering of a load.\<close>

lemma same_instruction:
  "store_release = store_relaxed" "load_acquire = load_relaxed" "load_seqcst = load_relaxed"
  by (auto simp: gp_defs fun_eq_iff)

text \<open>A thread sees its own last store, whatever its ordering, and a sequentially consistent one is seen by all.\<close>

lemma load_own_store:
  "store_relaxed p v = Some v' \<Longrightarrow> load_relaxed v' = p"
  "store_seqcst p v = Some v' \<Longrightarrow> load_relaxed v' = p \<and> fst v' = p"
  by (auto simp: gp_defs split: prod.splits if_splits)

lemma relaxed_is_delayed: "store_relaxed p v = Some v' \<Longrightarrow> fst v' = fst v"
  by (auto simp: gp_defs split: prod.splits)

text \<open>What a delayed store has put into the buffer reaches memory before a sequentially consistent store does.\<close>

lemma seqcst_after_delayed: "store_relaxed p v = Some v' \<Longrightarrow> store_seqcst q v' = None"
  by (auto simp: gp_defs split: prod.splits)

end
