(* ===== verification/Workload_Types.thy ===== *)
theory Workload_Types
  imports Stats
begin

text \<open>
  The records of \<open>week5/src/workload.h\<close>, which the workload generator fills and the analysis reads, and
  the constants both are compiled with.
\<close>

section \<open>Constants\<close>

abbreviation WL_TASKS :: nat where "WL_TASKS \<equiv> 4000"
abbreviation WL_NUM_SIZES :: nat where "WL_NUM_SIZES \<equiv> 4"
abbreviation WL_CAPACITY :: nat where "WL_CAPACITY \<equiv> 64"
abbreviation WL_MEAN_SERVICE_US :: double where "WL_MEAN_SERVICE_US \<equiv> 300"
abbreviation WL_HOLDER_PERIOD :: nat where "WL_HOLDER_PERIOD \<equiv> 400"
abbreviation WL_HOLD_US :: nat where "WL_HOLD_US \<equiv> 10000"
abbreviation WL_BURST_PERIOD :: nat where "WL_BURST_PERIOD \<equiv> 150"
abbreviation WL_BURST_SIZE :: nat where "WL_BURST_SIZE \<equiv> 30"
abbreviation WL_MIN_WORKERS :: uint where "WL_MIN_WORKERS \<equiv> 3"

section \<open>Records\<close>

datatype wl_pathology = WL_PATH_BLOCKED_HOLDER | WL_PATH_BURST_ARRIVAL | WL_PATH_UNEVEN_PARTITION

record wl_config =
  cfg_seed :: ulong
  cfg_workers :: uint
  cfg_sizes :: "uint list" \<comment> \<open>\<open>WL_NUM_SIZES\<close> entries\<close>
  cfg_warmup_runs :: uint

record wl_record =
  task_id :: uint
  shard :: uint
  service_us :: double
  is_holder :: int
  ready_ns :: ulong
  start_ns :: ulong \<comment> \<open>0 when the task never started\<close>
  end_ns :: ulong

record wl_result =
  queued :: uint
  completed :: uint
  shard0_count :: uint
  shard1_count :: uint
  workers :: uint
  pace_late_us :: double
  records :: "wl_record list"

text \<open>A record as \<open>calloc\<close> leaves it.\<close>

definition zero_record :: wl_record where
  "zero_record = \<lparr>task_id = 0, shard = 0, service_us = 0, is_holder = 0, ready_ns = 0, start_ns = 0, end_ns = 0\<rparr>"

text \<open>
  The records \<open>run->records[0 .. run->queued - 1]\<close>; reading past the array the caller supplied is
  undefined behaviour.
\<close>

definition run_records :: "wl_result \<Rightarrow> wl_record list option" where
  "run_records run =
     (if unat (queued run) \<le> length (records run)
      then Some (take (unat (queued run)) (records run)) else None)"

end
