(* ===== verification/TaskQ.thy ===== *)
theory TaskQ
  imports Prelude
begin

text \<open>
  The bounded queue of task ids of \<open>week5/src/workload.c\<close>: a ring buffer in an array. Its operations run
  between lock and unlock; what a thread does that finds it full or empty is modelled with the threads, in
  \<open>Pool\<close>. Here: the data and the sections that touch it, and the refinement to a FIFO queue.
\<close>

section \<open>The ring buffer\<close>

record taskq =
  slot :: "uint list"
  capacity :: uint
  head :: uint
  tail :: uint
  count :: uint
  closed :: bool

text \<open>
  \<open>tq_init\<close>, given whether \<open>calloc\<close> succeeded and the results of the three \<open>pthread\<close> initialisations; \<open>None\<close> is
  \<open>die\<close>, which ends the program. The memory is zero.
\<close>

definition tq_init :: "uint \<Rightarrow> bool \<Rightarrow> int list \<Rightarrow> taskq option" where
  "tq_init cap calloc_ok rcs =
     (if \<not> calloc_ok then None
      else if list_ex (\<lambda>rc. rc \<noteq> 0) rcs then None
      else Some \<lparr>slot = replicate (unat cap) 0, capacity = cap, head = 0, tail = 0, count = 0, closed = False\<rparr>)"

definition tq_full :: "taskq \<Rightarrow> bool" where
  "tq_full q \<longleftrightarrow> count q = capacity q"

text \<open>The bodies of \<open>tq_push\<close>, after its wait, of \<open>tq_pop\<close>, and of \<open>tq_close\<close>.\<close>

definition tq_put :: "uint \<Rightarrow> taskq \<Rightarrow> taskq" where
  "tq_put x q = q\<lparr>slot := (slot q)[unat (tail q) := x], tail := (tail q + 1) mod capacity q, count := count q + 1\<rparr>"

definition tq_take :: "taskq \<Rightarrow> uint \<times> taskq" where
  "tq_take q = (slot q ! unat (head q), q\<lparr>head := (head q + 1) mod capacity q, count := count q - 1\<rparr>)"

definition tq_close :: "taskq \<Rightarrow> taskq" where
  "tq_close q = q\<lparr>closed := True\<rparr>"

text \<open>\<open>tq_destroy\<close>: the slots are freed; what the \<open>pthread\<close> calls release has no state here.\<close>

definition tq_destroy :: "taskq \<Rightarrow> taskq" where
  "tq_destroy q = q\<lparr>slot := []\<rparr>"

section \<open>Its contents\<close>

text \<open>Positions of the ring as natural numbers; the \<open>count\<close> elements from \<open>head\<close> on are the queue.\<close>

definition ring_ok :: "taskq \<Rightarrow> bool" where
  "ring_ok q \<longleftrightarrow> 0 < unat (capacity q) \<and> length (slot q) = unat (capacity q) \<and> unat (head q) < unat (capacity q) \<and>
     unat (count q) \<le> unat (capacity q) \<and> unat (tail q) = (unat (head q) + unat (count q)) mod unat (capacity q)"

definition contents :: "taskq \<Rightarrow> uint list" where
  "contents q = map (\<lambda>i. slot q ! ((unat (head q) + i) mod unat (capacity q))) [0..<unat (count q)]"

lemma length_contents [simp]: "length (contents q) = unat (count q)"
  by (simp add: contents_def)

lemma contents_empty [simp]: "contents q = [] \<longleftrightarrow> count q = 0"
  by (metis length_0_conv length_contents unat_0 unat_eq_zero)

text \<open>Advancing an index: \<open>unsigned\<close> arithmetic does not wrap before the \<open>mod\<close>.\<close>

lemma unat_advance:
  fixes i c :: uint
  assumes "unat i < unat c"
  shows "unat ((i + 1) mod c) = (unat i + 1) mod unat c"
proof -
  have "unat c < 2 ^ 32" using unsigned_less [of c] by simp
  then have "unat (i + 1) = unat i + 1" using assms by (intro unat_add_one) simp
  then show ?thesis by (simp add: unat_mod)
qed

lemma ring_index_other:
  fixes h n i c :: nat
  assumes "i < n" and "n < c" and "h < c"
  shows "(h + i) mod c \<noteq> (h + n) mod c"
proof
  assume "(h + i) mod c = (h + n) mod c"
  then have "c dvd (h + n) - (h + i)" using mod_eq_dvd_iff_nat [of "h + i" "h + n" c] assms(1) by simp
  then have "c \<le> n - i" using assms(1) by (intro dvd_imp_le) simp_all
  then show False using assms by simp
qed

lemma ring_ok_init: "tq_init cap a rcs = Some q \<Longrightarrow> 0 < unat cap \<Longrightarrow> ring_ok q \<and> contents q = [] \<and> capacity q = cap"
  by (auto simp: tq_init_def ring_ok_def split: if_splits)

lemma put_correct:
  assumes ok: "ring_ok q" and room: "\<not> tq_full q"
  shows "ring_ok (tq_put x q)" and "contents (tq_put x q) = contents q @ [x]"
proof -
  let ?c = "unat (capacity q)" and ?h = "unat (head q)" and ?n = "unat (count q)"
  have n: "?n < ?c" using ok room by (auto simp: ring_ok_def tq_full_def word_unat_eq_iff)
  have t: "unat (tail q) = (?h + ?n) mod ?c" "unat (tail q) < ?c" "?h < ?c" "length (slot q) = ?c"
    using ok by (auto simp: ring_ok_def)
  have "?c < 2 ^ 32" using unsigned_less [of "capacity q"] by simp
  then have n1: "unat (count q + 1) = ?n + 1" using n by (intro unat_add_one) simp
  have tl: "unat ((tail q + 1) mod capacity q) = (?h + (?n + 1)) mod ?c"
    unfolding unat_advance [OF t(2)] unfolding t(1) by (simp add: mod_Suc_eq)
  show "ring_ok (tq_put x q)" using ok n n1 tl by (simp add: ring_ok_def tq_put_def)
  have "contents (tq_put x q) = map (\<lambda>i. (slot q)[unat (tail q) := x] ! ((?h + i) mod ?c)) [0..<?n + 1]"
    by (simp add: contents_def tq_put_def n1)
  also have "\<dots> = map (\<lambda>i. (slot q)[unat (tail q) := x] ! ((?h + i) mod ?c)) [0..<?n] @ [x]"
    using t by simp
  also have "map (\<lambda>i. (slot q)[unat (tail q) := x] ! ((?h + i) mod ?c)) [0..<?n] = contents q"
    unfolding contents_def using t n ring_index_other [THEN not_sym, of _ ?n ?c ?h] by (intro map_cong) auto
  finally show "contents (tq_put x q) = contents q @ [x]" .
qed

lemma take_correct:
  assumes ok: "ring_ok q" and some: "count q \<noteq> 0"
  shows "ring_ok (snd (tq_take q))" and "contents q = fst (tq_take q) # contents (snd (tq_take q))"
proof -
  let ?c = "unat (capacity q)" and ?h = "unat (head q)" and ?n = "unat (count q)"
  have h: "?h < ?c" and n: "0 < ?n" "?n \<le> ?c" and tl: "unat (tail q) = (?h + ?n) mod ?c"
    using ok some by (auto simp: ring_ok_def unat_gt_0)
  have n1: "unat (count q - 1) = ?n - 1" using n(1) by (simp add: unat_minus_one unat_gt_0)
  have h1: "unat ((head q + 1) mod capacity q) = (?h + 1) mod ?c" by (rule unat_advance [OF h])
  obtain m where m: "?n = Suc m" using n(1) by (cases ?n) auto
  have "(Suc ?h mod ?c + (?n - 1)) mod ?c = (?h + ?n) mod ?c" unfolding m by (simp add: mod_add_left_eq)
  then show "ring_ok (snd (tq_take q))" using ok n n1 h1 tl by (auto simp: ring_ok_def tq_take_def)
  have "[0..<?n] = 0 # map Suc [0..<?n - 1]" using n(1) by (simp add: upt_conv_Cons map_Suc_upt)
  then have "contents q = slot q ! (?h mod ?c) # map (\<lambda>i. slot q ! ((?h + Suc i) mod ?c)) [0..<?n - 1]"
    by (simp add: contents_def comp_def)
  moreover have "(?h + Suc i) mod ?c = ((?h + 1) mod ?c + i) mod ?c" for i by (simp add: mod_add_left_eq)
  ultimately show "contents q = fst (tq_take q) # contents (snd (tq_take q))"
    using h by (simp add: contents_def tq_take_def n1 h1)
qed

lemma put_take_other [simp]:
  "capacity (tq_put x q) = capacity q" "closed (tq_put x q) = closed q"
  "capacity (snd (tq_take q)) = capacity q" "closed (snd (tq_take q)) = closed q"
  by (simp_all add: tq_put_def tq_take_def)

lemma close_simps [simp]: "contents (tq_close q) = contents q" "ring_ok (tq_close q) = ring_ok q"
  "closed (tq_close q)" "capacity (tq_close q) = capacity q" "count (tq_close q) = count q" "tq_full (tq_close q) = tq_full q"
  by (simp_all add: tq_close_def contents_def ring_ok_def tq_full_def)

section \<open>The interface of a bounded queue\<close>

text \<open>
  What the pool relies on: a representation with room for \<open>room\<close> elements whose \<open>put\<close> appends and whose \<open>take\<close>
  removes the first element.
\<close>

datatype 'x qop = Put 'x | Take

locale bounded_queue =
  fixes ok :: "'q \<Rightarrow> bool" and room :: "'q \<Rightarrow> nat" and full :: "'q \<Rightarrow> bool"
    and items :: "'q \<Rightarrow> 'x list" and put :: "'x \<Rightarrow> 'q \<Rightarrow> 'q" and take :: "'q \<Rightarrow> 'x \<times> 'q"
  assumes full_iff: "ok q \<Longrightarrow> full q \<longleftrightarrow> length (items q) = room q"
    and bound: "ok q \<Longrightarrow> length (items q) \<le> room q"
    and put_ok: "ok q \<Longrightarrow> \<not> full q \<Longrightarrow> ok (put x q) \<and> items (put x q) = items q @ [x] \<and> room (put x q) = room q"
    and take_ok: "ok q \<Longrightarrow> items q \<noteq> [] \<Longrightarrow>
      ok (snd (take q)) \<and> items q = fst (take q) # items (snd (take q)) \<and> room (snd (take q)) = room q"
begin

text \<open>A sequence of operations, as far as none finds the queue full or empty, and what it takes out.\<close>

fun run_queue :: "'x qop list \<Rightarrow> 'q \<Rightarrow> ('x list \<times> 'q) option" where
  "run_queue [] q = Some ([], q)"
| "run_queue (Put x # ops) q = (if full q then None else run_queue ops (put x q))"
| "run_queue (Take # ops) q = (if items q = [] then None else
     (case take q of (x, q') \<Rightarrow> (case run_queue ops q' of None \<Rightarrow> None | Some (xs, q'') \<Rightarrow> Some (x # xs, q''))))"

text \<open>First in, first out: what was taken and what is left is what was there and was put, in order.\<close>

lemma run_fifo:
  "ok q \<Longrightarrow> run_queue ops q = Some (out, q') \<Longrightarrow>
     ok q' \<and> room q' = room q \<and> out @ items q' = items q @ concat (map (\<lambda>p. case p of Put x \<Rightarrow> [x] | Take \<Rightarrow> []) ops)"
proof (induction ops arbitrary: q out)
  case (Cons p ops)
  show ?case
  proof (cases p)
    case (Put x)
    then show ?thesis using Cons put_ok [of q x] by (auto split: if_splits)
  next
    case Take
    then obtain xs where xs: "items q \<noteq> []" "run_queue ops (snd (take q)) = Some (xs, q')" "out = fst (take q) # xs"
      using Cons.prems(2) by (auto split: if_splits option.splits prod.splits)
    then show ?thesis using Cons.IH [OF _ xs(2)] take_ok [OF Cons.prems(1) xs(1)] Take by auto
  qed
qed simp

end

interpretation tq: bounded_queue ring_ok "\<lambda>q. unat (capacity q)" tq_full contents tq_put tq_take
proof
  show "tq_full q \<longleftrightarrow> length (contents q) = unat (capacity q)" for q
    by (simp add: tq_full_def word_unat_eq_iff)
  show "length (contents q) \<le> unat (capacity q)" if "ring_ok q" for q using that by (simp add: ring_ok_def)
  show "ring_ok (tq_put x q) \<and> contents (tq_put x q) = contents q @ [x] \<and> unat (capacity (tq_put x q)) = unat (capacity q)"
    if "ring_ok q" "\<not> tq_full q" for q x
    using put_correct [OF that] by simp
  show "ring_ok (snd (tq_take q)) \<and> contents q = fst (tq_take q) # contents (snd (tq_take q)) \<and>
      unat (capacity (snd (tq_take q))) = unat (capacity q)" if "ring_ok q" "contents q \<noteq> []" for q
    using take_correct [OF that(1)] that(2) by simp
qed

end
