(* ===== verification/Workload.thy ===== *)
theory Workload
  imports Workload_Types TaskQ
begin

text \<open>
  The arithmetic of the workload generator \<open>week5/src/workload.c\<close>: the configuration of \<open>config/params.h\<close>,
  the choice of the pathology, the size of the pool, the service times and the pacing of the dispatcher.
  The number of online CPUs (\<open>sysconf\<close>) is a parameter.
\<close>

section \<open>Configuration\<close>

definition wl_default_config :: wl_config where
  "wl_default_config = \<lparr>cfg_seed = 250717358276124, cfg_workers = (if (4::uint) < WL_MIN_WORKERS then WL_MIN_WORKERS else 4),
     cfg_sizes = [1000, 2000, 20000, 100000], cfg_warmup_runs = 3\<rparr>"

definition select_pathology :: "ulong \<Rightarrow> wl_pathology" where
  "select_pathology seed = (let k = seed mod 3 in
     if k = 0 then WL_PATH_BLOCKED_HOLDER else if k = 1 then WL_PATH_BURST_ARRIVAL else WL_PATH_UNEVEN_PARTITION)"

definition wl_pool_workers :: "wl_config \<Rightarrow> clong \<Rightarrow> uint" where
  "wl_pool_workers cfg online =
     (let n = cfg_workers cfg;
          n = (if 1 < sint online \<and> (online - 1 :: ulong) < ucast n then ucast (online - 1) else n)
      in if n < WL_MIN_WORKERS then WL_MIN_WORKERS else n)"

section \<open>Pacing\<close>

text \<open>The literals 0.55 and 1.2 are rounded to \<open>double\<close>.\<close>

definition WL_TARGET_RHO :: double where "WL_TARGET_RHO = rnd (55 / 100)"
definition WL_SHARD0_OVERLOAD :: double where "WL_SHARD0_OVERLOAD = rnd (12 / 10)"

abbreviation WL_PACE_MAX_WORKERS :: uint where "WL_PACE_MAX_WORKERS \<equiv> 4"

definition pace_workers :: "uint \<Rightarrow> uint" where
  "pace_workers pool = (if pool < WL_PACE_MAX_WORKERS then pool else WL_PACE_MAX_WORKERS)"

definition dispatch_gap_us :: "uint \<Rightarrow> wl_pathology \<Rightarrow> double list \<Rightarrow> double" where
  "dispatch_gap_us pool path service =
     (if path = WL_PATH_UNEVEN_PARTITION then ddiv (service ! 3) (dmul 4 WL_SHARD0_OVERLOAD)
      else ddiv WL_MEAN_SERVICE_US (dmul (double_of (unat (pace_workers pool))) WL_TARGET_RHO))"

definition size_sum :: "wl_config \<Rightarrow> double" where
  "size_sum cfg = foldl (\<lambda>a s. dadd a (double_of (unat s))) 0 (cfg_sizes cfg)"

definition service_times :: "wl_config \<Rightarrow> double list" where
  "service_times cfg = map (\<lambda>s. ddiv (dmul (dmul WL_MEAN_SERVICE_US (double_of WL_NUM_SIZES)) (double_of (unat s))) (size_sum cfg))
     (cfg_sizes cfg)"

text \<open>What \<open>wl_run\<close> fixes before it starts the threads.\<close>

record plan =
  path :: wl_pathology
  service :: "double list"
  pool :: uint
  shard_workers :: "nat list"
  gap_ns :: ulong

definition wl_plan :: "wl_config \<Rightarrow> clong \<Rightarrow> plan option" where
  "wl_plan cfg online =
     (let p = select_pathology (cfg_seed cfg); sv = service_times cfg; n = wl_pool_workers cfg online;
          sw = (if p = WL_PATH_UNEVEN_PARTITION then [1, unat (n - 1)] else [unat n, 0])
      in if length (cfg_sizes cfg) \<noteq> WL_NUM_SIZES \<or> size_sum cfg = 0 then None
         else case to_u64 (dmul (dispatch_gap_us n p sv) 1000) of
             None \<Rightarrow> None
           | Some g \<Rightarrow> Some \<lparr>path = p, service = sv, pool = n, shard_workers = sw, gap_ns = g\<rparr>)"

section \<open>A task's record\<close>

text \<open>The queue a task goes to, and its record when \<open>dispatch_one\<close> has stamped it.\<close>

definition task_shard :: "uint \<Rightarrow> uint" where
  "task_shard i = (if i mod 4 = 3 then 0 else 1)"

definition task_holder :: "wl_pathology \<Rightarrow> uint \<Rightarrow> bool" where
  "task_holder p i \<longleftrightarrow> p = WL_PATH_BLOCKED_HOLDER \<and> i mod 400 = 0"

definition task_queue :: "wl_pathology \<Rightarrow> uint \<Rightarrow> nat" where
  "task_queue p i = (if p = WL_PATH_UNEVEN_PARTITION then unat (task_shard i) else 0)"

definition task_record :: "plan \<Rightarrow> uint \<Rightarrow> ulong \<Rightarrow> wl_record" where
  "task_record su i now = \<lparr>task_id = i, shard = task_shard i, service_us = service su ! unat (i mod 4),
     is_holder = c_bool (task_holder (path su) i), ready_ns = now, start_ns = 0, end_ns = 0\<rparr>"

section \<open>Lemmas\<close>

lemma pool_at_least_3: "WL_MIN_WORKERS \<le> wl_pool_workers cfg online"
  by (simp add: wl_pool_workers_def Let_def not_less)

lemma pace_workers_range: "WL_MIN_WORKERS \<le> n \<Longrightarrow> pace_workers n = 3 \<or> pace_workers n = 4"
proof -
  assume "WL_MIN_WORKERS \<le> n"
  then have "3 \<le> unat n" by (simp add: word_le_nat_alt)
  then show ?thesis by (auto simp: pace_workers_def word_less_nat_alt word_unat_eq_iff)
qed

text \<open>The sum of the sizes is exact, and positive when a size is.\<close>

lemma dadd_exact: "a + b \<le> 2 ^ 53 \<Longrightarrow> dadd (of_nat a) (of_nat b) = of_nat (a + b)"
  using double_of_exact [of "a + b"] by (simp add: double_of_def dadd_def)

lemma size_sum_exact:
  assumes "sum_list (map unat (cfg_sizes cfg)) \<le> 2 ^ 53"
  shows "size_sum cfg = of_nat (sum_list (map unat (cfg_sizes cfg)))"
proof -
  have "foldl (\<lambda>a s. dadd a (double_of (unat s))) (of_nat n) xs = of_nat (n + sum_list (map unat xs))"
    if "n + sum_list (map unat xs) \<le> 2 ^ 53" for n and xs :: "uint list"
    using that
  proof (induction xs arbitrary: n)
    case (Cons x xs)
    then have "dadd (of_nat n) (double_of (unat x)) = of_nat (n + unat x)"
      using dadd_exact [of n "unat x"] by (simp add: double_of_exact)
    then show ?case using Cons.IH [of "n + unat x"] Cons.prems by (simp add: add.assoc)
  qed simp
  from this [of 0 "cfg_sizes cfg"] show ?thesis using assms by (simp add: size_sum_def)
qed

text \<open>The plan of the repository's \<open>config/params.h\<close> on a machine with five CPUs.\<close>

definition default_plan :: plan where
  "default_plan = \<lparr>path = WL_PATH_BLOCKED_HOLDER, service = service_times wl_default_config, pool = 4, shard_workers = [4, 0],
     gap_ns = 136363\<rparr>"

lemma default_gap: "dmul (ddiv 300 (dmul 4 WL_TARGET_RHO)) 1000 = 1171354717090909 / 8589934592"
proof -
  have "WL_TARGET_RHO = 2476979795053773 / 4503599627370496"
    using rnd_value [of "-1" "55 / 100" 4953959590107546]
    by (simp add: WL_TARGET_RHO_def power_int_def power_one_over)
  moreover have "dmul 4 (2476979795053773 / 4503599627370496) = 2476979795053773 / 1125899906842624"
    using rnd_value [of 1 "4 * (2476979795053773 / 4503599627370496)" 4953959590107546]
    by (simp add: dmul_def power_int_def power_one_over)
  moreover have "ddiv 300 (2476979795053773 / 1125899906842624) = 4797868921204363 / 35184372088832"
    using rnd_value [of 7 "300 / (2476979795053773 / 1125899906842624)" 4797868921204363]
    by (simp add: ddiv_def power_int_def power_one_over)
  moreover have "dmul (4797868921204363 / 35184372088832) 1000 = 1171354717090909 / 8589934592"
    using rnd_value [of 17 "4797868921204363 / 35184372088832 * 1000" 4685418868363636]
    by (simp add: dmul_def power_int_def power_one_over)
  ultimately show ?thesis by (simp only:)
qed

lemma pace_3_gap: "dmul (ddiv 300 (dmul 3 WL_TARGET_RHO)) 1000 = 3123612578909091 / 17179869184"
proof -
  have "WL_TARGET_RHO = 2476979795053773 / 4503599627370496"
    using rnd_value [of "-1" "55 / 100" 4953959590107546]
    by (simp add: WL_TARGET_RHO_def power_int_def power_one_over)
  moreover have "dmul 3 (2476979795053773 / 4503599627370496) = 7430939385161319 / 4503599627370496"
    using rnd_value [of 0 "3 * (2476979795053773 / 4503599627370496)" 7430939385161319]
    by (simp add: dmul_def power_int_def power_one_over)
  moreover have "ddiv 300 (7430939385161319 / 4503599627370496) = 3198579280802909 / 17592186044416"
    using rnd_value [of 7 "300 / (7430939385161319 / 4503599627370496)" 6397158561605818]
    by (simp add: ddiv_def power_int_def power_one_over)
  moreover have "dmul (3198579280802909 / 17592186044416) 1000 = 3123612578909091 / 17179869184"
    using rnd_value [of 17 "3198579280802909 / 17592186044416 * 1000" 6247225157818182]
    by (simp add: dmul_def power_int_def power_one_over)
  ultimately show ?thesis by (simp only:)
qed

lemma shared_queue_gap:
  assumes "wl_plan cfg online = Some su" and "path su \<noteq> WL_PATH_UNEVEN_PARTITION"
  shows "gap_ns su = (if pool su = 3 then 181818 else 136363)"
proof -
  let ?n = "wl_pool_workers cfg online"
  have n: "3 \<le> ?n" by (rule pool_at_least_3)
  have "pace_workers ?n = (if ?n = 3 then 3 else 4)"
    using n by (auto simp: pace_workers_def word_le_nat_alt word_less_nat_alt word_unat_eq_iff)
  then have g: "dispatch_gap_us ?n p sv = ddiv 300 (dmul (if ?n = 3 then 3 else 4) WL_TARGET_RHO)"
    if "p \<noteq> WL_PATH_UNEVEN_PARTITION" for p sv
    using that double_of_exact [of 3] double_of_exact [of 4] by (simp add: dispatch_gap_us_def)
  have "\<lfloor>1171354717090909 / 8589934592 :: rat\<rfloor> = 136363" "\<lfloor>3123612578909091 / 17179869184 :: rat\<rfloor> = 181818"
    by (simp_all add: floor_eq_iff)
  then have "to_u64 (dmul (ddiv 300 (dmul 4 WL_TARGET_RHO)) 1000) = Some 136363"
    "to_u64 (dmul (ddiv 300 (dmul 3 WL_TARGET_RHO)) 1000) = Some 181818"
    by (simp_all add: to_u64_def default_gap pace_3_gap)
  then show ?thesis using assms g
    by (cases "?n = 3") (auto simp: wl_plan_def Let_def split: if_splits option.splits)
qed

text \<open>
  The comment on pacing says that the gaps lie between 136 and 270 microseconds; with the sizes 2000, 5000, 10000 and
  20000, which \<open>tools/gen-params.py\<close> can derive, the gap of the uneven partition is shorter.
\<close>

lemma uneven_gap_below_136:
  assumes "cfg_sizes cfg = [2000, 5000, 10000, 20000]"
  shows "dispatch_gap_us n WL_PATH_UNEVEN_PARTITION (service_times cfg) < 136"
proof -
  have "size_sum cfg = 37000" using size_sum_exact [of cfg] assms by simp
  moreover have "dmul (dmul 300 4) (double_of 20000) = 24000000"
    using double_of_exact [of 1200] double_of_exact [of 20000] double_of_exact [of 24000000] by (simp add: dmul_def double_of_def)
  ultimately have "service_times cfg ! 3 = ddiv 24000000 37000"
    using double_of_exact [of 4] assms by (simp add: service_times_def)
  also have "\<dots> = 5705573852243027 / 8796093022208"
    using rnd_value [of 9 "24000000 / 37000" 5705573852243027] by (simp add: ddiv_def power_int_def power_one_over)
  finally have "service_times cfg ! 3 = 5705573852243027 / 8796093022208" .
  moreover have "WL_SHARD0_OVERLOAD = 5404319552844595 / 4503599627370496"
    using rnd_value [of 0 "12 / 10" 5404319552844595] by (simp add: WL_SHARD0_OVERLOAD_def power_int_def power_one_over)
  moreover have "dmul 4 (5404319552844595 / 4503599627370496) = 5404319552844595 / 1125899906842624"
    using rnd_value [of 2 "4 * (5404319552844595 / 4503599627370496)" 5404319552844595]
    by (simp add: dmul_def power_int_def power_one_over)
  moreover have "ddiv (5705573852243027 / 8796093022208) (5404319552844595 / 1125899906842624) = 4754644876869189 / 35184372088832"
    using rnd_value [of 7 "5705573852243027 / 8796093022208 / (5404319552844595 / 1125899906842624)" 4754644876869189]
    by (simp add: ddiv_def power_int_def power_one_over)
  ultimately have "dispatch_gap_us n WL_PATH_UNEVEN_PARTITION (service_times cfg) = 4754644876869189 / 35184372088832"
    by (simp only: dispatch_gap_us_def simp_thms if_True)
  then show ?thesis by simp
qed

lemma wl_plan_default: "wl_plan wl_default_config 5 = Some default_plan"
proof -
  have "size_sum wl_default_config = 123000"
    using size_sum_exact [of wl_default_config] by (simp add: wl_default_config_def)
  moreover have "wl_pool_workers wl_default_config 5 = 4" by code_simp
  moreover have "select_pathology (cfg_seed wl_default_config) = WL_PATH_BLOCKED_HOLDER" by code_simp
  moreover have "length (cfg_sizes wl_default_config) = 4" by (simp add: wl_default_config_def)
  moreover have "dispatch_gap_us 4 WL_PATH_BLOCKED_HOLDER sv = ddiv 300 (dmul 4 WL_TARGET_RHO)" for sv
    using double_of_exact [of 4] by (simp add: dispatch_gap_us_def pace_workers_def)
  moreover have "\<lfloor>1171354717090909 / 8589934592 :: rat\<rfloor> = 136363" by (simp add: floor_eq_iff)
  ultimately show ?thesis
    by (simp add: wl_plan_def Let_def default_plan_def to_u64_def default_gap)
qed

end
