(* ===== verification/Pool.thy ===== *)
theory Pool
  imports Workload
begin

text \<open>
  The thread pool of \<open>wl_run\<close> (\<open>week5/src/workload.c\<close>): the dispatcher, which is the calling thread, and the
  workers, on one or two bounded queues. The sections under a queue's lock are one step each; a thread that
  finds the queue full or empty sleeps on its condition variable, and wakes by a signal, a broadcast or
  spuriously, to try again. A signal wakes one sleeper if there is one, which one is left open. Reading
  the clock gives \<open>now\<close>, which other steps may advance; sleeping and spinning until a time is a step that is
  enabled from that time on.
\<close>

section \<open>State\<close>

text \<open>The dispatcher: the loop of \<open>wl_run\<close>, with \<open>dispatch_one\<close> inlined; a burst carries its end.\<close>

datatype dpc =
    DTop nat | DBurst nat nat | DBurstEnd nat | DPace nat | DSleep nat | DLate nat ulong
  | DWrite nat "nat option" | DPush nat "nat option" | DAsleep nat "nat option"
  | DClose nat | DJoin nat | DDone

text \<open>A worker: \<open>worker_main\<close>, with the task it has.\<close>

datatype wkpc =
    WPop | WAsleep | WGate nat | WStart nat | WLock nat | WHold nat ulong | WBegin nat | WServe nat ulong
  | WEnd nat | WCount nat | WExit

record pool =
  p_q :: "nat \<Rightarrow> taskq" \<comment> \<open>\<open>qs[0]\<close> and \<open>qs[1]\<close>\<close>
  p_gate :: "tid option" \<comment> \<open>\<open>holder_gate\<close>\<close>
  p_completed :: uint
  p_recs :: "wl_record list"
  p_deadline :: ulong
  p_late :: "double list"
  p_disp :: dpc
  p_work :: "tid \<Rightarrow> wkpc"
  p_now :: ulong
  p_finished :: "nat list" \<comment> \<open>ghost: the tasks counted in \<open>completed\<close>\<close>

definition total_workers :: "plan \<Rightarrow> nat" where
  "total_workers su = shard_workers su ! 0 + shard_workers su ! 1"

text \<open>The queue of worker \<open>t\<close>: the threads of shard 0 are created first.\<close>

definition worker_queue :: "plan \<Rightarrow> tid \<Rightarrow> nat" where
  "worker_queue su t = (if t < shard_workers su ! 0 then 0 else 1)"

text \<open>The start: the queues are initialised, the threads created, \<open>deadline\<close> read from the clock.\<close>

definition pool_start :: "wl_record list \<Rightarrow> ulong \<Rightarrow> pool option" where
  "pool_start recs now =
     (case (tq_init (of_nat WL_CAPACITY) True [0, 0, 0]) of None \<Rightarrow> None
      | Some q \<Rightarrow> Some \<lparr>p_q = (\<lambda>_. q), p_gate = None, p_completed = 0, p_recs = recs, p_deadline = now,
          p_late = [], p_disp = DTop 0, p_work = (\<lambda>_. WPop), p_now = now, p_finished = []\<rparr>)"

section \<open>Steps\<close>

definition dgoto :: "dpc \<Rightarrow> pool \<Rightarrow> pool" where
  "dgoto p s = s\<lparr>p_disp := p\<rparr>"

definition wgo_to :: "tid \<Rightarrow> wkpc \<Rightarrow> pool \<Rightarrow> pool" where
  "wgo_to t p s = s\<lparr>p_work := (p_work s)(t := p)\<rparr>"

definition set_queue :: "nat \<Rightarrow> taskq \<Rightarrow> pool \<Rightarrow> pool" where
  "set_queue k q s = s\<lparr>p_q := (p_q s)(k := q)\<rparr>"

definition set_record :: "nat \<Rightarrow> wl_record \<Rightarrow> pool \<Rightarrow> pool" where
  "set_record i r s = s\<lparr>p_recs := (p_recs s)[i := r]\<rparr>"

text \<open>The workers asleep on the \<open>not_empty\<close> of queue \<open>k\<close>; waking one, or all of them.\<close>

definition sleepers :: "plan \<Rightarrow> pool \<Rightarrow> nat \<Rightarrow> tid list" where
  "sleepers su s k = filter (\<lambda>t. p_work s t = WAsleep \<and> worker_queue su t = k) [0..<total_workers su]"

definition signal_not_empty :: "plan \<Rightarrow> nat \<Rightarrow> tid option \<Rightarrow> pool \<Rightarrow> pool option" where
  "signal_not_empty su k w s =
     (case w of
        None \<Rightarrow> if sleepers su s k = [] then Some s else None
      | Some t \<Rightarrow> if t \<in> set (sleepers su s k) then Some (wgo_to t WPop s) else None)"

definition broadcast_not_empty :: "plan \<Rightarrow> nat \<Rightarrow> pool \<Rightarrow> pool" where
  "broadcast_not_empty su k s =
     s\<lparr>p_work := (\<lambda>t. if p_work s t = WAsleep \<and> worker_queue su t = k then WPop else p_work s t)\<rparr>"

text \<open>Only the dispatcher waits on \<open>not_full\<close>.\<close>

definition signal_not_full :: "plan \<Rightarrow> nat \<Rightarrow> pool \<Rightarrow> pool" where
  "signal_not_full su k s =
     (case p_disp s of DAsleep i b \<Rightarrow> if task_queue (path su) (of_nat i) = k then dgoto (DPush i b) s else s | _ \<Rightarrow> s)"

text \<open>After \<open>dispatch_one\<close>: the next task of the burst, or of the loop.\<close>

fun dispatched :: "nat \<Rightarrow> nat option \<Rightarrow> dpc" where
  "dispatched i (Some e) = DBurst (Suc i) e"
| "dispatched i None = DTop (Suc i)"

text \<open>\<open>tq_push\<close>, by the dispatcher, and what follows when it returns.\<close>

definition push_task :: "plan \<Rightarrow> tid option \<Rightarrow> nat \<Rightarrow> nat option \<Rightarrow> pool \<Rightarrow> pool option" where
  [simp]: "push_task su w i b s =
     (let k = task_queue (path su) (of_nat i) in
      if tq_full (p_q s k) then Some (dgoto (DAsleep i b) s)
      else signal_not_empty su k w (dgoto (dispatched i b) (set_queue k (tq_put (of_nat i) (p_q s k)) s)))"

text \<open>A step of the dispatcher; \<open>w\<close> says which sleeping worker a signal wakes.\<close>

fun disp_go :: "plan \<Rightarrow> tid option \<Rightarrow> dpc \<Rightarrow> pool \<Rightarrow> pool option" where
  "disp_go su w (DTop i) s = Some (
     if \<not> i < WL_TASKS then dgoto (DClose 0) s
     else if path su = WL_PATH_BURST_ARRIVAL \<and> i mod WL_BURST_PERIOD = 0
       then dgoto (DBurst i (min (i + WL_BURST_SIZE) WL_TASKS)) s
     else dgoto (DPace i) s)"
| "disp_go su w (DBurst i e) s = Some (if i < e then dgoto (DWrite i (Some e)) s else dgoto (DBurstEnd i) s)"
| "disp_go su w (DBurstEnd i) s = Some (dgoto (DTop i) (s\<lparr>p_deadline := p_now s\<rparr>))"
| "disp_go su w (DPace i) s =
     (let d = p_deadline s + gap_ns su; s = s\<lparr>p_deadline := d\<rparr> in
      Some (if p_now s < d then dgoto (DSleep i) s else dgoto (DLate i (p_now s)) s))"
| "disp_go su w (DSleep i) s = (if p_deadline s \<le> p_now s then Some (dgoto (DLate i (p_now s)) s) else None)"
| "disp_go su w (DLate i now) s =
     (let s = s\<lparr>p_late := p_late s @ [ddiv (double_of (unat (now - p_deadline s))) 1000]\<rparr> in
      Some (dgoto (DWrite i None) (if now > p_deadline s + 2 * gap_ns su then s\<lparr>p_deadline := now\<rparr> else s)))"
| "disp_go su w (DWrite i b) s =
     Some (dgoto (DPush i b) (set_record i (task_record su (of_nat i) (p_now s)) s))"
| "disp_go su w (DPush i b) s = push_task su w i b s"
| "disp_go su w (DAsleep i b) s = None"
| "disp_go su w (DClose k) s = Some (dgoto (if k = 0 then DClose 1 else DJoin 0)
     (broadcast_not_empty su k (set_queue k (tq_close (p_q s k)) s)))"
| "disp_go su w (DJoin t) s =
     (if \<not> t < total_workers su then Some (dgoto DDone s)
      else if p_work s t = WExit then Some (dgoto (DJoin (Suc t)) s) else None)"
| "disp_go su w DDone s = None"

definition stamp_start :: "nat \<Rightarrow> pool \<Rightarrow> pool" where
  "stamp_start i s = set_record i ((p_recs s ! i)\<lparr>start_ns := p_now s\<rparr>) s"

definition stamp_end :: "nat \<Rightarrow> pool \<Rightarrow> pool" where
  "stamp_end i s = set_record i ((p_recs s ! i)\<lparr>end_ns := p_now s\<rparr>) s"

text \<open>\<open>(uint64_t)(us * 1000.0)\<close>; the service times are far below the range where this is undefined.\<close>

definition serve_ns :: "double \<Rightarrow> ulong" where
  "serve_ns us = (case to_u64 (dmul us 1000) of None \<Rightarrow> 0 | Some n \<Rightarrow> n)"

text \<open>The end of \<open>hold_for\<close> and of \<open>serve\<close>, and when their loops leave.\<close>

definition hold_end :: "pool \<Rightarrow> ulong" where
  [simp]: "hold_end s = p_now s + of_nat WL_HOLD_US * 1000"

definition hold_over :: "ulong \<Rightarrow> pool \<Rightarrow> bool" where
  [simp]: "hold_over e s \<longleftrightarrow> e \<le> p_now s"

definition serve_end :: "double \<Rightarrow> pool \<Rightarrow> ulong" where
  [simp]: "serve_end us s = p_now s + serve_ns us"

definition serve_over :: "ulong \<Rightarrow> pool \<Rightarrow> bool" where
  [simp]: "serve_over e s \<longleftrightarrow> \<not> p_now s < e"

text \<open>\<open>tq_pop\<close>, by worker \<open>t\<close>.\<close>

definition pop_task :: "plan \<Rightarrow> tid \<Rightarrow> pool \<Rightarrow> pool option" where
  [simp]: "pop_task su t s =
     (let k = worker_queue su t; q = p_q s k in
      Some (if count q = 0 \<and> \<not> closed q then wgo_to t WAsleep s
            else if count q = 0 then wgo_to t WExit s
            else (case tq_take q of (x, q') \<Rightarrow>
              signal_not_full su k (wgo_to t (WGate (unat x)) (set_queue k q' s)))))"

fun work_go :: "plan \<Rightarrow> tid \<Rightarrow> wkpc \<Rightarrow> pool \<Rightarrow> pool option" where
  "work_go su t WPop s = pop_task su t s"
| "work_go su t WAsleep s = None"
| "work_go su t (WGate i) s = (if p_gate s = None then Some (wgo_to t (WStart i) s) else None)"
| "work_go su t (WStart i) s = Some (
     if is_holder (p_recs s ! i) \<noteq> 0 then wgo_to t (WLock i) (stamp_start i s)
     else wgo_to t (WBegin i) (stamp_start i s))"
| "work_go su t (WLock i) s =
     (if p_gate s = None then Some (wgo_to t (WHold i (hold_end s)) (s\<lparr>p_gate := Some t\<rparr>)) else None)"
| "work_go su t (WHold i e) s = (if hold_over e s then Some (wgo_to t (WEnd i) (s\<lparr>p_gate := None\<rparr>)) else None)"
| "work_go su t (WBegin i) s = Some (wgo_to t (WServe i (serve_end (service_us (p_recs s ! i)) s)) s)"
| "work_go su t (WServe i e) s = (if serve_over e s then Some (wgo_to t (WEnd i) s) else None)"
| "work_go su t (WEnd i) s = Some (wgo_to t (WCount i) (stamp_end i s))"
| "work_go su t (WCount i) s =
     Some (wgo_to t WPop (s\<lparr>p_completed := p_completed s + 1, p_finished := p_finished s @ [i]\<rparr>))"
| "work_go su t WExit s = None"

text \<open>
  What can happen: a thread takes a step, a sleeper wakes spuriously, time passes (the clock is monotonic).
\<close>

datatype pact = Disp "tid option" | Work tid | WakeDisp | WakeWork tid | Tick ulong

fun pool_step :: "plan \<Rightarrow> pact \<Rightarrow> pool \<Rightarrow> pool option" where
  "pool_step su (Disp w) s = disp_go su w (p_disp s) s"
| "pool_step su (Work t) s = (if t < total_workers su then work_go su t (p_work s t) s else None)"
| "pool_step su WakeDisp s = (case p_disp s of DAsleep i b \<Rightarrow> Some (dgoto (DPush i b) s) | _ \<Rightarrow> None)"
| "pool_step su (WakeWork t) s =
     (if t < total_workers su \<and> p_work s t = WAsleep then Some (wgo_to t WPop s) else None)"
| "pool_step su (Tick n) s = (if p_now s \<le> n then Some (s\<lparr>p_now := n\<rparr>) else None)"

text \<open>What \<open>wl_run\<close> fills in after the joins.\<close>

definition wl_finish :: "plan \<Rightarrow> pool \<Rightarrow> wl_result" where
  "wl_finish su s =
     (let late = qsort cmp_double (p_late s); n = length late;
          c0 = of_nat (length (filter (\<lambda>r. shard r = 0) (take WL_TASKS (p_recs s)))) in
      \<lparr>queued = of_nat WL_TASKS, completed = p_completed s, shard0_count = c0,
       shard1_count = of_nat (length (filter (\<lambda>r. shard r \<noteq> 0) (take WL_TASKS (p_recs s)))),
       workers = pool su, pace_late_us = (if n \<noteq> 0 then late ! (n div 2) else 0), records = p_recs s\<rparr>)"

text \<open>
  \<open>wl_run\<close> as a whole, on the execution given by the time at which the dispatcher first reads the clock and a
  schedule of the threads: \<open>None\<close> when the schedule is not an execution up to the return of \<open>wl_run\<close>.
\<close>

definition wl_run :: "wl_config \<Rightarrow> clong \<Rightarrow> ulong \<times> pact list \<Rightarrow> wl_record list \<Rightarrow> wl_result option" where
  "wl_run cfg online ex recs =
     (case wl_plan cfg online of None \<Rightarrow> None
      | Some su \<Rightarrow> (case pool_start recs (fst ex) of None \<Rightarrow> None
         | Some s0 \<Rightarrow> (case exec (pool_step su) s0 (snd ex) of None \<Rightarrow> None
            | Some s \<Rightarrow> if p_disp s = DDone then Some (wl_finish su s) else None)))"

end
