(* ===== verification/Pool_Inv.thy ===== *)
theory Pool_Inv
  imports Pool
begin

text \<open>
  The invariant of the pool: where every task is, what its record says, who sleeps and who may not sleep.
\<close>

section \<open>What a program point says\<close>

text \<open>How many tasks have been pushed; how many records stamped; which queues are closed.\<close>

fun next_task :: "dpc \<Rightarrow> nat" where
  "next_task (DTop i) = i" | "next_task (DBurst i e) = i" | "next_task (DBurstEnd i) = i" | "next_task (DPace i) = i"
| "next_task (DSleep i) = i" | "next_task (DLate i n) = i" | "next_task (DWrite i b) = i" | "next_task (DPush i b) = i"
| "next_task (DAsleep i b) = i" | "next_task p = WL_TASKS"

fun pushing :: "dpc \<Rightarrow> nat option" where
  "pushing (DPush i b) = Some i" | "pushing (DAsleep i b) = Some i" | "pushing p = None"

fun closed_by :: "dpc \<Rightarrow> nat \<Rightarrow> bool" where
  "closed_by (DClose k) j \<longleftrightarrow> j < k" | "closed_by (DJoin t) j \<longleftrightarrow> True" | "closed_by DDone j \<longleftrightarrow> True"
| "closed_by p j \<longleftrightarrow> False"

fun late_max :: "dpc \<Rightarrow> nat" where
  "late_max (DWrite i None) = Suc i" | "late_max (DPush i None) = Suc i" | "late_max (DAsleep i None) = Suc i"
| "late_max p = next_task p"

fun burst_ok :: "nat \<Rightarrow> nat option \<Rightarrow> bool" where
  "burst_ok i None \<longleftrightarrow> i < WL_TASKS" | "burst_ok i (Some e) \<longleftrightarrow> i < e \<and> e \<le> WL_TASKS"

fun joined :: "plan \<Rightarrow> dpc \<Rightarrow> nat" where
  "joined su (DJoin t) = t" | "joined su DDone = total_workers su" | "joined su p = 0"

fun disp_ok :: "dpc \<Rightarrow> bool" where
  "disp_ok (DTop i) \<longleftrightarrow> i \<le> WL_TASKS" | "disp_ok (DBurst i e) \<longleftrightarrow> i \<le> e \<and> e \<le> WL_TASKS"
| "disp_ok (DBurstEnd i) \<longleftrightarrow> i \<le> WL_TASKS" | "disp_ok (DPace i) \<longleftrightarrow> i < WL_TASKS" | "disp_ok (DSleep i) \<longleftrightarrow> i < WL_TASKS"
| "disp_ok (DLate i n) \<longleftrightarrow> i < WL_TASKS" | "disp_ok (DWrite i b) \<longleftrightarrow> burst_ok i b" | "disp_ok (DPush i b) \<longleftrightarrow> burst_ok i b"
| "disp_ok (DAsleep i b) \<longleftrightarrow> burst_ok i b" | "disp_ok (DClose k) \<longleftrightarrow> k < 2" | "disp_ok p \<longleftrightarrow> True"

text \<open>The task a worker has, and how far its record is stamped: 0 ready, 1 started, 2 ended.\<close>

fun task_of :: "wkpc \<Rightarrow> nat option" where
  "task_of (WGate i) = Some i" | "task_of (WStart i) = Some i" | "task_of (WLock i) = Some i"
| "task_of (WHold i e) = Some i" | "task_of (WBegin i) = Some i" | "task_of (WServe i e) = Some i"
| "task_of (WEnd i) = Some i" | "task_of (WCount i) = Some i" | "task_of p = None"

fun stage :: "wkpc \<Rightarrow> nat" where
  "stage (WGate i) = 0" | "stage (WStart i) = 0" | "stage (WCount i) = 2" | "stage p = 1"

fun has_gate :: "wkpc \<Rightarrow> bool" where
  "has_gate (WHold i e) = True" | "has_gate p = False"

definition stamped :: "plan \<Rightarrow> ulong \<Rightarrow> nat \<Rightarrow> nat \<Rightarrow> wl_record \<Rightarrow> bool" where
  "stamped su now st i r \<longleftrightarrow> (\<exists>n m e. n \<le> now \<and> m \<le> now \<and> e \<le> now \<and>
     (1 \<le> st \<longrightarrow> n \<le> m \<and> 0 < m) \<and> (2 \<le> st \<longrightarrow> m \<le> e) \<and>
     r = (task_record su (of_nat i) n)\<lparr>start_ns := if 1 \<le> st then m else 0, end_ns := if 2 \<le> st then e else 0\<rparr>)"

section \<open>The invariant\<close>

abbreviation dq :: "plan \<Rightarrow> nat \<Rightarrow> nat" where
  "dq su i \<equiv> task_queue (path su) (of_nat i)"

definition ids :: "pool \<Rightarrow> nat \<Rightarrow> nat list" where
  "ids s k = map unat (contents (p_q s k))"

definition plan_ok :: "plan \<Rightarrow> bool" where
  "plan_ok su \<longleftrightarrow> 0 < shard_workers su ! 0 \<and> (path su = WL_PATH_UNEVEN_PARTITION \<longrightarrow> 0 < shard_workers su ! 1)"

definition ctrl_inv :: "plan \<Rightarrow> pool \<Rightarrow> bool" where
  "ctrl_inv su s \<longleftrightarrow> disp_ok (p_disp s) \<and> (\<forall>k<2. ring_ok (p_q s k) \<and> capacity (p_q s k) = 64 \<and>
     (closed (p_q s k) \<longleftrightarrow> closed_by (p_disp s) k)) \<and>
     (\<forall>t\<ge>total_workers su. p_work s t = WPop) \<and> (\<forall>t. p_gate s = Some t \<longleftrightarrow> has_gate (p_work s t)) \<and>
     joined su (p_disp s) \<le> total_workers su \<and> (\<forall>t<joined su (p_disp s). p_work s t = WExit)"

text \<open>
  Where the tasks are: queued in one of two lists, finished, or with a thread; each of the first \<open>n\<close> tasks is in
  exactly one place.
\<close>

definition task_inv :: "plan \<Rightarrow> pool \<Rightarrow> bool" where
  "task_inv su s \<longleftrightarrow>
     tasks_ok (ids s 0) (ids s 1) (p_finished s) (\<lambda>t. task_of (p_work s t)) (next_task (p_disp s)) \<and>
     (\<forall>k<2. \<forall>i\<in>set (ids s k). dq su i = k)"

text \<open>Task \<open>i\<close> is somewhere, with its record stamped up to stage \<open>st\<close>.\<close>

inductive has_stage :: "pool \<Rightarrow> nat \<Rightarrow> nat \<Rightarrow> bool" for s where
  queued: "k < 2 \<Longrightarrow> i \<in> set (ids s k) \<Longrightarrow> has_stage s i 0"
| pushed: "pushing (p_disp s) = Some i \<Longrightarrow> has_stage s i 0"
| working: "task_of (p_work s t) = Some i \<Longrightarrow> st = stage (p_work s t) \<Longrightarrow> has_stage s i st"
| finished: "i \<in> set (p_finished s) \<Longrightarrow> has_stage s i 2"

definition rec_inv :: "plan \<Rightarrow> pool \<Rightarrow> bool" where
  "rec_inv su s \<longleftrightarrow> WL_TASKS \<le> length (p_recs s) \<and> 0 < p_now s \<and>
     (\<forall>i st. has_stage s i st \<longrightarrow> stamped su (p_now s) st i (p_recs s ! i))"

definition sleep_inv :: "plan \<Rightarrow> pool \<Rightarrow> bool" where
  "sleep_inv su s \<longleftrightarrow>
     (\<forall>t. p_work s t = WAsleep \<longrightarrow> \<not> closed (p_q s (worker_queue su t))) \<and>
     (\<forall>t. p_work s t = WExit \<longrightarrow> closed (p_q s (worker_queue su t)) \<and> count (p_q s (worker_queue su t)) = 0) \<and>
     (\<forall>k<2. count (p_q s k) \<noteq> 0 \<longrightarrow> (\<exists>t<total_workers su. worker_queue su t = k \<and> p_work s t \<noteq> WAsleep)) \<and>
     (\<forall>i b. p_disp s = DAsleep i b \<longrightarrow> tq_full (p_q s (dq su i)))"

definition sum_inv :: "pool \<Rightarrow> bool" where
  "sum_inv s \<longleftrightarrow> p_completed s = of_nat (length (p_finished s)) \<and> length (p_late s) \<le> late_max (p_disp s) \<and>
     (\<forall>i n. p_disp s = DLate i n \<longrightarrow> p_deadline s \<le> n)"

definition pool_inv :: "plan \<Rightarrow> pool \<Rightarrow> bool" where
  "pool_inv su s \<longleftrightarrow> ctrl_inv su s \<and> task_inv su s \<and> rec_inv su s \<and> sleep_inv su s \<and> sum_inv s"

definition pool_init :: "pool \<Rightarrow> bool" where
  "pool_init s \<longleftrightarrow> (\<exists>recs now. WL_TASKS \<le> length recs \<and> 0 < now \<and> pool_start recs now = Some s)"

lemma pool_inv_start: "pool_init s \<Longrightarrow> pool_inv su s"
proof -
  assume "pool_init s"
  then obtain recs now q where r: "WL_TASKS \<le> length recs" "0 < now" "tq_init 64 True [0, 0, 0] = Some q" and
    s: "s = \<lparr>p_q = (\<lambda>_. q), p_gate = None, p_completed = 0, p_recs = recs, p_deadline = now,
          p_late = [], p_disp = DTop 0, p_work = (\<lambda>_. WPop), p_now = now, p_finished = []\<rparr>"
    by (auto simp: pool_init_def pool_start_def split: option.splits)
  have q: "ring_ok q" "contents q = []" "capacity q = 64" "\<not> closed q"
    using ring_ok_init [OF r(3)] r(3) by (auto simp: tq_init_def)
  then show ?thesis using r(1,2) s
    by (auto simp: pool_inv_def ctrl_inv_def task_inv_def rec_inv_def sleep_inv_def sum_inv_def ids_def separate_def tasks_ok_def has_stage.simps
        simp del: contents_empty simp: contents_empty [THEN iffD1])
qed

section \<open>The moves\<close>

text \<open>The dispatcher's moves that touch neither queues nor records.\<close>

definition quiet :: "plan \<Rightarrow> pool \<Rightarrow> dpc \<Rightarrow> ulong \<Rightarrow> double list \<Rightarrow> bool" where
  "quiet su s p d l \<longleftrightarrow> next_task p = next_task (p_disp s) \<and> closed_by p = closed_by (p_disp s) \<and> pushing p = None \<and>
     disp_ok p \<and> joined su p \<le> total_workers su \<and> (\<forall>t<joined su p. p_work s t = WExit) \<and>
     (length (p_late s) \<le> late_max (p_disp s) \<longrightarrow> length l \<le> late_max p) \<and> (\<forall>i n. p = DLate i n \<longrightarrow> d \<le> n)"

inductive pool_move :: "plan \<Rightarrow> pool \<Rightarrow> pool \<Rightarrow> bool" for su s where
  v_quiet: "quiet su s p d l \<Longrightarrow> pool_move su s (s\<lparr>p_disp := p, p_deadline := d, p_late := l\<rparr>)"
| v_write: "p_disp s = DWrite i b \<Longrightarrow>
    pool_move su s (s\<lparr>p_recs := (p_recs s)[i := task_record su (of_nat i) (p_now s)], p_disp := DPush i b\<rparr>)"
| v_full: "p_disp s = DPush i b \<Longrightarrow> tq_full (p_q s (dq su i)) \<Longrightarrow> pool_move su s (s\<lparr>p_disp := DAsleep i b\<rparr>)"
| v_put: "p_disp s = DPush i b \<Longrightarrow> k = dq su i \<Longrightarrow> \<not> tq_full (p_q s k) \<Longrightarrow>
    sleepers su s k = [] \<and> wk = p_work s \<or> (\<exists>t\<in>set (sleepers su s k). wk = (p_work s)(t := WPop)) \<Longrightarrow>
    pool_move su s (s\<lparr>p_q := (p_q s)(k := tq_put (of_nat i) (p_q s k)), p_disp := dispatched i b, p_work := wk\<rparr>)"
| v_close: "p_disp s = DClose k \<Longrightarrow>
    pool_move su s (s\<lparr>p_q := (p_q s)(k := tq_close (p_q s k)),
      p_work := (\<lambda>t. if p_work s t = WAsleep \<and> worker_queue su t = k then WPop else p_work s t),
      p_disp := (if k = 0 then DClose 1 else DJoin 0)\<rparr>)"
| v_sleep: "t < total_workers su \<Longrightarrow> p_work s t = WPop \<Longrightarrow> count (p_q s (worker_queue su t)) = 0 \<Longrightarrow>
    \<not> closed (p_q s (worker_queue su t)) \<Longrightarrow> pool_move su s (s\<lparr>p_work := (p_work s)(t := WAsleep)\<rparr>)"
| v_exit: "t < total_workers su \<Longrightarrow> p_work s t = WPop \<Longrightarrow> count (p_q s (worker_queue su t)) = 0 \<Longrightarrow>
    closed (p_q s (worker_queue su t)) \<Longrightarrow> pool_move su s (s\<lparr>p_work := (p_work s)(t := WExit)\<rparr>)"
| v_take: "t < total_workers su \<Longrightarrow> p_work s t = WPop \<Longrightarrow> k = worker_queue su t \<Longrightarrow> count (p_q s k) \<noteq> 0 \<Longrightarrow>
    d = p_disp s \<and> (\<forall>i b. d = DAsleep i b \<longrightarrow> dq su i \<noteq> k) \<or> (\<exists>i b. p_disp s = DAsleep i b \<and> d = DPush i b) \<Longrightarrow>
    pool_move su s (s\<lparr>p_q := (p_q s)(k := snd (tq_take (p_q s k))),
      p_work := (p_work s)(t := WGate (unat (fst (tq_take (p_q s k))))), p_disp := d\<rparr>)"
| v_work: "t < total_workers su \<Longrightarrow> task_of (p_work s t) = Some i \<Longrightarrow> task_of p = Some i \<Longrightarrow> stage p = stage (p_work s t) \<Longrightarrow>
    \<not> has_gate p \<and> \<not> has_gate (p_work s t) \<and> g = p_gate s \<or> p_gate s = None \<and> has_gate p \<and> g = Some t \<or>
      has_gate (p_work s t) \<and> \<not> has_gate p \<and> g = None \<Longrightarrow>
    pool_move su s (s\<lparr>p_gate := g, p_work := (p_work s)(t := p)\<rparr>)"
| v_start: "t < total_workers su \<Longrightarrow> p_work s t = WStart i \<Longrightarrow> p = WLock i \<or> p = WBegin i \<Longrightarrow>
    pool_move su s (s\<lparr>p_recs := (p_recs s)[i := (p_recs s ! i)\<lparr>start_ns := p_now s\<rparr>], p_work := (p_work s)(t := p)\<rparr>)"
| v_end: "t < total_workers su \<Longrightarrow> p_work s t = WEnd i \<Longrightarrow>
    pool_move su s (s\<lparr>p_recs := (p_recs s)[i := (p_recs s ! i)\<lparr>end_ns := p_now s\<rparr>], p_work := (p_work s)(t := WCount i)\<rparr>)"
| v_count: "t < total_workers su \<Longrightarrow> p_work s t = WCount i \<Longrightarrow>
    pool_move su s (s\<lparr>p_completed := p_completed s + 1, p_finished := p_finished s @ [i], p_work := (p_work s)(t := WPop)\<rparr>)"
| v_wake_disp: "p_disp s = DAsleep i b \<Longrightarrow> pool_move su s (s\<lparr>p_disp := DPush i b\<rparr>)"
| v_wake: "t < total_workers su \<Longrightarrow> p_work s t = WAsleep \<Longrightarrow> pool_move su s (s\<lparr>p_work := (p_work s)(t := WPop)\<rparr>)"
| v_tick: "p_now s \<le> n \<Longrightarrow> pool_move su s (s\<lparr>p_now := n\<rparr>)"

lemmas pool_updates = dgoto_def wgo_to_def set_queue_def set_record_def Let_def

text \<open>The quiet move of the dispatcher, given the next point and what it does to \<open>deadline\<close> and \<open>late\<close>.\<close>

lemma quietI:
  "quiet su s p d l \<Longrightarrow> s' = s\<lparr>p_disp := p, p_deadline := d, p_late := l\<rparr> \<Longrightarrow> pool_move su s s'"
  using v_quiet by blast

lemma disp_move:
  assumes ctrl: "ctrl_inv su s" and st: "disp_go su w (p_disp s) s = Some s'"
  shows "pool_move su s s'"
proof -
  have ok: "disp_ok (p_disp s)" and jn: "joined su (p_disp s) \<le> total_workers su"
    "\<forall>t<joined su (p_disp s). p_work s t = WExit"
    using ctrl by (auto simp: ctrl_inv_def)
  have q: "quiet su s p dl l" if "p_disp s = d" "next_task p = next_task d" "closed_by p = closed_by d" "pushing p = None"
    "disp_ok p" "joined su p = 0" "length (p_late s) \<le> late_max d \<longrightarrow> length l \<le> late_max p" "\<forall>i n. p = DLate i n \<longrightarrow> dl \<le> n" for p d dl l
    using that by (simp add: quiet_def)
  have cb: "closed_by (DClose 0) = (\<lambda>_. False)" "closed_by (DTop i) = (\<lambda>_. False)" "closed_by (DPace i) = (\<lambda>_. False)"
    "closed_by (DBurst i e) = (\<lambda>_. False)" "closed_by (DBurstEnd i) = (\<lambda>_. False)" "closed_by (DSleep i) = (\<lambda>_. False)"
    "closed_by (DLate i n) = (\<lambda>_. False)" "closed_by (DWrite i b) = (\<lambda>_. False)" "closed_by (DJoin i) = (\<lambda>_. True)"
    "closed_by DDone = (\<lambda>_. True)" for i e n b
    by (auto simp: fun_eq_iff)
  show ?thesis
  proof (cases "p_disp s")
    case (DTop i)
    let ?p = "if \<not> i < WL_TASKS then DClose 0
      else if path su = WL_PATH_BURST_ARRIVAL \<and> i mod WL_BURST_PERIOD = 0 then DBurst i (min (i + WL_BURST_SIZE) WL_TASKS)
      else DPace i"
    have "s' = s\<lparr>p_disp := ?p, p_deadline := p_deadline s, p_late := p_late s\<rparr>"
      using st DTop by (auto simp: dgoto_def)
    moreover have "quiet su s ?p (p_deadline s) (p_late s)" by (rule q [OF DTop]) (use ok DTop cb in auto)
    ultimately show ?thesis by (rule quietI [rotated])
  next
    case (DBurst i e)
    let ?p = "if i < e then DWrite i (Some e) else DBurstEnd i"
    have "s' = s\<lparr>p_disp := ?p, p_deadline := p_deadline s, p_late := p_late s\<rparr>"
      using st DBurst by (auto simp: dgoto_def)
    moreover have "quiet su s ?p (p_deadline s) (p_late s)" by (rule q [OF DBurst]) (use ok DBurst cb in auto)
    ultimately show ?thesis by (rule quietI [rotated])
  next
    case (DBurstEnd i)
    have "s' = s\<lparr>p_disp := DTop i, p_deadline := p_now s, p_late := p_late s\<rparr>"
      using st DBurstEnd by (auto simp: dgoto_def)
    moreover have "quiet su s (DTop i) (p_now s) (p_late s)" by (rule q [OF DBurstEnd]) (use ok DBurstEnd cb in auto)
    ultimately show ?thesis by (rule quietI [rotated])
  next
    case (DPace i)
    let ?p = "if p_now s < p_deadline s + gap_ns su then DSleep i else DLate i (p_now s)"
    have "s' = s\<lparr>p_disp := ?p, p_deadline := p_deadline s + gap_ns su, p_late := p_late s\<rparr>"
      using st DPace by (auto simp: dgoto_def Let_def)
    moreover have "quiet su s ?p (p_deadline s + gap_ns su) (p_late s)" by (rule q [OF DPace]) (use ok DPace cb in auto)
    ultimately show ?thesis by (rule quietI [rotated])
  next
    case (DSleep i)
    have "s' = s\<lparr>p_disp := DLate i (p_now s), p_deadline := p_deadline s, p_late := p_late s\<rparr>"
      using st DSleep by (auto simp: dgoto_def split: if_splits)
    moreover have "quiet su s (DLate i (p_now s)) (p_deadline s) (p_late s)" by (rule q [OF DSleep]) (use ok DSleep cb st in \<open>auto split: if_splits\<close>)
    ultimately show ?thesis by (rule quietI [rotated])
  next
    case (DLate i n)
    let ?l = "p_late s @ [ddiv (double_of (unat (n - p_deadline s))) 1000]"
    let ?d = "if n > p_deadline s + 2 * gap_ns su then n else p_deadline s"
    have "s' = s\<lparr>p_disp := DWrite i None, p_deadline := ?d, p_late := ?l\<rparr>"
      using st DLate by (auto simp: dgoto_def Let_def)
    moreover have "quiet su s (DWrite i None) ?d ?l" by (rule q [OF DLate]) (use ok DLate cb in auto)
    ultimately show ?thesis by (rule quietI [rotated])
  next
    case (DWrite i b)
    then show ?thesis using st v_write [OF DWrite] by (auto simp: pool_updates)
  next
    case (DPush i b)
    show ?thesis
    proof (cases "tq_full (p_q s (dq su i))")
      case True
      then show ?thesis using st DPush v_full [OF DPush] by (auto simp: pool_updates)
    next
      case False
      then show ?thesis
        using st DPush v_put [OF DPush refl, where wk = "p_work s"] v_put [OF DPush refl, where wk = "(p_work s)(the w := WPop)"]
        by (auto simp: pool_updates signal_not_empty_def sleepers_def split: option.splits if_splits)
    qed
  next
    case (DClose k)
    have "s' = s\<lparr>p_q := (p_q s)(k := tq_close (p_q s k)),
        p_work := (\<lambda>t. if p_work s t = WAsleep \<and> worker_queue su t = k then WPop else p_work s t),
        p_disp := (if k = 0 then DClose 1 else DJoin 0)\<rparr>"
      using st DClose by (simp add: pool_updates broadcast_not_empty_def cong: if_cong)
    then show ?thesis using v_close [OF DClose] by simp
  next
    case (DJoin t)
    let ?p = "if \<not> t < total_workers su then DDone else DJoin (Suc t)"
    have "s' = s\<lparr>p_disp := ?p, p_deadline := p_deadline s, p_late := p_late s\<rparr>" and
      t: "\<not> t < total_workers su \<or> p_work s t = WExit"
      using st DJoin by (auto simp: dgoto_def split: if_splits)
    moreover have "quiet su s ?p (p_deadline s) (p_late s)"
      using jn DJoin t cb by (auto simp: quiet_def less_Suc_eq)
    ultimately show ?thesis by (intro quietI [where l = "p_late s" and d = "p_deadline s"])
  qed (use st in auto)
qed

lemma work_move:
  assumes st: "work_go su t (p_work s t) s = Some s'" and t: "t < total_workers su"
  shows "pool_move su s s'"
proof -
  have w: ?thesis if "task_of (p_work s t) = Some i" "task_of p = Some i" "stage p = stage (p_work s t)"
    "\<not> has_gate p" "\<not> has_gate (p_work s t)" "s' = wgo_to t p s" for p i
    using v_work [OF t that(1-3), where g = "p_gate s"] that(4-) by (simp add: wgo_to_def)
  show ?thesis
  proof (cases "p_work s t")
    case WPop
    let ?k = "worker_queue su t"
    show ?thesis
    proof (cases "count (p_q s ?k) = 0")
      case True
      then show ?thesis
        using st WPop v_sleep [OF t WPop True] v_exit [OF t WPop True] by (auto simp: pool_updates split: if_splits)
    next
      case False
      show ?thesis
      proof (cases "\<exists>i b. p_disp s = DAsleep i b \<and> dq su i = ?k")
        case True
        then obtain i b where "p_disp s = DAsleep i b" "dq su i = ?k" by blast
        then show ?thesis
          using st WPop False v_take [OF t WPop refl False, where d = "DPush i b"]
          by (auto simp: pool_updates signal_not_full_def split: prod.splits)
      next
        case nowake: False
        then show ?thesis
          using st WPop False v_take [OF t WPop refl False, where d = "p_disp s"]
          by (auto simp: pool_updates signal_not_full_def split: prod.splits dpc.splits)
      qed
    qed
  next
    case (WGate i)
    then show ?thesis using st by (intro w [where p = "WStart i" and i = i]) (auto split: if_splits)
  next
    case (WStart i)
    then show ?thesis using st v_start [OF t WStart] by (auto simp: pool_updates stamp_start_def split: if_splits)
  next
    case (WLock i)
    then show ?thesis
      using st v_work [OF t, where g = "Some t" and i = i and p = "WHold i (p_now s + of_nat WL_HOLD_US * 1000)"]
      by (auto simp: pool_updates split: if_splits)
  next
    case (WHold i e)
    then show ?thesis
      using st v_work [OF t, where g = None and i = i and p = "WEnd i"] by (auto simp: pool_updates split: if_splits)
  next
    case (WBegin i)
    then show ?thesis using st by (intro w [where i = i]) auto
  next
    case (WServe i e)
    then show ?thesis using st by (intro w [where p = "WEnd i" and i = i]) (auto split: if_splits)
  next
    case (WEnd i)
    then show ?thesis using st v_end [OF t WEnd] by (auto simp: pool_updates stamp_end_def)
  next
    case (WCount i)
    then show ?thesis using st v_count [OF t WCount] by (auto simp: pool_updates)
  qed (use st in auto)
qed

lemma pool_step_move:
  assumes ctrl: "ctrl_inv su s" and st: "pool_step su a s = Some s'"
  shows "pool_move su s s'"
proof (cases a)
  case (Disp w)
  then show ?thesis using st disp_move [OF ctrl] by simp
next
  case (Work t)
  then show ?thesis using st work_move by (auto split: if_splits)
next
  case WakeDisp
  then show ?thesis using st v_wake_disp by (auto simp: dgoto_def split: dpc.splits)
next
  case (WakeWork t)
  then show ?thesis using st v_wake by (auto simp: wgo_to_def split: if_splits)
next
  case (Tick n)
  then show ?thesis using st v_tick by (auto split: if_splits)
qed

end
