(* ===== verification/Pool_Steps.thy ===== *)
theory Pool_Steps
  imports Pool_Inv
begin

text \<open>Every move of the pool keeps its invariant.\<close>

section \<open>Control and sums\<close>

lemma dq_less_2: "dq su i < 2"
proof -
  have "unat (task_shard (of_nat i)) \<le> 1" by (simp add: task_shard_def)
  then show ?thesis by (simp add: task_queue_def)
qed

lemma worker_queue_less_2: "worker_queue su t < 2"
  by (simp add: worker_queue_def)

lemma has_gate_task: "has_gate p \<Longrightarrow> task_of p \<noteq> None"
  by (cases p) auto

lemma sleeper_facts: "t \<in> set (sleepers su s k) \<Longrightarrow> t < total_workers su \<and> p_work s t = WAsleep \<and> worker_queue su t = k"
  by (auto simp: sleepers_def)

lemma dispatched_facts:
  "burst_ok i b \<Longrightarrow> disp_ok (dispatched i b)" "next_task (dispatched i b) = Suc i" "pushing (dispatched i b) = None"
  "closed_by (dispatched i b) = closed_by (DPush i b)" "joined su (dispatched i b) = 0"
  "late_max (DPush i b) \<le> late_max (dispatched i b)"
  by (cases b; auto simp: fun_eq_iff)+

lemma dispatched_not_late [simp]: "dispatched i b \<noteq> DLate j n"
  by (cases b) auto

lemma gate_upd:
  assumes g: "\<forall>t. p_gate s = Some t \<longleftrightarrow> has_gate (p_work s t)"
    and "\<not> has_gate p \<and> \<not> has_gate (p_work s t) \<and> g = p_gate s \<or> p_gate s = None \<and> has_gate p \<and> g = Some t \<or>
      has_gate (p_work s t) \<and> \<not> has_gate p \<and> g = None"
  shows "g = Some u \<longleftrightarrow> has_gate (((p_work s)(t := p)) u)"
  using assms(2) g [rule_format, of u] g [rule_format, of t] by (cases "u = t") auto

lemma ctrl_inv_move:
  assumes mv: "pool_move su s s'" and ok: "ctrl_inv su s"
  shows "ctrl_inv su s'"
proof -
  have q: "\<And>k. k < 2 \<Longrightarrow> ring_ok (p_q s k) \<and> capacity (p_q s k) = 64 \<and> (closed (p_q s k) \<longleftrightarrow> closed_by (p_disp s) k)"
    and d: "disp_ok (p_disp s)" and g: "\<forall>t. p_gate s = Some t \<longleftrightarrow> has_gate (p_work s t)"
    and w: "\<forall>t\<ge>total_workers su. p_work s t = WPop"
    and j: "joined su (p_disp s) \<le> total_workers su" "\<forall>t<joined su (p_disp s). p_work s t = WExit"
    using ok by (auto simp: ctrl_inv_def)
  show ?thesis using mv
  proof cases
    case (v_quiet p dl l)
    then show ?thesis using q d g w j by (simp add: ctrl_inv_def quiet_def)
  next
    case (v_put i b k wk)
    have wk: "wk u = p_work s u \<or> p_work s u = WAsleep \<and> wk u = WPop \<and> u < total_workers su" for u
      using v_put(5) sleeper_facts by (cases "u = u") (auto split: if_splits)
    have "ring_ok (tq_put (of_nat i) (p_q s k))" using put_correct(1) q v_put dq_less_2 by metis
    moreover have "has_gate (wk u) = has_gate (p_work s u)" for u using wk [of u] by auto
    moreover have "wk u = WPop" if "total_workers su \<le> u" for u using wk [of u] w that by auto
    ultimately show ?thesis
      using v_put q d g dispatched_facts by (auto simp: ctrl_inv_def)
  next
    case (v_close k)
    have "has_gate (if p_work s u = WAsleep \<and> worker_queue su u = k then WPop else p_work s u) = has_gate (p_work s u)" for u
      by auto
    then show ?thesis using v_close q d g w by (auto simp: ctrl_inv_def less_2_cases_iff)
  next
    case (v_take t k dd)
    have "k < 2" using v_take worker_queue_less_2 by metis
    then have "ring_ok (snd (tq_take (p_q s k)))" using take_correct(1) q v_take by metis
    moreover have "dd = p_disp s \<or> (\<exists>i b. p_disp s = DAsleep i b \<and> dd = DPush i b)" using v_take by blast
    ultimately show ?thesis using v_take q d g w j by (auto simp: ctrl_inv_def)
  next
    case (v_work t i p gg)
    have "gg = Some u \<longleftrightarrow> has_gate (((p_work s)(t := p)) u)" for u by (rule gate_upd [OF g v_work(6)])
    moreover have "\<forall>u<joined su (p_disp s). ((p_work s)(t := p)) u = WExit" using j(2) v_work(3) by auto
    ultimately show ?thesis using v_work q d w j(1) by (simp add: ctrl_inv_def)
  qed (use q d g w j in \<open>auto simp: ctrl_inv_def\<close>)
qed

lemma late_max_awake [simp]: "late_max (DAsleep i b) = late_max (DPush i b)"
  by (cases b) auto

lemma sum_inv_move:
  assumes mv: "pool_move su s s'" and ctrl: "ctrl_inv su s" and ok: "sum_inv s"
  shows "sum_inv s'"
proof -
  have d: "disp_ok (p_disp s)" using ctrl by (simp add: ctrl_inv_def)
  show ?thesis using mv
  proof cases
    case (v_quiet p dl l)
    then show ?thesis using ok by (simp add: sum_inv_def quiet_def)
  next
    case (v_write i b)
    then show ?thesis using ok by (cases b) (auto simp: sum_inv_def)
  next
    case (v_full i b)
    then show ?thesis using ok by (cases b) (auto simp: sum_inv_def)
  next
    case (v_put i b k wk)
    then show ?thesis using ok dispatched_facts(6) [of i b] by (auto simp: sum_inv_def)
  next
    case (v_take t k dd)
    then show ?thesis using ok by (auto simp: sum_inv_def)
  next
    case (v_wake_disp i b)
    then show ?thesis using ok by (cases b) (auto simp: sum_inv_def)
  qed (use ok in \<open>auto simp: sum_inv_def\<close>)
qed

section \<open>Where the tasks are\<close>

lemma ids_other: "p_q s' k = p_q s k \<Longrightarrow> ids s' k = ids s k"
  by (simp add: ids_def)

lemma task_inv_same:
  assumes "task_inv su s" and "p_q s' = p_q s" and "p_finished s' = p_finished s"
    and "\<And>t. task_of (p_work s' t) = task_of (p_work s t)" and "next_task (p_disp s') = next_task (p_disp s)"
  shows "task_inv su s'"
  using assms by (simp add: task_inv_def ids_def)

lemma task_inv_move:
  assumes mv: "pool_move su s s'" and ctrl: "ctrl_inv su s" and ok: "task_inv su s"
  shows "task_inv su s'"
  using mv
proof cases
  case (v_quiet p dl l)
  then show ?thesis by (intro task_inv_same [OF ok]) (auto simp: quiet_def)
next
  case (v_put i b k wk)
  have d: "disp_ok (p_disp s)" using ctrl by (simp add: ctrl_inv_def)
  then have "i < WL_TASKS" using v_put(2) by (cases b) auto
  then have ui: "unat (of_nat i :: uint) = i" by (simp add: unat_of_nat take_bit_nat_eq_self)
  have k: "k < 2" using dq_less_2 v_put(3) by simp
  then have "ring_ok (p_q s k)" using ctrl by (simp add: ctrl_inv_def)
  then have ik: "ids s' k = ids s k @ [i]" using put_correct(2) v_put(1,4) ui by (simp add: ids_def)
  have io: "ids s' j = ids s j" if "j \<noteq> k" for j using v_put(1) that by (intro ids_other) simp
  have "wk u = p_work s u \<or> p_work s u = WAsleep \<and> wk u = WPop" for u
    using v_put(5) sleeper_facts by (cases "u = u") (auto split: if_splits)
  then have "task_of (wk u) = task_of (p_work s u)" for u by (metis task_of.simps(9,10))
  then have T: "task_of (p_work s' u) = task_of (p_work s u)" for u using v_put(1) by simp
  have n: "next_task (p_disp s') = Suc i" "next_task (p_disp s) = i" "p_finished s' = p_finished s"
    using v_put(1,2) dispatched_facts(2) by auto
  have old: "tasks_ok (ids s 0) (ids s 1) (p_finished s) (\<lambda>t. task_of (p_work s t)) i"
    "\<forall>k<2. \<forall>i\<in>set (ids s k). dq su i = k"
    using ok n(2) by (auto simp: task_inv_def)
  have "tasks_ok (ids s' 0) (ids s' 1) (p_finished s) (\<lambda>t. task_of (p_work s t)) (Suc i)"
  proof (cases "k = 0")
    case True
    then show ?thesis using tasks_put [OF old(1)] ik io by simp
  next
    case False
    then have "k = 1" using k by simp
    then show ?thesis using tasks_put [OF old(1) [unfolded tasks_swap [of "ids s 0"]]] ik io
      by (simp add: tasks_swap [of "ids s 0"])
  qed
  moreover have "\<forall>j<2. \<forall>x\<in>set (ids s' j). dq su x = j" using old(2) ik io v_put(3) by (metis Un_iff empty_iff insert_iff list.set set_append)
  ultimately show ?thesis by (simp add: task_inv_def T n)
next
  case (v_close k)
  have "ids s' j = ids s j" for j using v_close(1) by (simp add: ids_def)
  moreover have "task_of (p_work s' u) = task_of (p_work s u)" for u using v_close(1) by auto
  moreover have "next_task (p_disp s') = next_task (p_disp s)" "p_finished s' = p_finished s" using v_close by auto
  ultimately show ?thesis using ok by (simp add: task_inv_def)
next
  case (v_take t k d)
  let ?x = "unat (fst (tq_take (p_q s k)))"
  have k: "k < 2" using v_take worker_queue_less_2 by metis
  then have "ring_ok (p_q s k)" using ctrl by (simp add: ctrl_inv_def)
  then have ik: "ids s k = ?x # ids s' k" using take_correct(2) [OF _ v_take(5)] v_take(1) by (simp add: ids_def)
  have io: "ids s' j = ids s j" if "j \<noteq> k" for j using v_take(1) that by (intro ids_other) simp
  have T: "(\<lambda>u. task_of (p_work s' u)) = (\<lambda>u. task_of (p_work s u))(t := Some ?x)"
    using v_take(1) by (auto simp: fun_eq_iff)
  have n: "next_task (p_disp s') = next_task (p_disp s)" "p_finished s' = p_finished s" using v_take(1,6) by auto
  have t: "task_of (p_work s t) = None" using v_take(3) by simp
  have old: "tasks_ok (ids s 0) (ids s 1) (p_finished s) (\<lambda>t. task_of (p_work s t)) (next_task (p_disp s))"
    "\<forall>k<2. \<forall>i\<in>set (ids s k). dq su i = k"
    using ok by (auto simp: task_inv_def)
  have "tasks_ok (ids s' 0) (ids s' 1) (p_finished s) (\<lambda>u. task_of (p_work s' u)) (next_task (p_disp s))"
  proof (cases "k = 0")
    case True
    then show ?thesis using tasks_take [OF _ t T] old(1) ik io by simp
  next
    case False
    then have "k = 1" using k by simp
    then show ?thesis using tasks_take [OF _ t T] old(1) ik io by (simp add: tasks_swap [of "ids s 0"])
  qed
  moreover have "\<forall>j<2. \<forall>x\<in>set (ids s' j). dq su x = j" using old(2) ik io by (metis list.set_intros(2))
  ultimately show ?thesis by (simp add: task_inv_def n)
next
  case (v_count t i)
  have "tasks_ok (ids s 0) (ids s 1) (p_finished s @ [i]) ((\<lambda>u. task_of (p_work s u))(t := None)) (next_task (p_disp s))"
    using ok v_count(3) by (intro tasks_finish [OF _ _ refl]) (auto simp: task_inv_def)
  moreover have "(\<lambda>u. task_of (p_work s' u)) = (\<lambda>u. task_of (p_work s u))(t := None)"
    using v_count(1) by (auto simp: fun_eq_iff)
  ultimately show ?thesis using ok v_count(1) by (simp add: task_inv_def ids_def)
next
  case (v_write i b)
  then show ?thesis by (intro task_inv_same [OF ok]) auto
next
  case (v_full i b)
  then show ?thesis by (intro task_inv_same [OF ok]) auto
next
  case (v_wake_disp i b)
  then show ?thesis by (intro task_inv_same [OF ok]) auto
next
  case (v_tick n)
  then show ?thesis by (intro task_inv_same [OF ok]) auto
next
  case (v_start t i p)
  then show ?thesis by (intro task_inv_same [OF ok]) auto
qed (intro task_inv_same [OF ok]; simp)+

section \<open>What the records say\<close>

lemma stamped_mono:
  assumes "stamped su now st i r" and "now \<le> now'"
  shows "stamped su now' st i r"
proof -
  have le: "x \<le> now'" if "x \<le> now" for x using that assms(2) by (rule order_trans)
  obtain n m e where "n \<le> now" "m \<le> now" "e \<le> now" and
    "(1 \<le> st \<longrightarrow> n \<le> m \<and> 0 < m) \<and> (2 \<le> st \<longrightarrow> m \<le> e) \<and>
       r = (task_record su (of_nat i) n)\<lparr>start_ns := if 1 \<le> st then m else 0, end_ns := if 2 \<le> st then e else 0\<rparr>"
    using assms(1) unfolding stamped_def by blast
  then show ?thesis unfolding stamped_def using le by blast
qed

lemma stamped_ready: "stamped su now 0 i (task_record su (of_nat i) now)"
  unfolding stamped_def by (rule exI [of _ now])+ (simp add: task_record_def)

lemma stamped_started:
  assumes "stamped su now 0 i r" and "0 < now"
  shows "stamped su now 1 i (r\<lparr>start_ns := now\<rparr>)"
proof -
  obtain n where "n \<le> now" "r = (task_record su (of_nat i) n)\<lparr>start_ns := 0, end_ns := 0\<rparr>"
    using assms(1) by (auto simp: stamped_def)
  then show ?thesis using assms(2) unfolding stamped_def by (intro exI [of _ n] exI [of _ now]) simp
qed

lemma stamped_ended:
  assumes "stamped su now 1 i r"
  shows "stamped su now 2 i (r\<lparr>end_ns := now\<rparr>)"
proof -
  obtain n m where "n \<le> now" "m \<le> now" "n \<le> m" "0 < m" "r = (task_record su (of_nat i) n)\<lparr>start_ns := m, end_ns := 0\<rparr>"
    using assms by (auto simp: stamped_def)
  then show ?thesis unfolding stamped_def by (intro exI [of _ n] exI [of _ m] exI [of _ now]) simp
qed

lemma rec_inv_same:
  assumes "rec_inv su s" and "p_recs s' = p_recs s" and "p_now s \<le> p_now s'"
    and "\<And>j st. has_stage s' j st \<Longrightarrow> has_stage s j st"
  shows "rec_inv su s'"
  unfolding rec_inv_def
proof (intro conjI allI impI)
  show "WL_TASKS \<le> length (p_recs s')" using assms(1,2) by (simp add: rec_inv_def)
  show "0 < p_now s'" using assms(1,3) by (auto simp: rec_inv_def)
  show "stamped su (p_now s') st i (p_recs s' ! i)" if "has_stage s' i st" for i st
    using assms(1) assms(4) [OF that] assms(3) stamped_mono unfolding assms(2) rec_inv_def by blast
qed

lemma rec_inv_upd:
  assumes "rec_inv su s" and "p_recs s' = (p_recs s)[i := r]" and "p_now s' = p_now s"
    and "i < length (p_recs s)" and "stamped su (p_now s) m i r"
    and "\<And>j st. has_stage s' j st \<Longrightarrow> j = i \<and> st = m \<or> j \<noteq> i \<and> has_stage s j st"
  shows "rec_inv su s'"
  unfolding rec_inv_def
proof (intro conjI allI impI)
  show "WL_TASKS \<le> length (p_recs s')" "0 < p_now s'" using assms(1-3) by (simp_all add: rec_inv_def)
  show "stamped su (p_now s') st j (p_recs s' ! j)" if "has_stage s' j st" for j st
    using assms(1,4,5) assms(6) [OF that] unfolding assms(2,3) rec_inv_def by auto
qed

text \<open>A placed task is below \<open>next_task\<close>, or is being pushed; a worker's task is nowhere else.\<close>

lemma has_stage_below:
  assumes ok: "task_inv su s" and "has_stage s j st"
  shows "j < next_task (p_disp s) \<or> pushing (p_disp s) = Some j"
  using assms(2)
proof cases
  case (queued k)
  then have "j \<in> set (ids s 0) \<or> j \<in> set (ids s 1)" by (auto simp: less_2_cases_iff)
  then show ?thesis using ok unfolding task_inv_def tasks_ok_def by auto
qed (use ok in \<open>auto simp: task_inv_def tasks_ok_def\<close>)

lemma pushing_next: "pushing p = Some i \<Longrightarrow> next_task p = i"
  by (cases p) auto

lemma has_stage_owner:
  assumes ok: "task_inv su s" and t: "task_of (p_work s t) = Some i" and st: "has_stage s i st"
  shows "st = stage (p_work s t)" and "task_of (p_work s u) = Some i \<Longrightarrow> u = t"
    and "i \<notin> set (p_finished s)" and "k < 2 \<Longrightarrow> i \<notin> set (ids s k)" and "pushing (p_disp s) \<noteq> Some i"
proof -
  have tk: "separate (\<lambda>t. task_of (p_work s t))" "i \<notin> set (ids s 0 @ ids s 1 @ p_finished s)" "i < next_task (p_disp s)"
    using ok t unfolding task_inv_def tasks_ok_def by blast+
  show u: "u = t" if "task_of (p_work s u) = Some i" for u
    using owned_other [of "\<lambda>t. task_of (p_work s t)", OF tk(1) t] that by blast
  show q: "i \<notin> set (ids s k)" if "k < 2" for k using tk(2) that by (auto simp: less_2_cases_iff)
  show f: "i \<notin> set (p_finished s)" using tk(2) by simp
  show p: "pushing (p_disp s) \<noteq> Some i" using tk(3) pushing_next by fastforce
  show "st = stage (p_work s t)" using st by cases (use u q f p in auto)
qed

text \<open>When only one worker moves, or only the dispatcher, the other tasks stay where they are.\<close>

lemma has_stage_work:
  assumes "has_stage s' j st" and "p_q s' = p_q s" "p_disp s' = p_disp s" "p_finished s' = p_finished s"
    and "p_work s' = (p_work s)(t := p)"
  shows "task_of p = Some j \<and> st = stage p \<or> has_stage s j st"
  using assms(1)
proof cases
  case (queued k)
  then show ?thesis using has_stage.queued [of k j s] assms(2) by (simp add: ids_def)
next
  case (working u)
  then show ?thesis using has_stage.working [of s u j st] assms(5) by (auto split: if_splits)
qed (use assms has_stage.intros in auto)

lemma has_stage_disp:
  assumes "has_stage s' j st" and "p_q s' = p_q s" "p_work s' = p_work s" "p_finished s' = p_finished s"
  shows "pushing (p_disp s') = Some j \<and> st = 0 \<or> has_stage s j st"
  using assms(1)
proof cases
  case (queued k)
  then show ?thesis using has_stage.queued [of k j s] assms(2) by (simp add: ids_def)
qed (use assms has_stage.intros in auto)

lemma rec_inv_work:
  assumes ok: "rec_inv su s" and "p_q s' = p_q s" "p_disp s' = p_disp s" "p_finished s' = p_finished s"
    and "p_work s' = (p_work s)(t := p)" and "p_recs s' = p_recs s" "p_now s' = p_now s"
    and "\<And>j. task_of p = Some j \<Longrightarrow> has_stage s j (stage p)"
  shows "rec_inv su s'"
  using has_stage_work [OF _ assms(2-5)] assms(6-8) by (intro rec_inv_same [OF ok]) (simp, simp, metis)

lemma rec_inv_stamp:
  assumes ok: "rec_inv su s" and task: "task_inv su s" and task': "task_inv su s'" and nt: "next_task (p_disp s) \<le> WL_TASKS"
    and s': "s' = s\<lparr>p_recs := (p_recs s)[i := r], p_work := (p_work s)(t := p)\<rparr>"
    and t: "task_of (p_work s t) = Some i" "task_of p = Some i"
    and r: "stamped su (p_now s) (stage p) i r"
  shows "rec_inv su s'"
proof (rule rec_inv_upd [OF ok, where i = i and r = r and m = "stage p"])
  have "i < next_task (p_disp s)" using task t(1) unfolding task_inv_def tasks_ok_def by blast
  then show "i < length (p_recs s)" using nt ok by (simp add: rec_inv_def)
  fix j st assume st: "has_stage s' j st"
  show "j = i \<and> st = stage p \<or> j \<noteq> i \<and> has_stage s j st"
  proof (cases "j = i")
    case True
    then show ?thesis using has_stage_owner(1) [OF task', of t] st s' t(2) by auto
  next
    case False
    then show ?thesis using has_stage_work [OF st, of s t p] s' t(2) by auto
  qed
qed (use s' r in auto)

lemma rec_inv_move:
  assumes mv: "pool_move su s s'" and ctrl: "ctrl_inv su s" and task: "task_inv su s" and task': "task_inv su s'" and ok: "rec_inv su s"
  shows "rec_inv su s'"
proof -
  have len: "WL_TASKS \<le> length (p_recs s)" and now: "0 < p_now s" using ok by (simp_all add: rec_inv_def)
  have at: "has_stage s j st \<Longrightarrow> stamped su (p_now s) st j (p_recs s ! j)" for j st using ok by (simp add: rec_inv_def)
  have nt: "next_task (p_disp s) \<le> WL_TASKS"
    using ctrl by (cases "p_disp s") (auto simp: ctrl_inv_def elim: burst_ok.elims)
  show ?thesis using mv
  proof cases
    case (v_quiet p dl l)
    then show ?thesis using has_stage_disp [of s' _ _ s] by (intro rec_inv_same [OF ok]) (auto simp: quiet_def)
  next
    case (v_write i b)
    show ?thesis
    proof (rule rec_inv_upd [OF ok, where i = i and m = 0])
      show "i < length (p_recs s)" using ctrl len v_write(2) by (cases b) (auto simp: ctrl_inv_def)
      show "stamped su (p_now s) 0 i (task_record su (of_nat i) (p_now s))" by (rule stamped_ready)
      show "j = i \<and> st = 0 \<or> j \<noteq> i \<and> has_stage s j st" if "has_stage s' j st" for j st
        using has_stage_disp [OF that, of s] has_stage_below [OF task, of j st] v_write by auto
    qed (use v_write in auto)
  next
    case (v_full i b)
    then show ?thesis using has_stage_disp [of s' _ _ s] has_stage.pushed [of s i] by (intro rec_inv_same [OF ok]) auto
  next
    case (v_wake_disp i b)
    then show ?thesis using has_stage_disp [of s' _ _ s] has_stage.pushed [of s i] by (intro rec_inv_same [OF ok]) auto
  next
    case (v_start t i p)
    have "stamped su (p_now s) 0 i (p_recs s ! i)" using has_stage.working [of s t i 0] v_start(3) by (intro at) simp
    from stamped_started [OF this now] show ?thesis
      using v_start by (intro rec_inv_stamp [OF ok task task' nt v_start(1)]) auto
  next
    case (v_end t i)
    have "stamped su (p_now s) 1 i (p_recs s ! i)" using has_stage.working [of s t i 1] v_end(3) by (intro at) simp
    from stamped_ended [OF this] show ?thesis
      using v_end by (intro rec_inv_stamp [OF ok task task' nt v_end(1)]) auto
  next
    case (v_put i b k wk)
    have d: "i < WL_TASKS" using ctrl v_put(2) by (cases b) (auto simp: ctrl_inv_def)
    then have ui: "unat (of_nat i :: uint) = i" by (simp add: unat_of_nat take_bit_nat_eq_self)
    have "ring_ok (p_q s k)" using ctrl dq_less_2 v_put(3) by (simp add: ctrl_inv_def)
    then have ik: "ids s' k = ids s k @ [i]" using put_correct(2) v_put(1,4) ui by (simp add: ids_def)
    have io: "ids s' j = ids s j" if "j \<noteq> k" for j using v_put(1) that by (intro ids_other) simp
    have wk: "wk u = p_work s u \<or> wk u = WPop" for u using v_put(5) by (cases "u = u") (auto split: if_splits)
    have "has_stage s j st" if "has_stage s' j st" for j st using that
    proof cases
      case (queued m)
      then have "j \<in> set (ids s m) \<or> j = i" using ik io by (cases "m = k") auto
      then show ?thesis using queued has_stage.queued [of m j s] has_stage.pushed [of s i] v_put(2) by auto
    next
      case (working u)
      then show ?thesis using wk [of u] has_stage.working [of s u j st] v_put(1) by auto
    qed (use v_put(1) dispatched_facts has_stage.finished in auto)
    then show ?thesis using v_put(1) by (intro rec_inv_same [OF ok]) auto
  next
    case (v_take t k d)
    have k: "k < 2" using v_take worker_queue_less_2 by metis
    then have "ring_ok (p_q s k)" using ctrl by (simp add: ctrl_inv_def)
    then have ik: "ids s k = unat (fst (tq_take (p_q s k))) # ids s' k"
      using take_correct(2) [OF _ v_take(5)] v_take(1) by (simp add: ids_def)
    have io: "ids s' j = ids s j" if "j \<noteq> k" for j using v_take(1) that by (intro ids_other) simp
    have "has_stage s j st" if "has_stage s' j st" for j st using that
    proof cases
      case (queued m)
      then have "j \<in> set (ids s m)" using ik io by (cases "m = k") auto
      then show ?thesis using queued has_stage.queued by simp
    next
      case pushed
      then show ?thesis using v_take(1,6) has_stage.pushed [of s j] by auto
    next
      case (working u)
      then show ?thesis
        using has_stage.working [of s u j st] has_stage.queued [of k j s] ik k v_take(1) by (auto split: if_splits)
    qed (use v_take(1) has_stage.finished in auto)
    then show ?thesis using v_take(1) by (intro rec_inv_same [OF ok]) auto
  next
    case (v_close k)
    have "has_stage s j st" if "has_stage s' j st" for j st using that
    proof cases
      case (queued m)
      then show ?thesis using has_stage.queued [of m j s] v_close(1) by (auto simp: ids_def split: if_splits)
    next
      case (working u)
      then show ?thesis using has_stage.working [of s u j st] v_close(1) by (auto split: if_splits)
    qed (use v_close has_stage.intros in \<open>auto split: if_splits\<close>)
    then show ?thesis using v_close(1) by (intro rec_inv_same [OF ok]) auto
  next
    case (v_tick n)
    then show ?thesis using has_stage_disp [of s' _ _ s] has_stage.pushed by (intro rec_inv_same [OF ok]) auto
  next
    case (v_count t i)
    have "has_stage s j st" if "has_stage s' j st" for j st using that
    proof cases
      case (queued m)
      then show ?thesis using has_stage.queued [of m j s] v_count(1) by (simp add: ids_def)
    next
      case (working u)
      then show ?thesis using has_stage.working [of s u j st] v_count(1) by (auto split: if_splits)
    next
      case finished
      then show ?thesis using has_stage.working [of s t i 2] has_stage.finished [of j s] v_count by auto
    qed (use v_count has_stage.pushed in auto)
    then show ?thesis using v_count(1) by (intro rec_inv_same [OF ok]) auto
  next
    case (v_work t i p g)
    then show ?thesis using has_stage.working [of s t i] by (intro rec_inv_work [OF ok]) auto
  next
    case (v_sleep t)
    then show ?thesis by (intro rec_inv_work [OF ok, where t = t and p = WAsleep]) auto
  next
    case (v_exit t)
    then show ?thesis by (intro rec_inv_work [OF ok, where t = t and p = WExit]) auto
  next
    case (v_wake t)
    then show ?thesis by (intro rec_inv_work [OF ok, where t = t and p = WPop]) auto
  qed
qed

section \<open>Who sleeps\<close>

text \<open>Every queue that gets tasks has a worker.\<close>

lemma queue_has_worker:
  assumes "plan_ok su"
  shows "\<exists>t<total_workers su. worker_queue su t = dq su i"
proof (cases "dq su i = 0")
  case True
  then show ?thesis using assms by (intro exI [of _ 0]) (simp add: plan_ok_def total_workers_def worker_queue_def)
next
  case False
  then have "dq su i = 1" "path su = WL_PATH_UNEVEN_PARTITION"
    using dq_less_2 [of su i] by (auto simp: task_queue_def split: if_splits)
  then show ?thesis using assms
    by (intro exI [of _ "shard_workers su ! 0"]) (simp add: plan_ok_def total_workers_def worker_queue_def)
qed

lemma queue_idle: "count q = 0 \<Longrightarrow> ring_ok q \<Longrightarrow> \<not> tq_full q"
  by (auto simp: tq_full_def ring_ok_def)

lemma sleep_inv_work:
  assumes ok: "sleep_inv su s" and s': "p_q s' = p_q s" "p_disp s' = p_disp s" "p_work s' = (p_work s)(t := p)"
    and "p = WAsleep \<Longrightarrow> \<not> closed (p_q s (worker_queue su t)) \<and> count (p_q s (worker_queue su t)) = 0"
    and "p = WExit \<Longrightarrow> closed (p_q s (worker_queue su t)) \<and> count (p_q s (worker_queue su t)) = 0"
  shows "sleep_inv su s'"
proof -
  have "\<exists>u<total_workers su. worker_queue su u = k \<and> p_work s' u \<noteq> WAsleep" if k: "k < 2" "count (p_q s k) \<noteq> 0" for k
  proof -
    obtain u where "u < total_workers su" "worker_queue su u = k" "p_work s u \<noteq> WAsleep"
      using ok k unfolding sleep_inv_def by blast
    then show ?thesis using assms(5) k s'(3) by (intro exI [of _ u]) auto
  qed
  then show ?thesis using ok s' assms(5,6) by (auto simp: sleep_inv_def)
qed

lemma sleep_inv_move:
  assumes mv: "pool_move su s s'" and plan: "plan_ok su" and ctrl: "ctrl_inv su s" and ok: "sleep_inv su s"
  shows "sleep_inv su s'"
proof -
  have as: "\<And>t. p_work s t = WAsleep \<Longrightarrow> \<not> closed (p_q s (worker_queue su t))"
    and ex: "\<And>t. p_work s t = WExit \<Longrightarrow> closed (p_q s (worker_queue su t)) \<and> count (p_q s (worker_queue su t)) = 0"
    and aw: "\<And>k. k < 2 \<Longrightarrow> count (p_q s k) \<noteq> 0 \<Longrightarrow> \<exists>t<total_workers su. worker_queue su t = k \<and> p_work s t \<noteq> WAsleep"
    and da: "\<And>i b. p_disp s = DAsleep i b \<Longrightarrow> tq_full (p_q s (dq su i))"
    using ok by (auto simp: sleep_inv_def)
  show ?thesis using mv
  proof cases
    case (v_put i b k wk)
    have k: "k < 2" using dq_less_2 v_put(3) by simp
    then have open_q: "\<not> closed (p_q s k)" using ctrl v_put(2) by (simp add: ctrl_inv_def)
    have wk: "wk u = p_work s u \<or> wk u = WPop" for u using v_put(5) by (cases "u = u") (auto split: if_splits)
    have awk: "\<exists>u<total_workers su. worker_queue su u = k \<and> wk u \<noteq> WAsleep"
    proof (cases "sleepers su s k = []")
      case True
      obtain u where "u < total_workers su" "worker_queue su u = k" using queue_has_worker [OF plan] v_put(3) by blast
      moreover have "p_work s u \<noteq> WAsleep" using True calculation by (auto simp: sleepers_def filter_empty_conv)
      ultimately show ?thesis using wk [of u] by (intro exI [of _ u]) auto
    next
      case False
      then obtain u where "u \<in> set (sleepers su s k)" "wk u = WPop" using v_put(5) by auto
      then show ?thesis using sleeper_facts by (intro exI [of _ u]) auto
    qed
    have "\<exists>u<total_workers su. worker_queue su u = j \<and> p_work s' u \<noteq> WAsleep" if j: "j < 2" "count (p_q s' j) \<noteq> 0" for j
    proof (cases "j = k")
      case True
      then show ?thesis using awk v_put(1) by simp
    next
      case False
      then show ?thesis using aw [of j] j wk v_put(1) by (auto, metis wkpc.distinct(1))
    qed
    moreover have "\<not> closed (p_q s' (worker_queue su u))" if "p_work s' u = WAsleep" for u
      using as [of u] wk [of u] that v_put(1) by auto
    moreover have "closed (p_q s' (worker_queue su u)) \<and> count (p_q s' (worker_queue su u)) = 0" if "p_work s' u = WExit" for u
      using ex [of u] wk [of u] that v_put(1) open_q by auto
    moreover have "p_disp s' \<noteq> DAsleep j c" for j c using v_put(1) by (cases b) auto
    ultimately show ?thesis by (simp add: sleep_inv_def)
  next
    case (v_take t k d)
    have "k < 2" using v_take worker_queue_less_2 by metis
    have "worker_queue su u = k \<Longrightarrow> p_work s u \<noteq> WExit" for u using ex [of u] v_take(5) by auto
    moreover have "tq_full (p_q s' (dq su i))" if "d = DAsleep i b" for i b
      using that v_take(1,6) da [of i b] by auto
    moreover have "\<exists>u<total_workers su. worker_queue su u = j \<and> p_work s' u \<noteq> WAsleep"
      if j: "j < 2" "count (p_q s' j) \<noteq> 0" for j
    proof (cases "j = k")
      case True
      then show ?thesis using v_take(1,2,4) by (intro exI [of _ t]) auto
    next
      case False
      then obtain u where "u < total_workers su" "worker_queue su u = j" "p_work s u \<noteq> WAsleep" using aw [of j] j v_take(1) by auto
      then show ?thesis using v_take(1) by (intro exI [of _ u]) auto
    qed
    ultimately show ?thesis using v_take(1) as ex by (auto simp: sleep_inv_def)
  next
    case (v_close k)
    have "\<exists>u<total_workers su. worker_queue su u = j \<and> p_work s' u \<noteq> WAsleep" if "j < 2" "count (p_q s j) \<noteq> 0" for j
      using aw [OF that] v_close(1) by auto
    moreover have "count (p_q s' j) = count (p_q s j)" for j using v_close(1) by auto
    ultimately show ?thesis using v_close(1) as ex by (auto simp: sleep_inv_def)
  next
    case (v_quiet p dl l)
    then have "p \<noteq> DAsleep i b" for i b by (auto simp: quiet_def)
    then show ?thesis using ok v_quiet(1) by (simp add: sleep_inv_def)
  next
    case (v_count t i)
    then show ?thesis by (intro sleep_inv_work [OF ok, where t = t and p = WPop]) auto
  next
    case (v_work t i p g)
    then show ?thesis by (intro sleep_inv_work [OF ok, where t = t and p = p]) auto
  next
    case (v_sleep t)
    then show ?thesis by (intro sleep_inv_work [OF ok, where t = t and p = WAsleep]) auto
  next
    case (v_exit t)
    then show ?thesis by (intro sleep_inv_work [OF ok, where t = t and p = WExit]) auto
  next
    case (v_wake t)
    then show ?thesis by (intro sleep_inv_work [OF ok, where t = t and p = WPop]) auto
  next
    case (v_start t i p)
    then show ?thesis by (intro sleep_inv_work [OF ok, where t = t and p = p]) auto
  next
    case (v_end t i)
    then show ?thesis by (intro sleep_inv_work [OF ok, where t = t and p = "WCount i"]) auto
  qed (use ok in \<open>auto simp: sleep_inv_def\<close>)
qed

section \<open>The invariant\<close>

lemma pool_inv_step:
  assumes "plan_ok su" and "step_of (pool_step su) s s'" and ok: "pool_inv su s"
  shows "pool_inv su s'"
proof -
  have parts: "ctrl_inv su s" "task_inv su s" "rec_inv su s" "sleep_inv su s" "sum_inv s"
    using ok by (simp_all add: pool_inv_def)
  have mv: "pool_move su s s'" using assms(2) pool_step_move [OF parts(1)] by blast
  have task': "task_inv su s'" by (rule task_inv_move [OF mv parts(1,2)])
  show ?thesis unfolding pool_inv_def
    using ctrl_inv_move [OF mv parts(1)] task' rec_inv_move [OF mv parts(1,2) task' parts(3)]
      sleep_inv_move [OF mv assms(1) parts(1,4)] sum_inv_move [OF mv parts(1,5)] by blast
qed

end
