(* ===== verification/Episodes.thy ===== *)
theory Episodes
  imports Prelude
begin

text \<open>
  Maximal intervals of a condition that changes only at known points of time. The list function
  \<open>episodes_from\<close> is what a sweep over those points computes; it is shown to list exactly the maximal
  intervals, in order.
\<close>

section \<open>Maximal intervals\<close>

definition maximal_interval :: "('t::linorder \<Rightarrow> bool) \<Rightarrow> 't \<Rightarrow> 't \<Rightarrow> bool" where
  "maximal_interval V a b \<longleftrightarrow> a < b \<and> (\<forall>t. a \<le> t \<longrightarrow> t < b \<longrightarrow> V t) \<and> \<not> V b \<and>
     (\<forall>x<a. \<exists>u. x \<le> u \<and> u < a \<and> \<not> V u)"

text \<open>On machine words the left end has a simpler reading.\<close>

lemma maximal_interval_word:
  fixes a b :: "'w::len word"
  shows "maximal_interval V a b \<longleftrightarrow> a < b \<and> (\<forall>t. a \<le> t \<longrightarrow> t < b \<longrightarrow> V t) \<and> \<not> V b \<and>
     (a = 0 \<or> \<not> V (a - 1))"
proof -
  have "(\<forall>x<a. \<exists>u. x \<le> u \<and> u < a \<and> \<not> V u) \<longleftrightarrow> (a = 0 \<or> \<not> V (a - 1))"
  proof (cases "a = 0")
    case False
    then have "0 < unat a" by (simp add: unat_gt_0)
    with False have pred: "a - 1 < a" and le: "u < a \<Longrightarrow> u \<le> a - 1" for u
      by (auto simp: word_less_nat_alt word_le_nat_alt unat_minus_one)
    then have eq: "u = a - 1" if "a - 1 \<le> u" "u < a" for u
      using that le [of u] by (simp add: order_antisym)
    show ?thesis
    proof
      assume "\<forall>x<a. \<exists>u. x \<le> u \<and> u < a \<and> \<not> V u"
      then show "a = 0 \<or> \<not> V (a - 1)" using pred eq by blast
    next
      assume "a = 0 \<or> \<not> V (a - 1)"
      then show "\<forall>x<a. \<exists>u. x \<le> u \<and> u < a \<and> \<not> V u" using False pred le by blast
    qed
  qed simp
  then show ?thesis by (simp add: maximal_interval_def)
qed

section \<open>What a sweep computes\<close>

fun episodes_from :: "('t \<Rightarrow> bool) \<Rightarrow> 't option \<Rightarrow> 't list \<Rightarrow> ('t \<times> 't) list" where
  "episodes_from V st [] = []"
| "episodes_from V None (t # ts) = episodes_from V (if V t then Some t else None) ts"
| "episodes_from V (Some a) (t # ts) =
     (if V t then episodes_from V (Some a) ts else (a, t) # episodes_from V None ts)"

text \<open>
  The state of the sweep after the point \<open>p\<close>: inside an interval that starts at \<open>a\<close> and cannot be
  extended to the left, or outside.
\<close>

definition sweep_at :: "('t::linorder \<Rightarrow> bool) \<Rightarrow> 't option \<Rightarrow> 't \<Rightarrow> bool" where
  "sweep_at V st p \<longleftrightarrow> (case st of
     None \<Rightarrow> \<not> V p
   | Some a \<Rightarrow> a \<le> p \<and> (\<forall>t. a \<le> t \<longrightarrow> t \<le> p \<longrightarrow> V t) \<and> (\<forall>x<a. \<exists>u. x \<le> u \<and> u < a \<and> \<not> V u))"

definition steady :: "('t::linorder \<Rightarrow> bool) \<Rightarrow> 't \<Rightarrow> 't list \<Rightarrow> bool" where
  "steady V p ts \<longleftrightarrow> (\<forall>s t. p \<le> s \<longrightarrow> s \<le> t \<longrightarrow> (\<forall>x\<in>set ts. \<not> (s < x \<and> x \<le> t)) \<longrightarrow> V s = V t)"

lemma steady_tail: "steady V p (t # ts) \<Longrightarrow> p < t \<Longrightarrow> steady V t ts"
  unfolding steady_def by (metis less_le_trans not_less order_less_imp_le order_trans set_ConsD)

lemma steady_gap:
  assumes "steady V p (t # ts)" and "\<forall>x\<in>set ts. t < x" and "p \<le> u" and "u < t"
  shows "V u = V p"
proof -
  have "\<forall>x\<in>set (t # ts). \<not> (p < x \<and> x \<le> u)" using assms(2,4) by force
  with assms(1,3) show ?thesis unfolding steady_def by (metis order_refl)
qed

lemma episodes_from_tail:
  assumes st: "sweep_at V st p" and gap: "\<forall>u. p \<le> u \<longrightarrow> u < t \<longrightarrow> V u = V p" and pt: "p < t"
  shows "sweep_at V (if V t then (case st of None \<Rightarrow> Some t | Some a \<Rightarrow> Some a) else None) t"
    and "maximal_interval V a b \<and> p < b \<and> b \<le> t \<longleftrightarrow> st = Some a \<and> b = t \<and> \<not> V t"
proof -
  show "sweep_at V (if V t then (case st of None \<Rightarrow> Some t | Some a \<Rightarrow> Some a) else None) t"
  proof (cases st)
    case None
    then have "\<not> V p" using st by (simp add: sweep_at_def)
    then have "\<exists>u. x \<le> u \<and> u < t \<and> \<not> V u" if "x < t" for x
      using that pt spec [OF gap, of x] by (metis le_cases order_refl)
    then show ?thesis using None by (auto simp: sweep_at_def dest: order_antisym)
  next
    case (Some c)
    then have c: "c \<le> p" "\<And>u. c \<le> u \<Longrightarrow> u \<le> p \<Longrightarrow> V u" using st by (auto simp: sweep_at_def)
    then have "V u" if "c \<le> u" "u < t" for u
      using that spec [OF gap, of u] by (metis le_cases order_refl)
    then have "V u" if "V t" "c \<le> u" "u \<le> t" for u
      using that by (metis order_le_less)
    then show ?thesis using Some st pt by (auto simp: sweep_at_def)
  qed
  show "maximal_interval V a b \<and> p < b \<and> b \<le> t \<longleftrightarrow> st = Some a \<and> b = t \<and> \<not> V t"
  proof (cases st)
    case None
    then have "\<not> V p" using st by (simp add: sweep_at_def)
    moreover have "V p" if "maximal_interval V a b" "p < b" "b \<le> t"
    proof -
      let ?u = "max a p"
      have u: "a \<le> ?u" "p \<le> ?u" "?u < b" using that by (auto simp: maximal_interval_def)
      then have "V ?u" using that(1) unfolding maximal_interval_def by blast
      moreover have "?u < t" using u(3) that(3) by (rule less_le_trans)
      ultimately show ?thesis using gap u(2) by blast
    qed
    ultimately show ?thesis using None by auto
  next
    case (Some c)
    then have c: "c \<le> p" "\<And>u. c \<le> u \<Longrightarrow> u \<le> p \<Longrightarrow> V u" "\<And>x. x < c \<Longrightarrow> \<exists>u. x \<le> u \<and> u < c \<and> \<not> V u"
      using st by (auto simp: sweep_at_def)
    then have in_c: "V u" if "c \<le> u" "u < t" for u
      using that spec [OF gap, of u] by (metis le_cases order_refl)
    show ?thesis
    proof
      assume m: "maximal_interval V a b \<and> p < b \<and> b \<le> t"
      then have "\<not> V b" "c \<le> b" "b \<le> t" using c(1) by (auto simp: maximal_interval_def)
      then have b: "b = t" using in_c [of b] by (auto simp: order_le_less)
      have "\<not> a < c" using m c(3) [of a] c(1) pt b by (force simp: maximal_interval_def)
      moreover have "\<not> c < a" using m in_c b by (force simp: maximal_interval_def)
      ultimately show "st = Some a \<and> b = t \<and> \<not> V t" using m b Some by (auto simp: maximal_interval_def)
    next
      assume "st = Some a \<and> b = t \<and> \<not> V t"
      then show "maximal_interval V a b \<and> p < b \<and> b \<le> t"
        using Some c in_c pt by (auto simp: maximal_interval_def)
    qed
  qed
qed

lemma episodes_from_split:
  "episodes_from V st (t # ts) =
     (if \<not> V t then (case st of None \<Rightarrow> [] | Some a \<Rightarrow> [(a, t)]) else []) @
     episodes_from V (if V t then (case st of None \<Rightarrow> Some t | Some a \<Rightarrow> Some a) else None) ts"
  by (cases st) auto

lemma set_episodes_from:
  assumes "sorted_wrt (<) ts" and "\<forall>x\<in>set ts. p < x" and "steady V p ts" and "sweep_at V st p"
    and "\<exists>t\<ge>p. \<forall>u\<ge>t. \<not> V u"
  shows "(a, b) \<in> set (episodes_from V st ts) \<longleftrightarrow> maximal_interval V a b \<and> p < b"
  using assms
proof (induction ts arbitrary: p st)
  case Nil
  have const: "V u = V p" if "p \<le> u" for u using that Nil.prems(3) by (auto simp: steady_def)
  then have "\<not> V u" if "p \<le> u" for u using that Nil.prems(5) by (metis order_refl)
  then have "\<not> (maximal_interval V a b \<and> p < b)"
    by (auto simp: maximal_interval_def) (metis le_cases linorder_not_less order_refl)
  then show ?case by simp
next
  case (Cons t ts)
  have pt: "p < t" and rest: "\<forall>x\<in>set ts. t < x" using Cons.prems by auto
  have gap: "\<forall>u. p \<le> u \<longrightarrow> u < t \<longrightarrow> V u = V p"
    using steady_gap [OF Cons.prems(3) rest] by blast
  note tail = episodes_from_tail [OF Cons.prems(4) gap pt]
  have fin: "\<exists>s\<ge>t. \<forall>u\<ge>s. \<not> V u" using Cons.prems(5) by (metis le_cases order_trans order_refl)
  have "(a, b) \<in> set (episodes_from V (if V t then (case st of None \<Rightarrow> Some t | Some a \<Rightarrow> Some a) else None) ts)
     \<longleftrightarrow> maximal_interval V a b \<and> t < b"
    by (rule Cons.IH [OF _ rest steady_tail [OF Cons.prems(3) pt] tail(1) fin])
      (use Cons.prems(1) in auto)
  moreover have "(a, b) \<in> set (if \<not> V t then (case st of None \<Rightarrow> [] | Some a \<Rightarrow> [(a, t)]) else [])
     \<longleftrightarrow> maximal_interval V a b \<and> p < b \<and> b \<le> t"
    unfolding tail(2) by (cases st; cases "V t"; simp; blast)
  ultimately have "(a, b) \<in> set (episodes_from V st (t # ts)) \<longleftrightarrow>
      (maximal_interval V a b \<and> p < b \<and> b \<le> t) \<or> (maximal_interval V a b \<and> t < b)"
    by (simp only: episodes_from_split set_append Un_iff)
  also have "\<dots> \<longleftrightarrow> maximal_interval V a b \<and> p < b"
    using pt by (meson less_trans linorder_not_less)
  finally show ?case .
qed

text \<open>The whole sweep: before the first point the condition is false.\<close>

lemma set_episodes:
  assumes "sorted_wrt (<) ts" and "\<And>s t. s \<le> t \<Longrightarrow> (\<forall>x\<in>set ts. \<not> (s < x \<and> x \<le> t)) \<Longrightarrow> V s = V t"
    and "\<And>t. \<forall>x\<in>set ts. t < x \<Longrightarrow> \<not> V t" and "\<And>t. \<forall>x\<in>set ts. x \<le> t \<Longrightarrow> \<not> V t"
  shows "(a, b) \<in> set (episodes_from V None ts) \<longleftrightarrow> maximal_interval V a b"
proof (cases ts)
  case Nil
  then show ?thesis using assms(3) [of a] by (auto simp: maximal_interval_def)
next
  case (Cons t ts')
  have before: "\<not> V u" if "u < t" for u
    using that assms(1,3) Cons by (metis less_trans set_ConsD sorted_wrt.simps(2))
  have "sweep_at V (if V t then Some t else None) t"
    using before by (auto simp: sweep_at_def dest: order_antisym)
  moreover have "steady V t ts'"
    unfolding steady_def
    using assms(2) Cons by (metis leD set_ConsD)
  moreover have "\<exists>s\<ge>t. \<forall>u\<ge>s. \<not> V u"
    using assms(4) Cons by (intro exI [of _ "Max (set ts)"]) auto
  ultimately have "(a, b) \<in> set (episodes_from V (if V t then Some t else None) ts')
      \<longleftrightarrow> maximal_interval V a b \<and> t < b"
    using assms(1) Cons by (intro set_episodes_from) auto
  moreover have "t < b" if m: "maximal_interval V a b"
  proof (rule ccontr)
    assume "\<not> t < b"
    then have "a < t" using m by (auto simp: maximal_interval_def)
    then show False using m before [of a] by (auto simp: maximal_interval_def)
  qed
  ultimately show ?thesis using Cons by auto
qed

lemma episodes_from_sorted:
  assumes "sorted_wrt (<) ts" and "case st of None \<Rightarrow> True | Some c \<Rightarrow> \<forall>x\<in>set ts. c < x"
  shows "sorted_wrt (\<lambda>x y. snd x < fst y) (episodes_from V st ts)
     \<and> (\<forall>(a, b)\<in>set (episodes_from V st ts). (a \<in> set ts \<or> st = Some a) \<and> b \<in> set ts \<and> (a :: 't::linorder) < b)"
  using assms
proof (induction V st ts rule: episodes_from.induct)
  case (2 V t ts)
  then show ?case by (auto split: if_splits)
next
  case (3 V a t ts)
  then show ?case by (fastforce split: if_splits)
qed simp

end
