(* ===== verification/Invariant_Scan.thy ===== *)
theory Invariant_Scan
  imports Analyze Episodes
begin

text \<open>
  The sweep of \<open>invariant_scan\<close> against the definition of the invariant in \<open>analyze.h\<close>: at every instant
  the running sums are the numbers of waiting and running tasks, and the episodes it counts are the
  maximal intervals over which the invariant is violated.
\<close>

section \<open>The specification\<close>

definition waiting_at :: "wl_record list \<Rightarrow> ulong \<Rightarrow> nat" where
  "waiting_at rs t = length (filter (\<lambda>r. ready_ns r \<le> t \<and> t < start_ns r) rs)"

definition busy_at :: "wl_record list \<Rightarrow> ulong \<Rightarrow> nat" where
  "busy_at rs t = length (filter (\<lambda>r. start_ns r \<le> t \<and> t < end_ns r) rs)"

definition violated :: "wl_record list \<Rightarrow> uint \<Rightarrow> ulong \<Rightarrow> bool" where
  "violated rs nworkers t \<longleftrightarrow> 0 < waiting_at rs t \<and> busy_at rs t < unat nworkers"

definition record_ok :: "wl_record \<Rightarrow> bool" where
  "record_ok r \<longleftrightarrow> ready_ns r \<le> start_ns r \<and> start_ns r \<le> end_ns r"

section \<open>Sorting the events\<close>

lemma compare_event_time_le: "compare_event_time l r \<le> 0 \<longleftrightarrow> time_ns l \<le> time_ns r"
  by (auto simp: compare_event_time_def)

lemma compare_event_time_ok: "cmp_ok compare_event_time"
  by (auto simp: cmp_ok_def compare_event_time_le)

interpretation esort: sorter compare_event_time "qsort compare_event_time"
  by unfold_locales (simp_all add: mset_qsort sorted_qsort compare_event_time_ok)

section \<open>The running sums\<close>

definition level :: "(invariant_event \<Rightarrow> int) \<Rightarrow> invariant_event list \<Rightarrow> ulong \<Rightarrow> int" where
  "level f es t = sum_list (map f (filter (\<lambda>e. time_ns e \<le> t) es))"

lemma level_mset:
  assumes "mset es = mset es'"
  shows "level f es t = level f es' t"
proof -
  have "mset (map f (filter (\<lambda>e. time_ns e \<le> t) es)) = mset (map f (filter (\<lambda>e. time_ns e \<le> t) es'))"
    using assms by simp
  then show ?thesis unfolding level_def by (metis sum_mset_sum_list)
qed

lemma level_waiting:
  "\<forall>r\<in>set (started_records rs). record_ok r \<Longrightarrow>
     level waiting_delta (record_events rs) t = int (waiting_at (started_records rs) t)"
proof (induction rs)
  case (Cons r rs)
  then show ?case
    by (cases "start_ns r = 0")
      (auto simp: level_def waiting_at_def started_records_def record_ok_def)
qed (simp add: level_def waiting_at_def started_records_def)

lemma level_busy:
  "\<forall>r\<in>set (started_records rs). record_ok r \<Longrightarrow>
     level busy_delta (record_events rs) t = int (busy_at (started_records rs) t)"
proof (induction rs)
  case (Cons r rs)
  then show ?case
    by (cases "start_ns r = 0")
      (auto simp: level_def busy_at_def started_records_def record_ok_def)
qed (simp add: level_def busy_at_def started_records_def)

definition ev_violated :: "invariant_event list \<Rightarrow> uint \<Rightarrow> ulong \<Rightarrow> bool" where
  "ev_violated es nworkers t \<longleftrightarrow> level waiting_delta es t > 0 \<and> level busy_delta es t < uint nworkers"

lemma int_less_uint: "int k < uint w \<longleftrightarrow> k < unat w"
  unfolding uint_nat of_nat_less_iff ..

lemma ev_violated_records:
  "\<forall>r\<in>set (started_records rs). record_ok r \<Longrightarrow>
     ev_violated (record_events rs) nworkers t = violated (started_records rs) nworkers t"
  unfolding ev_violated_def violated_def by (simp add: level_waiting level_busy int_less_uint)

section \<open>One instant of the sweep\<close>

lemma same_time_eq:
  "same_time t wd bd es =
     (wd + sum_list (map waiting_delta (takeWhile (\<lambda>e. time_ns e = t) es)),
      bd + sum_list (map busy_delta (takeWhile (\<lambda>e. time_ns e = t) es)),
      dropWhile (\<lambda>e. time_ns e = t) es)"
  by (induction t wd bd es rule: same_time.induct) auto

lemma sorted_dropWhile_gt:
  assumes "sorted (map f (e # es))" and "x \<in> set (dropWhile (\<lambda>y. f y = f e) es)"
  shows "(f e :: 'k::linorder) < f x"
  using assms
proof (induction es)
  case (Cons y ys)
  then show ?case
    by (cases "f y = f e") (auto simp: order_le_less intro: less_le_trans)
qed simp

lemma sorted_map_dropWhile: "sorted (map f xs) \<Longrightarrow> sorted (map f (dropWhile P xs))"
  by (simp add: dropWhile_eq_drop sorted_wrt_drop flip: drop_map)

lemma level_prefix:
  assumes "\<forall>e\<in>set pre. time_ns e \<le> t" and "\<forall>e\<in>set es. t < time_ns e"
  shows "level f (pre @ es) t = sum_list (map f pre)"
proof -
  have "filter (\<lambda>e. time_ns e \<le> t) pre = pre" "filter (\<lambda>e. time_ns e \<le> t) es = []"
    using assms by (auto simp: filter_id_conv filter_empty_conv)
  then show ?thesis by (simp add: level_def)
qed

definition ep_state :: "sweep_state \<Rightarrow> ulong option" where
  "ep_state s = (if in_episode s then Some (episode_start s) else None)"

definition long_episodes :: "double \<Rightarrow> (ulong \<times> ulong) list \<Rightarrow> (ulong \<times> ulong) list" where
  "long_episodes m eps = filter (\<lambda>(a, b). duration_us a b > m) eps"

definition total_us :: "(ulong \<times> ulong) list \<Rightarrow> double \<Rightarrow> double" where
  "total_us eps acc = foldl dadd acc (map (\<lambda>(a, b). duration_us a b) eps)"

lemma long_total_append:
  "long_episodes m (xs @ ys) = long_episodes m xs @ long_episodes m ys"
  "total_us (xs @ ys) acc = total_us ys (total_us xs acc)"
  by (simp_all add: long_episodes_def total_us_def)

text \<open>What \<open>sweep_instant\<close> does, in terms of the episode that ends there, if one does.\<close>

definition ended :: "bool \<Rightarrow> 't option \<Rightarrow> 't \<Rightarrow> ('t \<times> 't) list" where
  "ended v st t = (if \<not> v then (case st of None \<Rightarrow> [] | Some a \<Rightarrow> [(a, t)]) else [])"

definition next_start :: "bool \<Rightarrow> 't option \<Rightarrow> 't \<Rightarrow> 't option" where
  "next_start v st t = (if v then (case st of None \<Rightarrow> Some t | Some a \<Rightarrow> Some a) else None)"

lemma sweep_instant_episode:
  assumes "v \<longleftrightarrow> waiting s + wd > 0 \<and> busy s + bd < uint n"
  shows "ep_state (sweep_instant n m t wd bd s) = next_start v (ep_state s) t"
    and "sw_episodes (sweep_instant n m t wd bd s) =
      sw_episodes s + of_nat (length (long_episodes m (ended v (ep_state s) t)))"
    and "sw_violation_us (sweep_instant n m t wd bd s) =
      total_us (long_episodes m (ended v (ep_state s) t)) (sw_violation_us s)"
  unfolding sweep_instant_def Let_def assms [symmetric] ep_state_def next_start_def ended_def
    long_episodes_def total_us_def
  by (cases v; cases "in_episode s"; simp)+

lemma episodes_from_ended:
  "episodes_from V st (t # ts) = ended (V t) st t @ episodes_from V (next_start (V t) st t) ts"
  by (simp add: episodes_from_split ended_def next_start_def)

lemma sweep_events_eq:
  assumes "sorted (map time_ns es)" and "\<forall>x\<in>set pre. \<forall>y\<in>set es. time_ns x < time_ns y"
    and "waiting s = sum_list (map waiting_delta pre)" and "busy s = sum_list (map busy_delta pre)"
    and "long = long_episodes m
      (episodes_from (ev_violated (pre @ es) n) (ep_state s) (remdups_adj (map time_ns es)))"
  shows "sw_episodes (sweep_events n m es s) = sw_episodes s + of_nat (length long) \<and>
    sw_violation_us (sweep_events n m es s) = total_us long (sw_violation_us s)"
  using assms
proof (induction "length es" arbitrary: es pre s long rule: less_induct)
  case less
  show ?case
  proof (cases es)
    case Nil
    then show ?thesis by (simp add: less.prems(5) long_episodes_def total_us_def)
  next
    case (Cons e es')
    let ?t = "time_ns e"
    let ?g = "takeWhile (\<lambda>x. time_ns x = ?t) es'" and ?r = "dropWhile (\<lambda>x. time_ns x = ?t) es'"
    let ?wd = "waiting_delta e + sum_list (map waiting_delta ?g)"
    let ?bd = "busy_delta e + sum_list (map busy_delta ?g)"
    let ?s = "sweep_instant n m ?t ?wd ?bd s" and ?V = "ev_violated (pre @ es) n"
    have split: "pre @ es = (pre @ e # ?g) @ ?r" using Cons by simp
    have gt: "\<forall>x\<in>set ?r. ?t < time_ns x"
      using sorted_dropWhile_gt [of time_ns e es'] less.prems(1) Cons by blast
    have le: "\<forall>x\<in>set (pre @ e # ?g). time_ns x \<le> ?t"
      using less.prems(2) Cons by (auto dest: set_takeWhileD)
    have V: "?V ?t \<longleftrightarrow> waiting s + ?wd > 0 \<and> busy s + ?bd < uint n"
      unfolding ev_violated_def split level_prefix [OF le gt] using less.prems(3,4) by simp
    have st: "waiting ?s = sum_list (map waiting_delta (pre @ e # ?g))"
      "busy ?s = sum_list (map busy_delta (pre @ e # ?g))"
      using less.prems(3,4) by (simp_all add: sweep_instant_def Let_def)
    have srt: "sorted (map time_ns ?r)"
      using less.prems(1) Cons by (simp add: sorted_map_dropWhile)
    have sep: "\<forall>x\<in>set (pre @ e # ?g). \<forall>y\<in>set ?r. time_ns x < time_ns y"
      using le gt by (meson le_less_trans)
    have "length ?r < length es" using Cons length_dropWhile_le [of _ es'] by (simp add: le_imp_less_Suc)
    note IH = less.hyps [OF this srt sep st refl]
    have run: "sweep_events n m es s = sweep_events n m ?r ?s"
      by (simp add: Cons same_time_eq)
    have ts: "remdups_adj (map time_ns es) = ?t # remdups_adj (map time_ns ?r)"
      by (simp add: Cons remdups_adj_Cons' dropWhile_map o_def)
    note step = sweep_instant_episode [OF V, of m ?t]
    have "long = long_episodes m (ended (?V ?t) (ep_state s) ?t) @
        long_episodes m (episodes_from ?V (ep_state ?s) (remdups_adj (map time_ns ?r)))"
      unfolding less.prems(5) ts episodes_from_ended long_total_append step(1) ..
    then show ?thesis
      using IH unfolding run split [symmetric] step(2,3) by (simp add: long_total_append)
  qed
qed

section \<open>The whole scan\<close>

lemma strict_remdups_adj: "sorted xs \<Longrightarrow> sorted_wrt (<) (remdups_adj (xs :: 'k::linorder list))"
proof (induction xs rule: remdups_adj.induct)
  case (3 x y xs)
  then show ?case by (cases "x = y") (auto simp: order_le_less)
qed auto

lemma time_ns_events:
  "time_ns ` set (record_events rs) = (\<Union>r\<in>set (started_records rs). {ready_ns r, start_ns r, end_ns r})"
  by (induction rs) (auto simp: started_records_def)

lemma level_steady:
  assumes "s \<le> t" and "\<forall>e\<in>set es. \<not> (s < time_ns e \<and> time_ns e \<le> t)"
  shows "level f es s = level f es t"
proof -
  have "filter (\<lambda>e. time_ns e \<le> s) es = filter (\<lambda>e. time_ns e \<le> t) es"
    using assms by (intro filter_cong) (auto intro: order_trans)
  then show ?thesis by (simp add: level_def)
qed

lemma violated_inside:
  assumes "violated (started_records rs) n t"
  shows "\<exists>x\<in>set (record_events rs). \<exists>y\<in>set (record_events rs). time_ns x \<le> t \<and> t < time_ns y"
proof -
  have "filter (\<lambda>r. ready_ns r \<le> t \<and> t < start_ns r) (started_records rs) \<noteq> []"
    using assms by (auto simp: violated_def waiting_at_def)
  then obtain r where "r \<in> set (started_records rs)" "ready_ns r \<le> t" "t < start_ns r"
    by (auto simp: filter_empty_conv)
  moreover from this(1) have "ready_ns r \<in> time_ns ` set (record_events rs)"
    "start_ns r \<in> time_ns ` set (record_events rs)"
    unfolding time_ns_events by auto
  ultimately show ?thesis by fastforce
qed

text \<open>The episodes the sweep sees are the maximal violated intervals.\<close>

definition run_episodes :: "wl_record list \<Rightarrow> uint \<Rightarrow> (ulong \<times> ulong) list" where
  "run_episodes rs n = episodes_from (ev_violated (record_events rs) n) None
     (remdups_adj (sort (map time_ns (record_events rs))))"

lemma set_run_episodes:
  assumes "\<forall>r\<in>set (started_records rs). record_ok r"
  shows "(a, b) \<in> set (run_episodes rs n) \<longleftrightarrow> maximal_interval (violated (started_records rs) n) a b"
proof -
  let ?E = "record_events rs" and ?V = "ev_violated (record_events rs) n"
  let ?ts = "remdups_adj (sort (map time_ns ?E))"
  have V: "?V = violated (started_records rs) n"
    using ev_violated_records [OF assms] by (simp add: fun_eq_iff)
  have ts: "set ?ts = time_ns ` set ?E" by simp
  have "?V s = ?V t" if "s \<le> t" "\<forall>x\<in>set ?ts. \<not> (s < x \<and> x \<le> t)" for s t
    using that level_steady [of s t ?E] unfolding ev_violated_def ts by simp
  moreover have "\<not> ?V t" if "\<forall>x\<in>set ?ts. t < x" for t
    using violated_inside [of rs n t] that unfolding V ts by force
  moreover have "\<not> ?V t" if "\<forall>x\<in>set ?ts. x \<le> t" for t
    using violated_inside [of rs n t] that unfolding V ts by force
  ultimately show ?thesis
    unfolding run_episodes_def V [symmetric] by (intro set_episodes strict_remdups_adj) auto
qed

lemma run_episodes_sorted:
  "sorted_wrt (\<lambda>x y. snd x < fst y) (run_episodes rs n)"
  "(a, b) \<in> set (run_episodes rs n) \<Longrightarrow> a < b \<and> {a, b} \<subseteq> time_ns ` set (record_events rs)"
  using episodes_from_sorted [OF strict_remdups_adj [OF sorted_sort],
      of "map time_ns (record_events rs)" None "ev_violated (record_events rs) n"]
  by (auto simp: run_episodes_def)

lemma extremes_eq:
  "extremes rs er le k =
     (let ss = started_records rs in
      (if k = 0 then (if ss = [] then er else Min (ready_ns ` set ss)) else Min (insert er (ready_ns ` set ss)),
       if k = 0 then (if ss = [] then le else Max (end_ns ` set ss)) else Max (insert le (end_ns ` set ss)),
       k + length ss))"
proof (induction rs er le k rule: extremes.induct)
  case (2 r rs er le k)
  have m: "Min (insert (if x < y then x else y) A) = Min (insert x (insert y A))"
    "Max (insert (if x > y then x else y) A) = Max (insert x (insert y A))"
    if "finite A" for A and x y :: ulong
    using that by (cases "A = {}"; auto simp: min_def max_def)+
  show ?case
  proof (cases "start_ns r = 0")
    case True
    then show ?thesis using 2(1) by (simp add: started_records_def)
  next
    case False
    then show ?thesis using 2(2)
      by (cases "k = 0") (simp_all add: started_records_def Let_def m insert_commute)
  qed
qed (simp add: started_records_def Let_def)

lemma scan_with_eq:
  assumes "sorter compare_event_time srt" and "run_records run = Some rs"
  shows "invariant_scan_with srt run n m = Some
    \<lparr>violation_us = total_us (long_episodes m (run_episodes rs n)) 0,
     episodes = of_nat (length (long_episodes m (run_episodes rs n))),
     span_us = (if started_records rs = [] then 0
       else duration_us (Min (ready_ns ` set (started_records rs))) (Max (end_ns ` set (started_records rs))))\<rparr>"
proof (cases "started_records rs = []")
  case True
  then have "time_ns ` set (record_events rs) = {}" unfolding time_ns_events by simp
  then have "record_events rs = []" by simp
  then show ?thesis using True assms(2)
    by (simp add: invariant_scan_with_def extremes_eq run_episodes_def long_episodes_def total_us_def)
next
  case False
  let ?S = "srt (record_events rs)"
  have perm: "mset ?S = mset (record_events rs)" by (rule sorter.srt_perm [OF assms(1)])
  have srt: "sorted (map time_ns ?S)"
    by (rule sorter.sorted_keys [OF assms(1)]) (rule compare_event_time_le)
  have times: "map time_ns ?S = sort (map time_ns (record_events rs))"
    by (rule properties_for_sort [symmetric]) (simp_all add: perm srt)
  have "ev_violated ?S n = ev_violated (record_events rs) n"
    by (simp add: ev_violated_def fun_eq_iff level_mset [OF perm])
  with sweep_events_eq [OF srt, of "[]" sweep_start _ m n, OF _ _ _ refl] times
  have "sw_episodes (sweep_events n m ?S sweep_start) = of_nat (length (long_episodes m (run_episodes rs n)))
      \<and> sw_violation_us (sweep_events n m ?S sweep_start) = total_us (long_episodes m (run_episodes rs n)) 0"
    by (simp add: sweep_start_def ep_state_def run_episodes_def)
  then show ?thesis using False assms(2)
    by (simp add: invariant_scan_with_def extremes_eq Let_def)
qed

section \<open>Length of the episodes\<close>

lemma disjoint_total:
  assumes "sorted_wrt (\<lambda>x y. snd x < fst y) eps" and "\<forall>(a, b)\<in>set eps. lo \<le> a \<and> a < b \<and> b \<le> (hi :: ulong)"
  shows "(\<Sum>(a, b)\<leftarrow>eps. unat b - unat a) \<le> unat hi - unat lo"
  using assms
proof (induction eps arbitrary: lo)
  case (Cons e eps)
  obtain a b where e: "e = (a, b)" by (cases e)
  have "\<forall>(a', b')\<in>set eps. b \<le> a' \<and> a' < b' \<and> b' \<le> hi" using Cons.prems e by fastforce
  then have "(\<Sum>(a, b)\<leftarrow>eps. unat b - unat a) \<le> unat hi - unat b"
    using Cons.IH Cons.prems(1) by simp
  moreover have "unat lo \<le> unat a" "unat a < unat b" "unat b \<le> unat hi"
    using Cons.prems(2) e by (auto simp: word_le_nat_alt word_less_nat_alt)
  ultimately show ?case using e by simp
qed simp

lemma event_time_bounds:
  assumes "\<forall>r\<in>set (started_records rs). record_ok r" and "x \<in> time_ns ` set (record_events rs)"
  shows "Min (ready_ns ` set (started_records rs)) \<le> x \<and> x \<le> Max (end_ns ` set (started_records rs))"
proof -
  obtain r where r: "r \<in> set (started_records rs)" "x \<in> {ready_ns r, start_ns r, end_ns r}"
    using assms(2) unfolding time_ns_events by auto
  then have "ready_ns r \<le> x" "x \<le> end_ns r"
    using assms(1) by (auto simp: record_ok_def)
  moreover have "Min (ready_ns ` set (started_records rs)) \<le> ready_ns r"
    "end_ns r \<le> Max (end_ns ` set (started_records rs))"
    using r(1) by simp_all
  ultimately show ?thesis by (meson order_trans)
qed

lemma run_episodes_total:
  assumes "\<forall>r\<in>set (started_records rs). record_ok r"
  shows "(\<Sum>(a, b)\<leftarrow>run_episodes rs n. unat b - unat a) \<le>
    unat (Max (end_ns ` set (started_records rs))) - unat (Min (ready_ns ` set (started_records rs)))"
proof (rule disjoint_total [OF run_episodes_sorted(1)], clarify)
  fix a b assume "(a, b) \<in> set (run_episodes rs n)"
  from run_episodes_sorted(2) [OF this] have "a < b"
    "a \<in> time_ns ` set (record_events rs)" "b \<in> time_ns ` set (record_events rs)"
    by simp_all
  then show "Min (ready_ns ` set (started_records rs)) \<le> a \<and> a < b
      \<and> b \<le> Max (end_ns ` set (started_records rs))"
    using event_time_bounds [OF assms] by blast
qed

section \<open>Properties of the scan\<close>

text \<open>
  C1: the contract of \<open>analyze.h\<close>. For a run whose started records carry their times in order,
  \<open>invariant_scan\<close> finds exactly the episodes, that is the maximal intervals over which the invariant is
  violated; it reports how many of them last longer than the window and the (rounded) sum of their
  lengths, and the span from the earliest ready time to the latest end. The episodes are disjoint and
  together no longer than that span.
\<close>

theorem scan_finds_maximal_episodes:
  assumes "run_records run = Some rs" and "\<forall>r\<in>set (started_records rs). record_ok r"
  shows "\<exists>eps. (\<forall>a b. (a, b) \<in> set eps \<longleftrightarrow> maximal_interval (violated (started_records rs) n) a b) \<and>
    sorted_wrt (\<lambda>x y. snd x < fst y) eps \<and>
    (\<Sum>(a, b)\<leftarrow>eps. unat b - unat a) \<le>
      unat (Max (end_ns ` set (started_records rs))) - unat (Min (ready_ns ` set (started_records rs))) \<and>
    invariant_scan run n m = Some
      \<lparr>violation_us = total_us (long_episodes m eps) 0,
       episodes = of_nat (length (long_episodes m eps)),
       span_us = (if started_records rs = [] then 0
         else duration_us (Min (ready_ns ` set (started_records rs))) (Max (end_ns ` set (started_records rs))))\<rparr>"
  using set_run_episodes [OF assms(2)] run_episodes_sorted(1) run_episodes_total [OF assms(2)]
    scan_with_eq [OF esort.sorter_axioms assms(1), of n m]
  unfolding invariant_scan_def by (intro exI [of _ "run_episodes rs n"]) auto

text \<open>Two tasks on a pool of two: the second waits from 100 to 2100 although a worker is idle.\<close>

definition sample_run :: wl_result where
  "sample_run = \<lparr>queued = 2, completed = 2, shard0_count = 0, shard1_count = 2, workers = 2,
     pace_late_us = 0,
     records = [\<lparr>task_id = 0, shard = 1, service_us = 1, is_holder = 0, ready_ns = 100, start_ns = 100, end_ns = 3100\<rparr>,
                \<lparr>task_id = 1, shard = 1, service_us = 1, is_holder = 0, ready_ns = 100, start_ns = 2100, end_ns = 3100\<rparr>]\<rparr>"

lemma sample_run_records: "run_records sample_run = Some (records sample_run)"
  by (simp add: run_records_def sample_run_def)

theorem scan_finds_maximal_episodes_witness:
  "\<exists>eps. (\<forall>a b. (a, b) \<in> set eps \<longleftrightarrow>
      maximal_interval (violated (started_records (records sample_run)) 2) a b) \<and>
    (\<exists>inv. invariant_scan sample_run 2 1 = Some inv \<and> episodes inv = of_nat (length (long_episodes 1 eps)))"
proof -
  have "\<forall>r\<in>set (started_records (records sample_run)). record_ok r"
    by (simp add: sample_run_def started_records_def record_ok_def)
  from scan_finds_maximal_episodes [OF sample_run_records this, of 2 1] show ?thesis by force
qed

text \<open>
  C36: the C standard leaves the order of events with equal times open; the result of the scan does not
  depend on it. Any sorting function gives what ours gives, for every run, whatever its times.
\<close>

theorem scan_ignores_tie_order:
  assumes "sorter compare_event_time srt"
  shows "invariant_scan_with srt run n m = invariant_scan run n m"
proof (cases "run_records run")
  case None
  then show ?thesis by (simp add: invariant_scan_def invariant_scan_with_def)
next
  case (Some rs)
  show ?thesis
    unfolding invariant_scan_def scan_with_eq [OF assms Some] scan_with_eq [OF esort.sorter_axioms Some] ..
qed

text \<open>A second sorting function: it turns the array round before sorting it, so ties come out reversed.\<close>

theorem scan_ignores_tie_order_witness:
  "invariant_scan_with (\<lambda>es. qsort compare_event_time (rev es)) sample_run 2 1 = invariant_scan sample_run 2 1"
  by (rule scan_ignores_tie_order) (unfold_locales, simp_all add: mset_qsort sorted_qsort compare_event_time_ok)

end
