(* ===== verification/Summary.thy ===== *)
theory Summary
  imports Invariant_Scan
begin

text \<open>
  The summary of a run (\<open>summarize_run\<close> of \<open>week5/src/analyze.c\<close>) and the order statistics it is built
  from: what the median promises, that the latency rule can flag at most half of the tasks, and that
  every run whose records are there gets a summary.
\<close>

section \<open>Lemmas\<close>

lemma collect_eq:
  "collect rs (l, l0, l1) =
     (l @ map latency_us (started_records rs),
      l0 @ map latency_us (filter (\<lambda>r. shard r = 0) (started_records rs)),
      l1 @ map latency_us (filter (\<lambda>r. shard r \<noteq> 0) (started_records rs)))"
  by (induction rs "(l, l0, l1)" arbitrary: l l0 l1 rule: collect.induct)
    (auto simp: started_records_def Let_def)

lemma classify_loop_eq:
  "classify_loop m xs mx b =
     (Max (insert mx (set xs)), b + of_nat (length (filter (\<lambda>x. x > dmul BUG_MULTIPLIER m) xs)))"
proof (induction xs arbitrary: mx b)
  case (Cons x xs)
  have "Max (insert (if x > mx then x else mx) (set xs)) = Max (insert mx (insert x (set xs)))"
    by (cases "xs = []") (auto simp: max_def)
  then show ?case using Cons by (simp add: classify_latency_def)
qed simp

lemma latency_double [simp]: "is_double (latency_us r)" and latency_nonneg [simp]: "0 \<le> latency_us r"
  by (simp_all add: latency_us_def ddiv_nonneg double_of_nonneg)

lemma median_nonneg:
  assumes "\<forall>x\<in>set v. is_double x \<and> 0 \<le> x" and "median_of v = Some m"
  shows "0 \<le> m"
proof -
  have "v \<noteq> []" using assms(2) by (auto simp: median_of_def middle_def)
  then have "0 \<le> Min (set v)" using assms(1) by simp
  then show ?thesis using median_of_range [of v m] assms by auto
qed

text \<open>More than half of the values are not above ten times the median.\<close>

lemma bug_count_half:
  assumes "\<forall>x\<in>set v. is_double x \<and> 0 \<le> x" and "median_of v = Some m"
  shows "2 * length (filter (\<lambda>x. x > dmul BUG_MULTIPLIER m) v) \<le> length v"
proof -
  have "is_double m" "0 \<le> m"
    using median_of_is_double median_nonneg assms by blast+
  then have ge: "m \<le> dmul BUG_MULTIPLIER m"
    by (simp add: dmul_def binary64.multiple_ge)
  have "length (filter (\<lambda>x. x > dmul BUG_MULTIPLIER m) v) \<le> length (filter (\<lambda>x. \<not> x \<le> m) v)"
    using ge by (induction v) auto
  moreover have "length v \<le> 2 * length (filter (\<lambda>x. x \<le> m) v)"
    using median_of_split(1) assms by blast
  ultimately show ?thesis using length_filter_add_not [of "\<lambda>x. x \<le> m" v] by linarith
qed

lemma median_or_0_Some: "\<exists>m. median_or_0 v = Some m"
  using median_of_Some by (auto simp: median_or_0_def)

lemma invariant_scan_Some: "run_records run = Some rs \<Longrightarrow> \<exists>inv. invariant_scan run n m = Some inv"
  unfolding invariant_scan_def by (simp add: scan_with_eq [OF esort.sorter_axioms])

lemma length_run_records: "run_records run = Some rs \<Longrightarrow> length rs < 2 ^ 32"
  using unsigned_less [of "queued run"] by (auto simp: run_records_def split: if_splits)

lemma summarize_facts:
  assumes "run_records run = Some rs" and "started_records rs \<noteq> []" and lat_def: "lat = map latency_us (started_records rs)"
  shows "\<exists>out. summarize_run run = Some out \<and> unat (sm_started out) = length lat \<and>
    median_of lat = Some (median_latency_us out) \<and>
    0 \<le> median_latency_us out \<and> median_latency_us out \<le> max_latency_us out \<and>
    max_latency_us out = Max (set lat) \<and>
    unat (bug_count out) = length (filter (\<lambda>x. x > dmul BUG_MULTIPLIER (median_latency_us out)) lat) \<and>
    2 * unat (bug_count out) \<le> unat (sm_started out) \<and>
    0 \<le> bug_fraction out \<and> bug_fraction out \<le> 1 / 2 \<and> 0 < window_us out"
proof -
  have lat: "lat \<noteq> []" "\<forall>x\<in>set lat. is_double x \<and> 0 \<le> x"
    using assms(2) by (auto simp: lat_def)
  obtain m where m: "median_of lat = Some m" using median_of_Some [OF lat(1)] by blast
  let ?b = "length (filter (\<lambda>x. x > dmul BUG_MULTIPLIER m) lat)"
  have "length lat \<le> length rs" by (simp add: lat_def started_records_def)
  then have len: "length lat < 2 ^ 32" using length_run_records [OF assms(1)] by simp
  moreover have half: "2 * ?b \<le> length lat" by (rule bug_count_half [OF lat(2) m])
  ultimately have w: "unat (of_nat (length lat) :: uint) = length lat" "unat (of_nat ?b :: uint) = ?b"
    by (simp_all add: unat_of_nat take_bit_nat_eq_self)
  have exact: "double_of (length lat) = of_nat (length lat)" "double_of ?b = of_nat ?b"
    using len half by (simp_all add: double_of_exact)
  have frac: "0 \<le> ddiv (of_nat ?b) (of_nat (length lat))" "ddiv (of_nat ?b) (of_nat (length lat)) \<le> 1 / 2"
    unfolding ddiv_def using half
    by (simp add: binary64.rd_nonneg, intro binary64.fraction_half) simp_all
  have "is_double m" "0 \<le> m" using median_of_is_double [OF _ m] median_nonneg [OF lat(2) m] lat(2) by auto
  then have win: "0 < episode_window_us m"
    using binary64.multiple_ge [of m 100] by (auto simp: episode_window_us_def dmul_def)
  have mx: "m \<le> Max (set lat)" using median_of_range [OF _ m] lat(2) by auto
  have maxi: "Max (insert (hd lat) (set lat)) = Max (set lat)"
    using lat(1) by (simp add: insert_absorb)
  obtain i where i: "invariant_scan run (workers run) (episode_window_us m) = Some i"
    using invariant_scan_Some [OF assms(1)] by blast
  obtain m0 m1 where "median_or_0 (map latency_us (filter (\<lambda>r. shard r = 0) (started_records rs))) = Some m0"
    "median_or_0 (map latency_us (filter (\<lambda>r. shard r \<noteq> 0) (started_records rs))) = Some m1"
    using median_or_0_Some by metis
  with assms(1,2) m i lat spread_of_eq [OF lat(1)] \<open>0 \<le> m\<close> half frac win mx maxi w exact show ?thesis
    unfolding summarize_run_def
    by (simp add: collect_eq Let_def classify_loop_eq summary_zero_def flip: lat_def)
qed

section \<open>Properties\<close>

text \<open>
  \<open>median_of\<close> meets its contract for every non-empty array: it returns a value between the smallest
  and the largest element, at least half of the elements are not above it and at least half not below
  it; sorting in place or a copy (week 1 and week 5) gives the same median, and the spread is the
  difference of the extremes.
\<close>

lemma median_and_spread_correct:
  assumes "v \<noteq> []" and "\<forall>x\<in>set v. is_double x"
  shows "\<exists>m. median_of v = Some m \<and> is_double m \<and> Min (set v) \<le> m \<and> m \<le> Max (set v) \<and>
    length v \<le> 2 * length (filter (\<lambda>x. x \<le> m) v) \<and> length v \<le> 2 * length (filter (\<lambda>x. m \<le> x) v) \<and>
    median v = Some (m, sort v) \<and> spread_of v = Some (dsub (Max (set v)) (Min (set v)))"
proof -
  obtain m where m: "median_of v = Some m" using median_of_Some [OF assms(1)] by blast
  then have "median v = Some (m, sort v)"
    by (simp add: median_def median_of_def compare_double_eq qsort_double_sort)
  then show ?thesis
    using m median_of_is_double [OF assms(2) m] median_of_range [OF assms(2) m]
      median_of_split [OF assms(2) m] spread_of_eq [OF assms(1)] by auto
qed

lemma median_and_spread_4:
  "\<exists>m. median_of [2, 1, 10, 100] = Some m \<and> 1 \<le> m \<and> m \<le> 100 \<and>
     spread_of [2, 1, 10, 100] = Some (dsub 100 1)"
  using median_and_spread_correct [of "[2, 1, 10, 100]"] by auto

text \<open>
  C10: every run whose records are there gets a summary, and its numbers are consistent: all started
  tasks are counted, the median latency lies between 0 and the maximum, the number of bug-length tasks is
  the number of latencies above ten times the median, and they are at most half of the tasks, so that
  the reported fraction is at most one half.
\<close>

theorem summary_consistent:
  assumes "run_records run = Some rs" and "started_records rs \<noteq> []"
  defines "lat \<equiv> map latency_us (started_records rs)"
  shows "\<exists>out. summarize_run run = Some out \<and> unat (sm_started out) = length lat \<and>
    median_of lat = Some (median_latency_us out) \<and>
    0 \<le> median_latency_us out \<and> median_latency_us out \<le> max_latency_us out \<and>
    max_latency_us out = Max (set lat) \<and>
    unat (bug_count out) = length (filter (\<lambda>x. x > dmul BUG_MULTIPLIER (median_latency_us out)) lat) \<and>
    2 * unat (bug_count out) \<le> unat (sm_started out) \<and>
    0 \<le> bug_fraction out \<and> bug_fraction out \<le> 1 / 2 \<and> 0 < window_us out"
  by (rule summarize_facts [OF assms(1,2)]) (simp add: lat_def)

theorem summary_consistent_witness:
  "\<exists>out. summarize_run sample_run = Some out \<and> unat (sm_started out) = 2 \<and> 2 * unat (bug_count out) \<le> 2"
proof -
  have "started_records (records sample_run) = records sample_run"
    by (simp add: sample_run_def started_records_def)
  with summary_consistent [OF sample_run_records] show ?thesis
    by (auto simp: sample_run_def)
qed

end
