(* ===== verification/Pool_Finish.thy ===== *)
theory Pool_Finish
  imports Pool_Steps Summary
begin

text \<open>
  What holds when \<open>wl_run\<close> (\<open>week5/src/workload.c\<close>) returns, and that it does return: the facts the
  properties of \<open>Pool_Thms\<close> rest on.
\<close>

section \<open>Reachable states\<close>

interpretation pool: inductive_invariant pool_init "step_of (pool_step su)" "\<lambda>s. plan_ok su \<longrightarrow> pool_inv su s" for su
  using pool_inv_start pool_inv_step by unfold_locales blast+

abbreviation pool_reach :: "plan \<Rightarrow> pool \<Rightarrow> bool" where
  "pool_reach su \<equiv> reach pool_init (step_of (pool_step su))"

lemma wl_plan_facts:
  assumes "wl_plan cfg online = Some su"
  shows "plan_ok su" and "total_workers su = unat (pool su)" and "pool su = wl_pool_workers cfg online"
    and "path su = select_pathology (cfg_seed cfg)"
proof -
  let ?n = "wl_pool_workers cfg online"
  have n: "3 \<le> unat ?n" using pool_at_least_3 [of cfg online] by (simp add: word_le_nat_alt)
  then have "unat (?n - 1) = unat ?n - 1" by (intro unat_minus_one) auto
  then show "plan_ok su" "total_workers su = unat (pool su)" "pool su = ?n" "path su = select_pathology (cfg_seed cfg)"
    using assms n by (auto simp: wl_plan_def Let_def plan_ok_def total_workers_def split: if_splits option.splits)
qed

lemma pool_reach_inv: "wl_plan cfg online = Some su \<Longrightarrow> pool_reach su s \<Longrightarrow> pool_inv su s"
  using pool.reach_inv wl_plan_facts(1) by blast

section \<open>When the workers are joined\<close>

lemma joined_workers:
  assumes "ctrl_inv su s" and "p_disp s = DDone"
  shows "p_work s t = (if t < total_workers su then WExit else WPop)"
  using assms by (simp add: ctrl_inv_def)

lemma joined_queues:
  assumes "plan_ok su" and inv: "pool_inv su s" and d: "p_disp s = DDone" and k: "k < 2"
  shows "ids s k = []"
proof (rule ccontr)
  assume "ids s k \<noteq> []"
  then obtain i where i: "i \<in> set (ids s k)" by (cases "ids s k") auto
  then have "dq su i = k" using inv k by (auto simp: pool_inv_def task_inv_def)
  then obtain t where "t < total_workers su" "worker_queue su t = k" using queue_has_worker [OF assms(1), of i] by blast
  then have "count (p_q s k) = 0" using inv d joined_workers [of su s t] by (auto simp: pool_inv_def sleep_inv_def)
  then show False using i by (metis contents_empty empty_iff ids_def list.map_disc_iff list.set(1))
qed

lemma joined_finished:
  assumes "plan_ok su" and inv: "pool_inv su s" and d: "p_disp s = DDone"
  shows "distinct (p_finished s)" and "set (p_finished s) = {..<WL_TASKS}"
proof -
  have "ids s 0 = []" "ids s 1 = []" using joined_queues [OF assms] by simp_all
  moreover have "task_of (p_work s t) = None" for t
    using joined_workers [of su s t] inv d by (simp add: pool_inv_def)
  moreover have "tasks_ok (ids s 0) (ids s 1) (p_finished s) (\<lambda>t. task_of (p_work s t)) WL_TASKS"
    using inv d by (simp add: pool_inv_def task_inv_def)
  ultimately show "distinct (p_finished s)" "set (p_finished s) = {..<WL_TASKS}"
    unfolding tasks_ok_def by auto
qed

lemma distinct_below_length: "distinct xs \<Longrightarrow> set xs = {..<n} \<Longrightarrow> length xs = n"
  by (metis card_lessThan distinct_card)

section \<open>The records\<close>

text \<open>The record of a task that has run.\<close>

definition run_record :: "plan \<Rightarrow> ulong \<Rightarrow> nat \<Rightarrow> wl_record \<Rightarrow> bool" where
  "run_record su now i r \<longleftrightarrow> task_id r = of_nat i \<and> shard r = task_shard (of_nat i) \<and> service_us r = service su ! (i mod 4) \<and>
     (is_holder r \<noteq> 0 \<longleftrightarrow> path su = WL_PATH_BLOCKED_HOLDER \<and> i mod WL_HOLDER_PERIOD = 0) \<and>
     0 < start_ns r \<and> ready_ns r \<le> start_ns r \<and> start_ns r \<le> end_ns r \<and> end_ns r \<le> now"

lemma task_index:
  assumes "i < WL_TASKS"
  shows "unat ((of_nat i :: uint) mod 4) = i mod 4" and "(of_nat i :: uint) mod 400 = 0 \<longleftrightarrow> i mod WL_HOLDER_PERIOD = 0"
    and "task_shard (of_nat i) = 0 \<longleftrightarrow> i mod 4 = 3"
proof -
  have i: "unat (of_nat i :: uint) = i" using assms by (simp add: unat_of_nat take_bit_nat_eq_self)
  then show c: "unat ((of_nat i :: uint) mod 4) = i mod 4" by (simp add: unat_mod)
  show "(of_nat i :: uint) mod 400 = 0 \<longleftrightarrow> i mod WL_HOLDER_PERIOD = 0" using i by (simp add: word_unat_eq_iff unat_mod)
  show "task_shard (of_nat i) = 0 \<longleftrightarrow> i mod 4 = 3" using c by (simp add: task_shard_def word_unat_eq_iff)
qed

lemma stamped_run:
  assumes "stamped su now 2 i r" and "i < WL_TASKS"
  shows "run_record su now i r"
proof -
  obtain n m e where "n \<le> m" "0 < m" "m \<le> e" "e \<le> now" "r = (task_record su (of_nat i) n)\<lparr>start_ns := m, end_ns := e\<rparr>"
    using assms(1) by (auto simp: stamped_def)
  then show ?thesis using task_index [OF assms(2)] by (simp add: run_record_def task_record_def task_holder_def)
qed

lemma joined_records:
  assumes "plan_ok su" and inv: "pool_inv su s" and d: "p_disp s = DDone" and i: "i < WL_TASKS"
  shows "run_record su (p_now s) i (p_recs s ! i)"
proof -
  have "has_stage s i 2" using joined_finished(2) [OF assms(1-3)] i has_stage.finished by blast
  then show ?thesis using inv stamped_run [OF _ i] by (simp add: pool_inv_def rec_inv_def)
qed

section \<open>The counts\<close>

lemma count_class: "length (filter (\<lambda>i. i mod 4 = 3) [0..<4 * n]) = n"
proof (induction n)
  case (Suc n)
  have "[0..<4 * Suc n] = [0..<4 * n] @ [4 * n, 4 * n + 1, 4 * n + 2, 4 * n + 3]"
    using upt_add_eq_append [of 0 "4 * n" 4] by (simp add: upt_conv_Cons add.commute)
  moreover have "\<not> (4 * n) mod 4 = (3 :: nat)" "\<not> (4 * n + 1) mod 4 = (3 :: nat)" "\<not> (4 * n + 2) mod 4 = (3 :: nat)"
    "(4 * n + 3) mod 4 = (3 :: nat)" by presburger+
  ultimately show ?case using Suc by simp
qed simp

lemma joined_shards:
  assumes "plan_ok su" and inv: "pool_inv su s" and d: "p_disp s = DDone"
  shows "length (filter (\<lambda>r. shard r = 0) (take WL_TASKS (p_recs s))) = 1000"
    and "length (filter (\<lambda>r. shard r \<noteq> 0) (take WL_TASKS (p_recs s))) = 3000"
proof -
  have len: "length (take WL_TASKS (p_recs s)) = WL_TASKS" using inv by (simp add: pool_inv_def rec_inv_def)
  then have rs: "take WL_TASKS (p_recs s) = map (\<lambda>i. p_recs s ! i) [0..<WL_TASKS]"
    by (intro nth_equalityI) simp_all
  have "shard (p_recs s ! i) = 0 \<longleftrightarrow> i mod 4 = 3" if "i < WL_TASKS" for i
    using joined_records [OF assms that] task_index(3) [OF that] by (simp add: run_record_def)
  then have "filter (\<lambda>i. shard (p_recs s ! i) = 0) [0..<WL_TASKS] = filter (\<lambda>i. i mod 4 = 3) [0..<4 * 1000]"
    by (intro filter_cong) auto
  then show z: "length (filter (\<lambda>r. shard r = 0) (take WL_TASKS (p_recs s))) = 1000"
    unfolding rs using count_class [of 1000] by (simp add: filter_map comp_def)
  show "length (filter (\<lambda>r. shard r \<noteq> 0) (take WL_TASKS (p_recs s))) = 3000"
    using length_filter_add_not [of "\<lambda>r. shard r = 0" "take WL_TASKS (p_recs s)"] len z by simp
qed

end
