(* ===== verification/Pool_Progress.thy ===== *)
theory Pool_Progress
  imports Pool_Finish
begin

text \<open>
  Progress of the pool: in no reachable state is every thread blocked for good, and a measure that every step of a
  thread decreases bounds the length of a run.
\<close>

section \<open>No deadlock\<close>

text \<open>A thread that only waits for the time can go at a later time.\<close>

definition can_go :: "plan \<Rightarrow> pool \<Rightarrow> bool" where
  "can_go su s \<longleftrightarrow> (\<exists>n w u. p_now s \<le> n \<and>
     (pool_step su (Disp w) (s\<lparr>p_now := n\<rparr>) \<noteq> None \<or> pool_step su (Work u) (s\<lparr>p_now := n\<rparr>) \<noteq> None))"

lemma can_go_disp: "p_now s \<le> n \<Longrightarrow> disp_go su w (p_disp s) (s\<lparr>p_now := n\<rparr>) \<noteq> None \<Longrightarrow> can_go su s"
  unfolding can_go_def by (intro exI [of _ n] exI [of _ w]) simp

lemma can_go_work:
  "p_now s \<le> n \<Longrightarrow> t < total_workers su \<Longrightarrow> work_go su t (p_work s t) (s\<lparr>p_now := n\<rparr>) \<noteq> None \<Longrightarrow> can_go su s"
  unfolding can_go_def by (intro exI [of _ n] exI [of _ None] exI [of _ t]) simp

lemma gate_holder_goes:
  assumes ctrl: "ctrl_inv su s" and g: "p_gate s = Some u"
  shows "can_go su s"
proof -
  have "has_gate (p_work s u)" using ctrl g unfolding ctrl_inv_def by blast
  then obtain i e where w: "p_work s u = WHold i e" by (cases "p_work s u") auto
  then have u: "u < total_workers su" using ctrl unfolding ctrl_inv_def by (metis not_less wkpc.distinct(9))
  show ?thesis by (rule can_go_work [OF max.cobounded1 [of _ e] u]) (simp add: w)
qed

lemma worker_goes:
  assumes ctrl: "ctrl_inv su s" and t: "t < total_workers su" and w: "p_work s t \<noteq> WAsleep" "p_work s t \<noteq> WExit"
  shows "can_go su s"
proof (cases "work_go su t (p_work s t) (s\<lparr>p_now := p_now s\<rparr>) = None")
  case False
  then show ?thesis by (rule can_go_work [OF order_refl t])
next
  case True
  show ?thesis
  proof (cases "p_gate s")
    case (Some u)
    then show ?thesis by (rule gate_holder_goes [OF ctrl])
  next
    case None
    have "\<exists>i e. p_work s t = WHold i e \<or> p_work s t = WServe i e"
      using True w None by (cases "p_work s t") (auto simp: Let_def split: prod.splits if_splits)
    then obtain i e where "p_work s t = WHold i e \<or> p_work s t = WServe i e" by blast
    then have "work_go su t (p_work s t) (s\<lparr>p_now := max (p_now s) e\<rparr>) \<noteq> None" by auto
    then show ?thesis by (rule can_go_work [OF max.cobounded1 t])
  qed
qed

lemma pool_can_go:
  assumes inv: "pool_inv su s" and d: "p_disp s \<noteq> DDone"
  shows "can_go su s"
proof -
  have ctrl: "ctrl_inv su s" and sleep: "sleep_inv su s" using inv by (simp_all add: pool_inv_def)
  show ?thesis
  proof (cases "p_disp s")
    case (DSleep i)
    show ?thesis by (rule can_go_disp [OF max.cobounded1 [of _ "p_deadline s"], where w = None]) (simp add: DSleep)
  next
    case (DPush i b)
    let ?k = "dq su i" and ?n = "s\<lparr>p_now := p_now s\<rparr>"
    let ?w = "if sleepers su s ?k = [] then None else Some (hd (sleepers su s ?k))"
    have "sleepers su (dgoto p (set_queue j q s)) ?k = sleepers su s ?k" for p j q
      by (simp add: sleepers_def dgoto_def set_queue_def)
    then have "disp_go su ?w (p_disp s) s \<noteq> None"
      using DPush by (auto simp: Let_def signal_not_empty_def)
    then show ?thesis by (intro can_go_disp [OF order_refl, where w = ?w]) simp
  next
    case (DAsleep i b)
    have k: "dq su i < 2" by (rule dq_less_2)
    have full: "tq_full (p_q s (dq su i))" using sleep DAsleep by (simp add: sleep_inv_def)
    then have some: "count (p_q s (dq su i)) \<noteq> 0" using ctrl k queue_idle by (auto simp: ctrl_inv_def)
    then obtain t where t: "t < total_workers su" "worker_queue su t = dq su i" "p_work s t \<noteq> WAsleep"
      using sleep k unfolding sleep_inv_def by blast
    moreover have "p_work s t \<noteq> WExit" using sleep t(2) some by (auto simp: sleep_inv_def)
    ultimately show ?thesis using worker_goes [OF ctrl] by blast
  next
    case (DJoin t)
    show ?thesis
    proof (cases "t < total_workers su \<and> p_work s t \<noteq> WExit")
      case True
      moreover have "closed (p_q s (worker_queue su t))" using ctrl DJoin worker_queue_less_2 by (simp add: ctrl_inv_def)
      then have "p_work s t \<noteq> WAsleep" using sleep by (auto simp: sleep_inv_def)
      ultimately show ?thesis using worker_goes [OF ctrl] by blast
    next
      case False
      then show ?thesis using DJoin by (intro can_go_disp [OF order_refl, where w = None]) auto
    qed
  qed (use d in \<open>auto intro!: can_go_disp [OF order_refl, where w = None] simp: Let_def\<close>)
qed

section \<open>Termination\<close>

text \<open>
  How many steps the threads have left: per task 9 of the dispatcher and 10 of a worker, and what is needed to close
  the queues and join \<open>n\<close> workers. A wake-up adds one, which the step that wakes pays.
\<close>

abbreviation tasks_left :: "nat \<Rightarrow> nat \<Rightarrow> nat" where
  "tasks_left n i \<equiv> 19 * (WL_TASKS - i) + 3 * n + 4"

fun disp_left :: "nat \<Rightarrow> dpc \<Rightarrow> nat" where
  "disp_left n (DTop i) = tasks_left n i"
| "disp_left n (DBurst i e) = (if i < e then tasks_left n i - 1 else tasks_left n i + 2)"
| "disp_left n (DBurstEnd i) = tasks_left n i + 1"
| "disp_left n (DPace i) = tasks_left n i - 1"
| "disp_left n (DSleep i) = tasks_left n i - 2"
| "disp_left n (DLate i now) = tasks_left n i - 3"
| "disp_left n (DWrite i b) = tasks_left n i - 4"
| "disp_left n (DPush i b) = tasks_left n i - 5"
| "disp_left n (DAsleep i b) = tasks_left n i - 6"
| "disp_left n (DClose k) = (if k = 0 then 3 * n + 3 else 2 * n + 2)"
| "disp_left n (DJoin t) = 1 + (n - t)"
| "disp_left n DDone = 0"

fun work_left :: "wkpc \<Rightarrow> nat" where
  "work_left WExit = 0" | "work_left WAsleep = 1" | "work_left WPop = 2" | "work_left (WGate i) = 10"
| "work_left (WStart i) = 9" | "work_left (WLock i) = 8" | "work_left (WBegin i) = 8" | "work_left (WHold i e) = 7"
| "work_left (WServe i e) = 7" | "work_left (WEnd i) = 6" | "work_left (WCount i) = 5"

definition workers_left :: "nat \<Rightarrow> (tid \<Rightarrow> wkpc) \<Rightarrow> nat" where
  "workers_left n f = (\<Sum>t<n. work_left (f t))"

definition pool_left :: "plan \<Rightarrow> pool \<Rightarrow> nat" where
  "pool_left su s = disp_left (total_workers su) (p_disp s) + 10 * (length (ids s 0) + length (ids s 1)) +
     workers_left (total_workers su) (p_work s)"

lemma workers_left_upd:
  assumes "t < n"
  shows "workers_left n (f(t := p)) + work_left (f t) = workers_left n f + work_left p"
proof -
  have "workers_left n g = work_left (g t) + (\<Sum>u\<in>{..<n} - {t}. work_left (g u))" for g
    unfolding workers_left_def using assms by (intro sum.remove) auto
  note s = this [of f] this [of "f(t := p)"]
  have "(\<Sum>u\<in>{..<n} - {t}. work_left ((f(t := p)) u)) = (\<Sum>u\<in>{..<n} - {t}. work_left (f u))"
    by (intro sum.cong) auto
  then show ?thesis using s by simp
qed

lemma workers_left_wake:
  "workers_left n (\<lambda>t. if f t = WAsleep \<and> P t then WPop else f t) \<le> workers_left n f + n"
proof -
  have "(\<Sum>t<n. work_left (if f t = WAsleep \<and> P t then WPop else f t)) \<le> (\<Sum>t<n. work_left (f t) + 1)"
    by (intro sum_mono) auto
  also have "\<dots> = workers_left n f + n" unfolding workers_left_def sum.distrib by simp
  finally show ?thesis unfolding workers_left_def .
qed

lemma queues_upd:
  assumes "k < (2::nat)"
  shows "length (ids (s\<lparr>p_q := (p_q s)(k := q)\<rparr>) 0) + length (ids (s\<lparr>p_q := (p_q s)(k := q)\<rparr>) 1) + length (contents (p_q s k)) =
    length (ids s 0) + length (ids s 1) + length (contents q)"
  using assms by (auto simp: ids_def less_2_cases_iff)


lemma disp_left_step:
  assumes ctrl: "ctrl_inv su s" and st: "disp_go su w (p_disp s) s = Some s'"
  shows "pool_left su s' < pool_left su s"
proof -
  have d: "disp_ok (p_disp s)" using ctrl by (simp add: ctrl_inv_def)
  have q: ?thesis if "p_disp s' = p" "p_q s' = p_q s" "p_work s' = p_work s"
    "disp_left (total_workers su) p < disp_left (total_workers su) (p_disp s)" for p
    using that by (simp add: pool_left_def ids_def)
  have i: "i < WL_TASKS" if "burst_ok i b" for i b using that by (cases b) auto
  show ?thesis
  proof (cases "p_disp s")
    case (DPush i b)
    let ?k = "dq su i"
    show ?thesis
    proof (cases "tq_full (p_q s ?k)")
      case True
      then show ?thesis using st DPush d i [of i b] by (intro q [where p = "DAsleep i b"]) (auto simp: dgoto_def)
    next
      case False
      let ?q = "(p_q s)(?k := tq_put (of_nat i) (p_q s ?k))"
      obtain wk where s': "s' = s\<lparr>p_disp := dispatched i b, p_q := ?q, p_work := wk\<rparr>" and
        wk: "workers_left (total_workers su) wk \<le> workers_left (total_workers su) (p_work s) + 1"
      proof (cases w)
        case None
        then show ?thesis using that [of "p_work s"] st DPush False
          by (auto simp: pool_updates signal_not_empty_def split: if_splits)
      next
        case (Some t)
        then have t: "t \<in> set (sleepers su (dgoto (dispatched i b) (set_queue ?k (tq_put (of_nat i) (p_q s ?k)) s)) ?k)"
          and s': "s' = s\<lparr>p_disp := dispatched i b, p_q := ?q, p_work := (p_work s)(t := WPop)\<rparr>"
          using st DPush False by (auto simp: pool_updates signal_not_empty_def split: if_splits)
        from t have "t < total_workers su" "p_work s t = WAsleep" by (auto simp: sleepers_def pool_updates)
        then show ?thesis using that [OF s'] workers_left_upd [of t "total_workers su" "p_work s" WPop] by simp
      qed
      have k: "?k < 2" by (rule dq_less_2)
      then have "length (contents (tq_put (of_nat i) (p_q s ?k))) = length (contents (p_q s ?k)) + 1"
        using put_correct(2) ctrl False by (simp add: ctrl_inv_def del: length_contents)
      then have "length (ids s' 0) + length (ids s' 1) = length (ids s 0) + length (ids s 1) + 1"
        using queues_upd [OF k, of s "tq_put (of_nat i) (p_q s ?k)"] s' by (simp add: ids_def)
      moreover have "disp_left (total_workers su) (dispatched i b) + 12 \<le> disp_left (total_workers su) (p_disp s)"
        using i [of i b] d DPush by (cases b) auto
      ultimately show ?thesis using wk s' by (simp add: pool_left_def)
    qed
  next
    case (DClose k)
    let ?wk = "\<lambda>t. if p_work s t = WAsleep \<and> worker_queue su t = k then WPop else p_work s t"
    have s': "s' = s\<lparr>p_q := (p_q s)(k := tq_close (p_q s k)), p_work := ?wk, p_disp := (if k = 0 then DClose 1 else DJoin 0)\<rparr>"
      using st DClose by (simp add: pool_updates broadcast_not_empty_def cong: if_cong)
    have "ids s' j = ids s j" for j using s' by (simp add: ids_def)
    then show ?thesis
      using DClose s' workers_left_wake [of "total_workers su" "p_work s" "\<lambda>t. worker_queue su t = k"]
      by (cases "k = 0") (simp_all add: pool_left_def)
  next
    case (DTop j)
    let ?p = "if \<not> j < WL_TASKS then DClose 0
      else if path su = WL_PATH_BURST_ARRIVAL \<and> j mod WL_BURST_PERIOD = 0 then DBurst j (min (j + WL_BURST_SIZE) WL_TASKS)
      else DPace j"
    show ?thesis using st DTop by (intro q [where p = ?p]) (auto simp: dgoto_def)
  next
    case (DBurst j e)
    let ?p = "if j < e then DWrite j (Some e) else DBurstEnd j"
    show ?thesis using st DBurst d by (intro q [where p = ?p]) (auto simp: dgoto_def)
  next
    case (DBurstEnd j)
    then show ?thesis using st by (intro q [where p = "DTop j"]) (auto simp: dgoto_def)
  next
    case (DPace j)
    let ?p = "if p_now s < p_deadline s + gap_ns su then DSleep j else DLate j (p_now s)"
    show ?thesis using st DPace d by (intro q [where p = ?p]) (auto simp: dgoto_def Let_def)
  next
    case (DSleep j)
    then show ?thesis using st d by (intro q [where p = "DLate j (p_now s)"]) (auto simp: dgoto_def split: if_splits)
  next
    case (DLate j n)
    then show ?thesis using st d by (intro q [where p = "DWrite j None"]) (auto simp: dgoto_def Let_def)
  next
    case (DWrite j b)
    then show ?thesis using st d i [of j b] by (intro q [where p = "DPush j b"]) (auto simp: pool_updates)
  next
    case (DJoin t)
    let ?p = "if \<not> t < total_workers su then DDone else DJoin (Suc t)"
    show ?thesis using st DJoin by (intro q [where p = ?p]) (auto simp: dgoto_def split: if_splits)
  qed (use st in auto)
qed


lemma signal_not_full_other [simp]:
  "p_q (signal_not_full su k s) = p_q s" "p_work (signal_not_full su k s) = p_work s"
  "signal_not_full su k s = s \<or> (\<exists>i b. p_disp s = DAsleep i b \<and> signal_not_full su k s = dgoto (DPush i b) s)"
  by (auto simp: signal_not_full_def dgoto_def split: dpc.splits)

lemma work_left_step:
  assumes ctrl: "ctrl_inv su s" and st: "work_go su t (p_work s t) s = Some s'" and t: "t < total_workers su"
  shows "pool_left su s' < pool_left su s"
proof -
  have q: ?thesis if "p_disp s' = p_disp s" "p_q s' = p_q s" "p_work s' = (p_work s)(t := p)" "work_left p < work_left (p_work s t)" for p
    using workers_left_upd [OF t, of "p_work s" p] that by (simp add: pool_left_def ids_def)
  show ?thesis
  proof (cases "p_work s t")
    case WPop
    let ?k = "worker_queue su t" and ?T = "total_workers su"
    show ?thesis
    proof (cases "count (p_q s ?k) = 0")
      case True
      let ?p = "if closed (p_q s ?k) then WExit else WAsleep"
      show ?thesis using st WPop True by (intro q [where p = ?p]) (auto simp: wgo_to_def Let_def split: if_splits)
    next
      case False
      let ?x = "unat (fst (tq_take (p_q s ?k)))" and ?q = "(p_q s)(?k := snd (tq_take (p_q s ?k)))"
      have s': "s' = signal_not_full su ?k (s\<lparr>p_q := ?q, p_work := (p_work s)(t := WGate ?x)\<rparr>)"
        using st WPop False by (auto simp: pool_updates split: prod.splits)
      have k: "?k < 2" by (rule worker_queue_less_2)
      then have "length (contents (p_q s ?k)) = length (contents (snd (tq_take (p_q s ?k)))) + 1"
        using take_correct(2) [OF _ False] ctrl by (metis One_nat_def add.right_neutral add_Suc_right ctrl_inv_def length_Cons)
      then have "length (ids s' 0) + length (ids s' 1) + 1 = length (ids s 0) + length (ids s 1)"
        using queues_upd [OF k, of s "snd (tq_take (p_q s ?k))"] s' by (simp add: ids_def)
      moreover have "disp_left ?T (p_disp s') \<le> disp_left ?T (p_disp s) + 1"
        using signal_not_full_other(3) [of su ?k "s\<lparr>p_q := ?q, p_work := (p_work s)(t := WGate ?x)\<rparr>"] s'
        by (auto simp: dgoto_def)
      moreover have "workers_left ?T (p_work s') = workers_left ?T (p_work s) + 8"
        using workers_left_upd [OF t, of "p_work s" "WGate ?x"] WPop s' by simp
      ultimately show ?thesis by (simp add: pool_left_def)
    qed
  next
    case (WGate i)
    then show ?thesis using st by (intro q [where p = "WStart i"]) (auto simp: wgo_to_def split: if_splits)
  next
    case (WStart i)
    let ?p = "if is_holder (p_recs s ! i) \<noteq> 0 then WLock i else WBegin i"
    show ?thesis using st WStart by (intro q [where p = ?p]) (auto simp: pool_updates stamp_start_def split: if_splits)
  next
    case (WLock i)
    then show ?thesis using st
      by (intro q [where p = "WHold i (p_now s + of_nat WL_HOLD_US * 1000)"]) (auto simp: wgo_to_def split: if_splits)
  next
    case (WHold i e)
    then show ?thesis using st by (intro q [where p = "WEnd i"]) (auto simp: wgo_to_def split: if_splits)
  next
    case (WBegin i)
    then show ?thesis using st by (intro q [where p = "WServe i (p_now s + serve_ns (service_us (p_recs s ! i)))"]) (auto simp: wgo_to_def)
  next
    case (WServe i e)
    then show ?thesis using st by (intro q [where p = "WEnd i"]) (auto simp: wgo_to_def split: if_splits)
  next
    case (WEnd i)
    then show ?thesis using st by (intro q [where p = "WCount i"]) (auto simp: pool_updates stamp_end_def)
  next
    case (WCount i)
    then show ?thesis using st by (intro q [where p = WPop]) (auto simp: wgo_to_def)
  qed (use st in auto)
qed

text \<open>The steps of a schedule that are taken by threads, and its spurious wake-ups.\<close>

fun is_thread_step :: "pact \<Rightarrow> bool" where
  "is_thread_step (Disp w) = True" | "is_thread_step (Work t) = True" | "is_thread_step a = False"

fun is_wakeup :: "pact \<Rightarrow> bool" where
  "is_wakeup WakeDisp = True" | "is_wakeup (WakeWork t) = True" | "is_wakeup a = False"

lemma pool_left_step:
  assumes ctrl: "ctrl_inv su s" and st: "pool_step su a s = Some s'"
  shows "(if is_thread_step a then 1 else 0) + pool_left su s' \<le> pool_left su s + (if is_wakeup a then 1 else 0)"
proof (cases a)
  case (Disp w)
  then show ?thesis using disp_left_step [OF ctrl, of w s'] st by simp
next
  case (Work t)
  then show ?thesis using work_left_step [OF ctrl, of t s'] st by (auto split: if_splits)
next
  case WakeDisp
  then show ?thesis using st by (auto simp: pool_left_def ids_def dgoto_def split: dpc.splits)
next
  case (WakeWork t)
  then have "t < total_workers su" "p_work s t = WAsleep" "s' = wgo_to t WPop s" using st by (auto split: if_splits)
  then show ?thesis using workers_left_upd [of t "total_workers su" "p_work s" WPop] WakeWork
    by (simp add: pool_left_def ids_def wgo_to_def)
next
  case (Tick n)
  then show ?thesis using st by (auto simp: pool_left_def ids_def split: if_splits)
qed

lemma pool_run_left:
  assumes "plan_ok su"
  shows "pool_inv su s \<Longrightarrow> exec (pool_step su) s ls = Some s' \<Longrightarrow>
    length (filter is_thread_step ls) + pool_left su s' \<le> pool_left su s + length (filter is_wakeup ls)"
proof (induction ls arbitrary: s)
  case (Cons a ls)
  then obtain u where u: "pool_step su a s = Some u" "exec (pool_step su) u ls = Some s'" by (auto split: option.splits)
  have "pool_inv su u" using pool_inv_step [OF assms _ Cons.prems(1)] u(1) by blast
  then show ?case
    using Cons.IH [OF _ u(2)] pool_left_step [OF _ u(1)] Cons.prems(1) by (auto simp: pool_inv_def split: if_splits)
qed simp

lemma pool_left_start: "pool_init s \<Longrightarrow> pool_left su s = 76004 + 5 * total_workers su"
  by (auto simp: pool_init_def pool_start_def pool_left_def ids_def workers_left_def tq_init_def contents_def split: option.splits)

end
