(* ===== verification/Pool_Thms.thy ===== *)
theory Pool_Thms
  imports Pool_Progress
begin

text \<open>
  The properties of the thread pool of \<open>week5/src/workload.c\<close>: the ring buffer is a FIFO queue, a run finishes and
  what it leaves is complete, and the analysis of \<open>week5/src/analyze.c\<close> accepts it.
\<close>

section \<open>Every run can finish\<close>

lemma pool_reaches_done:
  assumes "plan_ok su"
  shows "pool_inv su s \<Longrightarrow> \<exists>s'. (step_of (pool_step su))\<^sup>*\<^sup>* s s' \<and> p_disp s' = DDone"
proof (induction "pool_left su s" arbitrary: s rule: less_induct)
  case less
  show ?case
  proof (cases "p_disp s = DDone")
    case False
    then obtain n a s' where n: "p_now s \<le> n" and a: "is_thread_step a" "pool_step su a (s\<lparr>p_now := n\<rparr>) = Some s'"
      using pool_can_go [OF less.prems] unfolding can_go_def by (metis is_thread_step.simps(1,2) not_None_eq)
    have t: "step_of (pool_step su) s (s\<lparr>p_now := n\<rparr>)" using n by (intro step_ofI [of _ "Tick n"]) simp
    have inv: "pool_inv su (s\<lparr>p_now := n\<rparr>)" using t less.prems by (rule pool_inv_step [OF assms])
    have st: "step_of (pool_step su) (s\<lparr>p_now := n\<rparr>) s'" using a(2) by blast
    have "\<not> is_wakeup a" using a(1) by (cases a) auto
    then have "pool_left su s' < pool_left su (s\<lparr>p_now := n\<rparr>)"
      using pool_left_step [OF _ a(2)] a(1) inv by (auto simp: pool_inv_def)
    then have "pool_left su s' < pool_left su s" by (simp add: pool_left_def ids_def)
    from less.hyps [OF this pool_inv_step [OF assms st inv]] t st show ?thesis
      by (meson converse_rtranclp_into_rtranclp)
  qed blast
qed

lemma reach_steps: "reach init step s \<Longrightarrow> step\<^sup>*\<^sup>* s t \<Longrightarrow> reach init step t"
  by (rotate_tac, induction rule: rtranclp.induct) (auto intro: reach.reach_step)

text \<open>A start state, and with it a finished run, for the witnesses.\<close>

definition blank_queue :: taskq where
  "blank_queue = \<lparr>slot = replicate 64 0, capacity = 64, head = 0, tail = 0, count = 0, closed = False\<rparr>"

definition blank_pool :: pool where
  "blank_pool = \<lparr>p_q = (\<lambda>_. blank_queue), p_gate = None, p_completed = 0, p_recs = replicate WL_TASKS zero_record, p_deadline = 1,
     p_late = [], p_disp = DTop 0, p_work = (\<lambda>_. WPop), p_now = 1, p_finished = []\<rparr>"

lemma blank_start: "pool_init blank_pool"
proof -
  have "pool_start (replicate WL_TASKS zero_record) 1 = Some blank_pool"
    by (simp add: pool_start_def tq_init_def blank_pool_def blank_queue_def)
  then show ?thesis unfolding pool_init_def by (intro exI [of _ "replicate WL_TASKS zero_record"] exI [of _ 1]) simp
qed

lemma blank_reach: "pool_reach su blank_pool"
  by (rule reach_init) (rule blank_start)

lemma finished_pool: "\<exists>s. pool_reach default_plan s \<and> p_disp s = DDone"
proof -
  have "pool_inv default_plan blank_pool" by (rule pool_inv_start [OF blank_start])
  then show ?thesis
    using pool_reaches_done [OF wl_plan_facts(1) [OF wl_plan_default]] reach_steps [OF blank_reach] by metis
qed

section \<open>What is left when the workers are joined\<close>

lemma finish_facts:
  assumes "wl_plan cfg online = Some su" and "pool_reach su s" and "p_disp s = DDone"
  shows "queued (wl_finish su s) = 4000 \<and> completed (wl_finish su s) = 4000 \<and>
    shard0_count (wl_finish su s) = 1000 \<and> shard1_count (wl_finish su s) = 3000 \<and>
    workers (wl_finish su s) = wl_pool_workers cfg online \<and>
    distinct (p_finished s) \<and> set (p_finished s) = {..<WL_TASKS} \<and>
    (\<forall>i<WL_TASKS. run_record su (p_now s) i (records (wl_finish su s) ! i))"
proof -
  have plan: "plan_ok su" and inv: "pool_inv su s" using wl_plan_facts(1) pool_reach_inv assms(1,2) by blast+
  have f: "distinct (p_finished s)" "set (p_finished s) = {..<WL_TASKS}" by (rule joined_finished [OF plan inv assms(3)])+
  then have "completed (wl_finish su s) = 4000"
    using inv distinct_below_length [OF f] by (simp add: wl_finish_def Let_def pool_inv_def sum_inv_def)
  then show ?thesis
    using f joined_records [OF plan inv assms(3)] joined_shards [OF plan inv assms(3)] wl_plan_facts(3) [OF assms(1)]
    by (simp add: wl_finish_def Let_def)
qed

section \<open>Properties\<close>

text \<open>
  C31: the ring buffer of task ids is a bounded FIFO queue: whatever pushes and pops run on it, as far as none would have to
  wait, what was popped and what is left is what was pushed, in that order, and it never holds more than its
  capacity; head and tail stay inside the array, wrap-around included.
\<close>

theorem tq_refines_fifo:
  assumes "tq_init cap True [0, 0, 0] = Some q" and "0 < unat cap" and "tq.run_queue ops q = Some (out, q')"
  shows "out @ contents q' = concat (map (\<lambda>p. case p of Put x \<Rightarrow> [x] | Take \<Rightarrow> []) ops) \<and>
    length (contents q') \<le> unat cap \<and> length (slot q') = unat cap \<and> unat (head q') < unat cap \<and> unat (tail q') < unat cap"
proof -
  have q: "ring_ok q" "contents q = []" "capacity q = cap" using ring_ok_init [OF assms(1,2)] by simp_all
  have "ring_ok q'" "unat (capacity q') = unat cap"
    "out @ contents q' = concat (map (\<lambda>p. case p of Put x \<Rightarrow> [x] | Take \<Rightarrow> []) ops)"
    using tq.run_fifo [OF q(1) assms(3)] q(2,3) by simp_all
  then show ?thesis by (simp add: ring_ok_def)
qed

theorem tq_refines_fifo_witness:
  "\<exists>q out q'. tq_init 2 True [0, 0, 0] = Some q \<and>
     tq.run_queue [Put 7, Put 8, Take, Put 9, Take] q = Some (out, q') \<and> out @ contents q' = [7, 8, 9]"
proof -
  let ?q = "\<lparr>slot = [0, 0], capacity = 2, head = 0, tail = 0, count = 0, closed = False\<rparr>"
  let ?q' = "\<lparr>slot = [9, 8], capacity = 2, head = 0, tail = 1, count = 1, closed = False\<rparr>"
  have i: "tq_init 2 True [0, 0, 0] = Some ?q" by (simp add: tq_init_def) (simp add: numeral_2_eq_2)
  have r: "tq.run_queue [Put 7, Put 8, Take, Put 9, Take] ?q = Some ([7, 8], ?q')"
    by (simp add: tq_full_def tq_put_def tq_take_def flip: length_0_conv)
  show ?thesis using i r tq_refines_fifo [OF i _ r] by simp
qed

text \<open>
  C4: what \<open>wl_run\<close> returns: when it has joined its workers, all 4000 tasks have been run, each of them once; the queued,
  completed and per-shard counts are 4000, 4000, 1000 and 3000; and every record has the task's id, shard, service
  time and holder flag and the times ready, start and end in this order, with start not 0.
\<close>

theorem wl_run_complete:
  assumes "wl_plan cfg online = Some su" and "pool_reach su s" and "p_disp s = DDone"
  shows "queued (wl_finish su s) = 4000 \<and> completed (wl_finish su s) = 4000 \<and>
    shard0_count (wl_finish su s) = 1000 \<and> shard1_count (wl_finish su s) = 3000 \<and>
    workers (wl_finish su s) = wl_pool_workers cfg online \<and>
    distinct (p_finished s) \<and> set (p_finished s) = {..<WL_TASKS} \<and>
    (\<forall>i<WL_TASKS. run_record su (p_now s) i (records (wl_finish su s) ! i))"
  by (rule finish_facts [OF assms])

theorem wl_run_complete_witness:
  "\<exists>s. p_disp s = DDone \<and> completed (wl_finish default_plan s) = 4000 \<and> workers (wl_finish default_plan s) = wl_pool_workers wl_default_config 5"
  using finished_pool wl_run_complete [OF wl_plan_default] by blast

text \<open>
  C7: the pool neither deadlocks nor loses a wake-up: in every reachable state before the end some thread can take a step,
  now or once the clock has advanced, and the run can be completed from there.
\<close>

theorem pool_never_stuck:
  assumes "wl_plan cfg online = Some su" and "pool_reach su s"
  shows "(p_disp s = DDone \<or> can_go su s) \<and> (\<exists>s'. (step_of (pool_step su))\<^sup>*\<^sup>* s s' \<and> p_disp s' = DDone)"
  using pool_can_go pool_reaches_done wl_plan_facts(1) pool_reach_inv assms by blast

theorem pool_never_stuck_witness: "can_go default_plan blank_pool"
  using pool_never_stuck [OF wl_plan_default blank_reach] by (simp add: blank_pool_def)

text \<open>
  C15: a run ends: whatever the schedule, the threads of a pool of \<open>n\<close> workers take at most \<open>76004 + 5 n\<close> steps, and one more for
  each spurious wake-up.
\<close>

theorem pool_terminates:
  assumes "wl_plan cfg online = Some su" and "pool_init s" and "exec (pool_step su) s ls = Some s'"
  shows "length (filter is_thread_step ls) \<le> 76004 + 5 * unat (wl_pool_workers cfg online) + length (filter is_wakeup ls)"
  using pool_run_left [OF wl_plan_facts(1) [OF assms(1)] pool_inv_start [OF assms(2)] assms(3)]
    pool_left_start [OF assms(2)] wl_plan_facts(2,3) [OF assms(1)] by simp

theorem pool_terminates_witness:
  "\<exists>s. exec (pool_step default_plan) blank_pool [Disp None, Work 3, WakeWork 3, Work 3] = Some s \<and>
     (3::nat) \<le> 76004 + 5 * unat (wl_pool_workers wl_default_config 5) + 1"
proof -
  have "\<exists>s. exec (pool_step default_plan) blank_pool [Disp None, Work 3, WakeWork 3, Work 3] = Some s"
    by (simp add: blank_pool_def blank_queue_def default_plan_def total_workers_def worker_queue_def pool_updates)
  then obtain s where s: "exec (pool_step default_plan) blank_pool [Disp None, Work 3, WakeWork 3, Work 3] = Some s" by blast
  show ?thesis using s pool_terminates [OF wl_plan_default blank_start s] by simp
qed

text \<open>
  C30: no array of the run is left: in every reachable state both rings are in bounds, \<open>late\<close> has at most 4000 entries and
  room for one more when the dispatcher is about to add one, and every task in a queue or with a worker has its record.
  The lateness \<open>now - deadline\<close> does not wrap, and at most one worker holds the gate.
\<close>

theorem pool_in_bounds:
  assumes "wl_plan cfg online = Some su" and "pool_reach su s"
  shows "(\<forall>k\<in>{0, 1}. length (slot (p_q s k)) = 64 \<and> unat (head (p_q s k)) < 64 \<and> unat (tail (p_q s k)) < 64 \<and> count (p_q s k) \<le> 64) \<and>
    length (p_late s) \<le> WL_TASKS \<and> (\<forall>i n. p_disp s = DLate i n \<longrightarrow> length (p_late s) < WL_TASKS \<and> p_deadline s \<le> n) \<and>
    WL_TASKS \<le> length (p_recs s) \<and> (\<forall>i b. p_disp s = DWrite i b \<longrightarrow> i < WL_TASKS) \<and>
    (\<forall>k\<in>{0, 1}. \<forall>i\<in>set (contents (p_q s k)). unat i < WL_TASKS) \<and> (\<forall>t i. task_of (p_work s t) = Some i \<longrightarrow> i < WL_TASKS) \<and>
    (\<forall>t u i j e f. p_work s t = WHold i e \<and> p_work s u = WHold j f \<longrightarrow> t = u)"
proof -
  have inv: "ctrl_inv su s" "task_inv su s" "rec_inv su s" "sum_inv s"
    using pool_reach_inv [OF assms] by (simp_all add: pool_inv_def)
  have d: "disp_ok (p_disp s)" using inv(1) by (simp add: ctrl_inv_def)
  then have n: "next_task (p_disp s) \<le> WL_TASKS" "late_max (p_disp s) \<le> WL_TASKS"
    by (cases "p_disp s"; auto elim!: burst_ok.elims)+
  have "ring_ok (p_q s k) \<and> capacity (p_q s k) = 64" if "k \<in> {0, 1}" for k using inv(1) that by (auto simp: ctrl_inv_def)
  then have r: "length (slot (p_q s k)) = 64 \<and> unat (head (p_q s k)) < 64 \<and> unat (tail (p_q s k)) < 64 \<and> count (p_q s k) \<le> 64"
    if "k \<in> {0, 1}" for k using that by (fastforce simp: ring_ok_def word_le_nat_alt)
  have l: "length (p_late s) \<le> late_max (p_disp s)" using inv(4) by (simp add: sum_inv_def)
  have t: "i < WL_TASKS" if "i \<in> set (ids s 0) \<or> i \<in> set (ids s 1) \<or> task_of (p_work s u) = Some i" for i u
    using inv(2) that n(1) unfolding task_inv_def tasks_ok_def by (metis Un_iff less_le_trans set_append)
  have c: "\<forall>k\<in>{0, 1}. \<forall>i\<in>set (contents (p_q s k)). unat i < WL_TASKS" using t by (auto simp: ids_def)
  have g: "t = u" if "has_gate (p_work s t)" "has_gate (p_work s u)" for t u
    using inv(1) that unfolding ctrl_inv_def by (metis option.inject)
  show ?thesis
  proof (intro conjI)
    show "\<forall>i n. p_disp s = DLate i n \<longrightarrow> length (p_late s) < WL_TASKS \<and> p_deadline s \<le> n"
      using l d inv(4) by (auto simp: sum_inv_def)
    show "\<forall>i b. p_disp s = DWrite i b \<longrightarrow> i < WL_TASKS" using d by (auto elim!: burst_ok.elims)
    show "\<forall>t u i j e f. p_work s t = WHold i e \<and> p_work s u = WHold j f \<longrightarrow> t = u" using g by (metis has_gate.simps(1))
    show "WL_TASKS \<le> length (p_recs s)" using inv(3) by (simp add: rec_inv_def)
    show "length (p_late s) \<le> WL_TASKS" using l n(2) by simp
  qed (use r c t in blast)+
qed

theorem pool_in_bounds_witness:
  "\<exists>s. pool_reach default_plan s \<and> p_disp s = DDone \<and> length (p_late s) \<le> WL_TASKS"
  using finished_pool pool_in_bounds [OF wl_plan_default] by blast

text \<open>
  The size of the pool and its pace: at least 3 workers, no more than configured and no more than the CPUs less one
  (but for that minimum), and for the shared queue a gap of 181.818 microseconds with 3 workers, of 136.363 with more.
\<close>

lemma pool_size_and_pace:
  assumes "wl_plan cfg online = Some su"
  shows "3 \<le> pool su \<and> unat (pool su) \<le> max 3 (unat (cfg_workers cfg)) \<and>
    (1 < sint online \<longrightarrow> unat (pool su) \<le> max 3 (unat (online - 1))) \<and>
    (path su \<noteq> WL_PATH_UNEVEN_PARTITION \<longrightarrow> gap_ns su = (if pool su = 3 then 181818 else 136363))"
proof -
  have p: "pool su = wl_pool_workers cfg online" by (rule wl_plan_facts(3) [OF assms])
  have lt: "unat y < 2 ^ 32" for y :: uint using unsigned_less [of y] by simp
  then have up: "unat (ucast y :: ulong) = unat y" for y :: uint
    by (simp add: unsigned_ucast_eq take_bit_nat_eq_self less_trans [OF lt])
  have u: "unat (ucast x :: uint) = unat x" if "x < ucast (y :: uint)" for x :: ulong and y
    using that lt [of y] up [of y] by (simp add: word_less_nat_alt unsigned_ucast_eq take_bit_nat_eq_self)
  have "unat (pool su) \<le> max 3 (unat (cfg_workers cfg))" "1 < sint online \<longrightarrow> unat (pool su) \<le> max 3 (unat (online - 1))"
    unfolding p wl_pool_workers_def Let_def using u [of "online - 1"]
    by (auto simp: word_less_nat_alt up)
  then show ?thesis using shared_queue_gap [OF assms] pool_at_least_3 [of cfg online] p by simp
qed

end
