(* ===== verification/Audit_Run.thy ===== *)
theory Audit_Run
  imports Pool_Thms Cstdlib
begin

text \<open>
  The program \<open>week5/src/audit.c\<close>: it runs the workload of \<open>workload.c\<close> a number of times on the same array of
  records and prints one row of the analysis of \<open>analyze.c\<close> per run. Here the two components meet.
\<close>

section \<open>The program\<close>

text \<open>The argument: 25 runs, or what \<open>argv[1]\<close> says; \<open>None\<close> when it is not a number.\<close>

definition audit_runs :: "string list \<Rightarrow> int option" where
  "audit_runs args = (case args of [] \<Rightarrow> Some 25 | a # _ \<Rightarrow> whole_number a)"

text \<open>The complaint that tasks were lost, and a row: run, seed, workers, tasks, the summary and \<open>pace_late_us\<close>.\<close>

datatype audit_line = Lost_Work int uint uint | Row int ulong uint nat wl_summary double

fun warm_up :: "wl_config \<Rightarrow> clong \<Rightarrow> (ulong \<times> pact list) list \<Rightarrow> wl_record list \<Rightarrow> wl_record list option" where
  "warm_up cfg online [] recs = Some recs"
| "warm_up cfg online (ex # exs) recs = do {
     run \<leftarrow> wl_run cfg online ex recs;
     warm_up cfg online exs (records run)
   }"

fun audit_loop :: "wl_config \<Rightarrow> clong \<Rightarrow> int \<Rightarrow> (ulong \<times> pact list) list \<Rightarrow> wl_record list \<Rightarrow> audit_line list option" where
  "audit_loop cfg online i [] recs = Some []"
| "audit_loop cfg online i (ex # exs) recs = do {
     run \<leftarrow> wl_run cfg online ex recs;
     s \<leftarrow> summarize_run run;
     rest \<leftarrow> audit_loop cfg online (i + 1) exs (records run);
     Some ((if completed run \<noteq> queued run then [Lost_Work i (completed run) (queued run)] else []) @
       Row i (cfg_seed cfg) (workers run) WL_TASKS s (pace_late_us run) # rest)
   }"

text \<open>
  \<open>main\<close>, with the answer of \<open>calloc\<close>, the number of CPUs and the executions of the calls of \<open>wl_run\<close>: the exit status and
  the lines. \<open>None\<close> when \<open>exs\<close> are not the executions of all the calls.
\<close>

definition audit_main :: "string list \<Rightarrow> bool \<Rightarrow> clong \<Rightarrow> (ulong \<times> pact list) list \<Rightarrow> (int \<times> audit_line list) option" where
  "audit_main args calloc_ok online exs =
     (case audit_runs args of None \<Rightarrow> Some (1, [])
      | Some n \<Rightarrow>
          if n < 20 \<or> n > 1000 then Some (1, [])
          else if \<not> calloc_ok then Some (1, [])
          else (let cfg = wl_default_config; w = unat (cfg_warmup_runs cfg) in
            if length exs \<noteq> w + nat n then None
            else do {
              recs \<leftarrow> warm_up cfg online (take w exs) (replicate WL_TASKS zero_record);
              lines \<leftarrow> audit_loop cfg online 0 (drop w exs) recs;
              Some (0, lines)
            }))"

section \<open>One run\<close>

lemma wl_run_reach:
  assumes "wl_run cfg online ex recs = Some r" and "0 < fst ex" and "WL_TASKS \<le> length recs"
  obtains su s where "wl_plan cfg online = Some su" and "pool_reach su s" and "p_disp s = DDone" and "r = wl_finish su s"
proof -
  obtain su s0 s where "wl_plan cfg online = Some su" "pool_start recs (fst ex) = Some s0"
    "exec (pool_step su) s0 (snd ex) = Some s" "p_disp s = DDone" "r = wl_finish su s"
    using assms(1) by (auto simp: wl_run_def split: option.splits if_splits)
  moreover from this have "pool_init s0" using assms(2,3) by (auto simp: pool_init_def)
  ultimately show ?thesis using that exec_from_init by metis
qed

text \<open>What the caller of \<open>wl_run\<close> gets.\<close>

definition run_ok :: "wl_config \<Rightarrow> clong \<Rightarrow> wl_result \<Rightarrow> bool" where
  "run_ok cfg online r \<longleftrightarrow> queued r = 4000 \<and> completed r = 4000 \<and> shard0_count r = 1000 \<and> shard1_count r = 3000 \<and>
     workers r = wl_pool_workers cfg online \<and> WL_TASKS \<le> length (records r) \<and>
     (\<forall>rec\<in>set (take WL_TASKS (records r)). record_ok rec \<and> start_ns rec \<noteq> 0)"

lemma wl_run_ok:
  assumes "wl_run cfg online ex recs = Some r" and "0 < fst ex" and "WL_TASKS \<le> length recs"
  shows "run_ok cfg online r"
proof -
  obtain su s where s: "wl_plan cfg online = Some su" "pool_reach su s" "p_disp s = DDone" "r = wl_finish su s"
    using wl_run_reach [OF assms] .
  note f = finish_facts [OF s(1-3), folded s(4)]
  have len: "WL_TASKS \<le> length (records r)"
    using pool_reach_inv [OF s(1,2)] s(4) by (simp add: wl_finish_def Let_def pool_inv_def rec_inv_def)
  have "record_ok rec \<and> start_ns rec \<noteq> 0" if rec: "rec \<in> set (take WL_TASKS (records r))" for rec
  proof -
    obtain i where i: "i < WL_TASKS" "rec = records r ! i" using rec len by (auto simp: in_set_conv_nth)
    have "run_record su (p_now s) i rec" unfolding i(2) using f i(1) by blast
    then show ?thesis by (auto simp: run_record_def record_ok_def)
  qed
  then show ?thesis using f len unfolding run_ok_def by blast
qed

lemma run_ok_records:
  assumes "run_ok cfg online r"
  shows "run_records r = Some (take WL_TASKS (records r))" and "started_records (take WL_TASKS (records r)) = take WL_TASKS (records r)"
    and "length (take WL_TASKS (records r)) = WL_TASKS"
  using assms by (auto simp: run_ok_def run_records_def started_records_def)

text \<open>Every call of \<open>wl_run\<close> can return.\<close>

lemma wl_run_returns:
  assumes "wl_plan cfg online = Some su" and "0 < now" and "WL_TASKS \<le> length recs"
  shows "\<exists>sched r. wl_run cfg online (now, sched) recs = Some r"
proof -
  obtain s0 where s0: "pool_start recs now = Some s0" by (auto simp: pool_start_def tq_init_def)
  then have "pool_init s0" using assms(2,3) by (auto simp: pool_init_def)
  then obtain s where s: "(step_of (pool_step su))\<^sup>*\<^sup>* s0 s" "p_disp s = DDone"
    using pool_reaches_done [OF wl_plan_facts(1) [OF assms(1)] pool_inv_start] by blast
  obtain ls where ls: "exec (pool_step su) s0 ls = Some s" using steps_exec [OF s(1)] by blast
  have "wl_run cfg online (now, ls) recs = Some (wl_finish su s)" by (simp add: wl_run_def assms(1) s0 ls s(2))
  then show ?thesis by blast
qed

section \<open>The summary of a run\<close>

lemma summarize_frame:
  "summarize_run run = Some out \<Longrightarrow> sm_queued out = queued run \<and> sm_completed out = completed run \<and>
     sm_shard0_count out = shard0_count run \<and> sm_shard1_count out = shard1_count run"
  by (auto simp: summarize_run_def summary_zero_def Let_def split: prod.splits option.splits if_splits Option.bind_splits)

definition summary_ok :: "wl_summary \<Rightarrow> bool" where
  "summary_ok s \<longleftrightarrow> sm_queued s = 4000 \<and> sm_completed s = 4000 \<and> sm_started s = 4000 \<and>
     sm_shard0_count s = 1000 \<and> sm_shard1_count s = 3000 \<and>
     0 \<le> median_latency_us s \<and> median_latency_us s \<le> max_latency_us s \<and> bug_count s \<le> 2000 \<and>
     0 \<le> bug_fraction s \<and> bug_fraction s \<le> 1 / 2"

lemma run_summarized:
  assumes ok: "run_ok cfg online r"
  shows "\<exists>s. summarize_run r = Some s \<and> summary_ok s"
proof -
  note rr = run_ok_records [OF ok]
  then have "started_records (take WL_TASKS (records r)) \<noteq> []" by auto
  from summarize_facts [OF rr(1) this refl] obtain s where s: "summarize_run r = Some s"
    "unat (sm_started s) = WL_TASKS" "0 \<le> median_latency_us s" "median_latency_us s \<le> max_latency_us s"
    "2 * unat (bug_count s) \<le> unat (sm_started s)" "0 \<le> bug_fraction s" "bug_fraction s \<le> 1 / 2" using rr by auto
  then show ?thesis using summarize_frame [OF s(1)] ok
    by (intro exI [of _ s]) (auto simp: summary_ok_def run_ok_def word_unat_eq_iff word_le_nat_alt)
qed

section \<open>The loops\<close>

lemma warm_up_length:
  "warm_up cfg online exs recs = Some recs' \<Longrightarrow> \<forall>ex\<in>set exs. 0 < fst ex \<Longrightarrow> WL_TASKS \<le> length recs \<Longrightarrow> WL_TASKS \<le> length recs'"
proof (induction cfg online exs recs rule: warm_up.induct)
  case (2 cfg online ex exs recs)
  then obtain r where r: "wl_run cfg online ex recs = Some r" "warm_up cfg online exs (records r) = Some recs'"
    by (auto split: Option.bind_splits)
  moreover have "run_ok cfg online r" using wl_run_ok [OF r(1)] 2(3,4) by simp
  ultimately show ?case using 2(1) [OF r(1)] 2(3) by (simp add: run_ok_def)
qed simp

lemma audit_loop_rows:
  "audit_loop cfg online i exs recs = Some out \<Longrightarrow> \<forall>ex\<in>set exs. 0 < fst ex \<Longrightarrow> WL_TASKS \<le> length recs \<Longrightarrow>
     length out = length exs \<and> (\<forall>k<length exs. \<exists>s late. summary_ok s \<and>
       out ! k = Row (i + int k) (cfg_seed cfg) (wl_pool_workers cfg online) WL_TASKS s late)"
proof (induction cfg online i exs recs arbitrary: out rule: audit_loop.induct)
  case (2 cfg online i ex exs recs)
  then obtain r s rest where r: "wl_run cfg online ex recs = Some r" "summarize_run r = Some s"
    "audit_loop cfg online (i + 1) exs (records r) = Some rest" and
    out: "out = (if completed r \<noteq> queued r then [Lost_Work i (completed r) (queued r)] else []) @
       Row i (cfg_seed cfg) (workers r) WL_TASKS s (pace_late_us r) # rest"
    by (auto split: Option.bind_splits)
  have ok: "run_ok cfg online r" using wl_run_ok [OF r(1)] 2(3,4) by simp
  then have "summary_ok s" using run_summarized r(2) by fastforce
  moreover have "out = Row i (cfg_seed cfg) (wl_pool_workers cfg online) WL_TASKS s (pace_late_us r) # rest"
    using ok out by (simp add: run_ok_def)
  moreover have "length rest = length exs \<and> (\<forall>k<length exs. \<exists>s late. summary_ok s \<and>
       rest ! k = Row (i + 1 + int k) (cfg_seed cfg) (wl_pool_workers cfg online) WL_TASKS s late)"
    using 2(1) [OF r(1,2,3)] 2(3) ok by (simp add: run_ok_def)
  ultimately show ?case by (auto simp: nth_Cons' less_Suc_eq_0_disj add.assoc)
qed simp

text \<open>Executions exist for every number of runs, whenever they start.\<close>

lemma default_plans: "\<exists>su. wl_plan wl_default_config online = Some su"
proof -
  let ?n = "wl_pool_workers wl_default_config online"
  have "?n = 3 \<or> ?n = 4"
  proof -
    have "3 \<le> ?n" by (rule pool_at_least_3)
    moreover have "?n \<le> 4"
      unfolding wl_pool_workers_def Let_def wl_default_config_def by (auto simp: word_le_nat_alt word_less_nat_alt unsigned_ucast_eq take_bit_nat_eq_self)
    ultimately show ?thesis by (auto simp: word_le_nat_alt word_unat_eq_iff)
  qed
  moreover have "to_u64 (dmul (ddiv 300 (dmul 4 WL_TARGET_RHO)) 1000) \<noteq> None" "to_u64 (dmul (ddiv 300 (dmul 3 WL_TARGET_RHO)) 1000) \<noteq> None"
    by (simp_all add: to_u64_def default_gap pace_3_gap)
  moreover have "size_sum wl_default_config = 123000"
    using size_sum_exact [of wl_default_config] by (simp add: wl_default_config_def)
  moreover have "select_pathology (cfg_seed wl_default_config) = WL_PATH_BLOCKED_HOLDER" by code_simp
  moreover have "length (cfg_sizes wl_default_config) = 4" by (simp add: wl_default_config_def)
  moreover have "pace_workers 3 = 3" "pace_workers 4 = 4" by code_simp+
  ultimately show ?thesis
    using double_of_exact [of 3] double_of_exact [of 4]
    by (auto simp: wl_plan_def Let_def dispatch_gap_us_def split: option.splits)
qed

lemma warm_up_returns:
  "\<forall>now\<in>set nows. 0 < now \<Longrightarrow> WL_TASKS \<le> length recs \<Longrightarrow>
     \<exists>exs recs'. map fst exs = nows \<and> warm_up wl_default_config online exs recs = Some recs' \<and> WL_TASKS \<le> length recs'"
proof (induction nows arbitrary: recs)
  case (Cons now nows)
  then obtain sched r where r: "wl_run wl_default_config online (now, sched) recs = Some r"
    using default_plans wl_run_returns by (metis list.set_intros(1))
  then have "WL_TASKS \<le> length (records r)" using wl_run_ok [OF r] Cons.prems by (simp add: run_ok_def)
  then obtain exs recs' where "map fst exs = nows" "warm_up wl_default_config online exs (records r) = Some recs'"
    "WL_TASKS \<le> length recs'" using Cons by fastforce
  then show ?case using r by (intro exI [of _ "(now, sched) # exs"] exI [of _ recs']) simp
qed simp

lemma audit_loop_returns:
  "\<forall>now\<in>set nows. 0 < now \<Longrightarrow> WL_TASKS \<le> length recs \<Longrightarrow>
     \<exists>exs out. map fst exs = nows \<and> audit_loop wl_default_config online i exs recs = Some out"
proof (induction nows arbitrary: recs i)
  case (Cons now nows)
  then obtain sched r where r: "wl_run wl_default_config online (now, sched) recs = Some r"
    using default_plans wl_run_returns by (metis list.set_intros(1))
  then have ok: "run_ok wl_default_config online r" using wl_run_ok [OF r] Cons.prems by simp
  then have "WL_TASKS \<le> length (records r)" by (simp add: run_ok_def)
  then obtain exs out where "map fst exs = nows" "audit_loop wl_default_config online (i + 1) exs (records r) = Some out"
    using Cons by fastforce
  moreover obtain s where "summarize_run r = Some s" using run_summarized [OF ok] by blast
  ultimately show ?case using r by (intro exI [of _ "(now, sched) # exs"]) simp
qed simp

lemma audit_returns:
  assumes "audit_runs args = Some n" and "20 \<le> n" and "n \<le> 1000" and "length nows = 3 + nat n" and "\<forall>now\<in>set nows. 0 < now"
  shows "\<exists>exs out. map fst exs = nows \<and> audit_main args True online exs = Some (0, out)"
proof -
  have w: "cfg_warmup_runs wl_default_config = 3" by (simp add: wl_default_config_def)
  have "\<forall>now\<in>set (take 3 nows). 0 < now" "\<forall>now\<in>set (drop 3 nows). 0 < now"
    using assms(5) by (meson in_set_takeD in_set_dropD)+
  then obtain exs1 recs exs2 out where e: "map fst exs1 = take 3 nows"
    "warm_up wl_default_config online exs1 (replicate WL_TASKS zero_record) = Some recs" "map fst exs2 = drop 3 nows"
    "audit_loop wl_default_config online 0 exs2 recs = Some out"
    using warm_up_returns [of "take 3 nows" "replicate WL_TASKS zero_record"] audit_loop_returns by (metis length_replicate order_refl)
  have l: "length exs1 = 3" "length exs2 = nat n"
    using e(1,3) assms(4) by (metis length_map length_take min.absorb2 le_add1, metis length_map length_drop diff_add_inverse)
  have "map fst (exs1 @ exs2) = nows" using e(1,3) by simp
  moreover have "audit_main args True online (exs1 @ exs2) = Some (0, out)"
    using assms(1-3) e l w by (simp add: audit_main_def)
  ultimately show ?thesis by blast
qed

lemma starts_at_1: "map fst exs = replicate n (1 :: ulong) \<Longrightarrow> \<forall>ex\<in>set exs. 0 < fst ex"
proof
  fix ex assume "map fst exs = replicate n (1 :: ulong)" and "ex \<in> set exs"
  then have "fst ex \<in> set (replicate n (1 :: ulong))" by (metis image_eqI list.set_map)
  then show "0 < fst ex" by (simp split: if_splits)
qed

section \<open>Property\<close>

text \<open>
  C25: the audit program end to end: it refuses what is not a number from 20 to 1000 with status 1 and no output; otherwise, once all
  runs of the workload have returned, it exits with 0 and has printed exactly one row per run, in order, and never that
  tasks were lost: each row counts 4000 tasks as queued, completed and started, 1000 and 3000 of them per shard, with
  the median latency between 0 and the maximum and at most half of the tasks bug-length. The array of records is
  used again from run to run.
\<close>

theorem audit_rows:
  assumes "audit_main args calloc_ok online exs = Some (st, out)" and "\<forall>ex\<in>set exs. 0 < fst ex"
  shows "case audit_runs args of
      None \<Rightarrow> st = 1 \<and> out = []
    | Some n \<Rightarrow> if n < 20 \<or> n > 1000 \<or> \<not> calloc_ok then st = 1 \<and> out = []
        else st = 0 \<and> length out = nat n \<and> (\<forall>k<nat n. \<exists>s late. summary_ok s \<and>
          out ! k = Row (int k) (cfg_seed wl_default_config) (wl_pool_workers wl_default_config online) WL_TASKS s late)"
proof (cases "audit_runs args")
  case None
  then show ?thesis using assms(1) by (simp add: audit_main_def)
next
  case (Some n)
  show ?thesis
  proof (cases "n < 20 \<or> n > 1000 \<or> \<not> calloc_ok")
    case True
    then show ?thesis using assms(1) Some by (auto simp: audit_main_def split: if_splits)
  next
    case False
    let ?w = "unat (cfg_warmup_runs wl_default_config)"
    obtain recs where r: "length exs = ?w + nat n" "st = 0"
      "warm_up wl_default_config online (take ?w exs) (replicate WL_TASKS zero_record) = Some recs"
      "audit_loop wl_default_config online 0 (drop ?w exs) recs = Some out"
      using assms(1) Some False by (auto simp: audit_main_def Let_def split: if_splits Option.bind_splits)
    have pos: "\<forall>ex\<in>set (take ?w exs). 0 < fst ex" "\<forall>ex\<in>set (drop ?w exs). 0 < fst ex"
      using assms(2) by (meson in_set_takeD in_set_dropD)+
    have "WL_TASKS \<le> length recs" by (rule warm_up_length [OF r(3) pos(1)]) simp
    from audit_loop_rows [OF r(4) pos(2) this] show ?thesis using r(1,2) Some False by simp
  qed
qed

theorem audit_rows_witness:
  "\<exists>exs out. audit_main [''20''] True 5 exs = Some (0, out) \<and> length out = 20 \<and> length exs = 23"
proof -
  have n: "audit_runs [''20''] = Some 20" by code_simp
  obtain exs out where e: "map fst exs = replicate 23 1" "audit_main [''20''] True 5 exs = Some (0, out)"
    using audit_returns [OF n, of "replicate 23 1" 5] by auto
  have "length exs = 23" using e(1) by (metis length_map length_replicate)
  moreover have "\<forall>ex\<in>set exs. 0 < fst ex" by (rule starts_at_1 [OF e(1)])
  from audit_rows [OF e(2) this] have "length out = 20" using n by simp
  ultimately show ?thesis using e(2) by blast
qed

end
