(* ===== verification/Windows.thy ===== *)
theory Windows
  imports Audit_Run
begin

text \<open>
  The program \<open>week5/tools/windows.c\<close>: the same runs as the audit, each scanned with a range of windows. What its table
  promises its reader: a wider window never shows more episodes, nor a larger fraction.
\<close>

section \<open>The program\<close>

definition MULTIPLES :: "double list" where
  "MULTIPLES = [1, 3, 10, 30, 100, 300, 1000]"

definition windows_runs :: "string list \<Rightarrow> int option" where
  "windows_runs args = (case args of [] \<Rightarrow> Some 5
     | a # _ \<Rightarrow> (case whole_number a of None \<Rightarrow> None | Some n \<Rightarrow> if n < 1 \<or> n > 100 then None else Some n))"

text \<open>
  The scans of one run: episodes and fraction per window. The inner \<open>None\<close> is the early exit that takes the scan for the
  stub, the outer one undefined behaviour.
\<close>

fun windows_cells :: "wl_result \<Rightarrow> double \<Rightarrow> double list \<Rightarrow> (double \<times> double) list option option" where
  "windows_cells run med [] = Some (Some [])"
| "windows_cells run med (k # ks) = do {
     inv \<leftarrow> invariant_scan run (workers run) (dmul k med);
     if violation_us inv < 0 then Some None
     else do {
       rest \<leftarrow> windows_cells run med ks;
       Some (map_option (\<lambda>cs. (double_of (unat (episodes inv)),
         if span_us inv > 0 then ddiv (violation_us inv) (span_us inv) else 0) # cs) rest)
     }
   }"

definition windows_run :: "wl_result \<Rightarrow> (double \<times> (double \<times> double) list) option option" where
  "windows_run run = do {
     rs \<leftarrow> run_records run;
     med \<leftarrow> median_of (map latency_us (filter (\<lambda>r. start_ns r \<noteq> 0) rs));
     cells \<leftarrow> windows_cells run med MULTIPLES;
     Some (map_option (\<lambda>cs. (med, cs)) cells)
   }"

fun windows_loop :: "wl_config \<Rightarrow> clong \<Rightarrow> (ulong \<times> pact list) list \<Rightarrow> wl_record list \<Rightarrow>
    (double \<times> (double \<times> double) list) list option option" where
  "windows_loop cfg online [] recs = Some (Some [])"
| "windows_loop cfg online (ex # exs) recs = do {
     run \<leftarrow> wl_run cfg online ex recs;
     row \<leftarrow> windows_run run;
     (case row of None \<Rightarrow> Some None
      | Some r \<Rightarrow> do {
          rest \<leftarrow> windows_loop cfg online exs (records run);
          Some (map_option (\<lambda>rs. r # rs) rest)
        })
   }"

text \<open>A line of the table.\<close>

record window_row =
  multiple :: double
  line_window_us :: double
  med_episodes :: double
  half_spread_episodes :: double
  med_fraction :: double
  half_spread_fraction :: double

definition window_line :: "(double \<times> (double \<times> double) list) list \<Rightarrow> nat \<Rightarrow> window_row option" where
  "window_line rows m = do {
     me \<leftarrow> median_of (map (\<lambda>r. fst (snd r ! m)) rows);
     se \<leftarrow> spread_of (map (\<lambda>r. fst (snd r ! m)) rows);
     mf \<leftarrow> median_of (map (\<lambda>r. snd (snd r ! m)) rows);
     sf \<leftarrow> spread_of (map (\<lambda>r. snd (snd r ! m)) rows);
     Some \<lparr>multiple = MULTIPLES ! m, line_window_us = dmul (MULTIPLES ! m) (fst (rows ! 0)),
       med_episodes = me, half_spread_episodes = ddiv se 2, med_fraction = mf, half_spread_fraction = ddiv sf 2\<rparr>
   }"

definition windows_main :: "string list \<Rightarrow> bool \<Rightarrow> clong \<Rightarrow> (ulong \<times> pact list) list \<Rightarrow> (int \<times> window_row list) option" where
  "windows_main args calloc_ok online exs =
     (case windows_runs args of None \<Rightarrow> Some (1, [])
      | Some n \<Rightarrow>
          if \<not> calloc_ok then Some (1, [])
          else (let cfg = wl_default_config; w = unat (cfg_warmup_runs cfg) in
            if length exs \<noteq> w + nat n then None
            else do {
              recs \<leftarrow> warm_up cfg online (take w exs) (replicate WL_TASKS zero_record);
              rows \<leftarrow> windows_loop cfg online (drop w exs) recs;
              (case rows of None \<Rightarrow> Some (1, [])
               | Some rs \<Rightarrow> do {
                   table \<leftarrow> those (map (window_line rs) [0..<length MULTIPLES]);
                   Some (0, table)
                 })
            }))"

section \<open>A wider window finds less\<close>

lemma duration_double [simp]: "is_double (duration_us a b)" and duration_nonneg [simp]: "0 \<le> duration_us a b"
  by (simp_all add: duration_us_def ddiv_nonneg double_of_nonneg)

lemma dadd_ge: "is_double x \<Longrightarrow> 0 \<le> y \<Longrightarrow> x \<le> dadd x y"
  unfolding dadd_def by (rule binary64.rd_ge) simp_all

lemma is_double_total: "is_double acc \<Longrightarrow> is_double (total_us eps acc)"
  by (induction eps arbitrary: acc) (auto simp: total_us_def)

lemma total_ge: "is_double acc \<Longrightarrow> acc \<le> total_us eps acc"
proof (induction eps arbitrary: acc)
  case (Cons e eps)
  have "acc \<le> dadd acc (case e of (a, b) \<Rightarrow> duration_us a b)" using Cons.prems by (intro dadd_ge) (auto split: prod.splits)
  also have "\<dots> \<le> total_us eps (dadd acc (case e of (a, b) \<Rightarrow> duration_us a b))" by (rule Cons.IH) simp
  finally show ?case by (simp add: total_us_def)
qed (simp add: total_us_def)

lemma total_long_mono:
  assumes "m \<le> m'"
  shows "is_double acc' \<Longrightarrow> acc \<le> acc' \<Longrightarrow> total_us (long_episodes m' eps) acc \<le> total_us (long_episodes m eps) acc'"
proof (induction eps arbitrary: acc acc')
  case (Cons e eps)
  obtain a b where e: "e = (a, b)" by (cases e)
  have "dadd acc (duration_us a b) \<le> dadd acc' (duration_us a b)" using Cons.prems(2) by (intro dadd_mono) simp_all
  moreover have "acc \<le> dadd acc' (duration_us a b)" using dadd_ge [OF Cons.prems(1), of "duration_us a b"] Cons.prems(2) by simp
  ultimately show ?case
    using Cons.IH [of "dadd acc' (duration_us a b)"] Cons.IH [OF Cons.prems] assms e
    by (auto simp: long_episodes_def total_us_def)
qed (simp add: long_episodes_def total_us_def)

lemma long_episodes_mono: "m \<le> m' \<Longrightarrow> length (long_episodes m' eps) \<le> length (long_episodes m eps)"
  by (induction eps) (auto simp: long_episodes_def)

text \<open>There are fewer episodes than events, and the counter does not wrap for fewer than a thousand million records.\<close>

lemma length_record_events: "length (record_events rs) \<le> 3 * length rs"
  by (induction rs) auto

lemma run_episodes_length: "length (run_episodes rs n) \<le> 3 * length rs"
proof -
  have lt: "a < b" if "(a, b) \<in> set (run_episodes rs n)" for a b using run_episodes_sorted(2) [OF that] by simp
  have "sorted_wrt (\<lambda>x y. fst x < fst y) (run_episodes rs n)"
    using lt by (rule_tac sorted_wrt_mono_rel [OF _ run_episodes_sorted(1)]) fastforce
  then have "sorted_wrt (<) (map fst (run_episodes rs n))" by (simp add: sorted_wrt_map)
  then have "distinct (map fst (run_episodes rs n))" by (simp add: strict_sorted_iff)
  then have "length (run_episodes rs n) = card (fst ` set (run_episodes rs n))"
    by (metis distinct_card length_map list.set_map)
  also have "\<dots> \<le> card (time_ns ` set (record_events rs))"
    using run_episodes_sorted(2) by (intro card_mono) fastforce+
  also have "\<dots> \<le> length (record_events rs)" by (metis card_image_le List.finite_set card_length order_trans)
  finally show ?thesis using length_record_events [of rs] by simp
qed

lemma scan_mono:
  assumes rs: "run_records run = Some rs" "3 * length rs < 2 ^ 32" and m: "m \<le> m'"
    and i: "invariant_scan run n m = Some i" "invariant_scan run n m' = Some i'"
  shows "unat (episodes i') \<le> unat (episodes i) \<and> violation_us i' \<le> violation_us i \<and> 0 \<le> violation_us i' \<and> span_us i' = span_us i"
proof -
  let ?E = "run_episodes rs n"
  have "length (long_episodes x ?E) \<le> length ?E" for x by (simp add: long_episodes_def)
  then have "length (long_episodes x ?E) < 2 ^ 32" for x
    using run_episodes_length [of rs n] rs(2) by (meson le_less_trans)
  then have "unat (of_nat (length (long_episodes x ?E)) :: uint) = length (long_episodes x ?E)" for x
    by (simp add: unat_of_nat take_bit_nat_eq_self)
  then show ?thesis
    using i long_episodes_mono [OF m, of ?E] total_long_mono [OF m, of 0 0 ?E] total_ge [of 0 "long_episodes m' ?E"]
    unfolding invariant_scan_def scan_with_eq [OF esort.sorter_axioms rs(1)] by auto
qed

section \<open>The median of smaller values is smaller\<close>

lemma filter_le_mono:
  "list_all2 (\<le>) xs ys \<Longrightarrow> length (filter (\<lambda>y. y \<le> (v :: 'a::order)) ys) \<le> length (filter (\<lambda>x. x \<le> v) xs)"
  by (induction rule: list_all2_induct) auto

lemma sort_pointwise:
  fixes xs ys :: "double list"
  assumes le: "list_all2 (\<le>) xs ys" and k: "k < length xs"
  shows "qsort compare_double xs ! k \<le> qsort compare_double ys ! k"
proof -
  let ?X = "qsort compare_double xs" and ?Y = "qsort compare_double ys"
  have s: "sorted ?X" "sorted ?Y" "length ?X = length xs" "length ?Y = length xs"
    using list_all2_lengthD [OF le] by (simp_all add: compare_double_eq sorted_qsort_double)
  have "Suc k \<le> length (filter (\<lambda>y. y \<le> ?Y ! k) ?Y)" using sorted_count_le [OF s(2), of k "?Y ! k"] k s(4) by simp
  also have "\<dots> = length (filter (\<lambda>y. y \<le> ?Y ! k) ys)" by (rule length_filter_qsort)
  also have "\<dots> \<le> length (filter (\<lambda>x. x \<le> ?Y ! k) xs)"
    by (rule filter_le_mono [OF le])
  also have "\<dots> = length (filter (\<lambda>x. x \<le> ?Y ! k) ?X)" by (rule length_filter_qsort [symmetric])
  finally have c: "Suc k \<le> length (filter (\<lambda>x. x \<le> ?Y ! k) ?X)" .
  show ?thesis
  proof (rule ccontr)
    assume "\<not> ?X ! k \<le> ?Y ! k"
    then have "?Y ! k < ?X ! j" if "k \<le> j" "j < length xs" for j
      using sorted_nth_mono [OF s(1) that(1)] that(2) s(3) by simp
    then have "{j. j < length ?X \<and> ?X ! j \<le> ?Y ! k} \<subseteq> {..<k}" using s(3) by (auto simp: not_less [symmetric])
    then have "length (filter (\<lambda>x. x \<le> ?Y ! k) ?X) \<le> k"
      unfolding length_filter_conv_card using card_mono [of "{..<k}"] by fastforce
    then show False using c by simp
  qed
qed

lemma median_mono:
  assumes "list_all2 (\<le>) xs ys" and "median_of xs = Some a" and "median_of ys = Some b"
  shows "a \<le> b"
proof -
  let ?X = "qsort compare_double xs" and ?Y = "qsort compare_double ys" and ?n = "length xs"
  have n: "length ys = ?n" using list_all2_lengthD [OF assms(1)] by simp
  have l: "length ?X = ?n" "length ?Y = ?n" using n by (simp_all add: compare_double_eq)
  then have "0 < ?n" using assms(2) by (auto simp: median_of_def middle_def)
  then have "?X ! (?n div 2) \<le> ?Y ! (?n div 2)" "?X ! (?n div 2 - 1) \<le> ?Y ! (?n div 2 - 1)"
    by (intro sort_pointwise [OF assms(1)]; linarith)+
  then show ?thesis using assms(2,3) l
    by (auto simp: median_of_def middle_def Let_def intro: ddiv_mono dadd_mono split: if_splits)
qed

section \<open>The table\<close>

text \<open>What a run contributes: one cell per window, not increasing.\<close>

definition cells_ok :: "(double \<times> double) list \<Rightarrow> bool" where
  "cells_ok cs \<longleftrightarrow> length cs = length MULTIPLES \<and>
     (\<forall>i j. i \<le> j \<longrightarrow> j < length MULTIPLES \<longrightarrow> fst (cs ! j) \<le> fst (cs ! i) \<and> snd (cs ! j) \<le> snd (cs ! i)) \<and>
     (\<forall>c\<in>set cs. is_double (fst c) \<and> is_double (snd c) \<and> 0 \<le> fst c \<and> 0 \<le> snd c)"

text \<open>The cell of one window.\<close>

definition cell :: "wl_result \<Rightarrow> double \<Rightarrow> double \<Rightarrow> double \<times> double" where
  "cell run med k = (let inv = the (invariant_scan run (workers run) (dmul k med)) in
     (double_of (unat (episodes inv)), if span_us inv > 0 then ddiv (violation_us inv) (span_us inv) else 0))"

lemma scan_nonneg:
  assumes "run_records run = Some rs" and "invariant_scan run n m = Some i"
  shows "0 \<le> violation_us i \<and> is_double (span_us i)"
  using assms total_ge [of 0 "long_episodes m (run_episodes rs n)"]
  unfolding invariant_scan_def scan_with_eq [OF esort.sorter_axioms assms(1)] by auto

lemma windows_cells_eq:
  assumes "run_records run = Some rs"
  shows "windows_cells run med ks = Some (Some (map (cell run med) ks))"
proof (induction ks)
  case (Cons k ks)
  obtain i where i: "invariant_scan run (workers run) (dmul k med) = Some i" using invariant_scan_Some [OF assms] by blast
  then show ?case using Cons scan_nonneg [OF assms i] by (simp add: cell_def Let_def)
qed simp

lemma cell_mono:
  assumes rs: "run_records run = Some rs" "3 * length rs < 2 ^ 32" and "0 \<le> med" and "k \<le> k'"
  shows "fst (cell run med k') \<le> fst (cell run med k) \<and> snd (cell run med k') \<le> snd (cell run med k)"
proof -
  have m: "dmul k med \<le> dmul k' med" using assms(3,4) by (simp add: dmul_def rnd_mono mult_right_mono)
  obtain i i' where i: "invariant_scan run (workers run) (dmul k med) = Some i" "invariant_scan run (workers run) (dmul k' med) = Some i'"
    using invariant_scan_Some [OF rs(1)] by metis
  then show ?thesis using scan_mono [OF rs m i] by (auto simp: cell_def Let_def intro: double_of_mono ddiv_mono)
qed

lemma cells_ok_cells:
  assumes rs: "run_records run = Some rs" "3 * length rs < 2 ^ 32" and "0 \<le> med"
  shows "cells_ok (map (cell run med) MULTIPLES)"
proof -
  have "sorted MULTIPLES" by (simp add: MULTIPLES_def)
  then have "fst (cell run med (MULTIPLES ! j)) \<le> fst (cell run med (MULTIPLES ! i)) \<and>
      snd (cell run med (MULTIPLES ! j)) \<le> snd (cell run med (MULTIPLES ! i))" if "i \<le> j" "j < length MULTIPLES" for i j
    using that by (intro cell_mono [OF rs assms(3)] sorted_nth_mono)
  moreover have "is_double (fst (cell run med k)) \<and> is_double (snd (cell run med k)) \<and> 0 \<le> fst (cell run med k) \<and> 0 \<le> snd (cell run med k)" for k
  proof -
    obtain i where i: "invariant_scan run (workers run) (dmul k med) = Some i" using invariant_scan_Some [OF rs(1)] by blast
    then show ?thesis using scan_nonneg [OF rs(1) i] by (simp add: cell_def Let_def double_of_nonneg ddiv_nonneg)
  qed
  ultimately show ?thesis by (simp add: cells_ok_def)
qed

lemma windows_run_ok:
  assumes "run_ok cfg online r"
  shows "\<exists>med cs. windows_run r = Some (Some (med, cs)) \<and> cells_ok cs \<and> 0 \<le> med"
proof -
  note rr = run_ok_records [OF assms]
  let ?lat = "map latency_us (take WL_TASKS (records r))"
  have "?lat \<noteq> []" using rr(3) by auto
  then obtain med where med: "median_of ?lat = Some med" using median_of_Some by blast
  then have "0 \<le> med" using median_nonneg [OF _ med] by auto
  moreover from this have "cells_ok (map (cell r med) MULTIPLES)" using rr(3) by (intro cells_ok_cells [OF rr(1)]) simp_all
  moreover have "filter (\<lambda>rec. start_ns rec \<noteq> 0) (take WL_TASKS (records r)) = take WL_TASKS (records r)"
    using rr(2) by (simp add: started_records_def)
  ultimately show ?thesis using med by (simp add: windows_run_def rr(1) windows_cells_eq [OF rr(1)])
qed

definition row_ok :: "double \<times> (double \<times> double) list \<Rightarrow> bool" where
  "row_ok r \<longleftrightarrow> 0 \<le> fst r \<and> cells_ok (snd r)"

lemma windows_loop_ok:
  "windows_loop cfg online exs recs = Some out \<Longrightarrow> \<forall>ex\<in>set exs. 0 < fst ex \<Longrightarrow> WL_TASKS \<le> length recs \<Longrightarrow>
     \<exists>rows. out = Some rows \<and> length rows = length exs \<and> (\<forall>r\<in>set rows. row_ok r)"
proof (induction cfg online exs recs arbitrary: out rule: windows_loop.induct)
  case (2 cfg online ex exs recs)
  then obtain r where r: "wl_run cfg online ex recs = Some r" by (auto split: Option.bind_splits)
  have ok: "run_ok cfg online r" using wl_run_ok [OF r] 2(3,4) by simp
  obtain med cs where w: "windows_run r = Some (Some (med, cs))" "row_ok (med, cs)"
    using windows_run_ok [OF ok] by (auto simp: row_ok_def)
  obtain rest where rest: "windows_loop cfg online exs (records r) = Some rest" "out = map_option (\<lambda>rs. (med, cs) # rs) rest"
    using 2(2) r w(1) by (auto split: Option.bind_splits)
  have "WL_TASKS \<le> length (records r)" using ok by (simp add: run_ok_def)
  then obtain rows where "rest = Some rows" "length rows = length exs" "\<forall>r\<in>set rows. row_ok r"
    using 2(1) [OF r w(1) refl rest(1)] 2(3) by auto
  then show ?case using rest(2) w(2) by simp
qed simp

lemma line_of_rows:
  assumes rows: "rows \<noteq> []" "\<forall>r\<in>set rows. row_ok r" and m: "m < length MULTIPLES"
  shows "\<exists>l. window_line rows m = Some l \<and> multiple l = MULTIPLES ! m \<and> line_window_us l = dmul (MULTIPLES ! m) (fst (rows ! 0)) \<and>
    median_of (map (\<lambda>r. fst (snd r ! m)) rows) = Some (med_episodes l) \<and>
    median_of (map (\<lambda>r. snd (snd r ! m)) rows) = Some (med_fraction l) \<and>
    0 \<le> med_episodes l \<and> 0 \<le> med_fraction l \<and> 0 \<le> half_spread_episodes l \<and> 0 \<le> half_spread_fraction l"
proof -
  let ?E = "map (\<lambda>r. fst (snd r ! m)) rows" and ?F = "map (\<lambda>r. snd (snd r ! m)) rows"
  have mem: "snd r ! m \<in> set (snd r)" if "r \<in> set rows" for r using rows(2) that m by (simp add: row_ok_def cells_ok_def)
  then have c: "\<forall>x\<in>set ?E. is_double x \<and> 0 \<le> x" "\<forall>x\<in>set ?F. is_double x \<and> 0 \<le> x"
    using rows(2) unfolding row_ok_def cells_ok_def by auto
  have ne: "?E \<noteq> []" "?F \<noteq> []" using rows(1) by simp_all
  obtain me mf where med: "median_of ?E = Some me" "median_of ?F = Some mf" using median_of_Some [OF ne(1)] median_of_Some [OF ne(2)] by blast
  have sp: "0 \<le> dsub (Max (set v)) (Min (set v))" if "v \<noteq> []" for v :: "double list"
    using that by (intro dsub_self_nonneg) (simp add: Min_le_iff)
  show ?thesis
    using med median_nonneg [OF c(1) med(1)] median_nonneg [OF c(2) med(2)] sp [OF ne(1)] sp [OF ne(2)]
    by (simp add: window_line_def spread_of_eq [OF ne(1)] spread_of_eq [OF ne(2)] ddiv_nonneg)
qed

lemma those_Some: "those (map f xs) = Some ys \<Longrightarrow> length ys = length xs \<and> (\<forall>i<length xs. f (xs ! i) = Some (ys ! i))"
proof (induction xs arbitrary: ys)
  case (Cons x xs)
  then show ?case by (auto simp: less_Suc_eq_0_disj split: option.splits)
qed simp

lemma column_mono:
  assumes "\<forall>r\<in>set rows. row_ok r" and "i \<le> j" and "j < length MULTIPLES"
  shows "list_all2 (\<le>) (map (\<lambda>r. fst (snd r ! j)) rows) (map (\<lambda>r. fst (snd r ! i)) rows)"
    and "list_all2 (\<le>) (map (\<lambda>r. snd (snd r ! j)) rows) (map (\<lambda>r. snd (snd r ! i)) rows)"
  using assms by (auto simp: list_all2_conv_all_nth row_ok_def cells_ok_def)

text \<open>Executions exist, as for the audit.\<close>

lemma those_ex: "\<forall>x\<in>set xs. f x \<noteq> None \<Longrightarrow> \<exists>ys. those (map f xs) = Some ys"
  by (induction xs) auto

lemma windows_loop_returns:
  "\<forall>now\<in>set nows. 0 < now \<Longrightarrow> WL_TASKS \<le> length recs \<Longrightarrow>
     \<exists>exs out. map fst exs = nows \<and> windows_loop wl_default_config online exs recs = Some out"
proof (induction nows arbitrary: recs)
  case (Cons now nows)
  then obtain sched r where r: "wl_run wl_default_config online (now, sched) recs = Some r"
    using default_plans wl_run_returns by (metis list.set_intros(1))
  then have ok: "run_ok wl_default_config online r" using wl_run_ok [OF r] Cons.prems by simp
  then have "WL_TASKS \<le> length (records r)" by (simp add: run_ok_def)
  then obtain exs out where "map fst exs = nows" "windows_loop wl_default_config online exs (records r) = Some out"
    using Cons by fastforce
  moreover obtain med cs where "windows_run r = Some (Some (med, cs))" using windows_run_ok [OF ok] by blast
  ultimately show ?case using r by (intro exI [of _ "(now, sched) # exs"]) simp
qed simp

lemma windows_returns:
  assumes "windows_runs args = Some n" and "length nows = 3 + nat n" and pos: "\<forall>now\<in>set nows. 0 < now"
  shows "\<exists>exs table. map fst exs = nows \<and> windows_main args True online exs = Some (0, table)"
proof -
  have w: "cfg_warmup_runs wl_default_config = 3" by (simp add: wl_default_config_def)
  have n: "1 \<le> n" using assms(1) by (auto simp: windows_runs_def split: list.splits option.splits if_splits)
  have p: "\<forall>now\<in>set (take 3 nows). 0 < now" "\<forall>now\<in>set (drop 3 nows). 0 < now"
    using pos by (meson in_set_takeD in_set_dropD)+
  obtain exs1 recs where e1: "map fst exs1 = take 3 nows" "WL_TASKS \<le> length recs"
    "warm_up wl_default_config online exs1 (replicate WL_TASKS zero_record) = Some recs"
    using warm_up_returns [OF p(1), of "replicate WL_TASKS zero_record" online] by auto
  obtain exs2 out where e2: "map fst exs2 = drop 3 nows" "windows_loop wl_default_config online exs2 recs = Some out"
    using windows_loop_returns [OF p(2) e1(2)] by blast
  have "\<forall>ex\<in>set exs2. 0 < fst ex" using p(2) unfolding e2(1) [symmetric] by simp
  then obtain rows where rows: "out = Some rows" "length rows = length exs2" "\<forall>r\<in>set rows. row_ok r"
    using windows_loop_ok [OF e2(2) _ e1(2)] by blast
  have l: "length exs1 = 3" "length exs2 = nat n"
    using e1(1) e2(1) assms(2) by (metis length_map length_take min.absorb2 le_add1, metis length_map length_drop diff_add_inverse)
  then have "rows \<noteq> []" using rows(2) n by auto
  then obtain table where "those (map (window_line rows) [0..<length MULTIPLES]) = Some table"
    using those_ex [of "[0..<length MULTIPLES]" "window_line rows"] line_of_rows [OF _ rows(3)] by fastforce
  then have "windows_main args True online (exs1 @ exs2) = Some (0, table)"
    using assms(1) e1 e2 l w rows(1) by (simp add: windows_main_def)
  moreover have "map fst (exs1 @ exs2) = nows" using e1(1) e2(1) by simp
  ultimately show ?thesis by blast
qed

section \<open>Property\<close>

text \<open>
  C24: the table of \<open>windows\<close>: with a number of runs from 1 to 100 the program never takes its early exit, exits with 0 and prints
  a line for each of the seven windows, and down the table, as the window widens, neither the median number of
  episodes nor the median fraction of the run they cover ever increases; no entry is negative.
\<close>

theorem windows_monotone:
  assumes "windows_main args calloc_ok online exs = Some (st, table)" and "\<forall>ex\<in>set exs. 0 < fst ex"
  shows "case windows_runs args of
      None \<Rightarrow> st = 1 \<and> table = []
    | Some n \<Rightarrow> if \<not> calloc_ok then st = 1 \<and> table = []
        else st = 0 \<and> map multiple table = MULTIPLES \<and>
          (\<forall>i j. i \<le> j \<and> j < length table \<longrightarrow> line_window_us (table ! i) \<le> line_window_us (table ! j) \<and>
             med_episodes (table ! j) \<le> med_episodes (table ! i) \<and> med_fraction (table ! j) \<le> med_fraction (table ! i)) \<and>
          (\<forall>l\<in>set table. 0 \<le> med_episodes l \<and> 0 \<le> med_fraction l \<and> 0 \<le> half_spread_episodes l \<and> 0 \<le> half_spread_fraction l)"
proof (cases "windows_runs args")
  case None
  then show ?thesis using assms(1) by (simp add: windows_main_def)
next
  case (Some n)
  then have n: "1 \<le> n" by (auto simp: windows_runs_def split: list.splits option.splits if_splits)
  show ?thesis
  proof (cases calloc_ok)
    case False
    then show ?thesis using assms(1) Some by (simp add: windows_main_def)
  next
    case True
    let ?w = "unat (cfg_warmup_runs wl_default_config)"
    obtain recs out where r: "length exs = ?w + nat n"
      "warm_up wl_default_config online (take ?w exs) (replicate WL_TASKS zero_record) = Some recs"
      "windows_loop wl_default_config online (drop ?w exs) recs = Some out"
      using assms(1) Some True by (auto simp: windows_main_def Let_def split: if_splits Option.bind_splits)
    have pos: "\<forall>ex\<in>set (take ?w exs). 0 < fst ex" "\<forall>ex\<in>set (drop ?w exs). 0 < fst ex"
      using assms(2) by (meson in_set_takeD in_set_dropD)+
    have "WL_TASKS \<le> length recs" by (rule warm_up_length [OF r(2) pos(1)]) simp
    then obtain rows where rows: "out = Some rows" "length rows = nat n" "\<forall>r\<in>set rows. row_ok r"
      using windows_loop_ok [OF r(3) pos(2)] r(1) by auto
    have ne: "rows \<noteq> []" using rows(2) n by auto
    have st: "st = 0" "those (map (window_line rows) [0..<length MULTIPLES]) = Some table"
      using assms(1) Some True r rows(1) by (auto simp: windows_main_def Let_def split: Option.bind_splits)
    then have at: "window_line rows i = Some (table ! i)" if "i < length MULTIPLES" for i
      using those_Some [OF st(2)] that by auto
    have lt: "length table = length MULTIPLES" using those_Some [OF st(2)] by simp
    note line = line_of_rows [OF ne rows(3)]
    have "map multiple table = MULTIPLES" using lt line at by (intro nth_equalityI) force+
    moreover have "line_window_us (table ! i) \<le> line_window_us (table ! j) \<and>
        med_episodes (table ! j) \<le> med_episodes (table ! i) \<and> med_fraction (table ! j) \<le> med_fraction (table ! i)"
      if ij: "i \<le> j" "j < length table" for i j
    proof -
      have j: "j < length MULTIPLES" "i < length MULTIPLES" using ij lt by simp_all
      have "sorted MULTIPLES" by (simp add: MULTIPLES_def)
      then have "MULTIPLES ! i \<le> MULTIPLES ! j" using ij(1) j(1) by (rule sorted_nth_mono)
      moreover have "0 \<le> fst (rows ! 0)" using rows(3) ne by (simp add: row_ok_def)
      ultimately have "dmul (MULTIPLES ! i) (fst (rows ! 0)) \<le> dmul (MULTIPLES ! j) (fst (rows ! 0))"
        by (simp add: dmul_def rnd_mono mult_right_mono)
      then show ?thesis
        using line [OF j(1)] line [OF j(2)] at [OF j(1)] at [OF j(2)] median_mono column_mono [OF rows(3) ij(1) j(1)] by fastforce
    qed
    moreover have "0 \<le> med_episodes l \<and> 0 \<le> med_fraction l \<and> 0 \<le> half_spread_episodes l \<and> 0 \<le> half_spread_fraction l"
      if "l \<in> set table" for l
      using that lt line at by (fastforce simp: in_set_conv_nth)
    ultimately show ?thesis using Some True st(1) by simp
  qed
qed

theorem windows_monotone_witness:
  "\<exists>exs table. windows_main [''2''] True 5 exs = Some (0, table) \<and> length exs = 5 \<and> map multiple table = MULTIPLES"
proof -
  have n: "windows_runs [''2''] = Some 2" by code_simp
  obtain exs table where e: "map fst exs = replicate 5 1" "windows_main [''2''] True 5 exs = Some (0, table)"
    using windows_returns [OF n, of "replicate 5 1" 5] by auto
  have "length exs = 5" using e(1) by (metis length_map length_replicate)
  moreover have "\<forall>ex\<in>set exs. 0 < fst ex" by (rule starts_at_1 [OF e(1)])
  from windows_monotone [OF e(2) this] have "map multiple table = MULTIPLES" using n by simp
  ultimately show ?thesis using e(2) by blast
qed

end
