(* ===== verification/Wl_Clock.thy ===== *)
theory Wl_Clock
  imports Prelude "HOL-Library.Monad_Syntax"
begin

text \<open>
  The clock and the sleep of \<open>week5/src/workload.c\<close>: \<open>wl_now_ns\<close> and \<open>sleep_ns\<close>, whose loop calls \<open>nanosleep\<close> again with the
  remaining time when a signal interrupts it. The answers of the two system calls are parameters.
\<close>

section \<open>Definitions\<close>

text \<open>\<open>None\<close> when \<open>clock_gettime\<close> fails, on which the program exits.\<close>

definition wl_now_ns :: "timespec option \<Rightarrow> ulong option" where
  "wl_now_ns answer = map_option (\<lambda>(tv_sec, tv_nsec). of_nat tv_sec * 1000000000 + of_nat tv_nsec) answer"

text \<open>What \<open>nanosleep\<close> answers: 0, or -1 with \<open>EINTR\<close> and the time that is left, or another error.\<close>

datatype nanosleep = Slept | Interrupted timespec | Failed

fun ns_of :: "timespec \<Rightarrow> nat" where
  "ns_of (tv_sec, tv_nsec) = tv_sec * 1000000000 + tv_nsec"

text \<open>The loop; the result is the time slept, \<open>None\<close> when the answers do not bring it to an end.\<close>

fun sleep_loop :: "timespec \<Rightarrow> nanosleep list \<Rightarrow> nat option" where
  "sleep_loop ts [] = None"
| "sleep_loop ts (Slept # answers) = Some (ns_of ts)"
| "sleep_loop ts (Interrupted left # answers) = map_option (\<lambda>k. ns_of ts - ns_of left + k) (sleep_loop left answers)"
| "sleep_loop ts (Failed # answers) = Some 0"

definition sleep_ns :: "ulong \<Rightarrow> nanosleep list \<Rightarrow> nat option" where
  "sleep_ns ns answers = sleep_loop (unat (ns div 1000000000), unat (ns mod 1000000000)) answers"

section \<open>Lemmas\<close>

text \<open>Splitting into seconds and nanoseconds loses nothing, and \<open>wl_now_ns\<close> puts them together again.\<close>

lemma ns_of_split: "ns_of (unat (ns div 1000000000), unat ((ns :: ulong) mod 1000000000)) = unat ns"
  by (simp add: unat_div unat_mod div_mult_mod_eq)

lemma wl_now_ns_split: "wl_now_ns (Some (unat (ns div 1000000000), unat (ns mod 1000000000))) = Some ns"
  by (simp add: wl_now_ns_def word_mod_div_equality)

text \<open>Until the year 2554 the reading is exact and later readings are not smaller.\<close>

lemma wl_now_ns_mono:
  assumes "s \<le> s'" and "s = s' \<Longrightarrow> n \<le> n'" and "n < 1000000000" and "n' < 1000000000" and "s' < 18446744073"
    and "wl_now_ns (Some (s, n)) = Some t" and "wl_now_ns (Some (s', n')) = Some t'"
  shows "unat t = s * 1000000000 + n \<and> t \<le> t'"
proof -
  have le: "s * 1000000000 + n \<le> s' * 1000000000 + n'" using assms(1-4) by (cases "s = s'") auto
  have "t = of_nat (s * 1000000000 + n)" "t' = of_nat (s' * 1000000000 + n')" using assms(6,7) by (simp_all add: wl_now_ns_def)
  moreover have "s * 1000000000 + n < 2 ^ 64" "s' * 1000000000 + n' < 2 ^ 64" using assms(1,3-5) by simp_all
  ultimately have "unat t = s * 1000000000 + n" "unat t' = s' * 1000000000 + n'"
    by (simp_all add: unat_of_nat del: of_nat_add of_nat_mult)
  then show ?thesis using le by (simp add: word_le_nat_alt)
qed

text \<open>Signals do not shorten the sleep: as long as every interrupted call reports the time left, the whole time is slept.\<close>

fun answers_ok :: "nat \<Rightarrow> nanosleep list \<Rightarrow> bool" where
  "answers_ok k [] = True"
| "answers_ok k (Slept # answers) = True"
| "answers_ok k (Interrupted left # answers) = (ns_of left \<le> k \<and> answers_ok (ns_of left) answers)"
| "answers_ok k (Failed # answers) = False"

lemma sleep_loop_whole: "answers_ok (ns_of ts) answers \<Longrightarrow> sleep_loop ts answers = Some k \<Longrightarrow> k = ns_of ts"
  by (induction ts answers arbitrary: k rule: sleep_loop.induct) auto

lemma sleep_ns_whole: "answers_ok (unat ns) answers \<Longrightarrow> sleep_ns ns answers = Some k \<Longrightarrow> k = unat ns"
  unfolding sleep_ns_def using sleep_loop_whole ns_of_split by metis

end
