(* ===== verification/Wl_Waits.thy ===== *)
theory Wl_Waits
  imports Wl_Clock Pool
begin

text \<open>
  The two loops of \<open>week5/src/workload.c\<close> that wait for a time, \<open>hold_for\<close> (which sleeps for half of what is left, as long as that
  is more than 0.4 ms) and \<open>serve\<close> (which computes), on the readings of the clock they get; and the calls of \<open>wl_run\<close> before its
  main loop that can fail, on which the program ends through \<open>die\<close>. \<open>Pool\<close> takes a wait to be a step that is enabled when its
  time has come: the lemmas show that this is when the loops leave.
\<close>

section \<open>Waiting\<close>

text \<open>The sleeps \<open>hold_for\<close> asks for; \<open>None\<close> when the readings do not bring it to an end.\<close>

fun hold_loop :: "ulong \<Rightarrow> ulong list \<Rightarrow> ulong list option" where
  "hold_loop e [] = None"
| "hold_loop e (now # ts) =
     (if now \<ge> e then Some []
      else map_option (\<lambda>sl. if e - now > 400000 then (e - now) div 2 # sl else sl) (hold_loop e ts))"

fun hold_for :: "ulong \<Rightarrow> ulong list \<Rightarrow> ulong list option" where
  "hold_for ns [] = None"
| "hold_for ns (now # ts) = hold_loop (now + ns) ts"

text \<open>The loop of \<open>serve\<close>, and \<open>g_sink\<close> after it.\<close>

fun serve_loop :: "ulong \<Rightarrow> ulong \<Rightarrow> ulong list \<Rightarrow> ulong option" where
  "serve_loop e acc [] = None"
| "serve_loop e acc (now # ts) = (if now < e then serve_loop e (acc * 1664525 + 1013904223) ts else Some acc)"

fun serve :: "double \<Rightarrow> ulong \<Rightarrow> ulong list \<Rightarrow> ulong option" where
  "serve us g_sink [] = None"
| "serve us g_sink (now # ts) = map_option (\<lambda>acc. g_sink + acc) (serve_loop (now + serve_ns us) 1 ts)"

section \<open>Setting up\<close>

text \<open>\<open>die\<close>: the message names the call and the error; the exit status is 1.\<close>

datatype death = Died string int

definition die_status :: "death \<Rightarrow> int" where
  "die_status d = 1"

text \<open>The calls of \<open>tq_init\<close>, then those of \<open>wl_run\<close> up to its main loop, in order.\<close>

definition ENOMEM :: int where
  "ENOMEM = 12"

definition tq_init_calls :: "string list" where
  "tq_init_calls = [''calloc (queue slots)'', ''pthread_mutex_init'', ''pthread_cond_init'', ''pthread_cond_init'']"

definition setup_calls :: "plan \<Rightarrow> string list" where
  "setup_calls su = tq_init_calls @ tq_init_calls @ [''pthread_mutex_init'', ''calloc (workers)''] @
     replicate (total_workers su) ''pthread_create''"

text \<open>
  What the calls answer: 0, or an error (an allocation that fails is \<open>ENOMEM\<close>). The first failure ends the program.
\<close>

fun run_setup :: "string list \<Rightarrow> int list \<Rightarrow> (death, unit) sum option" where
  "run_setup [] answers = Some (Inr ())"
| "run_setup (c # cs) [] = None"
| "run_setup (c # cs) (rc # answers) = (if rc \<noteq> 0 then Some (Inl (Died c rc)) else run_setup cs answers)"

section \<open>Lemmas\<close>

text \<open>A loop leaves at the first reading that has reached the end, and not before.\<close>

lemma hold_loop_returns: "hold_loop e ts \<noteq> None \<longleftrightarrow> (\<exists>now\<in>set ts. e \<le> now)"
  by (induction ts) auto

lemma serve_loop_returns: "serve_loop e acc ts \<noteq> None \<longleftrightarrow> (\<exists>now\<in>set ts. e \<le> now)"
  by (induction ts arbitrary: acc) (auto simp: not_less)

text \<open>The condition is the one under which the pool's worker goes on.\<close>

lemma hold_over_returns: "hold_loop e [p_now s] \<noteq> None \<longleftrightarrow> hold_over e s"
  by simp

lemma serve_over_returns: "serve_loop e acc [p_now s] \<noteq> None \<longleftrightarrow> serve_over e s"
  by (cases "p_now s < e") auto

text \<open>No sleep that \<open>hold_for\<close> asks for goes beyond its end.\<close>

lemma hold_loop_sleeps:
  assumes "hold_loop e ts = Some sl" and "x \<in> set sl"
  shows "\<exists>now\<in>set ts. now < e \<and> unat now + 2 * unat x \<le> unat e"
  using assms
proof (induction ts arbitrary: sl)
  case (Cons now ts)
  show ?case
  proof (cases "now < e")
    case True
    obtain rest where rest: "hold_loop e ts = Some rest" "sl = (if e - now > 400000 then (e - now) div 2 # rest else rest)"
      using Cons.prems(1) True by (auto simp: not_le split: if_splits)
    have "unat (e - now) = unat e - unat now" using True by (intro unat_sub) simp
    moreover have "unat now < unat e" using True by (simp add: word_less_nat_alt)
    ultimately have "unat now + 2 * unat ((e - now) div 2) \<le> unat e" by (simp add: unat_div)
    then show ?thesis using Cons rest True by (auto split: if_splits)
  qed (use Cons.prems in \<open>auto simp: not_less\<close>)
qed simp

text \<open>The setup succeeds exactly if every call does, and otherwise names the first call that failed.\<close>

lemma run_setup_ok: "length answers = length cs \<Longrightarrow> run_setup cs answers = Some (Inr ()) \<longleftrightarrow> (\<forall>rc\<in>set answers. rc = 0)"
  by (induction cs answers rule: run_setup.induct) auto

lemma run_setup_died:
  assumes "run_setup cs answers = Some (Inl (Died c rc))"
  shows "\<exists>k. k < length cs \<and> k < length answers \<and> cs ! k = c \<and> answers ! k = rc \<and> rc \<noteq> 0 \<and> (\<forall>j<k. answers ! j = 0)"
  using assms
proof (induction cs answers rule: run_setup.induct)
  case (3 d cs r answers)
  show ?case
  proof (cases "r = 0")
    case True
    then obtain k where "k < length cs" "k < length answers" "cs ! k = c" "answers ! k = rc" "rc \<noteq> 0" "\<forall>j<k. answers ! j = 0"
      using 3 by auto
    then show ?thesis using True by (intro exI [of _ "Suc k"]) (auto simp: less_Suc_eq_0_disj)
  next
    case False
    then show ?thesis using 3(2) by (intro exI [of _ 0]) simp
  qed
qed simp_all

end
