(* ===== verification/Spec2Isabelle.thy ===== *)
theory Spec2Isabelle
  imports Lifecycle Copyguard Procstat Nullcall QueueBench_Rows AbaStack MSQueue_Tso_Sim Handshake_Orders TableBench_Rows
    RcuTable_Tso_Thms Store_Orderings Windows Wl_Waits
begin

text \<open>
  A verification library for the systems-programming examples of this repository: C programs about the system-call boundary (week 1), a kernel
  module and the rules of copying to and from user space (week 2), a lock-free queue (week 3), user-space RCU (week 4) and the audit of a thread pool
  for a scheduling invariant (week 5). Paths below are relative to \<open>src/\<close>, shortened to the week where that is clear.

  \<^bold>\<open>Shared theories.\<close> \<open>Prelude\<close> has the integer types (\<open>byte\<close>, \<open>uint\<close>, \<open>ulong\<close> are words, so that \<open>+\<close> wraps), transition systems (\<open>reach\<close>,
  \<open>exec\<close> of a schedule), and the interfaces \<open>inductive_invariant\<close>, \<open>simulation\<close> and \<open>forward_simulation\<close> through which each concurrent component
  lifts its one-step lemmas to all executions. \<open>Double\<close> is binary64 arithmetic on rationals (rounding to 53 bits, ties to even; the interface
  \<open>rounding\<close>), \<open>Cstdlib\<close> is \<open>strtol\<close>, \<open>atol\<close> and \<open>atoi\<close>, \<open>Stats\<close> the medians and spreads of all weeks over the contract of \<open>qsort\<close> (the interface \<open>sorter\<close>).

  \<^bold>\<open>Week 1.\<close> \<open>Nullcall\<close> is \<open>nullcall.c\<close>: both timing loops, the trials, \<open>main\<close>. Lemmas: the clock in nanoseconds is exact for
  136 years, what the loops sum, when no sum overflows. Properties: the report, and where \<open>long\<close> overflows.

  \<^bold>\<open>Week 2.\<close> \<open>Lifecycle\<close> (\<open>lifecycle.c\<close>: load, unwinding, unload over an allocator that may refuse anything), \<open>Copyguard\<close> (\<open>copyguard.c\<close>: the guarded
  kernel buffer as bytes with a canary, \<open>kread\<close>, \<open>kwrite\<close>, the sweep and the four rules of \<open>main\<close>), \<open>Procstat\<close> (\<open>module/procstat.c\<close>: overlapping
  readers of the \<open>/proc\<close> file, with the increment under \<open>stat_lock\<close> as a load and a store). \<open>week2/examples/02-proc-inspector\<close> holds
  byte-identical copies of the three files, which these theories cover as well.

  \<^bold>\<open>Week 3.\<close> \<open>Fifo_Spec\<close> is what a concurrent FIFO queue promises: an abstract queue on which every operation takes effect in one step between its call
  and its return, and the interface \<open>fifo_impl\<close>. \<open>MSQueue\<close> is \<open>msqueue.c\<close>, one step per access to shared memory; \<open>MSQueue_Inv\<close>, \<open>MSQueue_Steps\<close> and
  \<open>MSQueue_Props\<close> prove the refinement, \<open>MSQueue_Progress\<close> that a thread running alone finishes (within 19 steps), \<open>MSQueue_Thms\<close> collects the
  properties, with the two executions that show what address reuse breaks. \<open>MSQueue_Tso\<close> is the queue on a machine with store buffers, where the stores of
  \<open>node_new\<close> are delayed; \<open>MSQueue_Tso_Sim\<close> simulates it by the steps of \<open>MSQueue\<close> and carries the refinement over.
  \<open>MutexQueue\<close> and \<open>MutexQueue_Thms\<close> are \<open>mutexqueue.c\<close> against the same
  specification; \<open>AbaStack\<close> is \<open>aba_stack.c\<close>. \<open>QueueBench\<close> and \<open>QueueBench_Rows\<close> are \<open>bench.c\<close>: the workers drive either queue through the interface
  \<open>bench_queue\<close>, and \<open>Fifo_Cycles\<close> shows of the specification that callers who enqueue before they dequeue never find the queue empty.

  \<^bold>\<open>Week 4.\<close> \<open>Handshake\<close> is the model checker \<open>model/handshake.c\<close>; \<open>Handshake_Explore\<close> relates its recursion (fuel 17, one more than the 16
  moves an execution can have) to the step relation it explores, \<open>Handshake_Thms\<close> and \<open>Handshake_Orders\<close> give its verdicts and all safe orderings.
  \<open>Rcu\<close>, \<open>Rcu_Inv\<close>, \<open>Rcu_Thms\<close> are \<open>rcu.c\<close>; \<open>RcuTable\<close> with \<open>RcuTable_Inv\<close>, \<open>RcuTable_Steps\<close>, \<open>RcuTable_Readers\<close>, \<open>RcuTable_Thms\<close> is the RCU half of
  \<open>table.c\<close>, built on the steps of \<open>Rcu\<close>; \<open>Rcu_Tso\<close> and \<open>RcuTable_Tso\<close> are the two on a machine
  with store buffers, compiled with the orderings of \<open>orders.h\<close>; \<open>Rcu_Tso_Sim\<close> and \<open>RcuTable_Tso_Sim\<close> show, given a sequentially consistent announcement
  and publication, that a thread's own delayed stores are the only difference, and \<open>RcuTable_Tso_Thms\<close> draws the conclusions and gives the execution that a
  weaker announcement allows. \<open>Store_Orderings\<close> is \<open>tools/orderings.c\<close>. \<open>RwTable\<close> is the rwlock half of \<open>table.c\<close>.
  \<open>TableBench\<close>, \<open>TableBench_Thms\<close>, \<open>TableBench_Runs\<close> and \<open>TableBench_Rows\<close> are \<open>bench.c\<close>, whose readers and writer drive either table through the
  interface \<open>bench_table\<close>; the reader registry and the free count pass from one run to the next, as the static variables of the code do, and
  \<open>TableBench_Runs\<close> gives complete runs.

  \<^bold>\<open>Week 5.\<close> \<open>Workload_Types\<close> and \<open>Workload\<close> are the records and the arithmetic of \<open>workload.c\<close> (sizes, pathologies, pool size, pace), \<open>TaskQ\<close> its ring
  buffer against the interface \<open>bounded_queue\<close>, \<open>Wl_Clock\<close> its clock and sleep, \<open>Wl_Waits\<close> the loops of \<open>hold_for\<close> and
  \<open>serve\<close> and the calls of \<open>wl_run\<close> on whose failure the program ends, \<open>Pool\<close> its threads with \<open>wl_run\<close> as a whole; \<open>Pool_Inv\<close>, \<open>Pool_Steps\<close>,
  \<open>Pool_Finish\<close>, \<open>Pool_Progress\<close> and \<open>Pool_Thms\<close> prove what a run does, that it cannot get stuck and that it ends. \<open>Analyze\<close> is \<open>analyze.c\<close>;
  \<open>Episodes\<close> says what a maximal violation is, \<open>Invariant_Scan\<close> that the sweep finds exactly those, \<open>Summary\<close> what \<open>summarize_run\<close> guarantees. \<open>Audit_Run\<close> and
  \<open>Windows\<close> are the programs \<open>audit.c\<close> and \<open>tools/windows.c\<close>, in which the pool and the analysis meet.
\<close>

text \<open>
  \<^bold>\<open>How the programs are modelled.\<close> Sequential code is a function of its inputs; \<open>None\<close> is undefined behaviour, or an input that is
  not an execution, as each definition says. Errors are values: exit status, \<open>-1\<close>, \<open>NULL\<close> as \<open>None\<close>. A concurrent component is a state
  record and an executable step function; a label says which thread moves and what its environment answers, and a theorem on all reachable states is one on
  all interleavings. Memory is sequentially consistent, except in \<open>Handshake\<close>, whose subject is what the orderings allow, and in the theories whose name has
  \<open>Tso\<close>: there each thread has a buffer of stores, which reach memory in order at any later time; locked instructions, the mutex functions and
  sequentially consistent stores wait for it to be empty, and the heap's own bookkeeping is not delayed. A section
  between lock and unlock that touches only what the lock protects is one step, and condition variables may wake spuriously. \<open>malloc\<close> answers anything that
  is not in use; freed memory is tracked, and whether a freed address may be handed out again is a parameter in week 3 and always
  allowed in week 4. A thread uses the reader that its own \<open>rcu_register\<close> returned. The clock of week 5 is
  positive and does not run backwards. Ghost fields (histories, publications, tickets) are marked in the records and never read by the code's steps.

  \<^bold>\<open>Bounds.\<close> The two queues' \<open>destroy\<close> loops take fuel, and enough fuel is shown to exist; an update of the RCU table that runs alone takes 144
  steps, of which 68 are \<open>synchronize_rcu\<close>; a run of the pool takes at most \<open>76004 + 5 n\<close> steps for \<open>n\<close> workers and one more per spurious wake-up. The programs
  around \<open>wl_run\<close> and the benchmarks take the executions of their threads as inputs: \<open>None\<close> when a schedule is not a complete execution, and complete
  ones are shown to exist. Doubles have no overflow, subnormals, infinities or NaN; the programs stay far from both ends.

  \<^bold>\<open>Not modelled.\<close> The text that is printed (the numbers in it are); test programs, shell scripts and makefiles; the generated \<open>procstat.mod.c\<close>; the kernel's
  and the C library's own code beyond its documented behaviour; failures of \<open>pthread_create\<close> and of the locks in weeks 3 and 4, and of \<open>pthread_join\<close>;
  what the pool's threads do while a failed call of \<open>wl_run\<close> ends the program; orders weaker than those of x86 for \<open>msqueue.c\<close>, \<open>rcu.c\<close> and \<open>table.c\<close> themselves (for the handshake at the heart of \<open>rcu.c\<close>, \<open>Handshake\<close>
  has the arm64 model of the repository).
\<close>

end
